(* ===== verification/Prelude.thy ===== *)
theory Prelude
  imports Main "HOL-Library.Word" "HOL-Library.Monad_Syntax"
begin

text \<open>
  Shared vocabulary of the development: the model's names for C types, the collections of
  simplification rules the component theories extend, and generic lemmas on lists, options
  and words that several components use.
\<close>

unbundle bit_operations_syntax

type_synonym addr = nat
type_synonym u8 = "8 word"
type_synonym u16 = "16 word"
type_synonym u32 = "32 word"
type_synonym u64 = "64 word"

text \<open>
  \<open>model_defs\<close> holds the unfolding rules of the operations of the component under proof,
  \<open>inv_intros\<close> the introduction rules of the invariants.
\<close>

named_theorems model_defs
named_theorems inv_intros

subsection \<open>Lists\<close>

lemma distinct_middle:
  "distinct (xs @ a # ys) \<longleftrightarrow> a \<notin> set xs \<and> a \<notin> set ys \<and> distinct xs \<and> distinct ys
     \<and> set xs \<inter> set ys = {}"
  by auto

lemma length_filter_le_same [simp]: "length (filter P xs) \<le> length xs"
  by simp

lemma filter_partition_length:
  "length (filter P xs) + length (filter (\<lambda>x. \<not> P x) xs) = length xs"
  by (induction xs) auto

lemma list_update_map_nth:
  "i < length xs \<Longrightarrow> map f (xs[i := v]) = (map f xs)[i := f v]"
  by (simp add: map_update)

lemma nth_list_update_cases:
  "i < length xs \<Longrightarrow> (xs[j := v]) ! i = (if i = j then v else xs ! i)"
  by simp

lemma sum_list_update_nat:
  fixes xs :: "nat list"
  assumes "i < length xs"
  shows "sum_list (xs[i := v]) + xs ! i = sum_list xs + v"
  using assms by (induction xs arbitrary: i) (auto split: nat.splits)

text \<open>How the number of elements with a property changes when one element is replaced.\<close>

lemma length_filter_update:
  "i < length ts \<Longrightarrow> length (filter P (ts[i := c])) + (if P (ts ! i) then 1 else 0)
     = length (filter P ts) + (if P c then 1 else 0)"
proof (induction ts arbitrary: i)
  case (Cons a ts)
  then show ?case by (cases i) auto
qed simp

subsection \<open>Loops over a list that may stop\<close>

fun ofold :: "('s \<Rightarrow> 'a \<Rightarrow> 's option) \<Rightarrow> 's \<Rightarrow> 'a list \<Rightarrow> 's option" where
  "ofold f s [] = Some s"
| "ofold f s (x # xs) = do { s' \<leftarrow> f s x; ofold f s' xs }"

lemma ofold_append: "ofold f s (xs @ ys) = do { s' \<leftarrow> ofold f s xs; ofold f s' ys }"
  by (induction xs arbitrary: s) (auto split: Option.bind_splits)

subsection \<open>Injective partial maps\<close>

lemma inj_on_dom_put:
  assumes "inj_on f (dom f)" and "p \<notin> ran f"
  shows "inj_on (f(n \<mapsto> p)) (dom (f(n \<mapsto> p)))"
proof (rule inj_onI)
  fix x y
  assume xy: "x \<in> dom (f(n \<mapsto> p))" "y \<in> dom (f(n \<mapsto> p))" "(f(n \<mapsto> p)) x = (f(n \<mapsto> p)) y"
  have no: "f z \<noteq> Some p" for z using assms(2) by (auto simp: ran_def)
  show "x = y"
  proof (cases "x = n \<or> y = n")
    case True
    then show ?thesis using xy(3) no [of x] no [of y] by (auto split: if_splits)
  next
    case False
    with xy have "f x = f y" "x \<in> dom f" "y \<in> dom f" by (simp_all add: dom_def)
    then show ?thesis using assms(1) by (simp add: inj_on_def)
  qed
qed

lemma inj_on_dom_del: "inj_on f (dom f) \<Longrightarrow> inj_on (f(n := None)) (dom (f(n := None)))"
  by (rule inj_onI, erule inj_onD) (auto split: if_splits)

subsection \<open>Words\<close>

lemma of_nat_Suc_word: "(of_nat n :: 'a::len word) + 1 = of_nat (Suc n)"
  by (simp add: add.commute)

lemma of_nat_pred_word: "0 < n \<Longrightarrow> (of_nat n :: 'a::len word) - 1 = of_nat (n - 1)"
  by (simp add: of_nat_diff)

lemma unat_of_nat_small32: "n < 2 ^ 32 \<Longrightarrow> unat (of_nat n :: u32) = n"
  by (simp add: unat_of_nat take_bit_nat_eq_self)

lemma unat_ucast_le: "unat (ucast (x :: 'a::len word) :: 'b::len word) \<le> unat x"
  by (simp add: unsigned_ucast_eq)

text \<open>An index computed modulo the size of a table stays an index when it is truncated to 32 bits.\<close>

lemma hash_index_less:
  assumes "0 < isz"
  shows "unat (ucast (x mod ucast isz :: u64) :: u32) < unat (isz :: u32)"
proof -
  have "unat (ucast isz :: u64) = unat isz" by transfer simp
  moreover have "0 < unat isz" using assms by (simp add: unat_gt_0 word_greater_zero_iff)
  ultimately have "unat (x mod ucast isz :: u64) < unat isz" by (simp add: unat_mod)
  then show ?thesis using unat_ucast_le [of "x mod ucast isz :: u64"] by (rule le_less_trans [rotated])
qed

end
