(* ===== verification/Rbt_Tree.thy ===== *)
theory Rbt_Tree
  imports Prelude
begin

text \<open>
  The red-black tree macros of \<^verbatim>\<open>include/rbt_tree.h\<close> over the nodes of
  \<^verbatim>\<open>include/rbt_node.h\<close>.

  A subtree is a value of \<open>rbt_tree\<close> (\<open>Null\<close> is the null pointer, \<open>Rnode\<close> holds the red
  bit of \<open>rbt_flags\<close>, the \<open>left\<close> subtree, the node's own data and the \<open>next\<close> subtree).
  A \<^emph>\<open>pointer into the tree\<close> is a position: the subtree it points to with the chain of its
  \<open>parent\<close> pointers, innermost first; each frame is a parent seen from one of its children,
  and its constructor says which link of the parent the child's \<open>anchor\<close> points to.
  Every place where the macros dereference a pointer that may be null is a \<open>None\<close> of the
  model, so a result \<open>Some h\<close> also says that no null pointer was followed.
\<close>

datatype color = Red | Black

record 'o rbt_node =
  nid :: addr
  rbt_value :: int
  rbt_opaq :: 'o

datatype 'o rbt_tree =
    Null
  | Rnode color "'o rbt_tree" "'o rbt_node" "'o rbt_tree"

datatype 'o frame =
    Left_of color "'o rbt_node" "'o rbt_tree"
  | Next_of color "'o rbt_tree" "'o rbt_node"

type_synonym 'o path = "'o frame list"
type_synonym 'o pos = "'o rbt_tree \<times> 'o path"

record 'o rbt_head =
  root :: "'o rbt_tree"
  leftmost :: "addr option"
  rightmost :: "addr option"
  rbt_num_node :: u32

fun plug :: "'o rbt_tree \<Rightarrow> 'o path \<Rightarrow> 'o rbt_tree" where
  "plug t [] = t"
| "plug t (Left_of c d r # p) = plug (Rnode c t d r) p"
| "plug t (Next_of c l d # p) = plug (Rnode c l d t) p"

fun tcolor :: "'o rbt_tree \<Rightarrow> color" where
  "tcolor Null = Black"
| "tcolor (Rnode c _ _ _) = c"

fun paint :: "color \<Rightarrow> 'o rbt_tree \<Rightarrow> 'o rbt_tree" where
  "paint c Null = Null"
| "paint c (Rnode _ l d r) = Rnode c l d r"

fun fcolor :: "'o frame \<Rightarrow> color" where
  "fcolor (Left_of c _ _) = c"
| "fcolor (Next_of c _ _) = c"

fun fnode :: "'o frame \<Rightarrow> 'o rbt_node" where
  "fnode (Left_of _ d _) = d"
| "fnode (Next_of _ _ d) = d"

definition parent_id :: "'o path \<Rightarrow> addr option" where
  "parent_id p = (case p of [] \<Rightarrow> None | f # _ \<Rightarrow> Some (nid (fnode f)))"

subsection \<open>Head, iteration and search\<close>

definition RBT_HEAD_INIT :: "'o rbt_head" where
  "RBT_HEAD_INIT = \<lparr>root = Null, leftmost = None, rightmost = None, rbt_num_node = 0\<rparr>"

fun go_left :: "'o rbt_tree \<Rightarrow> 'o path \<Rightarrow> 'o pos" where
  "go_left Null p = (Null, p)"
| "go_left (Rnode c l d r) p =
     (if l = Null then (Rnode c l d r, p) else go_left l (Left_of c d r # p))"

fun go_next :: "'o rbt_tree \<Rightarrow> 'o path \<Rightarrow> 'o pos" where
  "go_next Null p = (Null, p)"
| "go_next (Rnode c l d r) p =
     (if r = Null then (Rnode c l d r, p) else go_next r (Next_of c l d # p))"

fun climb_next :: "'o rbt_tree \<Rightarrow> 'o path \<Rightarrow> 'o pos option" where
  "climb_next t [] = None"
| "climb_next t (Left_of c d r # p) = Some (Rnode c t d r, p)"
| "climb_next t (Next_of c l d # p) = climb_next (Rnode c l d t) p"

fun RBT_INCREMENT :: "'o pos \<Rightarrow> 'o pos option" where
  "RBT_INCREMENT (Null, p) = None"
| "RBT_INCREMENT (Rnode c l d r, p) =
     (if r \<noteq> Null then Some (go_left r (Next_of c l d # p)) else climb_next (Rnode c l d r) p)"

fun find_loop :: "int \<Rightarrow> 'o rbt_tree \<Rightarrow> 'o path \<Rightarrow> 'o pos option \<Rightarrow> 'o pos option" where
  "find_loop v Null p nd = nd"
| "find_loop v (Rnode c l d r) p nd =
     (if rbt_value d > v then find_loop v l (Left_of c d r # p) (Some (Rnode c l d r, p))
      else if rbt_value d < v then find_loop v r (Next_of c l d # p) (Some (Rnode c l d r, p))
      else Some (Rnode c l d r, p))"

definition RBT_FIND :: "'o rbt_head \<Rightarrow> int \<Rightarrow> 'o pos option" where
  "RBT_FIND h v = find_loop v (root h) [] None"

text \<open>
  \<open>RBT_FIND_LEFT\<close>: \<open>fl_search\<close> is the outer descent, \<open>fl_left\<close> the inner loop over the
  \<open>left\<close> links and \<open>fl_next\<close> the inner loop over the \<open>next\<close> links; \<open>nd\<close> is the macro's
  \<open>__node\<close>, the best node so far.
\<close>

fun fl_left :: "int \<Rightarrow> 'o rbt_tree \<Rightarrow> 'o path \<Rightarrow> 'o pos \<Rightarrow> 'o pos"
  and fl_next :: "int \<Rightarrow> 'o rbt_tree \<Rightarrow> 'o path \<Rightarrow> 'o pos \<Rightarrow> 'o pos" where
  "fl_left v Null p nd = nd"
| "fl_left v (Rnode c l d r) p nd =
     (if rbt_value d < v then fl_next v r (Next_of c l d # p) nd
      else fl_left v l (Left_of c d r # p) (Rnode c l d r, p))"
| "fl_next v Null p nd = nd"
| "fl_next v (Rnode c l d r) p nd =
     (if rbt_value d = v then fl_left v l (Left_of c d r # p) (Rnode c l d r, p)
      else fl_next v r (Next_of c l d # p) nd)"

fun fl_search :: "int \<Rightarrow> 'o rbt_tree \<Rightarrow> 'o path \<Rightarrow> 'o pos option" where
  "fl_search v Null p = None"
| "fl_search v (Rnode c l d r) p =
     (if rbt_value d > v then fl_search v l (Left_of c d r # p)
      else if rbt_value d < v then fl_search v r (Next_of c l d # p)
      else Some (fl_left v l (Left_of c d r # p) (Rnode c l d r, p)))"

definition RBT_FIND_LEFT :: "'o rbt_head \<Rightarrow> int \<Rightarrow> 'o pos option" where
  "RBT_FIND_LEFT h v = fl_search v (root h) []"

subsection \<open>Rotations and insertion\<close>

fun RBT_ROTATE_LEFT :: "'o rbt_tree \<Rightarrow> 'o rbt_tree option" where
  "RBT_ROTATE_LEFT (Rnode c l d (Rnode c' l' d' r')) = Some (Rnode c' (Rnode c l d l') d' r')"
| "RBT_ROTATE_LEFT _ = None"

fun RBT_ROTATE_RIGHT :: "'o rbt_tree \<Rightarrow> 'o rbt_tree option" where
  "RBT_ROTATE_RIGHT (Rnode c (Rnode c' l' d' r') d r) = Some (Rnode c' l' d' (Rnode c r' d r))"
| "RBT_ROTATE_RIGHT _ = None"

text \<open>
  The loop of \<open>RBT_INSERT\<close> that restores the colours: \<open>x\<close> is the subtree at \<open>__x\<close>, the path
  its parents.  The first equation is the loop exit at the root, the second the null
  grandparent of a red parent.
\<close>

fun insert_fix :: "'o rbt_tree \<Rightarrow> 'o path \<Rightarrow> 'o rbt_tree option" where
  "insert_fix x [] = Some x"
| "insert_fix x [f] = (if fcolor f = Black then Some (plug (paint Red x) [f]) else None)"
| "insert_fix x (f # g # p) =
     (if fcolor f = Black then Some (plug (paint Red x) (f # g # p))
      else (case g of
        Left_of cg dg y \<Rightarrow>
          (if tcolor y = Black then do {
             top \<leftarrow> (case f of
                       Next_of cf lf df \<Rightarrow> RBT_ROTATE_LEFT (Rnode cf lf df (paint Red x))
                     | Left_of cf df rf \<Rightarrow> Some (Rnode cf (paint Red x) df rf));
             t \<leftarrow> RBT_ROTATE_RIGHT (Rnode Red (paint Black top) dg y);
             Some (plug t p) }
           else insert_fix (Rnode cg (paint Black (plug (paint Red x) [f])) dg (paint Black y)) p)
      | Next_of cg y dg \<Rightarrow>
          (if tcolor y = Black then do {
             top \<leftarrow> (case f of
                       Left_of cf df rf \<Rightarrow> RBT_ROTATE_RIGHT (Rnode cf (paint Red x) df rf)
                     | Next_of cf lf df \<Rightarrow> Some (Rnode cf lf df (paint Red x)));
             t \<leftarrow> RBT_ROTATE_LEFT (Rnode Red y dg (paint Black top));
             Some (plug t p) }
           else insert_fix (Rnode cg (paint Black y) dg (paint Black (plug (paint Red x) [f]))) p)))"

definition RBT_INSERT :: "'o rbt_head \<Rightarrow> 'o rbt_node \<Rightarrow> 'o pos option \<Rightarrow> 'o rbt_head option" where
  "RBT_INSERT h nd par =
     (case par of
        None \<Rightarrow> Some (h\<lparr>root := Rnode Black Null nd Null, rightmost := Some (nid nd),
                        leftmost := Some (nid nd), rbt_num_node := rbt_num_node h + 1\<rparr>)
      | Some (Null, p) \<Rightarrow> None
      | Some (Rnode c l d r, p) \<Rightarrow>
          (if rbt_value nd = rbt_value d \<and> r \<noteq> Null \<and> l \<noteq> Null then
             (case go_next l (Left_of c d r # p) of
                (Null, q) \<Rightarrow> None
              | (Rnode c' l' d' r', q) \<Rightarrow> do {
                  t \<leftarrow> insert_fix (Rnode Black Null nd Null) (Next_of c' l' d' # q);
                  Some (h\<lparr>root := t, rbt_num_node := rbt_num_node h + 1\<rparr>) })
           else if rbt_value nd > rbt_value d \<or> (rbt_value nd = rbt_value d \<and> l \<noteq> Null) then do {
             t \<leftarrow> insert_fix (Rnode Black Null nd Null) (Next_of c l d # p);
             Some (h\<lparr>root := t,
                     rightmost := (if rightmost h = Some (nid d) then Some (nid nd) else rightmost h),
                     rbt_num_node := rbt_num_node h + 1\<rparr>) }
           else do {
             t \<leftarrow> insert_fix (Rnode Black Null nd Null) (Left_of c d r # p);
             Some (h\<lparr>root := t,
                     leftmost := (if leftmost h = Some (nid d) then Some (nid nd) else leftmost h),
                     rbt_num_node := rbt_num_node h + 1\<rparr>) }))"

subsection \<open>Unlinking a node\<close>

text \<open>
  One turn of the rebalancing loop of \<open>RBT_UNLINK\<close> once the sibling \<open>y\<close> of \<open>x\<close> is black:
  either both children of the sibling are black and the loop goes one generation \<open>Up\<close>, or
  the rotations are \<open>Done\<close>.  \<open>sib_left\<close> is the branch where \<open>x\<close> is the \<open>left\<close> child of
  \<open>z\<close>, \<open>sib_next\<close> the mirrored one.
\<close>

datatype 'o turn = Up "'o rbt_tree" | Done "'o rbt_tree"

fun sib_left :: "'o rbt_tree \<Rightarrow> color \<Rightarrow> 'o rbt_node \<Rightarrow> 'o rbt_tree \<Rightarrow> 'o turn option" where
  "sib_left x cz dz Null = None"
| "sib_left x cz dz (Rnode cy yl dy yr) =
     (if tcolor yl = Black \<and> tcolor yr = Black
      then Some (Up (Rnode cz x dz (Rnode Red yl dy yr)))
      else do {
        y \<leftarrow> (if tcolor yr = Black then RBT_ROTATE_RIGHT (Rnode Red (paint Black yl) dy yr)
              else Some (Rnode cy yl dy yr));
        (case y of
           Null \<Rightarrow> None
         | Rnode c' l' d' r' \<Rightarrow> do {
             t \<leftarrow> RBT_ROTATE_LEFT (Rnode Black x dz (Rnode cz l' d' (paint Black r')));
             Some (Done t) }) })"

fun sib_next :: "'o rbt_tree \<Rightarrow> color \<Rightarrow> 'o rbt_node \<Rightarrow> 'o rbt_tree \<Rightarrow> 'o turn option" where
  "sib_next x cz dz Null = None"
| "sib_next x cz dz (Rnode cy yl dy yr) =
     (if tcolor yl = Black \<and> tcolor yr = Black
      then Some (Up (Rnode cz (Rnode Red yl dy yr) dz x))
      else do {
        y \<leftarrow> (if tcolor yl = Black then RBT_ROTATE_LEFT (Rnode Red yl dy (paint Black yr))
              else Some (Rnode cy yl dy yr));
        (case y of
           Null \<Rightarrow> None
         | Rnode c' l' d' r' \<Rightarrow> do {
             t \<leftarrow> RBT_ROTATE_RIGHT (Rnode Black (Rnode cz (paint Black l') d' r') dz x);
             Some (Done t) }) })"

text \<open>
  The rebalancing loop.  When the sibling is red it is rotated above \<open>z\<close>, which becomes red;
  if the turn then moves up to \<open>z\<close>, the loop condition fails at once because \<open>z\<close> is red, and
  the statement after the loop paints it black.
\<close>

fun delete_fix :: "'o rbt_tree \<Rightarrow> 'o path \<Rightarrow> 'o rbt_tree option" where
  "delete_fix x [] = Some (paint Black x)"
| "delete_fix x (f # p) =
     (if tcolor x = Red then Some (plug (paint Black x) (f # p))
      else (case f of
        Left_of cz dz y \<Rightarrow>
          (case y of
             Rnode Red yl dy yr \<Rightarrow>
               (case sib_left x Red dz yl of
                  None \<Rightarrow> None
                | Some (Up t) \<Rightarrow> Some (plug (paint Black t) (Left_of Black dy yr # p))
                | Some (Done t) \<Rightarrow> Some (plug t (Left_of Black dy yr # p)))
           | _ \<Rightarrow>
               (case sib_left x cz dz y of
                  None \<Rightarrow> None
                | Some (Up t) \<Rightarrow> delete_fix t p
                | Some (Done t) \<Rightarrow> Some (plug t p)))
      | Next_of cz y dz \<Rightarrow>
          (case y of
             Rnode Red yl dy yr \<Rightarrow>
               (case sib_next x Red dz yr of
                  None \<Rightarrow> None
                | Some (Up t) \<Rightarrow> Some (plug (paint Black t) (Next_of Black yl dy # p))
                | Some (Done t) \<Rightarrow> Some (plug t (Next_of Black yl dy # p)))
           | _ \<Rightarrow>
               (case sib_next x cz dz y of
                  None \<Rightarrow> None
                | Some (Up t) \<Rightarrow> delete_fix t p
                | Some (Done t) \<Rightarrow> Some (plug t p)))))"

definition RBT_UNLINK :: "'o rbt_head \<Rightarrow> 'o pos \<Rightarrow> 'o rbt_head option" where
  "RBT_UNLINK h nd =
     (case nd of
        (Null, p) \<Rightarrow> None
      | (Rnode c l d r, p) \<Rightarrow>
          (if l \<noteq> Null \<and> r \<noteq> Null then
             (case go_left r [] of
                (Null, q) \<Rightarrow> None
              | (Rnode cy yl dy x, q) \<Rightarrow> do {
                  t \<leftarrow> (if cy = Black then delete_fix x (q @ Next_of c l dy # p)
                        else Some (plug x (q @ Next_of c l dy # p)));
                  Some (h\<lparr>root := t, rbt_num_node := rbt_num_node h - 1\<rparr>) })
           else
             (let x = (if r = Null then l else r) in do {
                t \<leftarrow> (if c = Black then delete_fix x p else Some (plug x p));
                Some (h\<lparr>root := t,
                        leftmost :=
                          (if leftmost h = Some (nid d)
                           then (case go_left x [] of (Rnode _ _ dx _, _) \<Rightarrow> Some (nid dx)
                                                    | (Null, _) \<Rightarrow> parent_id p)
                           else leftmost h),
                        rightmost :=
                          (if rightmost h = Some (nid d)
                           then (case go_next x [] of (Rnode _ _ dx _, _) \<Rightarrow> Some (nid dx)
                                                    | (Null, _) \<Rightarrow> parent_id p)
                           else rightmost h),
                        rbt_num_node := rbt_num_node h - 1\<rparr>) })))"

subsection \<open>The tree as a sequence\<close>

fun inorder :: "'o rbt_tree \<Rightarrow> 'o rbt_node list" where
  "inorder Null = []"
| "inorder (Rnode _ l d r) = inorder l @ d # inorder r"

fun before :: "'o path \<Rightarrow> 'o rbt_node list" where
  "before [] = []"
| "before (Left_of _ _ _ # p) = before p"
| "before (Next_of _ l d # p) = before p @ inorder l @ [d]"

fun after :: "'o path \<Rightarrow> 'o rbt_node list" where
  "after [] = []"
| "after (Left_of _ d r # p) = d # inorder r @ after p"
| "after (Next_of _ _ _ # p) = after p"

lemma inorder_plug [simp]: "inorder (plug t p) = before p @ inorder t @ after p"
  by (induction t p rule: plug.induct) auto

lemma before_append [simp]: "before (p @ q) = before q @ before p"
  by (induction p rule: before.induct) auto

lemma after_append [simp]: "after (p @ q) = after p @ after q"
  by (induction p rule: after.induct) auto

lemma inorder_paint [simp]: "inorder (paint c t) = inorder t"
  by (cases t) auto

lemma inorder_Nil_iff [simp]: "inorder t = [] \<longleftrightarrow> t = Null"
  by (cases t) auto

lemma plug_append: "plug t (p @ q) = plug (plug t p) q"
  by (induction t p rule: plug.induct) auto

lemma inorder_rotate_left: "RBT_ROTATE_LEFT t = Some t' \<Longrightarrow> inorder t' = inorder t"
  by (induction t rule: RBT_ROTATE_LEFT.induct) auto

lemma inorder_rotate_right: "RBT_ROTATE_RIGHT t = Some t' \<Longrightarrow> inorder t' = inorder t"
  by (induction t rule: RBT_ROTATE_RIGHT.induct) auto

subsection \<open>Red-black invariants of trees and of paths\<close>

fun bheight :: "'o rbt_tree \<Rightarrow> nat" where
  "bheight Null = 0"
| "bheight (Rnode c l _ _) = (if c = Black then Suc (bheight l) else bheight l)"

fun invh :: "'o rbt_tree \<Rightarrow> bool" where
  "invh Null = True"
| "invh (Rnode _ l _ r) \<longleftrightarrow> invh l \<and> invh r \<and> bheight l = bheight r"

fun invc :: "'o rbt_tree \<Rightarrow> bool" where
  "invc Null = True"
| "invc (Rnode c l _ r) \<longleftrightarrow>
     invc l \<and> invc r \<and> (c = Red \<longrightarrow> tcolor l = Black \<and> tcolor r = Black)"

text \<open>
  \<open>path_h n p\<close>: the path takes a subtree of black height \<open>n\<close>; \<open>path_c k p\<close>: it takes a
  subtree whose root has colour \<open>k\<close>, and the whole tree then has a black root.
\<close>

fun path_h :: "nat \<Rightarrow> 'o path \<Rightarrow> bool" where
  "path_h n [] = True"
| "path_h n (Left_of c _ r # p) \<longleftrightarrow>
     invh r \<and> bheight r = n \<and> path_h (if c = Black then Suc n else n) p"
| "path_h n (Next_of c l _ # p) \<longleftrightarrow>
     invh l \<and> bheight l = n \<and> path_h (if c = Black then Suc n else n) p"

fun path_c :: "color \<Rightarrow> 'o path \<Rightarrow> bool" where
  "path_c k [] \<longleftrightarrow> k = Black"
| "path_c k (Left_of c _ r # p) \<longleftrightarrow>
     invc r \<and> (c = Red \<longrightarrow> k = Black \<and> tcolor r = Black) \<and> path_c c p"
| "path_c k (Next_of c l _ # p) \<longleftrightarrow>
     invc l \<and> (c = Red \<longrightarrow> k = Black \<and> tcolor l = Black) \<and> path_c c p"

definition rb_tree :: "'o rbt_tree \<Rightarrow> bool" where
  "rb_tree t \<longleftrightarrow> invh t \<and> invc t \<and> tcolor t = Black"

lemma color_neq [simp]:
  "(c \<noteq> Black) = (c = Red)" "(Black \<noteq> c) = (c = Red)" "(c \<noteq> Red) = (c = Black)" "(Red \<noteq> c) = (c = Black)"
  by (cases c; simp)+

lemma paint_simps [simp]:
  "tcolor (paint Black t) = Black" "invh (paint c t) = invh t"
  "paint c (paint c' t) = paint c t" "invc t \<Longrightarrow> invc (paint Black t)"
  "paint c t = Null \<longleftrightarrow> t = Null"
  by (cases t; simp)+

lemma bheight_paint_Black:
  "bheight (paint Black t) = (if tcolor t = Red then Suc (bheight t) else bheight t)"
  by (cases t) auto

lemma invh_plug: "invh (plug t p) \<longleftrightarrow> invh t \<and> path_h (bheight t) p"
  by (induction t p rule: plug.induct) auto

lemma invc_plug: "invc (plug t p) \<and> tcolor (plug t p) = Black \<longleftrightarrow> invc t \<and> path_c (tcolor t) p"
  by (induction t p rule: plug.induct) auto

lemma rb_plug: "rb_tree (plug t p) \<longleftrightarrow> invh t \<and> path_h (bheight t) p \<and> invc t \<and> path_c (tcolor t) p"
  unfolding rb_tree_def using invh_plug [of t p] invc_plug [of t p] by blast

lemma path_c_Black: "path_c k p \<Longrightarrow> path_c Black p"
  by (cases "(k, p)" rule: path_c.cases) auto

lemma tcolor_Red_E: "tcolor t = Red \<Longrightarrow> (\<And>l d r. t = Rnode Red l d r \<Longrightarrow> P) \<Longrightarrow> P"
  by (cases t) auto

subsection \<open>Insertion keeps the invariants\<close>

definition fresh_red :: "'o rbt_tree \<Rightarrow> bool" where
  "fresh_red x \<longleftrightarrow> (\<exists>l d r. x = Rnode Black l d r \<and> tcolor l = Black \<and> tcolor r = Black)
     \<and> invh x \<and> invc x"

lemma fresh_red_singleton [simp]: "fresh_red (Rnode Black Null d Null)"
  by (simp add: fresh_red_def)

lemma insert_fix_ok:
  assumes "fresh_red x" and "path_h (bheight x - 1) p" and "path_c Black p"
  shows "\<exists>t. insert_fix x p = Some t \<and> rb_tree t \<and> inorder t = inorder (plug x p)"
  using assms
proof (induction x p rule: insert_fix.induct)
  case (1 x)
  then show ?case by (auto simp: fresh_red_def rb_tree_def)
next
  case (2 x f)
  then show ?case
    by (cases f) (auto simp: fresh_red_def rb_tree_def split: if_splits)
next
  case (3 x f g p)
  from "3.prems"(1) obtain l d r where x: "x = Rnode Black l d r" "tcolor l = Black" "tcolor r = Black"
    "invh l" "invh r" "invc l" "invc r" "bheight l = bheight r"
    by (auto simp: fresh_red_def)
  show ?case
  proof (cases "fcolor f = Black")
    case True
    with "3.prems" x show ?thesis
      using rb_plug [of "paint Red x" "f # g # p"] by (cases f) (auto split: if_splits)
  next
    case False
    then have f: "fcolor f = Red" by simp
    show ?thesis
    proof (cases g)
      case (Left_of cg dg y)
      show ?thesis
      proof (cases "tcolor y = Black")
        case True
        with "3.prems" x f Left_of show ?thesis
          by (cases f) (auto simp: rb_plug split: if_splits)
      next
        case y: False
        let ?x = "Rnode cg (paint Black (plug (paint Red x) [f])) dg (paint Black y)"
        have "fresh_red ?x" and "path_h (bheight ?x - 1) p" and "path_c Black p"
          using "3.prems" x f Left_of y
          by (cases f; cases y; auto simp: fresh_red_def split: if_splits)+
        with "3.IH"(1) f Left_of y obtain t where "insert_fix ?x p = Some t" "rb_tree t"
          "inorder t = inorder (plug ?x p)" by fastforce
        with f Left_of y show ?thesis by (cases f) auto
      qed
    next
      case (Next_of cg y dg)
      show ?thesis
      proof (cases "tcolor y = Black")
        case True
        with "3.prems" x f Next_of show ?thesis
          by (cases f) (auto simp: rb_plug split: if_splits)
      next
        case y: False
        let ?x = "Rnode cg (paint Black y) dg (paint Black (plug (paint Red x) [f]))"
        have "fresh_red ?x" and "path_h (bheight ?x - 1) p" and "path_c Black p"
          using "3.prems" x f Next_of y
          by (cases f; cases y; auto simp: fresh_red_def split: if_splits)+
        with "3.IH"(2) f Next_of y obtain t where "insert_fix ?x p = Some t" "rb_tree t"
          "inorder t = inorder (plug ?x p)" by fastforce
        with f Next_of y show ?thesis by (cases f) auto
      qed
    qed
  qed
qed

subsection \<open>Unlinking keeps the invariants\<close>

text \<open>
  One turn of the rebalancing loop: \<open>x\<close> is one black node short on its side.  \<open>Done\<close> restores
  the height, \<open>Up\<close> passes a subtree that is one black node short to the generation above.
\<close>

definition short_ok :: "'o rbt_tree \<Rightarrow> color \<Rightarrow> nat \<Rightarrow> 'o turn \<Rightarrow> bool" where
  "short_ok x cz n res \<longleftrightarrow>
     (case res of
        Up t \<Rightarrow> invh t \<and> invc (paint Black t) \<and> tcolor t = cz \<and> t \<noteq> Null
             \<and> bheight t = (if cz = Black then Suc n else n)
      | Done t \<Rightarrow> invh t \<and> invc t \<and> tcolor t = cz \<and> bheight t = (if cz = Black then Suc (Suc n) else Suc n))"

fun turn_inorder :: "'o turn \<Rightarrow> 'o rbt_node list" where
  "turn_inorder (Up t) = inorder t"
| "turn_inorder (Done t) = inorder t"

lemma sib_left_ok:
  assumes "invh x" "invc x" "tcolor x = Black" "invh y" "invc y" "tcolor y = Black"
    "bheight y = Suc (bheight x)"
  shows "\<exists>res. sib_left x cz dz y = Some res \<and> short_ok x cz (bheight x) res
     \<and> turn_inorder res = inorder x @ dz # inorder y"
proof (cases y)
  case Null
  with assms show ?thesis by simp
next
  case (Rnode cy yl dy yr)
  then show ?thesis
    using assms
    by (cases "tcolor yr"; cases "tcolor yl")
      (auto simp: short_ok_def bheight_paint_Black elim!: tcolor_Red_E split: if_splits)
qed

lemma sib_next_ok:
  assumes "invh x" "invc x" "tcolor x = Black" "invh y" "invc y" "tcolor y = Black"
    "bheight y = Suc (bheight x)"
  shows "\<exists>res. sib_next x cz dz y = Some res \<and> short_ok x cz (bheight x) res
     \<and> turn_inorder res = inorder y @ dz # inorder x"
proof (cases y)
  case Null
  with assms show ?thesis by simp
next
  case (Rnode cy yl dy yr)
  then show ?thesis
    using assms
    by (cases "tcolor yr"; cases "tcolor yl")
      (auto simp: short_ok_def bheight_paint_Black elim!: tcolor_Red_E split: if_splits)
qed

lemma invc_paint_Black_id: "tcolor x = Black \<Longrightarrow> invc (paint Black x) = invc x"
  by (cases x) auto

definition turn_done :: "'o rbt_tree \<Rightarrow> 'o path \<Rightarrow> bool" where
  "turn_done x p \<longleftrightarrow> (\<exists>t. delete_fix x p = Some t \<and> rb_tree t \<and> inorder t = inorder (plug x p))"

definition turn_up :: "'o rbt_tree \<Rightarrow> 'o frame \<Rightarrow> 'o path \<Rightarrow> bool" where
  "turn_up x f p \<longleftrightarrow> (\<exists>t. delete_fix x (f # p) = delete_fix t p \<and> invh t \<and> invc (paint Black t)
     \<and> path_h (Suc (bheight t)) p \<and> path_c Black p \<and> inorder (plug t p) = inorder (plug x (f # p)))"

lemma delete_fix_left:
  assumes x: "invh x" "invc x" "tcolor x = Black"
    and p: "path_h (Suc (bheight x)) (Left_of cz dz y # p)" "path_c Black (Left_of cz dz y # p)"
  shows "turn_done x (Left_of cz dz y # p) \<or> turn_up x (Left_of cz dz y) p"
proof (cases "tcolor y = Red")
  case True
  then obtain yl dy yr where y: "y = Rnode Red yl dy yr" by (auto elim: tcolor_Red_E)
  with x p obtain res where "sib_left x Red dz yl = Some res"
    "short_ok x Red (bheight x) res" "turn_inorder res = inorder x @ dz # inorder yl"
    using sib_left_ok [of x yl Red dz] by (auto split: if_splits)
  with x p y have "turn_done x (Left_of cz dz y # p)"
    by (cases res) (auto simp: turn_done_def rb_plug short_ok_def bheight_paint_Black split: if_splits)
  then show ?thesis ..
next
  case False
  with x p obtain res where res: "sib_left x cz dz y = Some res"
    "short_ok x cz (bheight x) res" "turn_inorder res = inorder x @ dz # inorder y"
    using sib_left_ok [of x y cz dz] by auto
  have step: "delete_fix x (Left_of cz dz y # p) =
      (case res of Up t \<Rightarrow> delete_fix t p | Done t \<Rightarrow> Some (plug t p))"
    using False x(3) res(1) by (cases y) (auto split: color.splits turn.splits)
  show ?thesis
    using step res(2,3) p path_c_Black [of cz p]
    by (cases res) (auto simp: turn_done_def turn_up_def rb_plug short_ok_def split: if_splits)
qed

lemma delete_fix_next:
  assumes x: "invh x" "invc x" "tcolor x = Black"
    and p: "path_h (Suc (bheight x)) (Next_of cz y dz # p)" "path_c Black (Next_of cz y dz # p)"
  shows "turn_done x (Next_of cz y dz # p) \<or> turn_up x (Next_of cz y dz) p"
proof (cases "tcolor y = Red")
  case True
  then obtain yl dy yr where y: "y = Rnode Red yl dy yr" by (auto elim: tcolor_Red_E)
  with x p obtain res where "sib_next x Red dz yr = Some res"
    "short_ok x Red (bheight x) res" "turn_inorder res = inorder yr @ dz # inorder x"
    using sib_next_ok [of x yr Red dz] by (auto split: if_splits)
  with x p y have "turn_done x (Next_of cz y dz # p)"
    by (cases res) (auto simp: turn_done_def rb_plug short_ok_def bheight_paint_Black split: if_splits)
  then show ?thesis ..
next
  case False
  with x p obtain res where res: "sib_next x cz dz y = Some res"
    "short_ok x cz (bheight x) res" "turn_inorder res = inorder y @ dz # inorder x"
    using sib_next_ok [of x y cz dz] by auto
  have step: "delete_fix x (Next_of cz y dz # p) =
      (case res of Up t \<Rightarrow> delete_fix t p | Done t \<Rightarrow> Some (plug t p))"
    using False x(3) res(1) by (cases y) (auto split: color.splits turn.splits)
  show ?thesis
    using step res(2,3) p path_c_Black [of cz p]
    by (cases res) (auto simp: turn_done_def turn_up_def rb_plug short_ok_def split: if_splits)
qed

lemma delete_fix_ok:
  assumes "invh x" and "invc (paint Black x)" and "path_h (Suc (bheight x)) p" and "path_c Black p"
  shows "turn_done x p"
  using assms
proof (induction p arbitrary: x)
  case Nil
  then show ?case by (auto simp: turn_done_def rb_tree_def)
next
  case (Cons f p)
  show ?case
  proof (cases "tcolor x = Red")
    case True
    with Cons.prems show ?thesis by (auto simp: turn_done_def rb_plug bheight_paint_Black)
  next
    case False
    then have "tcolor x = Black" and "invc x" using Cons.prems(2) by (simp_all add: invc_paint_Black_id)
    with Cons.prems(1,3,4) have "turn_done x (f # p) \<or> turn_up x f p"
      by (cases f) (blast dest: delete_fix_left delete_fix_next)+
    with Cons.IH show ?thesis unfolding turn_done_def turn_up_def by metis
  qed
qed

subsection \<open>Positions\<close>

text \<open>\<open>at_pos t q\<close>: the position \<open>q\<close> points to a node of the tree \<open>t\<close>.\<close>

definition at_pos :: "'o rbt_tree \<Rightarrow> 'o pos \<Rightarrow> bool" where
  "at_pos t q \<longleftrightarrow> fst q \<noteq> Null \<and> plug (fst q) (snd q) = t"

fun pnode :: "'o pos \<Rightarrow> 'o rbt_node" where
  "pnode (Rnode _ _ d _, _) = d"
| "pnode (Null, _) = undefined"

text \<open>The nodes before and after the one a position points to, in the order of the tree.\<close>

definition pre :: "'o pos \<Rightarrow> 'o rbt_node list" where
  "pre q = before (snd q) @ (case fst q of Null \<Rightarrow> [] | Rnode _ l _ _ \<Rightarrow> inorder l)"

definition post :: "'o pos \<Rightarrow> 'o rbt_node list" where
  "post q = (case fst q of Null \<Rightarrow> [] | Rnode _ _ _ r \<Rightarrow> inorder r) @ after (snd q)"

lemma at_pos_inorder: "at_pos t q \<Longrightarrow> inorder t = pre q @ pnode q # post q"
  by (cases q; cases "fst q") (auto simp: at_pos_def pre_def post_def)

lemma go_left_plug: "go_left t p = (t', p') \<Longrightarrow> plug t' p' = plug t p"
  by (induction t p rule: go_left.induct) (auto split: if_splits)

lemma go_next_plug: "go_next t p = (t', p') \<Longrightarrow> plug t' p' = plug t p"
  by (induction t p rule: go_next.induct) (auto split: if_splits)

lemma go_left_shape:
  "t \<noteq> Null \<Longrightarrow> \<exists>c d r q. go_left t p = (Rnode c Null d r, q @ p)
     \<and> before (q @ p) = before p \<and> plug (Rnode c Null d r) q = t"
proof (induction t p rule: go_left.induct)
  case (2 c l d r p)
  then show ?case
  proof (cases "l = Null")
    case False
    with 2 obtain c' d' r' q where "go_left l (Left_of c d r # p) = (Rnode c' Null d' r', q @ Left_of c d r # p)"
      "before (q @ Left_of c d r # p) = before (Left_of c d r # p)" "plug (Rnode c' Null d' r') q = l" by blast
    with False show ?thesis
      by (intro exI [of _ c'] exI [of _ d'] exI [of _ r'] exI [of _ "q @ [Left_of c d r]"])
        (auto simp: plug_append)
  qed auto
qed simp

lemma go_next_shape:
  "t \<noteq> Null \<Longrightarrow> \<exists>c l d q. go_next t p = (Rnode c l d Null, q @ p)
     \<and> after (q @ p) = after p \<and> plug (Rnode c l d Null) q = t"
proof (induction t p rule: go_next.induct)
  case (2 c l d r p)
  then show ?case
  proof (cases "r = Null")
    case False
    with 2 obtain c' l' d' q where "go_next r (Next_of c l d # p) = (Rnode c' l' d' Null, q @ Next_of c l d # p)"
      "after (q @ Next_of c l d # p) = after (Next_of c l d # p)" "plug (Rnode c' l' d' Null) q = r" by blast
    with False show ?thesis
      by (intro exI [of _ c'] exI [of _ l'] exI [of _ d'] exI [of _ "q @ [Next_of c l d]"])
        (auto simp: plug_append)
  qed auto
qed simp

text \<open>\<open>RBT_INCREMENT\<close> moves to the next node of the sequence, and stops at its end.\<close>

lemma climb_next_correct:
  "t \<noteq> Null \<Longrightarrow>
   (case climb_next t p of
      None \<Rightarrow> after p = []
    | Some q \<Rightarrow> at_pos (plug t p) q \<and> pre q = before p @ inorder t \<and> pnode q # post q = after p)"
  by (induction t p rule: climb_next.induct) (auto simp: at_pos_def pre_def post_def split: option.splits)

lemma RBT_INCREMENT_correct:
  assumes "at_pos t q"
  shows "case RBT_INCREMENT q of
      None \<Rightarrow> post q = []
    | Some q' \<Rightarrow> at_pos t q' \<and> pre q' = pre q @ [pnode q] \<and> pnode q' # post q' = post q"
proof -
  from assms obtain c l d r p where q: "q = (Rnode c l d r, p)" "plug (Rnode c l d r) p = t"
    by (cases q; cases "fst q") (auto simp: at_pos_def)
  show ?thesis
  proof (cases "r = Null")
    case True
    with q climb_next_correct [of "Rnode c l d r" p] show ?thesis
      by (auto simp: pre_def post_def split: option.splits)
  next
    case False
    from go_left_shape [OF False, of "Next_of c l d # p"]
    obtain c' d' r' s where s: "go_left r (Next_of c l d # p) = (Rnode c' Null d' r', s @ Next_of c l d # p)"
      "before (s @ Next_of c l d # p) = before (Next_of c l d # p)" "plug (Rnode c' Null d' r') s = r"
      by blast
    then have "inorder r = before s @ d' # inorder r' @ after s" by (metis inorder_plug inorder.simps append_Nil append_Cons)
    with s q False show ?thesis by (auto simp: at_pos_def pre_def post_def plug_append)
  qed
qed

subsection \<open>Search\<close>

abbreviation values_of :: "'o rbt_node list \<Rightarrow> int list" where
  "values_of xs \<equiv> map rbt_value xs"

lemma find_loop_shape:
  "t \<noteq> Null \<Longrightarrow> sorted (values_of (inorder t)) \<Longrightarrow>
   \<exists>c l d r q. find_loop v t p nd = Some (Rnode c l d r, q @ p) \<and> plug (Rnode c l d r) q = t
     \<and> (\<forall>e \<in> set (before q). rbt_value e < v) \<and> (\<forall>e \<in> set (after q). v < rbt_value e)
     \<and> (v < rbt_value d \<longrightarrow> l = Null) \<and> (rbt_value d < v \<longrightarrow> r = Null)"
proof (induction t arbitrary: p nd)
  case (Rnode c l d r)
  consider (lt) "v < rbt_value d" | (gt) "rbt_value d < v" | (eq) "rbt_value d = v" by linarith
  then show ?case
  proof cases
    case lt
    show ?thesis
    proof (cases "l = Null")
      case True
      with lt show ?thesis by (auto intro!: exI [of _ "[]"])
    next
      case False
      with Rnode.prems obtain c' l' d' r' q where
        "find_loop v l (Left_of c d r # p) (Some (Rnode c l d r, p)) = Some (Rnode c' l' d' r', q @ Left_of c d r # p)"
        "plug (Rnode c' l' d' r') q = l" "\<forall>e \<in> set (before q). rbt_value e < v"
        "\<forall>e \<in> set (after q). v < rbt_value e"
        "v < rbt_value d' \<longrightarrow> l' = Null" "rbt_value d' < v \<longrightarrow> r' = Null"
        using Rnode.IH(1) [of "Left_of c d r # p" "Some (Rnode c l d r, p)"] by (auto simp: sorted_append)
      moreover have "\<forall>e \<in> set (d # inorder r). v < rbt_value e"
        using lt Rnode.prems(2) by (force simp: sorted_append)
      ultimately show ?thesis using lt
        by (intro exI [of _ c'] exI [of _ l'] exI [of _ d'] exI [of _ r'] exI [of _ "q @ [Left_of c d r]"])
          (simp add: plug_append ball_Un)
    qed
  next
    case gt
    show ?thesis
    proof (cases "r = Null")
      case True
      with gt show ?thesis by (auto intro!: exI [of _ "[]"])
    next
      case False
      with Rnode.prems obtain c' l' d' r' q where
        "find_loop v r (Next_of c l d # p) (Some (Rnode c l d r, p)) = Some (Rnode c' l' d' r', q @ Next_of c l d # p)"
        "plug (Rnode c' l' d' r') q = r" "\<forall>e \<in> set (before q). rbt_value e < v"
        "\<forall>e \<in> set (after q). v < rbt_value e"
        "v < rbt_value d' \<longrightarrow> l' = Null" "rbt_value d' < v \<longrightarrow> r' = Null"
        using Rnode.IH(2) [of "Next_of c l d # p" "Some (Rnode c l d r, p)"] by (auto simp: sorted_append)
      moreover have "\<forall>e \<in> set (inorder l @ [d]). rbt_value e < v"
        using gt Rnode.prems(2) by (force simp: sorted_append)
      ultimately show ?thesis using gt
        by (intro exI [of _ c'] exI [of _ l'] exI [of _ d'] exI [of _ r'] exI [of _ "q @ [Next_of c l d]"])
          (simp add: plug_append ball_Un)
    qed
  next
    case eq
    then show ?thesis by (auto intro!: exI [of _ "[]"])
  qed
qed simp

definition first_at :: "int \<Rightarrow> 'o rbt_tree \<Rightarrow> 'o pos \<Rightarrow> bool" where
  "first_at v t q \<longleftrightarrow> at_pos t q \<and> rbt_value (pnode q) = v \<and> (\<forall>e \<in> set (pre q). rbt_value e < v)"

lemma fl_left_next_first:
  shows "sorted (values_of (inorder t)) \<Longrightarrow> (\<forall>e \<in> set (inorder t). rbt_value e \<le> v) \<Longrightarrow>
     at_pos (plug t p) nd \<Longrightarrow> rbt_value (pnode nd) = v \<Longrightarrow> pre nd = before p @ inorder t \<Longrightarrow>
     (\<forall>e \<in> set (before p). rbt_value e < v) \<Longrightarrow> first_at v (plug t p) (fl_left v t p nd)"
    and "sorted (values_of (inorder t)) \<Longrightarrow> (\<forall>e \<in> set (inorder t). rbt_value e \<le> v) \<Longrightarrow>
     at_pos (plug t p) nd \<Longrightarrow> rbt_value (pnode nd) = v \<Longrightarrow> pre nd = before p @ inorder t \<Longrightarrow>
     (\<forall>e \<in> set (before p). rbt_value e < v) \<Longrightarrow> first_at v (plug t p) (fl_next v t p nd)"
proof (induction v t p nd and v t p nd rule: fl_left_fl_next.induct)
  case (2 v c l d r p nd)
  show ?case
  proof (cases "rbt_value d < v")
    case True
    with 2 show ?thesis by (fastforce simp: sorted_append)
  next
    case False
    with "2.prems" have "rbt_value d = v" by auto
    with 2 False show ?thesis by (auto simp: sorted_append at_pos_def pre_def)
  qed
next
  case (4 v c l d r p nd)
  show ?case
  proof (cases "rbt_value d = v")
    case True
    with 4 show ?thesis by (auto simp: sorted_append at_pos_def pre_def)
  next
    case False
    with "4.prems" have "rbt_value d < v" by (simp add: order.not_eq_order_implies_strict)
    with 4 False show ?thesis by (fastforce simp: sorted_append)
  qed
qed (auto simp: first_at_def)

lemma fl_search_correct:
  "sorted (values_of (inorder t)) \<Longrightarrow> (\<forall>e \<in> set (before p). rbt_value e < v) \<Longrightarrow>
   (case fl_search v t p of
      None \<Rightarrow> v \<notin> set (values_of (inorder t))
    | Some q \<Rightarrow> first_at v (plug t p) q)"
proof (induction v t p rule: fl_search.induct)
  case (2 v c l d r p)
  consider (lt) "v < rbt_value d" | (gt) "rbt_value d < v" | (eq) "rbt_value d = v" by linarith
  then show ?case
  proof cases
    case lt
    with 2 show ?thesis by (fastforce simp: sorted_append split: option.splits)
  next
    case gt
    with 2 show ?thesis by (fastforce simp: sorted_append split: option.splits)
  next
    case eq
    have "first_at v (plug l (Left_of c d r # p)) (fl_left v l (Left_of c d r # p) (Rnode c l d r, p))"
      using "2.prems" eq by (intro fl_left_next_first) (auto simp: sorted_append at_pos_def pre_def)
    with eq show ?thesis by simp
  qed
qed simp

subsection \<open>The invariant of a tree head\<close>

definition first_id :: "'o rbt_node list \<Rightarrow> addr option" where
  "first_id xs = (case xs of [] \<Rightarrow> None | d # _ \<Rightarrow> Some (nid d))"

definition last_id :: "'o rbt_node list \<Rightarrow> addr option" where
  "last_id xs = (if xs = [] then None else Some (nid (last xs)))"

definition rbt_inv :: "'o rbt_head \<Rightarrow> bool" where
  "rbt_inv h \<longleftrightarrow> rb_tree (root h) \<and> sorted (values_of (inorder (root h)))
     \<and> distinct (map nid (inorder (root h)))
     \<and> leftmost h = first_id (inorder (root h)) \<and> rightmost h = last_id (inorder (root h))
     \<and> rbt_num_node h = of_nat (length (inorder (root h)))"

lemma rbt_inv_init [simp]: "rbt_inv RBT_HEAD_INIT" "inorder (root RBT_HEAD_INIT) = []"
  by (simp_all add: rbt_inv_def RBT_HEAD_INIT_def rb_tree_def first_id_def last_id_def)

lemma id_simps [simp]:
  "first_id (d # xs) = Some (nid d)" "first_id [] = None"
  "xs \<noteq> [] \<Longrightarrow> first_id (xs @ ys) = first_id xs"
  "last_id (xs @ [d]) = Some (nid d)" "last_id [] = None"
  "ys \<noteq> [] \<Longrightarrow> last_id (xs @ ys) = last_id ys"
  by (auto simp: first_id_def last_id_def neq_Nil_conv)

lemma last_id_Cons [simp]: "ys \<noteq> [] \<Longrightarrow> last_id (d # ys) = last_id ys" "last_id [d] = Some (nid d)"
  by (auto simp: last_id_def)

lemma first_id_mem: "first_id xs = Some a \<Longrightarrow> a \<in> nid ` set xs"
  by (auto simp: first_id_def split: list.splits)

lemma last_id_mem: "last_id xs = Some a \<Longrightarrow> a \<in> nid ` set xs"
  by (auto simp: last_id_def split: if_splits)

text \<open>Storing a node in a null link: the link is the hole of the path \<open>P\<close>.\<close>

lemma insert_hole:
  assumes "rb_tree (plug Null P)"
  shows "\<exists>t. insert_fix (Rnode Black Null nd Null) P = Some t \<and> rb_tree t
     \<and> inorder t = before P @ nd # after P"
  using insert_fix_ok [of "Rnode Black Null nd Null" P] assms by (simp add: rb_plug)

lemma rbt_inv_insertI:
  assumes "rbt_inv h" and "inorder (root h) = xs @ ys" and "nid nd \<notin> nid ` set (inorder (root h))"
    and "\<forall>e \<in> set xs. rbt_value e \<le> rbt_value nd" and "\<forall>e \<in> set ys. rbt_value nd \<le> rbt_value e"
    and "rb_tree t" and "inorder t = xs @ nd # ys"
    and "lm = (if xs = [] then Some (nid nd) else leftmost h)"
    and "rm = (if ys = [] then Some (nid nd) else rightmost h)"
  shows "rbt_inv (h\<lparr>root := t, leftmost := lm, rightmost := rm, rbt_num_node := rbt_num_node h + 1\<rparr>)"
  using assms by (auto simp: rbt_inv_def sorted_append)

definition store_at :: "'o rbt_head \<Rightarrow> 'o rbt_node \<Rightarrow> 'o path \<Rightarrow> addr option \<Rightarrow> addr option \<Rightarrow> 'o rbt_head option" where
  "store_at h nd P lm rm = insert_fix (Rnode Black Null nd Null) P \<bind>
     (\<lambda>t. Some (h\<lparr>root := t, leftmost := lm, rightmost := rm, rbt_num_node := rbt_num_node h + 1\<rparr>))"

text \<open>\<open>stored h nd res\<close>: \<open>res\<close> is the head \<open>h\<close> with the node \<open>nd\<close> linked in at one place.\<close>

definition stored :: "'o rbt_head \<Rightarrow> 'o rbt_node \<Rightarrow> 'o rbt_head option \<Rightarrow> bool" where
  "stored h nd res \<longleftrightarrow> (\<exists>h' xs ys. res = Some h' \<and> rbt_inv h'
     \<and> inorder (root h) = xs @ ys \<and> inorder (root h') = xs @ nd # ys)"

lemma store_at_correct:
  assumes "rbt_inv h" and "nid nd \<notin> nid ` set (inorder (root h))" and "plug Null P = root h"
    and "\<forall>e \<in> set (before P). rbt_value e \<le> rbt_value nd" and "\<forall>e \<in> set (after P). rbt_value nd \<le> rbt_value e"
    and "lm = (if before P = [] then Some (nid nd) else leftmost h)"
    and "rm = (if after P = [] then Some (nid nd) else rightmost h)"
  shows "stored h nd (store_at h nd P lm rm)"
proof -
  have o: "inorder (root h) = before P @ after P" by (simp add: assms(3) [symmetric])
  from insert_hole [of P nd] assms(1,3) obtain t where t: "insert_fix (Rnode Black Null nd Null) P = Some t"
    "rb_tree t" "inorder t = before P @ nd # after P" by (auto simp: rbt_inv_def)
  show ?thesis
    using rbt_inv_insertI [OF assms(1) o assms(2,4,5) t(2,3) assms(6,7)] t o
    unfolding stored_def store_at_def
    by (intro exI [of _ "h\<lparr>root := t, leftmost := lm, rightmost := rm, rbt_num_node := rbt_num_node h + 1\<rparr>"]
        exI [of _ "before P"] exI [of _ "after P"]) simp
qed

text \<open>The three places where \<open>RBT_INSERT\<close> links the node below the parent it is given.\<close>

lemma RBT_INSERT_mid:
  assumes "rbt_value nd = rbt_value d" "r \<noteq> Null" "l \<noteq> Null"
    and "go_next l (Left_of c d r # q) = (Rnode c' l' d' r', q')"
  shows "RBT_INSERT h nd (Some (Rnode c l d r, q)) =
     store_at h nd (Next_of c' l' d' # q') (leftmost h) (rightmost h)"
  using assms by (cases h) (simp add: RBT_INSERT_def store_at_def)

lemma RBT_INSERT_next:
  assumes "r = Null" "rbt_value nd > rbt_value d \<or> (rbt_value nd = rbt_value d \<and> l \<noteq> Null)"
  shows "RBT_INSERT h nd (Some (Rnode c l d r, q)) = store_at h nd (Next_of c l d # q) (leftmost h)
     (if rightmost h = Some (nid d) then Some (nid nd) else rightmost h)"
  using assms by (cases h) (auto simp: RBT_INSERT_def store_at_def)

lemma RBT_INSERT_left:
  assumes "l = Null" "rbt_value nd \<le> rbt_value d"
  shows "RBT_INSERT h nd (Some (Rnode c l d r, q)) = store_at h nd (Left_of c d r # q)
     (if leftmost h = Some (nid d) then Some (nid nd) else leftmost h) (rightmost h)"
  using assms by (cases h) (auto simp: RBT_INSERT_def store_at_def)

lemma sorted_split_le:
  assumes "sorted (values_of (xs @ ys @ d # zs @ ws))"
  shows "\<forall>e \<in> set xs. rbt_value e \<le> rbt_value d" "\<forall>e \<in> set ys. rbt_value e \<le> rbt_value d"
    "\<forall>e \<in> set zs. rbt_value d \<le> rbt_value e" "\<forall>e \<in> set ws. rbt_value d \<le> rbt_value e"
  using assms by (simp_all add: sorted_append)

text \<open>Where a node may be linked below a node of the sorted tree that the search stopped at.\<close>

lemma stored_mid:
  assumes inv: "rbt_inv h" and fresh: "nid nd \<notin> nid ` set (inorder (root h))"
    and plug: "plug (Rnode c l d r) q = root h"
    and bq: "\<forall>e \<in> set (before q). rbt_value e < rbt_value nd"
    and aq: "\<forall>e \<in> set (after q). rbt_value nd < rbt_value e"
    and le: "\<forall>e \<in> set (inorder l). rbt_value e \<le> rbt_value d" "\<forall>e \<in> set (inorder r). rbt_value d \<le> rbt_value e"
    and mid: "rbt_value nd = rbt_value d" "r \<noteq> Null" "l \<noteq> Null"
  shows "stored h nd (RBT_INSERT h nd (Some (Rnode c l d r, q)))"
proof -
  from go_next_shape [OF mid(3), of "Left_of c d r # q"] obtain c' l' d' s where
    s: "go_next l (Left_of c d r # q) = (Rnode c' l' d' Null, s @ Left_of c d r # q)"
    "after (s @ Left_of c d r # q) = after (Left_of c d r # q)" "plug (Rnode c' l' d' Null) s = l" by blast
  then have "after s = []" and "inorder l = before s @ inorder l' @ [d']"
    using inorder_plug [of "Rnode c' l' d' Null" s] by auto
  then have "stored h nd (store_at h nd (Next_of c' l' d' # s @ Left_of c d r # q) (leftmost h) (rightmost h))"
    using s(3) plug bq aq le mid(1) by (intro store_at_correct inv fresh) (force simp: plug_append)+
  then show ?thesis unfolding RBT_INSERT_mid [OF mid s(1)] .
qed

lemma stored_next:
  assumes inv: "rbt_inv h" and fresh: "nid nd \<notin> nid ` set (inorder (root h))"
    and plug: "plug (Rnode c l d r) q = root h"
    and bq: "\<forall>e \<in> set (before q). rbt_value e < rbt_value nd"
    and aq: "\<forall>e \<in> set (after q). rbt_value nd < rbt_value e"
    and le: "\<forall>e \<in> set (inorder l). rbt_value e \<le> rbt_value d"
    and nxt: "r = Null" "rbt_value nd > rbt_value d \<or> (rbt_value nd = rbt_value d \<and> l \<noteq> Null)"
  shows "stored h nd (RBT_INSERT h nd (Some (Rnode c l d r, q)))"
proof -
  have "rightmost h = Some (nid d) \<longleftrightarrow> after q = []"
    using inv plug [symmetric] nxt(1) last_id_mem [of "after q" "nid d"]
    by (cases "after q = []") (auto simp: rbt_inv_def)
  then show ?thesis unfolding RBT_INSERT_next [OF nxt]
    using nxt plug bq aq le by (intro store_at_correct inv fresh) force+
qed

lemma stored_left:
  assumes inv: "rbt_inv h" and fresh: "nid nd \<notin> nid ` set (inorder (root h))"
    and plug: "plug (Rnode c l d r) q = root h"
    and bq: "\<forall>e \<in> set (before q). rbt_value e < rbt_value nd"
    and aq: "\<forall>e \<in> set (after q). rbt_value nd < rbt_value e"
    and le: "\<forall>e \<in> set (inorder r). rbt_value d \<le> rbt_value e"
    and lft: "l = Null" "rbt_value nd \<le> rbt_value d"
  shows "stored h nd (RBT_INSERT h nd (Some (Rnode c l d r, q)))"
proof -
  have "leftmost h = Some (nid d) \<longleftrightarrow> before q = []"
    using inv plug [symmetric] lft(1) first_id_mem [of "before q" "nid d"]
    by (cases "before q = []") (auto simp: rbt_inv_def)
  then show ?thesis unfolding RBT_INSERT_left [OF lft]
    using lft plug bq aq le by (intro store_at_correct inv fresh) force+
qed

lemma RBT_INSERT_correct:
  assumes inv: "rbt_inv h" and fresh: "nid nd \<notin> nid ` set (inorder (root h))"
  shows "stored h nd (RBT_INSERT h nd (RBT_FIND h (rbt_value nd)))"
proof (cases "root h = Null")
  case True
  then show ?thesis
    using inv by (auto simp: stored_def RBT_INSERT_def RBT_FIND_def rbt_inv_def rb_tree_def)
next
  case False
  let ?v = "rbt_value nd"
  from inv have srt: "sorted (values_of (inorder (root h)))" by (simp add: rbt_inv_def)
  from find_loop_shape [OF False srt, of ?v "[]" None] obtain c l d r q where
    find: "RBT_FIND h ?v = Some (Rnode c l d r, q)" and plug: "plug (Rnode c l d r) q = root h"
    and pq: "\<forall>e \<in> set (before q). rbt_value e < ?v" "\<forall>e \<in> set (after q). ?v < rbt_value e"
    and N: "?v < rbt_value d \<longrightarrow> l = Null" "rbt_value d < ?v \<longrightarrow> r = Null"
    by (auto simp: RBT_FIND_def)
  have "inorder (root h) = before q @ inorder l @ d # inorder r @ after q"
    by (simp add: plug [symmetric])
  note le = sorted_split_le(2,3) [OF srt [unfolded this]]
  consider "?v = rbt_value d" "r \<noteq> Null" "l \<noteq> Null"
    | "r = Null" "?v > rbt_value d \<or> (?v = rbt_value d \<and> l \<noteq> Null)"
    | "l = Null" "?v \<le> rbt_value d"
    using N by fastforce
  then show ?thesis unfolding find
    using stored_mid [OF inv fresh plug pq le] stored_next [OF inv fresh plug pq le(1)]
      stored_left [OF inv fresh plug pq le(2)] by cases
qed

subsection \<open>Unlinking keeps the invariant\<close>

text \<open>The invariants of a path do not depend on the data of its nodes.\<close>

lemma path_h_data: "path_h n (q @ Next_of c l d # p) = path_h n (q @ Next_of c l d' # p)"
  by (induction n q rule: path_h.induct) auto

lemma path_c_data: "path_c k (q @ Next_of c l d # p) = path_c k (q @ Next_of c l d' # p)"
  by (induction k q rule: path_c.induct) auto

text \<open>
  Taking out a node that has no \<open>left\<close> child, or no \<open>next\<close> child: the other child \<open>x\<close> takes
  its place below the parents \<open>p\<close>, and \<open>delete_fix\<close> repairs the colours if it was black.
\<close>

lemma splice_ok:
  assumes x: "invh x" "invc x" "c = Red \<Longrightarrow> tcolor x = Black"
    and p: "path_h (if c = Black then Suc (bheight x) else bheight x) p" "path_c c p"
  shows "\<exists>t. (if c = Black then delete_fix x p else Some (plug x p)) = Some t \<and> rb_tree t
     \<and> inorder t = before p @ inorder x @ after p"
proof (cases c)
  case Black
  with x p delete_fix_ok [of x p] show ?thesis by (simp add: turn_done_def)
next
  case Red
  with x p path_c_Black [of Red p] show ?thesis by (simp add: rb_plug)
qed

lemma unlink_two_ok:
  assumes rb: "rb_tree (plug (Rnode c l d r) p)" and y: "plug (Rnode cy Null dy x) q = r" "before q = []"
  shows "\<exists>t. (if cy = Black then delete_fix x (q @ Next_of c l dy # p)
              else Some (plug x (q @ Next_of c l dy # p))) = Some t \<and> rb_tree t
     \<and> inorder t = before p @ inorder l @ inorder r @ after p"
proof -
  have "inorder r = dy # inorder x @ after q" by (simp add: y(1) [symmetric] y(2))
  moreover have "rb_tree (plug (Rnode cy Null dy x) (q @ Next_of c l d # p))"
    using rb y(1) by (simp add: plug_append)
  then have "invh x" "invc x" "cy = Red \<longrightarrow> tcolor x = Black" "bheight x = 0"
    "path_h (if cy = Black then Suc 0 else 0) (q @ Next_of c l dy # p)" "path_c cy (q @ Next_of c l dy # p)"
    unfolding rb_plug path_h_data [of _ q c l d p dy] path_c_data [of _ q c l d p dy] by auto
  ultimately show ?thesis
    using splice_ok [of x cy "q @ Next_of c l dy # p"] y(2) by auto
qed

lemma unlink_one_ok:
  assumes rb: "rb_tree (plug (Rnode c l d r) p)" and x: "l = Null \<or> r = Null" "x = (if r = Null then l else r)"
  shows "\<exists>t. (if c = Black then delete_fix x p else Some (plug x p)) = Some t \<and> rb_tree t
     \<and> inorder t = before p @ inorder l @ inorder r @ after p"
  using splice_ok [of x c p] assms by (auto simp: rb_plug)

text \<open>The new ends of the sequence after its first or last node was taken out.\<close>

lemma go_left_first_id:
  "(case go_left x [] of (Rnode _ _ dx _, _) \<Rightarrow> Some (nid dx) | (Null, _) \<Rightarrow> e)
     = (if x = Null then e else first_id (inorder x))"
proof (cases "x = Null")
  case False
  then obtain c d r q where "go_left x [] = (Rnode c Null d r, q)" "before q = []" "plug (Rnode c Null d r) q = x"
    using go_left_shape [of x "[]"] by auto
  then have "inorder x = d # inorder r @ after q" using inorder_plug [of "Rnode c Null d r" q] by simp
  with False \<open>go_left x [] = _\<close> show ?thesis by simp
qed simp

lemma go_next_last_id:
  "(case go_next x [] of (Rnode _ _ dx _, _) \<Rightarrow> Some (nid dx) | (Null, _) \<Rightarrow> e)
     = (if x = Null then e else last_id (inorder x))"
proof (cases "x = Null")
  case False
  then obtain c l d q where "go_next x [] = (Rnode c l d Null, q)" "after q = []" "plug (Rnode c l d Null) q = x"
    using go_next_shape [of x "[]"] by auto
  then have "inorder x = (before q @ inorder l) @ [d]" using inorder_plug [of "Rnode c l d Null" q] by simp
  with False \<open>go_next x [] = _\<close> show ?thesis by (simp del: append_assoc)
qed simp

lemma parent_id_first: "before p = [] \<Longrightarrow> parent_id p = first_id (after p)"
  by (cases p rule: after.cases) (auto simp: parent_id_def)

lemma parent_id_last: "after p = [] \<Longrightarrow> parent_id p = last_id (before p)"
  by (cases p rule: before.cases) (auto simp: parent_id_def)

lemma rbt_inv_removeI:
  assumes "rbt_inv h" and "inorder (root h) = xs @ d # ys" and "rb_tree t" and "inorder t = xs @ ys"
    and "lm = (if xs = [] then first_id ys else leftmost h)"
    and "rm = (if ys = [] then last_id xs else rightmost h)"
  shows "rbt_inv (h\<lparr>root := t, leftmost := lm, rightmost := rm, rbt_num_node := rbt_num_node h - 1\<rparr>)"
  using assms by (auto simp: rbt_inv_def sorted_append)

lemma end_iff:
  assumes "rbt_inv h" and "inorder (root h) = xs @ d # ys"
  shows "leftmost h = Some (nid d) \<longleftrightarrow> xs = []" and "rightmost h = Some (nid d) \<longleftrightarrow> ys = []"
  using assms first_id_mem [of xs "nid d"] last_id_mem [of ys "nid d"]
  by (cases "xs = []"; cases "ys = []"; force simp: rbt_inv_def)+

lemma RBT_UNLINK_correct:
  assumes inv: "rbt_inv h" and at: "at_pos (root h) q"
  shows "\<exists>h'. RBT_UNLINK h q = Some h' \<and> rbt_inv h' \<and> inorder (root h') = pre q @ post q"
proof -
  from at obtain c l d r p where q: "q = (Rnode c l d r, p)" "plug (Rnode c l d r) p = root h"
    by (cases q; cases "fst q") (auto simp: at_pos_def)
  let ?xs = "before p @ inorder l" and ?ys = "inorder r @ after p"
  have o: "inorder (root h) = ?xs @ d # ?ys" by (simp add: q(2) [symmetric])
  have rb: "rb_tree (plug (Rnode c l d r) p)" using inv q(2) by (simp add: rbt_inv_def)
  show ?thesis
  proof (cases "l \<noteq> Null \<and> r \<noteq> Null")
    case True
    then obtain cy dy x s where s: "go_left r [] = (Rnode cy Null dy x, s)" "before s = []"
      "plug (Rnode cy Null dy x) s = r" using go_left_shape [of r "[]"] by auto
    from unlink_two_ok [OF rb s(3,2)] obtain t where t:
      "(if cy = Black then delete_fix x (s @ Next_of c l dy # p) else Some (plug x (s @ Next_of c l dy # p))) = Some t"
      "rb_tree t" "inorder t = ?xs @ ?ys" by auto
    have "RBT_UNLINK h q = Some (h\<lparr>root := t, rbt_num_node := rbt_num_node h - 1\<rparr>)"
      using True t(1) s(1) by (simp add: RBT_UNLINK_def q(1))
    moreover have "rbt_inv (h\<lparr>root := t, rbt_num_node := rbt_num_node h - 1\<rparr>)"
      using rbt_inv_removeI [OF inv o t(2,3) refl refl] True by simp
    ultimately show ?thesis using t(3) by (simp add: q(1) pre_def post_def)
  next
    case False
    define x where "x = (if r = Null then l else r)"
    from unlink_one_ok [OF rb _ x_def] False obtain t where t:
      "(if c = Black then delete_fix x p else Some (plug x p)) = Some t" "rb_tree t" "inorder t = ?xs @ ?ys"
      by auto
    define lm where "lm = (if ?xs = [] then first_id ?ys else leftmost h)"
    define rm where "rm = (if ?ys = [] then last_id ?xs else rightmost h)"
    have "RBT_UNLINK h q = Some (h\<lparr>root := t, leftmost := lm, rightmost := rm, rbt_num_node := rbt_num_node h - 1\<rparr>)"
      using False t(1) end_iff [OF inv o] parent_id_first [of p] parent_id_last [of p]
      by (auto simp: RBT_UNLINK_def q(1) x_def [symmetric] go_left_first_id go_next_last_id lm_def rm_def)
        (auto simp: x_def split: if_splits)
    then show ?thesis
      using rbt_inv_removeI [OF inv o t(2,3) lm_def rm_def] t(3) by (simp add: q(1) pre_def post_def)
  qed
qed

subsection \<open>Facts for the clients of the tree\<close>

lemma RBT_FIND_LEFT_correct:
  assumes "rbt_inv h"
  shows "case RBT_FIND_LEFT h v of
      None \<Rightarrow> v \<notin> set (values_of (inorder (root h)))
    | Some q \<Rightarrow> first_at v (root h) q"
  using assms fl_search_correct [of "root h" "[]" v]
  by (auto simp: RBT_FIND_LEFT_def rbt_inv_def split: option.splits)

text \<open>\<open>RBT_INCREMENT\<close> gets closer to the end of the sequence: loops over it end.\<close>

lemma RBT_INCREMENT_decreases:
  assumes "RBT_INCREMENT q = Some q'"
  shows "length (post q') < length (post q)"
proof -
  have "fst q \<noteq> Null" using assms by (cases q; cases "fst q") auto
  then have "at_pos (plug (fst q) (snd q)) q" by (simp add: at_pos_def)
  from RBT_INCREMENT_correct [OF this] assms have "pnode q' # post q' = post q" by simp
  then have "length (post q) = Suc (length (post q'))" by (metis length_Cons)
  then show ?thesis by simp
qed

text \<open>Writing through the \<open>rbt_opaq\<close> pointer of the node a position points to.\<close>

definition RBT_OPAQ_write :: "'o rbt_head \<Rightarrow> 'o pos \<Rightarrow> 'o \<Rightarrow> 'o rbt_head option" where
  "RBT_OPAQ_write h q v =
     (case q of
        (Null, p) \<Rightarrow> None
      | (Rnode c l d r, p) \<Rightarrow> Some (h\<lparr>root := plug (Rnode c l (d\<lparr>rbt_opaq := v\<rparr>) r) p\<rparr>))"

lemma ends_cong:
  assumes "map nid xs = map nid ys"
  shows "first_id xs = first_id ys" "last_id xs = last_id ys" "length xs = length ys"
proof -
  show "length xs = length ys" using assms by (rule map_eq_imp_length_eq)
  show "first_id xs = first_id ys" using assms by (cases xs; cases ys) auto
  show "last_id xs = last_id ys" using assms by (metis last_id_def last_map map_is_Nil_conv)
qed

lemma RBT_OPAQ_write_correct:
  assumes inv: "rbt_inv h" and at: "at_pos (root h) q"
  shows "\<exists>h'. RBT_OPAQ_write h q v = Some h' \<and> rbt_inv h'
     \<and> inorder (root h') = pre q @ (pnode q)\<lparr>rbt_opaq := v\<rparr> # post q"
proof -
  from at obtain c l d r p where q: "q = (Rnode c l d r, p)" "root h = plug (Rnode c l d r) p"
    by (cases q; cases "fst q") (auto simp: at_pos_def)
  let ?d = "d\<lparr>rbt_opaq := v\<rparr>"
  let ?t = "plug (Rnode c l ?d r) p"
  have rb: "rb_tree ?t" using inv by (auto simp: rbt_inv_def q(2) rb_plug)
  have "map rbt_value (inorder ?t) = map rbt_value (inorder (root h))"
    "map nid (inorder ?t) = map nid (inorder (root h))"
    by (simp_all add: q(2))
  note this ends_cong [OF this(2)]
  then have "rbt_inv (h\<lparr>root := ?t\<rparr>)" using inv rb unfolding rbt_inv_def by simp
  then show ?thesis by (simp add: RBT_OPAQ_write_def q(1) pre_def post_def)
qed

subsection \<open>Properties\<close>

text \<open>C4: Insertion into the red-black tree.  RBT_FIND followed by RBT_INSERT follows no null pointer, links
  the new node at one place of the sequence and keeps the invariant of the head: the
  colours and black heights, the order of the values, the leftmost and rightmost pointers
  and the number of nodes.\<close>

theorem rbt_insert_correct:
  assumes "rbt_inv h" and "nid nd \<notin> nid ` set (inorder (root h))"
  shows "\<exists>h' xs ys. RBT_INSERT h nd (RBT_FIND h (rbt_value nd)) = Some h' \<and> rbt_inv h'
     \<and> inorder (root h) = xs @ ys \<and> inorder (root h') = xs @ nd # ys"
  using RBT_INSERT_correct [OF assms] by (auto simp: stored_def)

theorem rbt_insert_correct_witness:
  "\<exists>h' xs ys. RBT_INSERT RBT_HEAD_INIT \<lparr>nid = 1, rbt_value = 7, rbt_opaq = True\<rparr> (RBT_FIND RBT_HEAD_INIT 7) = Some h'
     \<and> rbt_inv h' \<and> inorder (root RBT_HEAD_INIT) = xs @ ys
     \<and> inorder (root h') = xs @ \<lparr>nid = 1, rbt_value = 7, rbt_opaq = True\<rparr> # ys"
  using rbt_insert_correct [of RBT_HEAD_INIT "\<lparr>nid = 1, rbt_value = 7, rbt_opaq = True\<rparr>"] by simp

text \<open>C2: Removal from the red-black tree.  RBT_UNLINK of any node of a well-formed tree follows no null
  pointer, removes exactly that node from the sequence and keeps the invariant of the head.\<close>

theorem rbt_unlink_correct:
  assumes "rbt_inv h" and "at_pos (root h) q"
  shows "\<exists>h'. RBT_UNLINK h q = Some h' \<and> rbt_inv h' \<and> inorder (root h) = pre q @ pnode q # post q
     \<and> inorder (root h') = pre q @ post q"
  using RBT_UNLINK_correct [OF assms] at_pos_inorder [OF assms(2)] by auto

definition one_node_head :: "bool rbt_head" where
  "one_node_head = \<lparr>root = Rnode Black Null \<lparr>nid = 1, rbt_value = 7, rbt_opaq = True\<rparr> Null,
     leftmost = Some 1, rightmost = Some 1, rbt_num_node = 1\<rparr>"

theorem rbt_unlink_correct_witness:
  "\<exists>h'. RBT_UNLINK one_node_head (root one_node_head, []) = Some h' \<and> rbt_inv h' \<and> inorder (root h') = []"
proof -
  have "rbt_inv one_node_head" by (simp add: one_node_head_def rbt_inv_def rb_tree_def)
  moreover have "at_pos (root one_node_head) (root one_node_head, [])"
    by (simp add: one_node_head_def at_pos_def)
  ultimately show ?thesis using rbt_unlink_correct by (fastforce simp: one_node_head_def pre_def post_def)
qed

text \<open>Search in the red-black tree.  RBT_FIND_LEFT returns the first node of the sequence that carries the
  searched value, and nothing exactly when no node carries it.\<close>

theorem rbt_find_left_correct:
  assumes "rbt_inv h"
  shows "case RBT_FIND_LEFT h v of
      None \<Rightarrow> v \<notin> rbt_value ` set (inorder (root h))
    | Some q \<Rightarrow> at_pos (root h) q \<and> rbt_value (pnode q) = v \<and> (\<forall>e \<in> set (pre q). rbt_value e < v)"
  using RBT_FIND_LEFT_correct [OF assms, of v] by (auto simp: first_at_def split: option.splits)

theorem rbt_find_left_correct_witness:
  "rbt_inv one_node_head \<and> (case RBT_FIND_LEFT one_node_head 7 of None \<Rightarrow> False | Some q \<Rightarrow> rbt_value (pnode q) = 7)"
proof
  show inv: "rbt_inv one_node_head" by (simp add: one_node_head_def rbt_inv_def rb_tree_def)
  show "case RBT_FIND_LEFT one_node_head 7 of None \<Rightarrow> False | Some q \<Rightarrow> rbt_value (pnode q) = 7"
    using rbt_find_left_correct [OF inv, of 7] by (auto simp: one_node_head_def split: option.splits)
qed

end
