(* ===== verification/Stuff_Alloc.thy ===== *)
theory Stuff_Alloc
  imports Prelude
begin

text \<open>
  The preallocation pools of \<^verbatim>\<open>include/stuff_alloc.h\<close> (the default build: block
  preallocation on top of the buddy allocator).  A pool pointer is the list of the addresses
  chained through the entries' link field (\<open>[]\<close> is the NULL pool).

  \<^verbatim>\<open>Mem_Alloc\<close> is an explicit memory state: \<open>brk\<close> is the first address that was never
  handed out and \<open>fails n\<close> says whether the \<open>n\<close>-th allocation returns NULL, so every
  pattern of allocation failures is a value of the model.  Addresses count entries.
\<close>

record buddy_env =
  k_size :: nat
  size_header64 :: nat
  min_alloc_size :: nat

record mem =
  brk :: addr
  nalloc :: nat
  fails :: "nat \<Rightarrow> bool"
  buddy :: buddy_env

subsection \<open>Log2Ceil and the preferred pool size (BuddyMalloc.c)\<close>

definition BUDDY_MAX_LOG2_SIZE :: nat where
  "BUDDY_MAX_LOG2_SIZE = 64"

function log2ceil_loop :: "nat \<Rightarrow> nat \<Rightarrow> nat \<Rightarrow> nat" where
  "log2ceil_loop k local_size i_size =
     (if local_size < i_size then
        (if Suc k \<ge> BUDDY_MAX_LOG2_SIZE then 0
         else log2ceil_loop (Suc k) ((2 * local_size) mod 2 ^ 64) i_size)
      else k)"
  by pat_completeness auto
termination
  by (relation "measure (\<lambda>(k, _, _). BUDDY_MAX_LOG2_SIZE - k)") auto

declare log2ceil_loop.simps [simp del]

definition Log2Ceil :: "nat \<Rightarrow> nat" where
  "Log2Ceil i_size = log2ceil_loop 0 1 i_size"

definition BuddyPreferedPoolCount :: "buddy_env \<Rightarrow> nat \<Rightarrow> nat \<Rightarrow> nat" where
  "BuddyPreferedPoolCount b min_count type_size =
     (let min_size = (min_count * type_size) mod 2 ^ 64;
          sizelog2 = (if min_size < min_alloc_size b
                      then Log2Ceil (min_alloc_size b + size_header64 b)
                      else Log2Ceil ((min_size + size_header64 b) mod 2 ^ 64))
      in if sizelog2 > k_size b then min_count
         else (let prefered_size = 2 ^ sizelog2 - size_header64 b;
                   prefered_count = prefered_size div type_size
               in if prefered_count = 0 then 1 else prefered_count))"

subsection \<open>Mem_Alloc and the pool macros\<close>

definition Mem_Alloc :: "mem \<Rightarrow> nat \<Rightarrow> addr option \<times> mem" where
  "Mem_Alloc m n =
     (if fails m (nalloc m) then (None, m\<lparr>nalloc := Suc (nalloc m)\<rparr>)
      else (Some (brk m), m\<lparr>brk := brk m + n, nalloc := Suc (nalloc m)\<rparr>))"

definition STUFF_PREALLOC :: "mem \<Rightarrow> nat \<Rightarrow> nat \<Rightarrow> addr list \<times> mem" where
  "STUFF_PREALLOC m nb sz =
     (let prefered = BuddyPreferedPoolCount (buddy m) nb sz
      in case Mem_Alloc m prefered of
           (None, m') \<Rightarrow> ([], m')
         | (Some a, m') \<Rightarrow> ([a ..< a + prefered], m'))"

definition GET_PREALLOC :: "mem \<Rightarrow> addr list \<Rightarrow> nat \<Rightarrow> nat \<Rightarrow> addr option \<times> addr list \<times> mem" where
  "GET_PREALLOC m pool nb sz =
     (let (pool', m') = (if pool = [] \<and> nb \<noteq> 0 then STUFF_PREALLOC m nb sz else (pool, m))
      in case pool' of
           [] \<Rightarrow> (None, [], m')
         | entry # rest \<Rightarrow> (Some entry, rest, m'))"

definition RELEASE_PREALLOC :: "addr \<Rightarrow> addr list \<Rightarrow> addr list" where
  "RELEASE_PREALLOC entry pool = entry # pool"

subsection \<open>Log2Ceil is the rounded-up binary logarithm\<close>

lemma log2ceil_loop_spec:
  assumes "local_size = 2 ^ k" and "k < 64" and "i_size \<le> 2 ^ 63"
    and "k = 0 \<or> 2 ^ (k - 1) < i_size"
  shows "i_size \<le> 2 ^ log2ceil_loop k local_size i_size
       \<and> (log2ceil_loop k local_size i_size = 0 \<or> 2 ^ (log2ceil_loop k local_size i_size - 1) < i_size)"
  using assms
proof (induction k local_size i_size rule: log2ceil_loop.induct)
  case (1 k local_size i_size)
  show ?case
  proof (cases "local_size < i_size")
    case True
    have "k < 63"
    proof (rule ccontr)
      assume "\<not> k < 63"
      with "1.prems"(2) have "k = 63" by simp
      with True "1.prems"(1,3) show False by simp
    qed
    then have "(2 * local_size) mod 2 ^ 64 = 2 ^ Suc k"
      using "1.prems"(1) power_strict_increasing [of "Suc k" 64 "2 :: nat"] by simp
    moreover have "\<not> BUDDY_MAX_LOG2_SIZE \<le> Suc k"
      using \<open>k < 63\<close> by (simp add: BUDDY_MAX_LOG2_SIZE_def)
    ultimately have "log2ceil_loop k local_size i_size = log2ceil_loop (Suc k) (2 ^ Suc k) i_size"
      using True by (subst log2ceil_loop.simps) simp
    then show ?thesis
      using "1.IH" [OF True \<open>\<not> BUDDY_MAX_LOG2_SIZE \<le> Suc k\<close>] True "1.prems" \<open>k < 63\<close>
        \<open>(2 * local_size) mod 2 ^ 64 = 2 ^ Suc k\<close> by simp
  next
    case False
    then have "log2ceil_loop k local_size i_size = k" by (subst log2ceil_loop.simps) simp
    with False "1.prems" show ?thesis by simp
  qed
qed

lemma Log2Ceil_ge: "i_size \<le> 2 ^ 63 \<Longrightarrow> i_size \<le> 2 ^ Log2Ceil i_size"
  using log2ceil_loop_spec [of 1 0 i_size] by (simp add: Log2Ceil_def)

lemma Log2Ceil_least:
  assumes "i_size \<le> 2 ^ 63" and "i_size \<le> 2 ^ k"
  shows "Log2Ceil i_size \<le> k"
proof (rule ccontr)
  assume "\<not> Log2Ceil i_size \<le> k"
  then have "k \<le> Log2Ceil i_size - 1" and "Log2Ceil i_size \<noteq> 0" by auto
  then have "(2::nat) ^ k \<le> 2 ^ (Log2Ceil i_size - 1)" by (intro power_increasing) auto
  also have "\<dots> < i_size"
    using log2ceil_loop_spec [of 1 0 i_size] assms(1) \<open>Log2Ceil i_size \<noteq> 0\<close>
    by (simp add: Log2Ceil_def)
  finally have "(2::nat) ^ k < i_size" .
  with assms(2) show False by simp
qed

subsection \<open>The pool interface\<close>

text \<open>
  What the clients of the pool macros rely on: an entry handed out is not live already, and
  a released entry stops being live.  \<open>inv m live p\<close> relates the memory, the entries in use
  and the pool; \<open>grows\<close> is the growth of the memory by somebody else's allocations.
\<close>

locale prealloc_pool =
  fixes inv :: "'m \<Rightarrow> addr set \<Rightarrow> 'p \<Rightarrow> bool"
    and grows :: "'m \<Rightarrow> 'm \<Rightarrow> bool"
    and get :: "'m \<Rightarrow> 'p \<Rightarrow> addr option \<times> 'p \<times> 'm"
    and release :: "addr \<Rightarrow> 'p \<Rightarrow> 'p"
  assumes get_some: "inv m live p \<Longrightarrow> get m p = (Some a, p', m') \<Longrightarrow> a \<notin> live \<and> inv m' (insert a live) p'"
    and get_none: "inv m live p \<Longrightarrow> get m p = (None, p', m') \<Longrightarrow> inv m' live p'"
    and get_grows: "get m p = (r, p', m') \<Longrightarrow> grows m m'"
    and release_live: "inv m live p \<Longrightarrow> a \<in> live \<Longrightarrow> inv m (live - {a}) (release a p)"
    and inv_grows: "inv m live p \<Longrightarrow> grows m m' \<Longrightarrow> inv m' live p"
begin

text \<open>Two entries taken one after the other, with foreign allocations in between, differ.\<close>

lemma get_twice_distinct:
  assumes "inv m live p" and "get m p = (Some a, p', m')" and "grows m' m2"
    and "get m2 p' = (Some b, p3, m3)"
  shows "a \<noteq> b \<and> inv m3 (insert b (insert a live)) p3"
proof -
  from assms(1,2) have "inv m' (insert a live) p'" by (blast dest: get_some)
  then have "inv m2 (insert a live) p'" using assms(3) by (rule inv_grows)
  with assms(4) show ?thesis using get_some by fastforce
qed

text \<open>Taking an entry and releasing it leaves the set of live entries as it was.\<close>

lemma get_release:
  assumes "inv m live p" and "get m p = (Some a, p', m')"
  shows "inv m' live (release a p')"
proof -
  from assms have "a \<notin> live" and "inv m' (insert a live) p'" by (blast dest: get_some)+
  then show ?thesis using release_live [of m' "insert a live" p' a] by simp
qed

end

definition pool_inv :: "mem \<Rightarrow> addr set \<Rightarrow> addr list \<Rightarrow> bool" where
  "pool_inv m live pool \<longleftrightarrow> distinct pool \<and> live \<inter> set pool = {} \<and> (\<forall>a \<in> live \<union> set pool. a < brk m)"

definition mem_grows :: "mem \<Rightarrow> mem \<Rightarrow> bool" where
  "mem_grows m m' \<longleftrightarrow> brk m \<le> brk m'"

lemma mem_grows_refl [simp]: "mem_grows m m"
  by (simp add: mem_grows_def)

lemma mem_grows_trans: "mem_grows a b \<Longrightarrow> mem_grows b c \<Longrightarrow> mem_grows a c"
  by (simp add: mem_grows_def)

lemma Mem_Alloc_grows: "Mem_Alloc m n = (r, m') \<Longrightarrow> mem_grows m m'"
  by (auto simp: Mem_Alloc_def mem_grows_def split: if_splits)

lemma pool_inv_grows: "pool_inv m live p \<Longrightarrow> mem_grows m m' \<Longrightarrow> pool_inv m' live p"
  unfolding pool_inv_def mem_grows_def using less_le_trans by blast

lemma STUFF_PREALLOC_inv:
  assumes "pool_inv m live []" and "STUFF_PREALLOC m nb sz = (p, m')"
  shows "pool_inv m' live p \<and> mem_grows m m'"
  using assms
  by (force simp: STUFF_PREALLOC_def Mem_Alloc_def pool_inv_def mem_grows_def Let_def
      split: if_splits option.splits)

lemma GET_PREALLOC_cases:
  assumes "GET_PREALLOC m pool nb sz = (r, p', m')" and "pool_inv m live pool"
  obtains q where "pool_inv m' live q" and "mem_grows m m'"
    and "(r, p') = (case q of [] \<Rightarrow> (None, []) | e # rest \<Rightarrow> (Some e, rest))"
proof -
  define qm where "qm = (if pool = [] \<and> nb \<noteq> 0 then STUFF_PREALLOC m nb sz else (pool, m))"
  have "pool_inv (snd qm) live (fst qm) \<and> mem_grows m (snd qm)"
    using assms(2) STUFF_PREALLOC_inv [of m live nb sz "fst qm" "snd qm"]
    by (auto simp: qm_def split: if_splits)
  moreover have "m' = snd qm \<and> (r, p') = (case fst qm of [] \<Rightarrow> (None, []) | e # rest \<Rightarrow> (Some e, rest))"
    using assms(1) unfolding GET_PREALLOC_def Let_def qm_def [symmetric]
    by (cases qm) (auto split: list.splits)
  ultimately show ?thesis using that by blast
qed

interpretation stuff: prealloc_pool pool_inv mem_grows "\<lambda>m p. GET_PREALLOC m p nb sz" RELEASE_PREALLOC
  for nb sz
proof
  show "a \<notin> live \<and> pool_inv m' (insert a live) p'"
    if "pool_inv m live p" "GET_PREALLOC m p nb sz = (Some a, p', m')" for m live p a p' m'
    using that(2,1) by (rule GET_PREALLOC_cases) (auto simp: pool_inv_def split: list.splits)
  show "pool_inv m' live p'"
    if "pool_inv m live p" "GET_PREALLOC m p nb sz = (None, p', m')" for m live p p' m'
    using that(2,1) by (rule GET_PREALLOC_cases) (auto simp: pool_inv_def split: list.splits)
  show "mem_grows m m'" if "GET_PREALLOC m p nb sz = (r, p', m')" for m p r p' m'
    using that by (auto simp: GET_PREALLOC_def STUFF_PREALLOC_def Mem_Alloc_def mem_grows_def Let_def
        split: if_splits list.splits option.splits prod.splits)
  show "pool_inv m (live - {a}) (RELEASE_PREALLOC a p)" if "pool_inv m live p" "a \<in> live" for m live p a
    using that by (auto simp: pool_inv_def RELEASE_PREALLOC_def)
  show "pool_inv m' live p" if "pool_inv m live p" "mem_grows m m'" for m live p m'
    using that by (rule pool_inv_grows)
qed

end
