(* ===== verification/Hash_Table.thy ===== *)
theory Hash_Table
  imports Rbt_Tree Stuff_Alloc
begin

text \<open>
  The hash table of \<^verbatim>\<open>HashTable/HashTable.c\<close>: an array of red-black trees indexed by
  \<open>hash_func_key\<close>, each tree ordered by \<open>hash_func_rbt\<close>, with one pool of nodes and one pool
  of \<open>hash_data_t\<close> per index.  Key and value buffers are the contents they point to
  (\<open>'k\<close>, \<open>'v\<close>); the callbacks of \<open>hash_parameter_t\<close> are fields of the model's record as they
  are of the C structure.  An operation returns \<open>None\<close> where the C code would follow a null
  pointer or index out of an array; the lemmas show that it never does.  Each operation
  holds the read-write lock of its index throughout and is one atomic step here (the lock
  itself is the subject of the theory \<^verbatim>\<open>RW_Lock\<close>).
\<close>

subsection \<open>Data\<close>

datatype hash_rc =
    HASHTABLE_SUCCESS
  | HASHTABLE_UNKNOWN_HASH_TYPE
  | HASHTABLE_INSERT_MALLOC_ERROR
  | HASHTABLE_ERROR_NO_SUCH_KEY
  | HASHTABLE_ERROR_KEY_ALREADY_EXISTS
  | HASHTABLE_ERROR_INVALID_ARGUMENT

datatype hashtable_set_how =
    HASHTABLE_SET_HOW_TEST_ONLY
  | HASHTABLE_SET_HOW_SET_OVERWRITE
  | HASHTABLE_SET_HOW_SET_NO_OVERWRITE

record 'k hash_parameter =
  index_size :: u32
  alphabet_length :: u32
  nb_node_prealloc :: u32
  hash_func_key :: "'k \<Rightarrow> u64"
  hash_func_rbt :: "'k \<Rightarrow> u64"
  compare_key :: "'k \<Rightarrow> 'k \<Rightarrow> int"

record hash_stat_op =
  nb_set :: u32
  nb_test :: u32
  nb_get :: u32
  nb_del :: u32

record hash_stat_dynamic =
  nb_entries :: u32
  st_ok :: hash_stat_op
  st_err :: hash_stat_op
  st_notfound :: hash_stat_op

record ('k, 'v) hash_data =
  pdata_id :: addr
  buffkey :: 'k
  buffval :: 'v

record ('k, 'v) hash_table =
  parameter :: "'k hash_parameter"
  stat_dynamic :: "hash_stat_dynamic list"
  array_rbt :: "('k, 'v) hash_data rbt_head list"
  node_prealloc :: "addr list list"
  pdata_prealloc :: "addr list list"

text \<open>Sizes of the pooled structures (LP64 layout).\<close>

definition sizeof_rbt_node :: nat where "sizeof_rbt_node = 56"
definition sizeof_hash_data :: nat where "sizeof_hash_data = 40"

subsection \<open>Hash functions\<close>

text \<open>
  The bytes of a key; \<open>char\<close> is signed, so \<open>(unsigned int) c\<close> sign-extends it before it is
  added to the \<open>unsigned long\<close> sum.
\<close>

fun horner :: "u32 \<Rightarrow> u32 \<Rightarrow> u8 list \<Rightarrow> u64 \<Rightarrow> u64" where
  "horner alen isz [] h = h"
| "horner alen isz (c # cs) h =
     horner alen isz cs ((ucast alen * h + ucast (scast c :: u32)) mod ucast isz)"

definition simple_hash_func :: "u8 list hash_parameter \<Rightarrow> u8 list \<Rightarrow> u64" where
  "simple_hash_func par buffclef = horner (alphabet_length par) (index_size par) buffclef 0"

definition double_hash_func :: "u8 list hash_parameter \<Rightarrow> u8 list \<Rightarrow> u64" where
  "double_hash_func par buffclef =
     (let firsthash = simple_hash_func par buffclef
      in (firsthash + (8 - (firsthash mod 8))) mod ucast (index_size par))"

text \<open>
  The values as the operations use them: \<open>hashval\<close> is an \<open>unsigned int\<close>, \<open>rbt_value\<close> an
  \<open>int\<close>, both truncated from the \<open>unsigned long\<close> of the callback.
\<close>

definition hashval :: "'k hash_parameter \<Rightarrow> 'k \<Rightarrow> nat" where
  "hashval par k = unat (ucast (hash_func_key par k) :: u32)"

definition rbtval :: "'k hash_parameter \<Rightarrow> 'k \<Rightarrow> int" where
  "rbtval par k = sint (ucast (hash_func_rbt par k) :: u32)"

definition key_eq :: "'k hash_parameter \<Rightarrow> 'k \<Rightarrow> 'k \<Rightarrow> bool" where
  "key_eq par a b \<longleftrightarrow> compare_key par a b = 0"

subsection \<open>Statistics\<close>

definition stat_op_zero :: hash_stat_op where
  "stat_op_zero = \<lparr>nb_set = 0, nb_test = 0, nb_get = 0, nb_del = 0\<rparr>"

definition stat_zero :: hash_stat_dynamic where
  "stat_zero = \<lparr>nb_entries = 0, st_ok = stat_op_zero, st_err = stat_op_zero, st_notfound = stat_op_zero\<rparr>"

definition bump :: "('k, 'v) hash_table \<Rightarrow> nat \<Rightarrow> (hash_stat_dynamic \<Rightarrow> hash_stat_dynamic) \<Rightarrow> ('k, 'v) hash_table" where
  "bump ht i f = ht\<lparr>stat_dynamic := (stat_dynamic ht)[i := f (stat_dynamic ht ! i)]\<rparr>"

definition ok_test :: "hash_stat_dynamic \<Rightarrow> hash_stat_dynamic" where
  "ok_test s = s\<lparr>st_ok := (st_ok s)\<lparr>nb_test := nb_test (st_ok s) + 1\<rparr>\<rparr>"

definition err_test :: "hash_stat_dynamic \<Rightarrow> hash_stat_dynamic" where
  "err_test s = s\<lparr>st_err := (st_err s)\<lparr>nb_test := nb_test (st_err s) + 1\<rparr>\<rparr>"

definition notfound_test :: "hash_stat_dynamic \<Rightarrow> hash_stat_dynamic" where
  "notfound_test s = s\<lparr>st_notfound := (st_notfound s)\<lparr>nb_test := nb_test (st_notfound s) + 1\<rparr>\<rparr>"

definition err_set :: "hash_stat_dynamic \<Rightarrow> hash_stat_dynamic" where
  "err_set s = s\<lparr>st_err := (st_err s)\<lparr>nb_set := nb_set (st_err s) + 1\<rparr>\<rparr>"

definition ok_set :: "hash_stat_dynamic \<Rightarrow> hash_stat_dynamic" where
  "ok_set s = s\<lparr>nb_entries := nb_entries s + 1, st_ok := (st_ok s)\<lparr>nb_set := nb_set (st_ok s) + 1\<rparr>\<rparr>"

definition notfound_get :: "hash_stat_dynamic \<Rightarrow> hash_stat_dynamic" where
  "notfound_get s = s\<lparr>st_notfound := (st_notfound s)\<lparr>nb_get := nb_get (st_notfound s) + 1\<rparr>\<rparr>"

definition ok_get :: "hash_stat_dynamic \<Rightarrow> hash_stat_dynamic" where
  "ok_get s = s\<lparr>st_ok := (st_ok s)\<lparr>nb_get := nb_get (st_ok s) + 1\<rparr>\<rparr>"

definition notfound_del :: "hash_stat_dynamic \<Rightarrow> hash_stat_dynamic" where
  "notfound_del s = s\<lparr>st_notfound := (st_notfound s)\<lparr>nb_del := nb_del (st_notfound s) + 1\<rparr>\<rparr>"

definition ok_del :: "hash_stat_dynamic \<Rightarrow> hash_stat_dynamic" where
  "ok_del s = s\<lparr>nb_entries := nb_entries s - 1, st_ok := (st_ok s)\<lparr>nb_del := nb_del (st_ok s) + 1\<rparr>\<rparr>"

subsection \<open>Key_Locate\<close>

text \<open>The loop over the nodes that carry the searched \<open>rbt_value\<close>.\<close>

function locate_loop :: "'k hash_parameter \<Rightarrow> 'k \<Rightarrow> int \<Rightarrow> ('k, 'v) hash_data pos option \<Rightarrow> ('k, 'v) hash_data pos option" where
  "locate_loop par k v None = None"
| "locate_loop par k v (Some pn) =
     (if rbt_value (pnode pn) = v then
        (if compare_key par k (buffkey (rbt_opaq (pnode pn))) = 0 then Some pn
         else locate_loop par k v (RBT_INCREMENT pn))
      else None)"
  by pat_completeness auto
termination
proof (relation "measure (\<lambda>(_, _, _, q). case q of None \<Rightarrow> 0 | Some q \<Rightarrow> Suc (length (post q)))")
  fix par :: "'k hash_parameter" and k and v and pn :: "('k, 'v) hash_data pos"
  show "((par, k, v, RBT_INCREMENT pn), par, k, v, Some pn)
      \<in> measure (\<lambda>(_, _, _, q). case q of None \<Rightarrow> 0 | Some q \<Rightarrow> Suc (length (post q)))"
    using RBT_INCREMENT_decreases [of pn] by (cases "RBT_INCREMENT pn") auto
qed simp

definition Key_Locate :: "('k, 'v) hash_table \<Rightarrow> 'k \<Rightarrow> nat \<Rightarrow> int \<Rightarrow> ('k, 'v) hash_data pos option" where
  "Key_Locate ht k hv rv = locate_loop (parameter ht) k rv (RBT_FIND_LEFT (array_rbt ht ! hv) rv)"

subsection \<open>Operations\<close>

text \<open>
  \<open>prealloc_slots\<close> is the loop that fills the two pools of every index: NULL (\<open>None\<close>) as
  soon as one of the preallocations fails.
\<close>

fun prealloc_slots :: "mem \<Rightarrow> nat \<Rightarrow> nat \<Rightarrow> (addr list list \<times> addr list list) option \<times> mem" where
  "prealloc_slots m nb 0 = (Some ([], []), m)"
| "prealloc_slots m nb (Suc n) =
     (let (np, m1) = STUFF_PREALLOC m nb sizeof_rbt_node
      in if np = [] then (None, m1)
         else let (pp, m2) = STUFF_PREALLOC m1 nb sizeof_hash_data
              in if pp = [] then (None, m2)
                 else (case prealloc_slots m2 nb n of
                         (None, m3) \<Rightarrow> (None, m3)
                       | (Some (nps, pps), m3) \<Rightarrow> (Some (np # nps, pp # pps), m3)))"

fun alloc_all :: "mem \<Rightarrow> nat \<Rightarrow> bool \<times> mem" where
  "alloc_all m 0 = (True, m)"
| "alloc_all m (Suc n) = (case Mem_Alloc m 1 of (None, m') \<Rightarrow> (False, m') | (Some _, m') \<Rightarrow> alloc_all m' n)"

text \<open>
  \<open>attr_ok\<close> is the outcome of \<open>pthread_mutexattr_init\<close>, \<open>lock_ok i\<close> that of the \<open>i\<close>-th
  \<open>rw_lock_init\<close>.  One allocation comes before the attribute (the table), five after it
  (trees, statistics, locks and the two arrays of pools).
\<close>

definition HashTable_Init :: "mem \<Rightarrow> bool \<Rightarrow> (nat \<Rightarrow> bool) \<Rightarrow> 'k hash_parameter \<Rightarrow> ('k, 'v) hash_table option \<times> mem" where
  "HashTable_Init m attr_ok lock_ok hparam =
     (case alloc_all m 1 of
        (False, m1) \<Rightarrow> (None, m1)
      | (True, m1) \<Rightarrow>
          if \<not> attr_ok then (None, m1)
          else (case alloc_all m1 5 of
             (False, m2) \<Rightarrow> (None, m2)
           | (True, m2) \<Rightarrow>
               (case prealloc_slots m2 (unat (nb_node_prealloc hparam)) (unat (index_size hparam)) of
                  (None, m3) \<Rightarrow> (None, m3)
                | (Some (nps, pps), m3) \<Rightarrow>
                    if \<forall>i < unat (index_size hparam). lock_ok i
                    then (Some \<lparr>parameter = hparam,
                                stat_dynamic = replicate (unat (index_size hparam)) stat_zero,
                                array_rbt = replicate (unat (index_size hparam)) RBT_HEAD_INIT,
                                node_prealloc = nps, pdata_prealloc = pps\<rparr>, m3)
                    else (None, m3))))"

definition put_rbt :: "('k, 'v) hash_table \<Rightarrow> nat \<Rightarrow> ('k, 'v) hash_data rbt_head \<Rightarrow> ('k, 'v) hash_table" where
  "put_rbt ht i h = ht\<lparr>array_rbt := (array_rbt ht)[i := h]\<rparr>"

definition put_pools :: "('k, 'v) hash_table \<Rightarrow> nat \<Rightarrow> addr list \<Rightarrow> addr list \<Rightarrow> ('k, 'v) hash_table" where
  "put_pools ht i np pp =
     ht\<lparr>node_prealloc := (node_prealloc ht)[i := np], pdata_prealloc := (pdata_prealloc ht)[i := pp]\<rparr>"

text \<open>
  The branch of \<open>HashTable_Test_And_Set\<close> that creates a new entry.  When the second pool
  cannot give a \<open>hash_data_t\<close>, the node taken from the first pool is not put back.
\<close>

definition insert_new :: "mem \<Rightarrow> ('k, 'v) hash_table \<Rightarrow> nat \<Rightarrow> int \<Rightarrow> 'k \<Rightarrow> 'v \<Rightarrow> (hash_rc \<times> mem \<times> ('k, 'v) hash_table) option" where
  "insert_new m ht hv rv k v =
     (let tete_rbt = array_rbt ht ! hv;
          pn = RBT_FIND tete_rbt rv;
          nb = unat (nb_node_prealloc (parameter ht));
          (qn, np, m1) = GET_PREALLOC m (node_prealloc ht ! hv) nb sizeof_rbt_node
      in case qn of
           None \<Rightarrow> Some (HASHTABLE_INSERT_MALLOC_ERROR, m1,
                         bump (put_pools ht hv np (pdata_prealloc ht ! hv)) hv err_set)
         | Some qn \<Rightarrow>
             (let (pdata, pp, m2) = GET_PREALLOC m1 (pdata_prealloc ht ! hv) nb sizeof_hash_data
              in case pdata of
                   None \<Rightarrow> Some (HASHTABLE_INSERT_MALLOC_ERROR, m2, bump (put_pools ht hv np pp) hv err_set)
                 | Some pdata \<Rightarrow> do {
                     h \<leftarrow> RBT_INSERT tete_rbt
                           \<lparr>nid = qn, rbt_value = rv,
                            rbt_opaq = \<lparr>pdata_id = pdata, buffkey = k, buffval = v\<rparr>\<rparr> pn;
                     Some (HASHTABLE_SUCCESS, m2, bump (put_rbt (put_pools ht hv np pp) hv h) hv ok_set) }))"

definition overwrite :: "('k, 'v) hash_table \<Rightarrow> nat \<Rightarrow> ('k, 'v) hash_data pos \<Rightarrow> 'k \<Rightarrow> 'v \<Rightarrow> ('k, 'v) hash_table option" where
  "overwrite ht hv pn k v = do {
     h \<leftarrow> RBT_OPAQ_write (array_rbt ht ! hv) pn
           ((rbt_opaq (pnode pn))\<lparr>buffkey := k, buffval := v\<rparr>);
     Some (bump (put_rbt ht hv h) hv ok_set) }"

text \<open>The operations after their check of the arguments.\<close>

definition Test_And_Set :: "mem \<Rightarrow> ('k, 'v) hash_table \<Rightarrow> 'k \<Rightarrow> 'v \<Rightarrow> hashtable_set_how \<Rightarrow> (hash_rc \<times> mem \<times> ('k, 'v) hash_table) option" where
  "Test_And_Set m ht k v how =
     (let hv = hashval (parameter ht) k; rv = rbtval (parameter ht) k
      in if hv \<ge> length (array_rbt ht) then None
         else case Key_Locate ht k hv rv of
           Some pn \<Rightarrow>
             (case how of
                HASHTABLE_SET_HOW_TEST_ONLY \<Rightarrow> Some (HASHTABLE_SUCCESS, m, bump ht hv ok_test)
              | HASHTABLE_SET_HOW_SET_NO_OVERWRITE \<Rightarrow>
                  Some (HASHTABLE_ERROR_KEY_ALREADY_EXISTS, m, bump ht hv err_test)
              | HASHTABLE_SET_HOW_SET_OVERWRITE \<Rightarrow> do {
                  ht' \<leftarrow> overwrite ht hv pn k v;
                  Some (HASHTABLE_SUCCESS, m, ht') })
         | None \<Rightarrow>
             (if how = HASHTABLE_SET_HOW_TEST_ONLY
              then Some (HASHTABLE_ERROR_NO_SUCH_KEY, m, bump ht hv notfound_test)
              else insert_new m ht hv rv k v))"

definition Get :: "('k, 'v) hash_table \<Rightarrow> 'k \<Rightarrow> (hash_rc \<times> 'v option \<times> ('k, 'v) hash_table) option" where
  "Get ht k =
     (let hv = hashval (parameter ht) k; rv = rbtval (parameter ht) k
      in if hv \<ge> length (array_rbt ht) then None
         else case Key_Locate ht k hv rv of
           None \<Rightarrow> Some (HASHTABLE_ERROR_NO_SUCH_KEY, None, bump ht hv notfound_get)
         | Some pn \<Rightarrow> Some (HASHTABLE_SUCCESS, Some (buffval (rbt_opaq (pnode pn))), bump ht hv ok_get))"

definition Del :: "('k, 'v) hash_table \<Rightarrow> 'k \<Rightarrow> (hash_rc \<times> ('k \<times> 'v) option \<times> ('k, 'v) hash_table) option" where
  "Del ht k =
     (let hv = hashval (parameter ht) k; rv = rbtval (parameter ht) k
      in if hv \<ge> length (array_rbt ht) then None
         else case Key_Locate ht k hv rv of
           None \<Rightarrow> Some (HASHTABLE_ERROR_NO_SUCH_KEY, None, bump ht hv notfound_del)
         | Some pn \<Rightarrow> do {
             h \<leftarrow> RBT_UNLINK (array_rbt ht ! hv) pn;
             let pdata = rbt_opaq (pnode pn);
                 ht' = put_pools (put_rbt ht hv h) hv
                         (RELEASE_PREALLOC (nid (pnode pn)) (node_prealloc ht ! hv))
                         (RELEASE_PREALLOC (pdata_id pdata) (pdata_prealloc ht ! hv))
             in Some (HASHTABLE_SUCCESS, Some (buffkey pdata, buffval pdata), bump ht' hv ok_del) })"

text \<open>
  The exported operations, with the null-pointer checks of their arguments.  The key and
  value handed back by \<open>HashTable_Del\<close> are what it stores through its two last arguments
  when they are not NULL.
\<close>

definition HashTable_Test_And_Set :: "mem \<Rightarrow> ('k, 'v) hash_table option \<Rightarrow> 'k option \<Rightarrow> 'v option \<Rightarrow> hashtable_set_how \<Rightarrow> (hash_rc \<times> mem \<times> ('k, 'v) hash_table option) option" where
  "HashTable_Test_And_Set m ht k v how =
     (case (ht, k, v) of
        (Some ht', Some k', Some v') \<Rightarrow>
          map_option (\<lambda>(rc, m', h). (rc, m', Some h)) (Test_And_Set m ht' k' v' how)
      | _ \<Rightarrow> Some (HASHTABLE_ERROR_INVALID_ARGUMENT, m, ht))"

definition HashTable_Get :: "('k, 'v) hash_table option \<Rightarrow> 'k option \<Rightarrow> bool \<Rightarrow> (hash_rc \<times> 'v option \<times> ('k, 'v) hash_table option) option" where
  "HashTable_Get ht k has_buffval =
     (case (ht, k) of
        (Some ht', Some k') \<Rightarrow>
          (if has_buffval then map_option (\<lambda>(rc, v, h). (rc, v, Some h)) (Get ht' k')
           else Some (HASHTABLE_ERROR_INVALID_ARGUMENT, None, ht))
      | _ \<Rightarrow> Some (HASHTABLE_ERROR_INVALID_ARGUMENT, None, ht))"

definition HashTable_Del :: "('k, 'v) hash_table option \<Rightarrow> 'k option \<Rightarrow> (hash_rc \<times> ('k \<times> 'v) option \<times> ('k, 'v) hash_table option) option" where
  "HashTable_Del ht k =
     (case (ht, k) of
        (Some ht', Some k') \<Rightarrow> map_option (\<lambda>(rc, kv, h). (rc, kv, Some h)) (Del ht' k')
      | _ \<Rightarrow> Some (HASHTABLE_ERROR_INVALID_ARGUMENT, None, ht))"

definition HashTable_GetSize :: "('k, 'v) hash_table option \<Rightarrow> u32" where
  "HashTable_GetSize pht =
     (case pht of
        None \<Rightarrow> 5
      | Some ht \<Rightarrow> foldl (\<lambda>nb i. nb + nb_entries (stat_dynamic ht ! i)) 0
                     [0 ..< unat (index_size (parameter ht))])"

record hash_stat_computed =
  min_rbt_num_node :: u32
  max_rbt_num_node :: u32
  average_rbt_num_node :: u32

record hash_stat =
  dynamic :: hash_stat_dynamic
  computed :: hash_stat_computed

definition add_op :: "hash_stat_op \<Rightarrow> hash_stat_op \<Rightarrow> hash_stat_op" where
  "add_op a b = \<lparr>nb_set = nb_set a + nb_set b, nb_test = nb_test a + nb_test b,
                 nb_get = nb_get a + nb_get b, nb_del = nb_del a + nb_del b\<rparr>"

definition stats_turn :: "('k, 'v) hash_table \<Rightarrow> hash_stat \<Rightarrow> nat \<Rightarrow> hash_stat" where
  "stats_turn ht s i =
     (let n = rbt_num_node (array_rbt ht ! i); c = computed s; d = dynamic s; e = stat_dynamic ht ! i
      in \<lparr>dynamic = \<lparr>nb_entries = nb_entries d + nb_entries e, st_ok = add_op (st_ok d) (st_ok e),
                      st_err = add_op (st_err d) (st_err e),
                      st_notfound = add_op (st_notfound d) (st_notfound e)\<rparr>,
          computed = \<lparr>min_rbt_num_node = (if n < min_rbt_num_node c then n else min_rbt_num_node c),
                       max_rbt_num_node = (if n > max_rbt_num_node c then n else max_rbt_num_node c),
                       average_rbt_num_node = average_rbt_num_node c + n\<rparr>\<rparr>)"

definition HashTable_GetStats :: "('k, 'v) hash_table \<Rightarrow> hash_stat" where
  "HashTable_GetStats ht =
     (let s = foldl (stats_turn ht)
                \<lparr>dynamic = stat_zero,
                 computed = \<lparr>min_rbt_num_node = 0x80000000, max_rbt_num_node = 0, average_rbt_num_node = 0\<rparr>\<rparr>
                [0 ..< unat (index_size (parameter ht))]
      in s\<lparr>computed := (computed s)\<lparr>average_rbt_num_node :=
             average_rbt_num_node (computed s) div index_size (parameter ht)\<rparr>\<rparr>)"

subsection \<open>The invariant and the abstract map\<close>

definition params_ok :: "'k hash_parameter \<Rightarrow> bool" where
  "params_ok par \<longleftrightarrow> equivp (key_eq par)
     \<and> (\<forall>a b. key_eq par a b \<longrightarrow> hashval par a = hashval par b \<and> rbtval par a = rbtval par b)
     \<and> (\<forall>k. hashval par k < unat (index_size par))"

abbreviation dkey :: "('k, 'v) hash_data rbt_node \<Rightarrow> 'k" where
  "dkey d \<equiv> buffkey (rbt_opaq d)"

abbreviation entries_of :: "('k, 'v) hash_table \<Rightarrow> nat \<Rightarrow> ('k, 'v) hash_data rbt_node list" where
  "entries_of ht i \<equiv> inorder (root (array_rbt ht ! i))"

definition keys_apart :: "'k hash_parameter \<Rightarrow> ('k, 'v) hash_data rbt_node list \<Rightarrow> bool" where
  "keys_apart par = sorted_wrt (\<lambda>a b. \<not> key_eq par (dkey a) (dkey b))"

definition tree_ok :: "'k hash_parameter \<Rightarrow> nat \<Rightarrow> ('k, 'v) hash_data rbt_head \<Rightarrow> bool" where
  "tree_ok par i h \<longleftrightarrow> rbt_inv h \<and> keys_apart par (inorder (root h))
     \<and> (\<forall>d \<in> set (inorder (root h)). hashval par (dkey d) = i \<and> rbt_value d = rbtval par (dkey d))"

definition slot_ids :: "('k, 'v) hash_table \<Rightarrow> nat \<Rightarrow> addr list" where
  "slot_ids ht i = map nid (entries_of ht i) @ map (pdata_id \<circ> rbt_opaq) (entries_of ht i)
     @ node_prealloc ht ! i @ pdata_prealloc ht ! i"

definition stat_ok :: "hash_stat_dynamic \<Rightarrow> bool" where
  "stat_ok s \<longleftrightarrow> nb_entries s = nb_set (st_ok s) - nb_del (st_ok s)"

text \<open>
  \<open>ids_apart\<close>: no node and no \<open>hash_data_t\<close> is in two places (trees and pools of the whole
  table), and all of them were handed out by the allocator.
\<close>

definition ids_apart :: "addr \<Rightarrow> addr list list \<Rightarrow> bool" where
  "ids_apart b xss \<longleftrightarrow> distinct (concat xss) \<and> (\<forall>a \<in> set (concat xss). a < b)"

definition ht_inv :: "mem \<Rightarrow> ('k, 'v) hash_table \<Rightarrow> bool" where
  "ht_inv m ht \<longleftrightarrow>
     (let n = unat (index_size (parameter ht)) in
      params_ok (parameter ht)
      \<and> length (array_rbt ht) = n \<and> length (stat_dynamic ht) = n
      \<and> length (node_prealloc ht) = n \<and> length (pdata_prealloc ht) = n
      \<and> (\<forall>i < n. tree_ok (parameter ht) i (array_rbt ht ! i) \<and> stat_ok (stat_dynamic ht ! i))
      \<and> ids_apart (brk m) (map (slot_ids ht) [0 ..< n]))"

definition entry_for :: "'k hash_parameter \<Rightarrow> 'k \<Rightarrow> ('k, 'v) hash_data rbt_node list \<Rightarrow> ('k, 'v) hash_data rbt_node option" where
  "entry_for par k xs = find (\<lambda>d. key_eq par k (dkey d)) xs"

definition ht_lookup :: "('k, 'v) hash_table \<Rightarrow> 'k \<Rightarrow> 'v option" where
  "ht_lookup ht k = map_option (buffval \<circ> rbt_opaq)
     (entry_for (parameter ht) k (entries_of ht (hashval (parameter ht) k)))"

subsection \<open>Key_Locate finds the entry of a key\<close>

lemma entry_for_None: "entry_for par k xs = None \<longleftrightarrow> (\<forall>d \<in> set xs. \<not> key_eq par k (dkey d))"
  by (auto simp: entry_for_def find_None_iff)

lemma key_eq_laws:
  assumes "params_ok par"
  shows "key_eq par a a" "key_eq par a b \<Longrightarrow> key_eq par b a"
    "key_eq par a b \<Longrightarrow> key_eq par b c \<Longrightarrow> key_eq par a c"
    "key_eq par a b \<Longrightarrow> hashval par a = hashval par b" "key_eq par a b \<Longrightarrow> rbtval par a = rbtval par b"
    "hashval par k < unat (index_size par)"
  using assms unfolding params_ok_def by (blast dest: equivp_reflp equivp_symp equivp_transp)+

lemma key_eq_cong:
  assumes "params_ok par" and "key_eq par a b"
  shows "key_eq par a c \<longleftrightarrow> key_eq par b c" "key_eq par c a \<longleftrightarrow> key_eq par c b"
  using assms by (blast dest: key_eq_laws(2,3) [OF assms(1)])+

lemma entry_for_append:
  "entry_for par k (us @ vs) = (case entry_for par k us of None \<Rightarrow> entry_for par k vs | Some d \<Rightarrow> Some d)"
  by (induction us) (auto simp: entry_for_def)

lemma entry_for_middle:
  assumes "params_ok par" and "keys_apart par (xs @ d # ys)"
  shows "entry_for par k (xs @ d # ys) = (if key_eq par k (dkey d) then Some d else entry_for par k (xs @ ys))"
proof -
  have "entry_for par k xs = None" if "key_eq par k (dkey d)"
    unfolding entry_for_None
  proof
    fix e assume "e \<in> set xs"
    then have "\<not> key_eq par (dkey e) (dkey d)"
      using assms(2) by (simp add: keys_apart_def sorted_wrt_append)
    then show "\<not> key_eq par k (dkey e)"
      using that key_eq_laws(2,3) [OF assms(1)] by blast
  qed
  moreover have "entry_for par k (d # ys) = (if key_eq par k (dkey d) then Some d else entry_for par k ys)"
    by (simp add: entry_for_def)
  ultimately show ?thesis unfolding entry_for_append by (auto split: option.splits)
qed

lemma locate_loop_correct:
  assumes "at_pos t q" and "sorted (values_of (inorder t))" and "v \<le> rbt_value (pnode q)"
  shows "case locate_loop par k v (Some q) of
      None \<Rightarrow> \<forall>d \<in> set (pnode q # post q). rbt_value d = v \<longrightarrow> \<not> key_eq par k (dkey d)
    | Some q' \<Rightarrow> at_pos t q' \<and> key_eq par k (dkey (pnode q'))"
  using assms
proof (induction "length (post q)" arbitrary: q rule: less_induct)
  case less
  have srt: "sorted (values_of (pre q @ pnode q # post q))"
    using less.prems at_pos_inorder by metis
  show ?case
  proof (cases "rbt_value (pnode q) = v \<and> \<not> key_eq par k (dkey (pnode q))")
    case True
    then have step: "locate_loop par k v (Some q) = locate_loop par k v (RBT_INCREMENT q)"
      by (simp add: key_eq_def)
    show ?thesis
    proof (cases "RBT_INCREMENT q")
      case None
      with True step RBT_INCREMENT_correct [OF less.prems(1)] show ?thesis by simp
    next
      case (Some q')
      with RBT_INCREMENT_correct [OF less.prems(1)] have q': "at_pos t q'" "pnode q' # post q' = post q" by auto
      moreover have "v \<le> rbt_value (pnode q')"
        using srt True unfolding q'(2) [symmetric] by (simp add: sorted_append)
      ultimately have "case locate_loop par k v (Some q') of
          None \<Rightarrow> \<forall>d \<in> set (post q). rbt_value d = v \<longrightarrow> \<not> key_eq par k (dkey d)
        | Some q'' \<Rightarrow> at_pos t q'' \<and> key_eq par k (dkey (pnode q''))"
        using less.hyps [OF RBT_INCREMENT_decreases [OF Some] _ less.prems(2)] by metis
      with True show ?thesis unfolding step Some
        by (auto simp del: locate_loop.simps split: option.splits)
    qed
  next
    case False
    with srt less.prems show ?thesis by (force simp: sorted_append key_eq_def)
  qed
qed

lemma Key_Locate_correct:
  assumes par: "params_ok (parameter ht)" and tree: "tree_ok (parameter ht) hv (array_rbt ht ! hv)"
  shows "case Key_Locate ht k hv (rbtval (parameter ht) k) of
      None \<Rightarrow> entry_for (parameter ht) k (entries_of ht hv) = None
    | Some q \<Rightarrow> at_pos (root (array_rbt ht ! hv)) q \<and> key_eq (parameter ht) k (dkey (pnode q))"
proof -
  let ?h = "array_rbt ht ! hv" and ?v = "rbtval (parameter ht) k" and ?par = "parameter ht"
  from tree have inv: "rbt_inv ?h" and vals: "\<forall>d \<in> set (inorder (root ?h)). rbt_value d = rbtval ?par (dkey d)"
    by (auto simp: tree_ok_def)
  have none: "entry_for ?par k (inorder (root ?h)) = None"
    if "\<forall>d \<in> set (inorder (root ?h)). rbt_value d = ?v \<longrightarrow> \<not> key_eq ?par k (dkey d)"
    using that vals key_eq_laws(5) [OF par] unfolding entry_for_None by metis
  show ?thesis
  proof (cases "RBT_FIND_LEFT ?h ?v")
    case None
    with RBT_FIND_LEFT_correct [OF inv, of ?v] have "\<forall>d \<in> set (inorder (root ?h)). rbt_value d \<noteq> ?v" by force
    with none None show ?thesis by (simp add: Key_Locate_def)
  next
    case (Some q)
    with RBT_FIND_LEFT_correct [OF inv, of ?v] have q: "at_pos (root ?h) q" "rbt_value (pnode q) = ?v"
      "\<forall>e \<in> set (pre q). rbt_value e < ?v" by (auto simp: first_at_def)
    from inv have "sorted (values_of (inorder (root ?h)))" by (simp add: rbt_inv_def)
    from locate_loop_correct [OF q(1) this, of ?v ?par k] q at_pos_inorder [OF q(1)] none Some
    show ?thesis unfolding Key_Locate_def by (fastforce split: option.splits simp del: locate_loop.simps)
  qed
qed

subsection \<open>Changing one index of the table\<close>

definition upd :: "('k, 'v) hash_table \<Rightarrow> nat \<Rightarrow> ('k, 'v) hash_data rbt_head \<Rightarrow> addr list \<Rightarrow> addr list \<Rightarrow> hash_stat_dynamic \<Rightarrow> ('k, 'v) hash_table" where
  "upd ht i h np pp st = ht\<lparr>array_rbt := (array_rbt ht)[i := h], node_prealloc := (node_prealloc ht)[i := np],
     pdata_prealloc := (pdata_prealloc ht)[i := pp], stat_dynamic := (stat_dynamic ht)[i := st]\<rparr>"

lemma bump_upd:
  "bump ht i f = upd ht i (array_rbt ht ! i) (node_prealloc ht ! i) (pdata_prealloc ht ! i) (f (stat_dynamic ht ! i))"
  by (simp add: upd_def bump_def)

lemma upd_intros [model_defs]:
  "bump (put_pools ht i np pp) i f = upd ht i (array_rbt ht ! i) np pp (f (stat_dynamic ht ! i))"
  "bump (put_rbt ht i h) i f = upd ht i h (node_prealloc ht ! i) (pdata_prealloc ht ! i) (f (stat_dynamic ht ! i))"
  by (simp_all add: upd_def bump_def put_pools_def put_rbt_def)

lemma bump_put_both:
  "bump (put_rbt (put_pools ht i np pp) i h) i f = upd ht i h np pp (f (stat_dynamic ht ! i))"
  by (simp add: upd_def bump_def put_pools_def put_rbt_def)

lemma upd_simps [simp]:
  "parameter (upd ht i h np pp st) = parameter ht"
  "array_rbt (upd ht i h np pp st) = (array_rbt ht)[i := h]"
  "stat_dynamic (upd ht i h np pp st) = (stat_dynamic ht)[i := st]"
  "node_prealloc (upd ht i h np pp st) = (node_prealloc ht)[i := np]"
  "pdata_prealloc (upd ht i h np pp st) = (pdata_prealloc ht)[i := pp]"
  by (simp_all add: upd_def)

definition ids_of :: "('k, 'v) hash_data rbt_head \<Rightarrow> addr list \<Rightarrow> addr list \<Rightarrow> addr list" where
  "ids_of h np pp = map nid (inorder (root h)) @ map (pdata_id \<circ> rbt_opaq) (inorder (root h)) @ np @ pp"

lemma slot_ids_eq: "slot_ids ht i = ids_of (array_rbt ht ! i) (node_prealloc ht ! i) (pdata_prealloc ht ! i)"
  by (simp add: slot_ids_def ids_of_def)

lemma concat_update_disjoint:
  assumes "distinct (concat xss)" and "i < length xss" and "distinct ys"
    and "set ys \<inter> (set (concat xss) - set (xss ! i)) = {}"
  shows "distinct (concat (xss[i := ys]))"
proof -
  have split: "xss = take i xss @ xss ! i # drop (Suc i) xss" using assms(2) by (rule id_take_nth_drop)
  have "distinct (concat (take i xss) @ xss ! i @ concat (drop (Suc i) xss))"
    using assms(1) by (subst (asm) split) simp
  moreover have "set (concat xss) = set (concat (take i xss)) \<union> set (xss ! i) \<union> set (concat (drop (Suc i) xss))"
    by (subst split) auto
  ultimately have "distinct (concat (take i xss) @ ys @ concat (drop (Suc i) xss))"
    using assms(3,4) by (auto simp del: set_concat)
  then show ?thesis using assms(2) by (simp add: upd_conv_take_nth_drop)
qed

lemma set_concat_update:
  assumes "i < length xss"
  shows "set (concat (xss[i := ys])) \<subseteq> set (concat xss) \<union> set ys"
  using set_update_subset_insert [of xss i ys] by auto

lemma ids_apart_update:
  assumes "ids_apart b xss" and "i < length xss" and "distinct ys"
    and "\<forall>a \<in> set ys. a \<in> set (xss ! i) \<or> b \<le> a" and "\<forall>a \<in> set ys. a < b'" and "b \<le> b'"
  shows "ids_apart b' (xss[i := ys])"
proof -
  have "set ys \<inter> (set (concat xss) - set (xss ! i)) = {}"
    using assms(1,4) unfolding ids_apart_def by (meson DiffE Int_emptyI linorder_not_less)
  with assms have "distinct (concat (xss[i := ys]))"
    by (intro concat_update_disjoint) (simp_all add: ids_apart_def)
  then show ?thesis
    using assms(1,5,6) set_concat_update [OF assms(2), of ys] unfolding ids_apart_def
    by (meson Un_iff less_le_trans subsetD)
qed

lemma ht_inv_upd:
  assumes inv: "ht_inv m ht" and i: "i < unat (index_size (parameter ht))"
    and h: "tree_ok (parameter ht) i h" and st: "stat_ok st"
    and ids: "distinct (ids_of h np pp)" "\<forall>a \<in> set (ids_of h np pp). a \<in> set (slot_ids ht i) \<or> brk m \<le> a"
      "\<forall>a \<in> set (ids_of h np pp). a < brk m'" and g: "mem_grows m m'"
  shows "ht_inv m' (upd ht i h np pp st)"
proof -
  let ?n = "unat (index_size (parameter ht))"
  from inv have L: "length (array_rbt ht) = ?n" "length (stat_dynamic ht) = ?n"
    "length (node_prealloc ht) = ?n" "length (pdata_prealloc ht) = ?n" by (auto simp: ht_inv_def Let_def)
  have "map (slot_ids (upd ht i h np pp st)) [0 ..< ?n] = (map (slot_ids ht) [0 ..< ?n])[i := ids_of h np pp]"
    using i L by (intro nth_equalityI) (auto simp: slot_ids_eq nth_list_update)
  moreover have "ids_apart (brk m') ((map (slot_ids ht) [0 ..< ?n])[i := ids_of h np pp])"
    using inv i ids g by (intro ids_apart_update [of "brk m"]) (auto simp: ht_inv_def Let_def mem_grows_def)
  moreover have "tree_ok (parameter ht) j ((array_rbt ht)[i := h] ! j) \<and> stat_ok ((stat_dynamic ht)[i := st] ! j)"
    if "j < ?n" for j
    using inv h st that L i by (cases "j = i") (auto simp: ht_inv_def Let_def)
  ultimately show ?thesis using inv by (simp add: ht_inv_def Let_def)
qed

subsection \<open>Taking entries from the pools of an index\<close>

abbreviation opt_list :: "'a option \<Rightarrow> 'a list" where
  "opt_list r \<equiv> (case r of None \<Rightarrow> [] | Some a \<Rightarrow> [a])"

lemma upt_Cons_ge:
  assumes "[a ..< b] = x # xs"
  shows "a \<le> x" "\<forall>y \<in> set xs. a \<le> y"
proof -
  have "set (x # xs) = {a ..< b}" by (simp flip: assms)
  then show "a \<le> x" "\<forall>y \<in> set xs. a \<le> y" by (auto simp: set_eq_iff)
qed

lemma GET_PREALLOC_origin:
  "GET_PREALLOC m p nb sz = (r, p', m') \<Longrightarrow> x \<in> set (opt_list r @ p') \<Longrightarrow> x \<in> set p \<or> brk m \<le> x"
  by (auto simp: GET_PREALLOC_def STUFF_PREALLOC_def Mem_Alloc_def Let_def
      split: if_splits list.splits option.splits prod.splits dest: upt_Cons_ge)

lemma get_slot:
  assumes "distinct (A @ p @ C)" and "\<forall>x \<in> set (A @ p @ C). x < brk m" and get: "GET_PREALLOC m p nb sz = (r, p', m')"
  shows "distinct (A @ opt_list r @ p' @ C) \<and> (\<forall>x \<in> set (A @ opt_list r @ p' @ C). x < brk m')"
proof -
  have inv: "pool_inv m (set A \<union> set C) p" using assms(1,2) by (auto simp: pool_inv_def)
  have "pool_inv m' (set A \<union> set C \<union> set_option r) p' \<and> set_option r \<inter> (set A \<union> set C) = {}"
  proof (cases r)
    case None
    with stuff.get_none [OF inv, of nb sz p' m'] get show ?thesis by simp
  next
    case (Some a)
    with stuff.get_some [OF inv, of nb sz a p' m'] get show ?thesis by simp
  qed
  with assms(1) show ?thesis by (auto simp: pool_inv_def split: option.splits)
qed

lemma get_grows: "GET_PREALLOC m p nb sz = (r, p', m') \<Longrightarrow> mem_grows m m'"
  by (rule stuff.get_grows)

subsection \<open>What the operations do to the map\<close>

text \<open>The interface of a store of keys, as the clients of the hash table use it.\<close>

definition upd_map :: "('k \<Rightarrow> 'k \<Rightarrow> bool) \<Rightarrow> ('k \<Rightarrow> 'v option) \<Rightarrow> 'k \<Rightarrow> 'v option \<Rightarrow> 'k \<Rightarrow> 'v option" where
  "upd_map eqk f k x = (\<lambda>k'. if eqk k k' then x else f k')"

definition set_outcome :: "('k \<Rightarrow> 'k \<Rightarrow> bool) \<Rightarrow> ('k \<Rightarrow> 'v option) \<Rightarrow> 'k \<Rightarrow> 'v \<Rightarrow> hashtable_set_how \<Rightarrow> hash_rc \<Rightarrow> ('k \<Rightarrow> 'v option) \<Rightarrow> bool" where
  "set_outcome eqk f k v how rc f' \<longleftrightarrow>
     (case f k of
        Some v0 \<Rightarrow>
          (case how of
             HASHTABLE_SET_HOW_TEST_ONLY \<Rightarrow> rc = HASHTABLE_SUCCESS \<and> f' = f
           | HASHTABLE_SET_HOW_SET_NO_OVERWRITE \<Rightarrow> rc = HASHTABLE_ERROR_KEY_ALREADY_EXISTS \<and> f' = f
           | HASHTABLE_SET_HOW_SET_OVERWRITE \<Rightarrow> rc = HASHTABLE_SUCCESS \<and> f' = upd_map eqk f k (Some v))
      | None \<Rightarrow>
          (if how = HASHTABLE_SET_HOW_TEST_ONLY then rc = HASHTABLE_ERROR_NO_SUCH_KEY \<and> f' = f
           else rc = HASHTABLE_SUCCESS \<and> f' = upd_map eqk f k (Some v)
              \<or> rc = HASHTABLE_INSERT_MALLOC_ERROR \<and> f' = f))"

definition look :: "'k hash_parameter \<Rightarrow> ('k, 'v) hash_data rbt_node list \<Rightarrow> 'k \<Rightarrow> 'v option" where
  "look par xs k = map_option (buffval \<circ> rbt_opaq) (entry_for par k xs)"

lemma ht_lookup_look: "ht_lookup ht k = look (parameter ht) (entries_of ht (hashval (parameter ht) k)) k"
  by (simp add: ht_lookup_def look_def)

lemma look_cong:
  assumes "params_ok par" and "key_eq par a b"
  shows "look par xs a = look par xs b"
  using key_eq_cong(1) [OF assms] by (simp add: look_def entry_for_def)

lemma look_middle:
  assumes "params_ok par" and "keys_apart par (xs @ d # ys)"
  shows "look par (xs @ d # ys) = upd_map (key_eq par) (look par (xs @ ys)) (dkey d) (Some (buffval (rbt_opaq d)))"
  using entry_for_middle [OF assms] key_eq_laws(2) [OF assms(1)]
  by (fastforce simp: look_def upd_map_def)

lemma keys_apart_middle:
  assumes "params_ok par"
  shows "keys_apart par (xs @ d # ys) \<longleftrightarrow> keys_apart par (xs @ ys) \<and> entry_for par (dkey d) (xs @ ys) = None"
  using key_eq_laws(2) [OF assms]
  unfolding keys_apart_def sorted_wrt_append entry_for_None set_append by (simp add: ball_Un) blast

lemma ht_inv_D:
  assumes "ht_inv m ht" and "i = hashval (parameter ht) k"
  shows "params_ok (parameter ht)" "i < unat (index_size (parameter ht))" "i < length (array_rbt ht)"
    "tree_ok (parameter ht) i (array_rbt ht ! i)" "stat_ok (stat_dynamic ht ! i)"
    "distinct (slot_ids ht i)" "\<forall>a \<in> set (slot_ids ht i). a < brk m"
proof -
  let ?n = "unat (index_size (parameter ht))"
  show par: "params_ok (parameter ht)" using assms by (simp add: ht_inv_def Let_def)
  show i: "i < ?n" using key_eq_laws(6) [OF par] assms(2) by simp
  show "i < length (array_rbt ht)" using i assms(1) by (simp add: ht_inv_def Let_def)
  show "tree_ok (parameter ht) i (array_rbt ht ! i)" "stat_ok (stat_dynamic ht ! i)"
    using i assms(1) by (auto simp: ht_inv_def Let_def)
  have ids: "ids_apart (brk m) (map (slot_ids ht) [0 ..< ?n])" using assms(1) by (simp add: ht_inv_def Let_def)
  have "slot_ids ht i \<in> set (map (slot_ids ht) [0 ..< ?n])" using i by simp
  then show "distinct (slot_ids ht i)" "\<forall>a \<in> set (slot_ids ht i). a < brk m"
    using ids unfolding ids_apart_def by (auto simp: distinct_concat_iff)
qed

lemma ht_lookup_upd:
  assumes inv: "ht_inv m ht" and i: "i = hashval (parameter ht) k"
    and h: "look (parameter ht) (inorder (root h)) = upd_map (key_eq (parameter ht)) (look (parameter ht) (entries_of ht i)) k x"
  shows "ht_lookup (upd ht i h np pp st) = upd_map (key_eq (parameter ht)) (ht_lookup ht) k x"
proof
  fix k'
  note D = ht_inv_D [OF inv i]
  show "ht_lookup (upd ht i h np pp st) k' = upd_map (key_eq (parameter ht)) (ht_lookup ht) k x k'"
  proof (cases "hashval (parameter ht) k' = i")
    case True
    with D(3) show ?thesis by (simp add: ht_lookup_look h upd_map_def)
  next
    case False
    then have "\<not> key_eq (parameter ht) k k'" using key_eq_laws(4) [OF D(1)] i by metis
    with False show ?thesis by (simp add: ht_lookup_look upd_map_def)
  qed
qed

lemma ht_lookup_upd_same:
  assumes inv: "ht_inv m ht" and i: "i = hashval (parameter ht) k" and h: "inorder (root h) = entries_of ht i"
  shows "ht_lookup (upd ht i h np pp st) = ht_lookup ht"
  using ht_inv_D(3) [OF inv i] h by (auto simp: ht_lookup_look nth_list_update)

lemma stat_ok_turns [simp]:
  "stat_ok s \<Longrightarrow> stat_ok (ok_test s)" "stat_ok s \<Longrightarrow> stat_ok (err_test s)"
  "stat_ok s \<Longrightarrow> stat_ok (notfound_test s)" "stat_ok s \<Longrightarrow> stat_ok (err_set s)"
  "stat_ok s \<Longrightarrow> stat_ok (ok_set s)" "stat_ok s \<Longrightarrow> stat_ok (notfound_get s)"
  "stat_ok s \<Longrightarrow> stat_ok (ok_get s)" "stat_ok s \<Longrightarrow> stat_ok (notfound_del s)"
  "stat_ok s \<Longrightarrow> stat_ok (ok_del s)"
  by (simp_all add: stat_ok_def ok_test_def err_test_def notfound_test_def err_set_def ok_set_def
      notfound_get_def ok_get_def notfound_del_def ok_del_def)

subsection \<open>The operations are correct\<close>

text \<open>An operation that only counts itself in the statistics.\<close>

lemma bump_ok:
  assumes inv: "ht_inv m ht" and i: "i = hashval (parameter ht) k" and f: "stat_ok (f (stat_dynamic ht ! i))"
  shows "ht_inv m (bump ht i f)" "ht_lookup (bump ht i f) = ht_lookup ht"
proof -
  note D = ht_inv_D [OF inv i]
  show "ht_inv m (bump ht i f)" unfolding bump_upd
    using D(6,7) by (intro ht_inv_upd [OF inv D(2,4) f]) (auto simp: slot_ids_eq)
  show "ht_lookup (bump ht i f) = ht_lookup ht" unfolding bump_upd
    using inv i refl by (rule ht_lookup_upd_same)
qed

lemma Key_Locate_cases:
  assumes inv: "ht_inv m ht" and i: "i = hashval (parameter ht) k"
  obtains (absent) "Key_Locate ht k i (rbtval (parameter ht) k) = None" "ht_lookup ht k = None"
      "entry_for (parameter ht) k (entries_of ht i) = None"
    | (present) q where "Key_Locate ht k i (rbtval (parameter ht) k) = Some q" "at_pos (root (array_rbt ht ! i)) q"
      "key_eq (parameter ht) k (dkey (pnode q))" "entries_of ht i = pre q @ pnode q # post q"
      "ht_lookup ht k = Some (buffval (rbt_opaq (pnode q)))"
proof (cases "Key_Locate ht k i (rbtval (parameter ht) k)")
  case None
  with Key_Locate_correct [OF ht_inv_D(1,4) [OF inv i], of k] absent i show ?thesis
    by (simp add: ht_lookup_def)
next
  case (Some q)
  note D = ht_inv_D [OF inv i]
  from Some Key_Locate_correct [OF D(1,4), of k] have q: "at_pos (root (array_rbt ht ! i)) q"
    "key_eq (parameter ht) k (dkey (pnode q))" by auto
  note eq = at_pos_inorder [OF q(1)]
  have "keys_apart (parameter ht) (pre q @ pnode q # post q)" using D(4) eq by (simp add: tree_ok_def)
  from entry_for_middle [OF D(1) this, of k] q(2) eq i have "ht_lookup ht k = Some (buffval (rbt_opaq (pnode q)))"
    by (simp add: ht_lookup_def)
  with present Some q eq show ?thesis by blast
qed

lemma Get_correct:
  assumes inv: "ht_inv m ht"
  shows "\<exists>rc ht'. Get ht k = Some (rc, ht_lookup ht k, ht') \<and> ht_inv m ht' \<and> parameter ht' = parameter ht
     \<and> ht_lookup ht' = ht_lookup ht
     \<and> rc = (if ht_lookup ht k = None then HASHTABLE_ERROR_NO_SUCH_KEY else HASHTABLE_SUCCESS)"
proof -
  define i where "i = hashval (parameter ht) k"
  note D = ht_inv_D [OF inv i_def] and B = bump_ok [OF inv i_def]
  from inv i_def show ?thesis
  proof (cases rule: Key_Locate_cases)
    case absent
    with D B show ?thesis by (simp add: Get_def Let_def i_def [symmetric]) (simp add: bump_def)
  next
    case (present q)
    with D B show ?thesis by (simp add: Get_def Let_def i_def [symmetric]) (simp add: bump_def)
  qed
qed

lemma Del_correct:
  assumes inv: "ht_inv m ht"
  shows "\<exists>rc kv ht'. Del ht k = Some (rc, kv, ht') \<and> ht_inv m ht' \<and> parameter ht' = parameter ht
     \<and> map_option snd kv = ht_lookup ht k
     \<and> ht_lookup ht' = upd_map (key_eq (parameter ht)) (ht_lookup ht) k None
     \<and> rc = (if ht_lookup ht k = None then HASHTABLE_ERROR_NO_SUCH_KEY else HASHTABLE_SUCCESS)"
proof -
  let ?par = "parameter ht"
  define i where "i = hashval ?par k"
  note D = ht_inv_D [OF inv i_def] and B = bump_ok [OF inv i_def]
  from inv i_def show ?thesis
  proof (cases rule: Key_Locate_cases)
    case absent
    have "ht_lookup ht = upd_map (key_eq ?par) (ht_lookup ht) k None"
    proof
      fix k'
      show "ht_lookup ht k' = upd_map (key_eq ?par) (ht_lookup ht) k None k'"
        using absent(3) key_eq_cong [OF D(1), of k k'] key_eq_laws(4) [OF D(1), of k k'] i_def
        by (auto simp: upd_map_def ht_lookup_def entry_for_None)
    qed
    with absent D B show ?thesis
      by (simp add: Del_def Let_def i_def [symmetric]) (simp add: bump_def)
  next
    case (present q)
    from D(4) have "rbt_inv (array_rbt ht ! i)" by (simp add: tree_ok_def)
    from RBT_UNLINK_correct [OF this present(2)] obtain h where
      h: "RBT_UNLINK (array_rbt ht ! i) q = Some h" "rbt_inv h" "inorder (root h) = pre q @ post q" by blast
    let ?np = "RELEASE_PREALLOC (nid (pnode q)) (node_prealloc ht ! i)"
    let ?pp = "RELEASE_PREALLOC (pdata_id (rbt_opaq (pnode q))) (pdata_prealloc ht ! i)"
    let ?ht = "upd ht i h ?np ?pp (ok_del (stat_dynamic ht ! i))"
    have apart: "keys_apart ?par (pre q @ pnode q # post q)" using D(4) present(4) by (simp add: tree_ok_def)
    then have tree: "tree_ok ?par i h"
      using D(4) h present(4) by (simp add: tree_ok_def keys_apart_middle [OF D(1)])
    have "ht_inv m ?ht"
      using D(6,7) by (intro ht_inv_upd [OF inv D(2) tree])
        (auto simp: D(5) slot_ids_eq ids_of_def h(3) present(4) RELEASE_PREALLOC_def)
    moreover have "look ?par (inorder (root h)) = upd_map (key_eq ?par) (look ?par (entries_of ht i)) k None"
    proof
      fix k'
      have "look ?par (pre q @ post q) (dkey (pnode q)) = None"
        using apart by (simp add: keys_apart_middle [OF D(1)] look_def)
      then have "look ?par (pre q @ post q) k' = None" if "key_eq ?par k k'"
        using look_cong [OF D(1) present(3), of "pre q @ post q"] look_cong [OF D(1) that, of "pre q @ post q"] by simp
      then show "look ?par (inorder (root h)) k' = upd_map (key_eq ?par) (look ?par (entries_of ht i)) k None k'"
        using key_eq_cong [OF D(1) present(3)] unfolding h(3) present(4) look_middle [OF D(1) apart]
        by (simp add: upd_map_def)
    qed
    then have "ht_lookup ?ht = upd_map (key_eq ?par) (ht_lookup ht) k None"
      by (rule ht_lookup_upd [OF inv i_def])
    moreover have "Del ht k = Some (HASHTABLE_SUCCESS, Some (dkey (pnode q), buffval (rbt_opaq (pnode q))), ?ht)"
      using present(1) h(1) D(3) by (simp add: Del_def Let_def i_def [symmetric] bump_def put_pools_def put_rbt_def upd_def)
    ultimately show ?thesis using present(5) by simp
  qed
qed

lemma overwrite_correct:
  assumes inv: "ht_inv m ht" and i: "i = hashval (parameter ht) k"
    and q: "at_pos (root (array_rbt ht ! i)) q" "key_eq (parameter ht) k (dkey (pnode q))"
  shows "\<exists>ht'. overwrite ht i q k v = Some ht' \<and> ht_inv m ht' \<and> parameter ht' = parameter ht
     \<and> ht_lookup ht' = upd_map (key_eq (parameter ht)) (ht_lookup ht) k (Some v)"
proof -
  let ?par = "parameter ht"
  note D = ht_inv_D [OF inv i] and eq = at_pos_inorder [OF q(1)]
  let ?o = "(rbt_opaq (pnode q))\<lparr>buffkey := k, buffval := v\<rparr>"
  let ?d = "(pnode q)\<lparr>rbt_opaq := ?o\<rparr>"
  from D(4) have "rbt_inv (array_rbt ht ! i)" by (simp add: tree_ok_def)
  from RBT_OPAQ_write_correct [OF this q(1), of ?o] obtain h where
    h: "RBT_OPAQ_write (array_rbt ht ! i) q ?o = Some h" "rbt_inv h" "inorder (root h) = pre q @ ?d # post q" by blast
  have apart: "keys_apart ?par (pre q @ pnode q # post q)" using D(4) eq by (simp add: tree_ok_def)
  have apart': "keys_apart ?par (pre q @ ?d # post q)"
    using apart key_eq_cong [OF D(1) q(2)] by (simp add: keys_apart_middle [OF D(1)] entry_for_None)
  have tree: "tree_ok ?par i h"
    using D(4) h apart' eq i key_eq_laws(5) [OF D(1) q(2)] by (simp add: tree_ok_def)
  let ?ht = "upd ht i h (node_prealloc ht ! i) (pdata_prealloc ht ! i) (ok_set (stat_dynamic ht ! i))"
  have "ht_inv m ?ht"
    using D(6,7) by (intro ht_inv_upd [OF inv D(2) tree]) (auto simp: D(5) slot_ids_eq ids_of_def h(3) eq)
  moreover have "look ?par (inorder (root h)) = upd_map (key_eq ?par) (look ?par (entries_of ht i)) k (Some v)"
    using look_middle [OF D(1) apart] look_middle [OF D(1) apart'] key_eq_cong [OF D(1) q(2)]
    unfolding h(3) eq by (simp add: upd_map_def fun_eq_iff)
  then have "ht_lookup ?ht = upd_map (key_eq ?par) (ht_lookup ht) k (Some v)"
    by (rule ht_lookup_upd [OF inv i])
  ultimately show ?thesis using h(1) by (simp add: overwrite_def model_defs)
qed

lemma insert_new_correct:
  assumes inv: "ht_inv m ht" and i: "i = hashval (parameter ht) k"
    and absent: "entry_for (parameter ht) k (entries_of ht i) = None"
  shows "\<exists>rc m' ht'. insert_new m ht i (rbtval (parameter ht) k) k v = Some (rc, m', ht')
     \<and> ht_inv m' ht' \<and> mem_grows m m' \<and> parameter ht' = parameter ht
     \<and> (rc = HASHTABLE_SUCCESS \<and> ht_lookup ht' = upd_map (key_eq (parameter ht)) (ht_lookup ht) k (Some v)
        \<or> rc = HASHTABLE_INSERT_MALLOC_ERROR \<and> ht_lookup ht' = ht_lookup ht)"
proof -
  let ?par = "parameter ht" and ?h = "array_rbt ht ! i" and ?nb = "unat (nb_node_prealloc (parameter ht))"
    and ?np = "node_prealloc ht ! i" and ?pp = "pdata_prealloc ht ! i" and ?xs = "entries_of ht i"
  note D = ht_inv_D [OF inv i]
  note D67 = D(6,7) [unfolded slot_ids_eq ids_of_def]
  let ?T = "map nid ?xs @ map (pdata_id \<circ> rbt_opaq) ?xs"
  obtain qn np m1 where g1: "GET_PREALLOC m ?np ?nb sizeof_rbt_node = (qn, np, m1)" by (cases "GET_PREALLOC m ?np ?nb sizeof_rbt_node")
  have s1: "distinct (?T @ opt_list qn @ np @ ?pp)" "\<forall>x \<in> set (?T @ opt_list qn @ np @ ?pp). x < brk m1"
    using get_slot [OF _ _ g1, of ?T ?pp] D67 by simp_all
  note o1 = GET_PREALLOC_origin [OF g1] and gr1 = get_grows [OF g1]
  show ?thesis
  proof (cases qn)
    case None
    let ?ht = "upd ht i ?h np ?pp (err_set (stat_dynamic ht ! i))"
    have "ht_inv m1 ?ht"
      using s1 None o1 gr1 by (intro ht_inv_upd [OF inv D(2,4)]) (auto simp: D(5) slot_ids_eq ids_of_def)
    moreover have "ht_lookup ?ht = ht_lookup ht" by (rule ht_lookup_upd_same [OF inv i refl])
    ultimately show ?thesis using None g1 gr1 by (simp add: insert_new_def model_defs)
  next
    case (Some a)
    obtain pd pp m2 where g2: "GET_PREALLOC m1 ?pp ?nb sizeof_hash_data = (pd, pp, m2)"
      by (cases "GET_PREALLOC m1 ?pp ?nb sizeof_hash_data")
    have s2: "distinct (?T @ a # np @ opt_list pd @ pp)" "\<forall>x \<in> set (?T @ a # np @ opt_list pd @ pp). x < brk m2"
      using get_slot [OF _ _ g2, of "?T @ a # np" "[]"] s1 Some by simp_all
    have gr: "mem_grows m m2" using mem_grows_trans [OF gr1 get_grows [OF g2]] .
    have o2: "x \<in> set ?pp \<or> brk m \<le> x" if "x \<in> set (opt_list pd @ pp)" for x
      using GET_PREALLOC_origin [OF g2 that] gr1 by (auto simp: mem_grows_def)
    show ?thesis
    proof (cases pd)
      case None
      let ?ht = "upd ht i ?h np pp (err_set (stat_dynamic ht ! i))"
      have "ht_inv m2 ?ht"
        using s2 None o1 o2 gr by (intro ht_inv_upd [OF inv D(2,4)]) (auto simp: D(5) slot_ids_eq ids_of_def)
      moreover have "ht_lookup ?ht = ht_lookup ht" by (rule ht_lookup_upd_same [OF inv i refl])
      ultimately show ?thesis using None Some g1 g2 gr by (simp add: insert_new_def model_defs)
    next
      case (Some b)
      let ?nd = "\<lparr>nid = a, rbt_value = rbtval ?par k, rbt_opaq = \<lparr>pdata_id = b, buffkey = k, buffval = v\<rparr>\<rparr>"
      have "rbt_inv ?h" using D(4) by (simp add: tree_ok_def)
      moreover have "nid ?nd \<notin> nid ` set ?xs" using s2(1) by auto
      ultimately have "stored ?h ?nd (RBT_INSERT ?h ?nd (RBT_FIND ?h (rbt_value ?nd)))" by (rule RBT_INSERT_correct)
      then obtain h xs ys where h: "RBT_INSERT ?h ?nd (RBT_FIND ?h (rbtval ?par k)) = Some h" "rbt_inv h"
        "?xs = xs @ ys" "inorder (root h) = xs @ ?nd # ys" by (auto simp: stored_def)
      have apart: "keys_apart ?par (xs @ ?nd # ys)"
        using absent D(4) h(3) by (simp add: keys_apart_middle [OF D(1)] tree_ok_def)
      have tree: "tree_ok ?par i h" using D(4) h apart i by (auto simp: tree_ok_def)
      let ?ht = "upd ht i h np pp (ok_set (stat_dynamic ht ! i))"
      have "ht_inv m2 ?ht"
        using s2 Some \<open>qn = Some a\<close> o1 o2 gr
        by (intro ht_inv_upd [OF inv D(2) tree]) (auto simp: D(5) slot_ids_eq ids_of_def h(3,4))
      moreover have "ht_lookup ?ht = upd_map (key_eq ?par) (ht_lookup ht) k (Some v)"
        using look_middle [OF D(1) apart] by (intro ht_lookup_upd [OF inv i]) (simp add: h(3,4))
      moreover have "insert_new m ht i (rbtval ?par k) k v = Some (HASHTABLE_SUCCESS, m2, ?ht)"
        using Some \<open>qn = Some a\<close> g1 g2 h(1) by (simp add: insert_new_def upd_def bump_def put_pools_def put_rbt_def)
      ultimately show ?thesis using gr by simp
    qed
  qed
qed

lemma Test_And_Set_correct:
  assumes inv: "ht_inv m ht"
  shows "\<exists>rc m' ht'. Test_And_Set m ht k v how = Some (rc, m', ht')
     \<and> ht_inv m' ht' \<and> mem_grows m m' \<and> parameter ht' = parameter ht
     \<and> set_outcome (key_eq (parameter ht)) (ht_lookup ht) k v how rc (ht_lookup ht')"
proof -
  define i where "i = hashval (parameter ht) k"
  note D = ht_inv_D [OF inv i_def] and B = bump_ok [OF inv i_def]
  have P: "parameter (bump ht i f) = parameter ht" for f by (simp add: bump_def)
  from inv i_def show ?thesis
  proof (cases rule: Key_Locate_cases)
    case absent
    with D B P insert_new_correct [OF inv i_def absent(3), of v] show ?thesis
      by (cases "how = HASHTABLE_SET_HOW_TEST_ONLY") (auto simp: Test_And_Set_def Let_def i_def [symmetric] set_outcome_def)
  next
    case (present q)
    with D B P overwrite_correct [OF inv i_def present(2,3), of v] show ?thesis
      by (cases how) (auto simp: Test_And_Set_def Let_def i_def [symmetric] set_outcome_def)
  qed
qed

subsection \<open>The interface of the table\<close>

text \<open>
  What the clients of the hash table rely on: its operations never fail to return, keep the
  invariant, and act on the abstract map \<open>lookup\<close> as the error codes say.
\<close>

locale key_store =
  fixes inv :: "'s \<Rightarrow> bool"
    and grows :: "'s \<Rightarrow> 's \<Rightarrow> bool"
    and eqk :: "'k \<Rightarrow> 'k \<Rightarrow> bool"
    and lookup :: "'s \<Rightarrow> 'k \<Rightarrow> 'v option"
    and put :: "'s \<Rightarrow> 'k \<Rightarrow> 'v \<Rightarrow> hashtable_set_how \<Rightarrow> (hash_rc \<times> 's) option"
    and get :: "'s \<Rightarrow> 'k \<Rightarrow> (hash_rc \<times> 'v option \<times> 's) option"
    and del :: "'s \<Rightarrow> 'k \<Rightarrow> (hash_rc \<times> ('k \<times> 'v) option \<times> 's) option"
  assumes eqk_refl: "inv s \<Longrightarrow> eqk k k"
    and lookup_cong: "inv s \<Longrightarrow> eqk k k' \<Longrightarrow> lookup s k = lookup s k'"
    and put_law: "inv s \<Longrightarrow> \<exists>rc s'. put s k v how = Some (rc, s') \<and> inv s' \<and> grows s s'
          \<and> set_outcome eqk (lookup s) k v how rc (lookup s')"
    and get_law: "inv s \<Longrightarrow> \<exists>s'. get s k = Some
          (if lookup s k = None then HASHTABLE_ERROR_NO_SUCH_KEY else HASHTABLE_SUCCESS, lookup s k, s')
          \<and> inv s' \<and> lookup s' = lookup s"
    and del_law: "inv s \<Longrightarrow> \<exists>kv s'. del s k = Some
          (if lookup s k = None then HASHTABLE_ERROR_NO_SUCH_KEY else HASHTABLE_SUCCESS, kv, s')
          \<and> inv s' \<and> map_option snd kv = lookup s k \<and> lookup s' = upd_map eqk (lookup s) k None"
begin

lemma put_get:
  assumes "inv s" and "put s k v how = Some (HASHTABLE_SUCCESS, s')" and "how \<noteq> HASHTABLE_SET_HOW_TEST_ONLY"
    and "eqk k k'"
  shows "\<exists>s''. get s' k' = Some (HASHTABLE_SUCCESS, Some v, s'') \<and> inv s''"
proof -
  from put_law [OF assms(1), of k v how] assms(2) have "inv s'"
    and o: "set_outcome eqk (lookup s) k v how HASHTABLE_SUCCESS (lookup s')" by auto
  from o assms(3) have "lookup s' = upd_map eqk (lookup s) k (Some v)"
    by (auto simp: set_outcome_def split: option.splits hashtable_set_how.splits)
  then have "lookup s' k' = Some v" using assms(4) by (simp add: upd_map_def)
  with get_law [OF \<open>inv s'\<close>, of k'] show ?thesis by auto
qed

lemma put_other:
  assumes "inv s" and "put s k v how = Some (rc, s')" and "\<not> eqk k k'"
  shows "lookup s' k' = lookup s k'"
  using put_law [OF assms(1), of k v how] assms(2,3)
  by (auto simp: set_outcome_def upd_map_def split: option.splits hashtable_set_how.splits if_splits)

lemma put_fails_keeps:
  assumes "inv s" and "put s k v how = Some (rc, s')" and "rc \<noteq> HASHTABLE_SUCCESS"
  shows "lookup s' = lookup s"
  using put_law [OF assms(1), of k v how] assms(2,3)
  by (auto simp: set_outcome_def split: option.splits hashtable_set_how.splits if_splits)

lemma del_get:
  assumes "inv s" and "del s k = Some (rc, kv, s')" and "eqk k k'"
  shows "\<exists>s''. get s' k' = Some (HASHTABLE_ERROR_NO_SUCH_KEY, None, s'') \<and> inv s''"
proof -
  from del_law [OF assms(1), of k] assms(2,3) have "inv s'" "lookup s' k' = None" by (auto simp: upd_map_def)
  with get_law [of s' k'] show ?thesis by auto
qed

lemma del_twice:
  assumes "inv s" and "del s k = Some (rc, kv, s')"
  shows "\<exists>s''. del s' k = Some (HASHTABLE_ERROR_NO_SUCH_KEY, None, s'') \<and> lookup s'' = lookup s'"
proof -
  from del_law [OF assms(1), of k] assms have s': "inv s'" "lookup s' = upd_map eqk (lookup s) k None" by auto
  then have "lookup s' k = None" using eqk_refl [OF assms(1)] by (simp add: upd_map_def)
  with del_law [OF s'(1), of k] show ?thesis using s'(2) by (auto simp: upd_map_def fun_eq_iff)
qed

text \<open>No-overwrite insertion succeeds at most once for a key.\<close>

lemma put_no_overwrite_once:
  assumes "inv s" and "put s k v HASHTABLE_SET_HOW_SET_NO_OVERWRITE = Some (HASHTABLE_SUCCESS, s')"
  shows "\<exists>s''. put s' k v' HASHTABLE_SET_HOW_SET_NO_OVERWRITE = Some (HASHTABLE_ERROR_KEY_ALREADY_EXISTS, s'')
     \<and> lookup s'' = lookup s' \<and> lookup s' k = Some v"
proof -
  from put_law [OF assms(1), of k v HASHTABLE_SET_HOW_SET_NO_OVERWRITE] assms(2) have "inv s'"
    and "set_outcome eqk (lookup s) k v HASHTABLE_SET_HOW_SET_NO_OVERWRITE HASHTABLE_SUCCESS (lookup s')" by auto
  then have "lookup s' k = Some v"
    using eqk_refl [OF assms(1)] by (auto simp: set_outcome_def upd_map_def split: option.splits)
  with put_law [OF \<open>inv s'\<close>, of k v' HASHTABLE_SET_HOW_SET_NO_OVERWRITE] show ?thesis
    by (auto simp: set_outcome_def)
qed

end

definition hs_inv :: "'k hash_parameter \<Rightarrow> mem \<times> ('k, 'v) hash_table \<Rightarrow> bool" where
  "hs_inv par s \<longleftrightarrow> ht_inv (fst s) (snd s) \<and> parameter (snd s) = par"

definition hs_put :: "mem \<times> ('k, 'v) hash_table \<Rightarrow> 'k \<Rightarrow> 'v \<Rightarrow> hashtable_set_how \<Rightarrow> (hash_rc \<times> mem \<times> ('k, 'v) hash_table) option" where
  "hs_put s k v how = Test_And_Set (fst s) (snd s) k v how"

definition hs_get :: "mem \<times> ('k, 'v) hash_table \<Rightarrow> 'k \<Rightarrow> (hash_rc \<times> 'v option \<times> mem \<times> ('k, 'v) hash_table) option" where
  "hs_get s k = map_option (\<lambda>(rc, v, ht). (rc, v, fst s, ht)) (Get (snd s) k)"

definition hs_del :: "mem \<times> ('k, 'v) hash_table \<Rightarrow> 'k \<Rightarrow> (hash_rc \<times> ('k \<times> 'v) option \<times> mem \<times> ('k, 'v) hash_table) option" where
  "hs_del s k = map_option (\<lambda>(rc, kv, ht). (rc, kv, fst s, ht)) (Del (snd s) k)"

abbreviation hs_lookup :: "mem \<times> ('k, 'v) hash_table \<Rightarrow> 'k \<Rightarrow> 'v option" where
  "hs_lookup s \<equiv> ht_lookup (snd s)"

definition hs_grows :: "mem \<times> ('k, 'v) hash_table \<Rightarrow> mem \<times> ('k, 'v) hash_table \<Rightarrow> bool" where
  "hs_grows s s' \<longleftrightarrow> mem_grows (fst s) (fst s')"

interpretation hs: key_store "hs_inv par" hs_grows "key_eq par" hs_lookup hs_put hs_get hs_del
  for par :: "'k hash_parameter"
proof
  fix s :: "mem \<times> ('k, 'v) hash_table" and k k' v how
  assume "hs_inv par s"
  then have inv: "ht_inv (fst s) (snd s)" and par: "parameter (snd s) = par" by (auto simp: hs_inv_def)
  then have P: "params_ok par" by (auto dest: ht_inv_D)
  show "key_eq par k k" by (rule key_eq_laws [OF P])
  show "hs_lookup s k = hs_lookup s k'" if "key_eq par k k'"
    using look_cong [OF P that] key_eq_laws(4) [OF P that] by (simp add: ht_lookup_look par)
  show "\<exists>rc s'. hs_put s k v how = Some (rc, s') \<and> hs_inv par s' \<and> hs_grows s s'
      \<and> set_outcome (key_eq par) (hs_lookup s) k v how rc (hs_lookup s')"
    using Test_And_Set_correct [OF inv, of k v how] by (auto simp: hs_put_def hs_inv_def hs_grows_def par)
  show "\<exists>s'. hs_get s k = Some
      (if hs_lookup s k = None then HASHTABLE_ERROR_NO_SUCH_KEY else HASHTABLE_SUCCESS, hs_lookup s k, s')
      \<and> hs_inv par s' \<and> hs_lookup s' = hs_lookup s"
    using Get_correct [OF inv, of k] by (auto simp: hs_get_def hs_inv_def par)
  show "\<exists>kv s'. hs_del s k = Some
      (if hs_lookup s k = None then HASHTABLE_ERROR_NO_SUCH_KEY else HASHTABLE_SUCCESS, kv, s')
      \<and> hs_inv par s' \<and> map_option snd kv = hs_lookup s k
      \<and> hs_lookup s' = upd_map (key_eq par) (hs_lookup s) k None"
    using Del_correct [OF inv, of k] by (auto simp: hs_del_def hs_inv_def par)
qed

text \<open>Allocations made for somebody else leave a table as it is.\<close>

lemma ht_inv_grows: "ht_inv m ht \<Longrightarrow> mem_grows m m' \<Longrightarrow> ht_inv m' ht"
  by (fastforce simp: ht_inv_def Let_def ids_apart_def mem_grows_def simp del: set_concat)

lemma hs_inv_grows: "hs_inv par (m, ht) \<Longrightarrow> mem_grows m m' \<Longrightarrow> hs_inv par (m', ht)"
  by (auto simp: hs_inv_def intro: ht_inv_grows)

text \<open>The memory changes in an insertion only.\<close>

lemma hs_same_mem:
  "hs_get s k = Some (rc, v, s') \<Longrightarrow> fst s' = fst s"
  "hs_del s k = Some (rc, kv, s') \<Longrightarrow> fst s' = fst s"
  by (auto simp: hs_get_def hs_del_def)

subsection \<open>HashTable_Init builds an empty table\<close>

lemma STUFF_PREALLOC_range:
  "STUFF_PREALLOC m nb sz = (p, m') \<Longrightarrow> distinct p \<and> set p \<subseteq> {brk m ..< brk m'} \<and> mem_grows m m'"
  by (auto simp: STUFF_PREALLOC_def Mem_Alloc_def Let_def mem_grows_def split: if_splits)

lemma prealloc_slots_range:
  assumes "prealloc_slots m nb n = (Some (nps, pps), m')"
  shows "length nps = n \<and> length pps = n \<and> mem_grows m m'
     \<and> distinct (concat (map2 (@) nps pps)) \<and> set (concat (map2 (@) nps pps)) \<subseteq> {brk m ..< brk m'}"
  using assms
proof (induction n arbitrary: m nps pps)
  case (Suc n)
  obtain np m1 where g1: "STUFF_PREALLOC m nb sizeof_rbt_node = (np, m1)" by (cases "STUFF_PREALLOC m nb sizeof_rbt_node")
  obtain pp m2 where g2: "STUFF_PREALLOC m1 nb sizeof_hash_data = (pp, m2)" by (cases "STUFF_PREALLOC m1 nb sizeof_hash_data")
  from Suc.prems g1 g2 obtain nps' pps' where
    r: "prealloc_slots m2 nb n = (Some (nps', pps'), m')" "nps = np # nps'" "pps = pp # pps'"
    by (auto split: if_splits option.splits prod.splits)
  from STUFF_PREALLOC_range [OF g1] STUFF_PREALLOC_range [OF g2] Suc.IH [OF r(1)]
  have a: "distinct np" "set np \<subseteq> {brk m ..< brk m1}" "brk m \<le> brk m1"
    and b: "distinct pp" "set pp \<subseteq> {brk m1 ..< brk m2}" "brk m1 \<le> brk m2"
    and c: "length nps' = n" "length pps' = n" "brk m2 \<le> brk m'" "distinct (concat (map2 (@) nps' pps'))"
      "set (concat (map2 (@) nps' pps')) \<subseteq> {brk m2 ..< brk m'}" by (auto simp: mem_grows_def)
  have disj: "set np \<inter> set pp = {}" "(set np \<union> set pp) \<inter> set (concat (map2 (@) nps' pps')) = {}"
    using a(2) b(2) c(5) a(3) b(3) by fastforce+
  have "set np \<union> set pp \<union> set (concat (map2 (@) nps' pps')) \<subseteq> {brk m ..< brk m'}"
    using a(2,3) b(2,3) c(3,5) by fastforce
  with a b c disj r(2,3) show ?case by (auto simp: mem_grows_def simp del: set_concat)
qed simp

lemma ht_inv_empty:
  assumes par: "params_ok par" and n: "n = unat (index_size par)" and L: "length nps = n" "length pps = n"
    and ids: "distinct (concat (map2 (@) nps pps))" "set (concat (map2 (@) nps pps)) \<subseteq> {b ..< brk m}"
  shows "ht_inv m \<lparr>parameter = par, stat_dynamic = replicate n stat_zero, array_rbt = replicate n RBT_HEAD_INIT,
      node_prealloc = nps, pdata_prealloc = pps\<rparr>" (is "ht_inv m ?ht")
proof -
  have "map (slot_ids ?ht) [0 ..< n] = map2 (@) nps pps"
    using L by (intro nth_equalityI) (auto simp: slot_ids_def)
  moreover have "stat_ok stat_zero" by (simp add: stat_ok_def stat_zero_def stat_op_zero_def)
  ultimately show ?thesis
    using assms by (auto simp: ht_inv_def Let_def tree_ok_def keys_apart_def ids_apart_def simp del: set_concat)
qed

lemma HashTable_Init_correct:
  assumes init: "HashTable_Init m attr_ok lock_ok par = (Some ht, m')" and par: "params_ok par"
  shows "ht_inv m' ht" "parameter ht = par" "ht_lookup ht = (\<lambda>_. None)"
proof -
  let ?n = "unat (index_size par)"
  from init obtain m2 nps pps where
    s: "prealloc_slots m2 (unat (nb_node_prealloc par)) ?n = (Some (nps, pps), m')"
    and ht: "ht = \<lparr>parameter = par, stat_dynamic = replicate ?n stat_zero, array_rbt = replicate ?n RBT_HEAD_INIT,
        node_prealloc = nps, pdata_prealloc = pps\<rparr>"
    by (auto simp: HashTable_Init_def split: if_splits option.splits prod.splits bool.splits)
  from prealloc_slots_range [OF s] show "ht_inv m' ht" unfolding ht
    by (intro ht_inv_empty [OF par refl, of nps pps "brk m2"]) auto
  show "parameter ht = par" by (simp add: ht)
  show "ht_lookup ht = (\<lambda>_. None)"
    using key_eq_laws(6) [OF par] by (auto simp: ht ht_lookup_def entry_for_def)
qed

text \<open>Without allocation failures, the initialisation succeeds.\<close>

definition no_fail :: "mem \<Rightarrow> bool" where
  "no_fail m \<longleftrightarrow> (\<forall>n. \<not> fails m n)"

text \<open>No operation changes which allocations fail.\<close>

lemma GET_PREALLOC_no_fail:
  assumes "no_fail m" and "0 < nb" and "GET_PREALLOC m p nb sz = (r, p', m')"
  shows "r \<noteq> None \<and> no_fail m'"
proof -
  have "0 < BuddyPreferedPoolCount (buddy m) nb sz"
    using assms(2) unfolding BuddyPreferedPoolCount_def Let_def by (simp split: if_splits)
  with assms show ?thesis
    by (cases p) (auto simp: GET_PREALLOC_def STUFF_PREALLOC_def Mem_Alloc_def Let_def no_fail_def upt_conv_Cons
        split: list.splits)
qed

lemma STUFF_PREALLOC_no_fail:
  assumes "no_fail m" and "0 < nb" and "STUFF_PREALLOC m nb sz = (p, m')"
  shows "p \<noteq> [] \<and> no_fail m'"
proof -
  have "0 < BuddyPreferedPoolCount (buddy m) nb sz"
    using assms(2) unfolding BuddyPreferedPoolCount_def Let_def by (simp split: if_splits)
  with assms(1,3) show ?thesis by (auto simp: STUFF_PREALLOC_def Mem_Alloc_def Let_def no_fail_def)
qed

lemma prealloc_slots_no_fail:
  "no_fail m \<Longrightarrow> 0 < nb \<Longrightarrow> \<exists>ps m'. prealloc_slots m nb n = (Some ps, m') \<and> no_fail m'"
proof (induction n arbitrary: m)
  case (Suc n)
  obtain np m1 where g1: "STUFF_PREALLOC m nb sizeof_rbt_node = (np, m1)" by (cases "STUFF_PREALLOC m nb sizeof_rbt_node")
  obtain pp m2 where g2: "STUFF_PREALLOC m1 nb sizeof_hash_data = (pp, m2)" by (cases "STUFF_PREALLOC m1 nb sizeof_hash_data")
  from STUFF_PREALLOC_no_fail [OF Suc.prems g1] STUFF_PREALLOC_no_fail [OF _ Suc.prems(2) g2]
  have "np \<noteq> []" "pp \<noteq> []" "no_fail m2" by auto
  with Suc.IH [of m2] Suc.prems(2) g1 g2 show ?case by auto
qed simp

lemma alloc_all_no_fail: "no_fail m \<Longrightarrow> \<exists>m'. alloc_all m n = (True, m') \<and> no_fail m'"
  by (induction m n rule: alloc_all.induct) (auto simp: Mem_Alloc_def no_fail_def)

lemma HashTable_Init_succeeds:
  assumes "no_fail m" and "0 < nb_node_prealloc par"
  shows "\<exists>ht m'. HashTable_Init m True (\<lambda>_. True) par = (Some ht, m') \<and> no_fail m'"
proof -
  from alloc_all_no_fail [OF assms(1), of 1] obtain m1 where 1: "alloc_all m 1 = (True, m1)" "no_fail m1" by blast
  from alloc_all_no_fail [OF 1(2), of 5] obtain m2 where 2: "alloc_all m1 5 = (True, m2)" "no_fail m2" by blast
  have "0 < unat (nb_node_prealloc par)" using assms(2) by (simp add: unat_gt_0 word_greater_zero_iff)
  from prealloc_slots_no_fail [OF 2(2) this, of "unat (index_size par)"] obtain nps pps m3 where
    "prealloc_slots m2 (unat (nb_node_prealloc par)) (unat (index_size par)) = (Some (nps, pps), m3)" "no_fail m3" by auto
  with 1 2 show ?thesis by (simp add: HashTable_Init_def)
qed

lemma insert_new_no_fail:
  assumes "no_fail m" and "0 < nb_node_prealloc (parameter ht)" and "insert_new m ht i rv k v = Some (rc, m', ht')"
  shows "rc = HASHTABLE_SUCCESS \<and> no_fail m'"
proof -
  have nb: "0 < unat (nb_node_prealloc (parameter ht))" using assms(2) by (simp add: unat_gt_0 word_greater_zero_iff)
  let ?nb = "unat (nb_node_prealloc (parameter ht))"
  obtain q np m1 where g1: "GET_PREALLOC m (node_prealloc ht ! i) ?nb sizeof_rbt_node = (q, np, m1)"
    by (cases "GET_PREALLOC m (node_prealloc ht ! i) ?nb sizeof_rbt_node")
  obtain d pp m2 where g2: "GET_PREALLOC m1 (pdata_prealloc ht ! i) ?nb sizeof_hash_data = (d, pp, m2)"
    by (cases "GET_PREALLOC m1 (pdata_prealloc ht ! i) ?nb sizeof_hash_data")
  from GET_PREALLOC_no_fail [OF assms(1) nb g1] GET_PREALLOC_no_fail [OF _ nb g2] assms(3) g1 g2
  show ?thesis by (auto simp: insert_new_def Let_def split: Option.bind_splits)
qed

lemma Test_And_Set_no_fail:
  assumes "no_fail m" and "0 < nb_node_prealloc (parameter ht)" and "Test_And_Set m ht k v how = Some (rc, m', ht')"
  shows "rc \<noteq> HASHTABLE_INSERT_MALLOC_ERROR \<and> no_fail m'"
  using assms insert_new_no_fail [OF assms(1,2)]
  by (fastforce simp: Test_And_Set_def Let_def split: if_splits option.splits hashtable_set_how.splits Option.bind_splits)

lemma hs_put_no_fail:
  assumes "hs_inv par (m, ht)" and "no_fail m" and "0 < nb_node_prealloc par"
  shows "\<exists>m' t. hs_put (m, ht) k v HASHTABLE_SET_HOW_SET_OVERWRITE = Some (HASHTABLE_SUCCESS, m', t)
     \<and> no_fail m' \<and> parameter t = par"
proof -
  from hs.put_law [OF assms(1), of k v HASHTABLE_SET_HOW_SET_OVERWRITE] obtain rc m' t where
    p: "hs_put (m, ht) k v HASHTABLE_SET_HOW_SET_OVERWRITE = Some (rc, m', t)" "hs_inv par (m', t)"
    and o: "set_outcome (key_eq par) (ht_lookup ht) k v HASHTABLE_SET_HOW_SET_OVERWRITE rc (ht_lookup t)" by auto
  have "parameter ht = par" using assms(1) by (simp add: hs_inv_def)
  with Test_And_Set_no_fail [OF assms(2), of ht k v HASHTABLE_SET_HOW_SET_OVERWRITE rc m' t] p(1) assms(3)
  have "rc \<noteq> HASHTABLE_INSERT_MALLOC_ERROR" "no_fail m'" by (auto simp: hs_put_def)
  moreover from this o have "rc = HASHTABLE_SUCCESS" by (auto simp: set_outcome_def split: option.splits)
  ultimately show ?thesis using p by (simp add: hs_inv_def)
qed

subsection \<open>The entry counter\<close>

lemma foldl_plus_sum: "foldl (\<lambda>nb i. nb + f i) (a :: u32) [0 ..< n] = a + (\<Sum>i = 0 ..< n. f i)"
  by (induction n) (auto simp: algebra_simps)

lemma GetSize_sum:
  "HashTable_GetSize (Some ht) = (\<Sum>i = 0 ..< unat (index_size (parameter ht)). nb_entries (stat_dynamic ht ! i))"
  by (simp add: HashTable_GetSize_def foldl_plus_sum)

lemma GetSize_upd:
  assumes "i < unat (index_size (parameter ht))" and "length (stat_dynamic ht) = unat (index_size (parameter ht))"
  shows "HashTable_GetSize (Some (upd ht i h np pp st)) =
     HashTable_GetSize (Some ht) - nb_entries (stat_dynamic ht ! i) + nb_entries st"
proof -
  let ?n = "unat (index_size (parameter ht))"
  have "(\<Sum>j = 0 ..< ?n. nb_entries ((stat_dynamic ht)[i := st] ! j)) =
     (\<Sum>j \<in> {0 ..< ?n} - {i}. nb_entries ((stat_dynamic ht)[i := st] ! j)) + nb_entries st"
    using assms by (subst sum.remove [of _ i]) auto
  also have "(\<Sum>j \<in> {0 ..< ?n} - {i}. nb_entries ((stat_dynamic ht)[i := st] ! j)) =
     (\<Sum>j \<in> {0 ..< ?n} - {i}. nb_entries (stat_dynamic ht ! j))"
    by (intro sum.cong) auto
  also have "\<dots> = (\<Sum>j = 0 ..< ?n. nb_entries (stat_dynamic ht ! j)) - nb_entries (stat_dynamic ht ! i)"
    using assms by (subst (2) sum.remove [of _ i]) auto
  finally show ?thesis by (simp add: GetSize_sum)
qed

lemma hash_functions_in_range:
  assumes "0 < index_size par"
  shows "double_hash_func par k < ucast (index_size par)"
    and "simple_hash_func par k < ucast (index_size par)"
proof -
  have "(ucast x :: u64) \<noteq> 0" if "x \<noteq> 0" for x :: u32
    using that by transfer simp
  then have pos: "0 < (ucast (index_size par) :: u64)" using assms by (simp add: word_greater_zero_iff)
  then show "double_hash_func par k < ucast (index_size par)"
    unfolding double_hash_func_def Let_def by (rule word_mod_less_divisor)
  have "h < ucast (index_size par) \<Longrightarrow> horner a (index_size par) k h < ucast (index_size par)" for a h
    using pos by (induction k arbitrary: h) (auto intro: word_mod_less_divisor)
  then show "simple_hash_func par k < ucast (index_size par)" using pos by (simp add: simple_hash_func_def)
qed

lemma Test_And_Set_counts:
  assumes inv: "ht_inv m ht" and how: "how \<noteq> HASHTABLE_SET_HOW_TEST_ONLY"
    and set: "Test_And_Set m ht k v how = Some (HASHTABLE_SUCCESS, m', ht')"
  shows "HashTable_GetSize (Some ht') = HashTable_GetSize (Some ht) + 1"
proof -
  define i where "i = hashval (parameter ht) k"
  note D = ht_inv_D [OF inv i_def]
  have L: "length (stat_dynamic ht) = unat (index_size (parameter ht))" using inv by (simp add: ht_inv_def Let_def)
  have "\<exists>h np pp. ht' = upd ht i h np pp (ok_set (stat_dynamic ht ! i))"
  proof (cases "Key_Locate ht k i (rbtval (parameter ht) k)")
    case None
    with set how show ?thesis
      by (auto simp: Test_And_Set_def insert_new_def Let_def i_def [symmetric] bump_put_both
          split: if_splits prod.splits option.splits Option.bind_splits)
  next
    case (Some q)
    with set how show ?thesis
      by (auto simp: Test_And_Set_def overwrite_def Let_def i_def [symmetric] upd_intros(2)
          split: if_splits Option.bind_splits hashtable_set_how.splits)
  qed
  then show ?thesis using GetSize_upd [OF D(2) L] by (auto simp: ok_set_def)
qed

subsection \<open>Properties\<close>

text \<open>A small table for the witnesses: three trees, keys compared as numbers.\<close>

definition demo_par :: "u64 hash_parameter" where
  "demo_par = \<lparr>index_size = 3, alphabet_length = 10, nb_node_prealloc = 4, hash_func_key = (\<lambda>k. k mod 3),
     hash_func_rbt = (\<lambda>k. k), compare_key = (\<lambda>a b. if a = b then 0 else 1)\<rparr>"

definition demo_mem :: mem where
  "demo_mem = \<lparr>brk = 0, nalloc = 0, fails = (\<lambda>_. False),
     buddy = \<lparr>k_size = 20, size_header64 = 32, min_alloc_size = 16\<rparr>\<rparr>"

lemma demo_par_ok: "params_ok demo_par"
proof -
  have "unat (ucast (k mod 3 :: u64) :: u32) < 3" for k :: u64
  proof -
    have "unat (ucast (k mod 3) :: u32) \<le> unat (k mod 3)"
      by (rule unat_ucast_le)
    also have "unat (k mod 3) < 3" by (simp add: unat_mod)
    finally show ?thesis .
  qed
  then show ?thesis
    by (auto simp: params_ok_def key_eq_def demo_par_def hashval_def intro!: equivpI reflpI sympI transpI split: if_splits)
qed

lemma demo_table: "\<exists>(ht :: (u64, nat) hash_table) m. no_fail m \<and> ht_inv m ht \<and> parameter ht = demo_par \<and> ht_lookup ht = (\<lambda>_. None)"
proof -
  have "no_fail demo_mem" "0 < nb_node_prealloc demo_par" by (simp_all add: no_fail_def demo_mem_def demo_par_def)
  from HashTable_Init_succeeds [OF this] obtain ht :: "(u64, nat) hash_table" and m where
    i: "HashTable_Init demo_mem True (\<lambda>_. True) demo_par = (Some ht, m)" "no_fail m" by blast
  from HashTable_Init_correct [OF i(1) demo_par_ok] i(2) show ?thesis by blast
qed

text \<open>C1: HashTable_Test_And_Set refines an update of the abstract map.  From a well-formed table and
  for non-null arguments it returns (no null pointer, no index out of the arrays), keeps
  the invariant of the whole table (trees, pools, statistics) and does to the map exactly
  what its return code says: test only, overwrite, refuse to overwrite, or leave everything
  unchanged when an allocation fails.\<close>

theorem hashtable_set_refines:
  assumes "ht_inv m ht"
  shows "\<exists>rc m' ht'. HashTable_Test_And_Set m (Some ht) (Some k) (Some v) how = Some (rc, m', Some ht')
     \<and> ht_inv m' ht' \<and> parameter ht' = parameter ht
     \<and> set_outcome (key_eq (parameter ht)) (ht_lookup ht) k v how rc (ht_lookup ht')"
  using Test_And_Set_correct [OF assms, of k v how] by (auto simp: HashTable_Test_And_Set_def)

theorem hashtable_set_refines_witness:
  "\<exists>(ht :: (u64, nat) hash_table) m rc m' ht'.
     HashTable_Test_And_Set m (Some ht) (Some 5) (Some 42) HASHTABLE_SET_HOW_SET_NO_OVERWRITE = Some (rc, m', Some ht')
     \<and> ht_inv m' ht' \<and> set_outcome (key_eq demo_par) (\<lambda>_. None) 5 42 HASHTABLE_SET_HOW_SET_NO_OVERWRITE rc (ht_lookup ht')"
proof -
  from demo_table obtain ht :: "(u64, nat) hash_table" and m where
    "ht_inv m ht" "parameter ht = demo_par" "ht_lookup ht = (\<lambda>_. None)" by blast
  with hashtable_set_refines [of m ht 5 42 HASHTABLE_SET_HOW_SET_NO_OVERWRITE] show ?thesis by metis
qed

text \<open>HashTable_Get reads the abstract map.  It returns the value stored under the key with
  HASHTABLE_SUCCESS, or HASHTABLE_ERROR_NO_SUCH_KEY and nothing, and changes neither the map
  nor the invariant.\<close>

theorem hashtable_get_refines:
  assumes "ht_inv m ht"
  shows "\<exists>rc ht'. HashTable_Get (Some ht) (Some k) True = Some (rc, ht_lookup ht k, Some ht') \<and> ht_inv m ht'
     \<and> ht_lookup ht' = ht_lookup ht
     \<and> rc = (if ht_lookup ht k = None then HASHTABLE_ERROR_NO_SUCH_KEY else HASHTABLE_SUCCESS)"
  using Get_correct [OF assms, of k] by (auto simp: HashTable_Get_def)

theorem hashtable_get_refines_witness:
  "\<exists>(ht :: (u64, nat) hash_table) ht'. HashTable_Get (Some ht) (Some 5) True = Some (HASHTABLE_ERROR_NO_SUCH_KEY, None, Some ht')"
proof -
  from demo_table obtain ht :: "(u64, nat) hash_table" and m where
    "ht_inv m ht" "ht_lookup ht = (\<lambda>_. None)" by blast
  with hashtable_get_refines [of m ht 5] show ?thesis by auto
qed



text \<open>HashTable_Init.  A table that HashTable_Init returns satisfies the invariant and is empty; and
  without allocation failures (and with working pthread initialisations) it does return one.\<close>

theorem hashtable_init_correct:
  assumes "params_ok par" and "0 < nb_node_prealloc par"
  shows "(\<forall>ht :: ('k, 'v) hash_table. HashTable_Init m attr_ok lock_ok par = (Some ht, m') \<longrightarrow>
            ht_inv m' ht \<and> parameter ht = par \<and> ht_lookup ht = (\<lambda>_. None))
     \<and> (no_fail m \<longrightarrow> (\<exists>(ht :: ('k, 'v) hash_table) m''. HashTable_Init m True (\<lambda>_. True) par = (Some ht, m'')))"
  using HashTable_Init_correct [OF _ assms(1)] HashTable_Init_succeeds [OF _ assms(2)] by blast

theorem hashtable_init_correct_witness:
  "\<exists>(ht :: (u64, nat) hash_table) m''. HashTable_Init demo_mem True (\<lambda>_. True) demo_par = (Some ht, m'')"
proof -
  have "no_fail demo_mem" "0 < nb_node_prealloc demo_par" by (simp_all add: no_fail_def demo_mem_def demo_par_def)
  with hashtable_init_correct [OF demo_par_ok] show ?thesis by blast
qed

text \<open>HashTable_GetSize counts the successful sets, not the entries.  A set that overwrites an existing entry
  leaves the map with as many keys as before, and still increments the size.\<close>

theorem hashtable_size_counts_overwrites:
  assumes "ht_inv m ht" and "ht_lookup ht k = Some v0"
  shows "\<exists>m' ht'. HashTable_Test_And_Set m (Some ht) (Some k) (Some v) HASHTABLE_SET_HOW_SET_OVERWRITE
       = Some (HASHTABLE_SUCCESS, m', Some ht')
     \<and> dom (ht_lookup ht') = dom (ht_lookup ht)
     \<and> HashTable_GetSize (Some ht') = HashTable_GetSize (Some ht) + 1"
proof -
  from Test_And_Set_correct [OF assms(1), of k v HASHTABLE_SET_HOW_SET_OVERWRITE] assms(2) obtain m' ht' where
    set: "Test_And_Set m ht k v HASHTABLE_SET_HOW_SET_OVERWRITE = Some (HASHTABLE_SUCCESS, m', ht')"
    and upd: "ht_lookup ht' = upd_map (key_eq (parameter ht)) (ht_lookup ht) k (Some v)"
    by (auto simp: set_outcome_def)
  have "hs_inv (parameter ht) (m, ht)" using assms(1) by (simp add: hs_inv_def)
  from hs.lookup_cong [OF this] have "key_eq (parameter ht) k k' \<Longrightarrow> ht_lookup ht k' = Some v0" for k'
    using assms(2) by fastforce
  then have "dom (ht_lookup ht') = dom (ht_lookup ht)" by (auto simp: upd upd_map_def dom_def)
  moreover have "HashTable_GetSize (Some ht') = HashTable_GetSize (Some ht) + 1"
    using assms(1) _ set by (rule Test_And_Set_counts) simp
  ultimately show ?thesis using set by (simp add: HashTable_Test_And_Set_def)
qed

theorem hashtable_size_counts_overwrites_witness:
  "\<exists>(ht :: (u64, nat) hash_table) m m' ht'.
     HashTable_Test_And_Set m (Some ht) (Some 5) (Some 43) HASHTABLE_SET_HOW_SET_OVERWRITE = Some (HASHTABLE_SUCCESS, m', Some ht')
     \<and> HashTable_GetSize (Some ht') = HashTable_GetSize (Some ht) + 1"
proof -
  from demo_table obtain ht :: "(u64, nat) hash_table" and m where
    t: "no_fail m" "ht_inv m ht" "parameter ht = demo_par" "ht_lookup ht = (\<lambda>_. None)" by blast
  from Test_And_Set_correct [OF t(2), of 5 42 HASHTABLE_SET_HOW_SET_OVERWRITE] obtain rc m1 ht1 where
    s: "Test_And_Set m ht 5 42 HASHTABLE_SET_HOW_SET_OVERWRITE = Some (rc, m1, ht1)" "ht_inv m1 ht1"
    "set_outcome (key_eq demo_par) (ht_lookup ht) 5 42 HASHTABLE_SET_HOW_SET_OVERWRITE rc (ht_lookup ht1)"
    unfolding t(3) by blast
  have "rc \<noteq> HASHTABLE_INSERT_MALLOC_ERROR"
    using Test_And_Set_no_fail [OF t(1) _ s(1)] t(3) by (simp add: demo_par_def)
  with s(2,3) t(4) have "ht_inv m1 ht1" "ht_lookup ht1 = upd_map (key_eq demo_par) (\<lambda>_. None) 5 (Some 42)"
    by (simp_all add: set_outcome_def)
  then have "ht_inv m1 ht1" "ht_lookup ht1 5 = Some 42" by (simp_all add: upd_map_def key_eq_def demo_par_def)
  from hashtable_size_counts_overwrites [OF this] show ?thesis by blast
qed

text \<open>The hash functions stay inside the array of trees, for every key and every positive index size.\<close>

theorem hash_functions_bounded:
  assumes "0 < index_size par"
  shows "simple_hash_func par k < ucast (index_size par) \<and> double_hash_func par k < ucast (index_size par)"
  using hash_functions_in_range [OF assms] by blast

theorem hash_functions_bounded_witness:
  "double_hash_func \<lparr>index_size = 17, alphabet_length = 10, nb_node_prealloc = 4, hash_func_key = (\<lambda>_. 0),
     hash_func_rbt = (\<lambda>_. 0), compare_key = (\<lambda>_ _. 0)\<rparr> [1, 2, 255] < 17"
  using hash_functions_bounded [of "\<lparr>index_size = 17, alphabet_length = 10, nb_node_prealloc = 4, hash_func_key = (\<lambda>_. 0),
     hash_func_rbt = (\<lambda>_. 0), compare_key = (\<lambda>_ _. 0)\<rparr>" "[1, 2, 255]"] by simp

end
