(* ===== verification/LRU_List.thy ===== *)
theory LRU_List
  imports Stuff_Alloc
begin

text \<open>
  The LRU list of \<^verbatim>\<open>LRU/LRU_List.c\<close>: a doubly linked list of entries from the oldest
  (\<open>LRU\<close>) to the newest (\<open>MRU\<close>), with lazy invalidation.  The entries live in an explicit
  heap, the links are addresses, and the loops follow the links as the code does: they are
  partial functions, so \<open>None\<close> is a null dereference or a loop that never ends, and the
  lemmas prove that the loops return.  \<open>chain\<close> relates the heap to the list of addresses.

  The callbacks (\<open>clean_entry\<close> and the function arguments) act on the data of the entry and
  on a state \<open>'x\<close> of their own, which the loops thread through.  The list pointer \<open>plru\<close> is
  never NULL here (for a NULL list the operations return \<open>LRU_LIST_EMPTY_LIST\<close> at once).
\<close>

datatype lru_rc = LRU_LIST_SUCCESS | LRU_LIST_MALLOC_ERROR | LRU_LIST_EMPTY_LIST | LRU_LIST_BAD_RELEASE_ENTRY

datatype lru_state = LRU_ENTRY_BLANK | LRU_ENTRY_VALID | LRU_ENTRY_INVALID

record 'd lru_entry =
  next_entry :: "addr option"
  prev_entry :: "addr option"
  valid_state :: lru_state
  buffdata :: 'd

record lru_list =
  lru_LRU :: "addr option"
  lru_MRU :: "addr option"
  nb_entry :: u32
  nb_invalid :: u32
  nb_call_gc :: u32
  nb_entry_prealloc :: u32
  nb_call_gc_invalid :: u32
  entry_prealloc :: "addr list"

type_synonym 'd lru_heap = "addr \<Rightarrow> 'd lru_entry"

definition sizeof_LRU_entry :: nat where "sizeof_LRU_entry = 40"

subsection \<open>Operations\<close>

definition LRU_Init :: "mem \<Rightarrow> u32 \<Rightarrow> u32 \<Rightarrow> lru_list option \<times> lru_rc \<times> mem" where
  "LRU_Init m prealloc call_gc =
     (case Mem_Alloc m 1 of
        (None, m1) \<Rightarrow> (None, LRU_LIST_MALLOC_ERROR, m1)
      | (Some _, m1) \<Rightarrow>
          (case STUFF_PREALLOC m1 (unat prealloc) sizeof_LRU_entry of
             ([], m2) \<Rightarrow> (None, LRU_LIST_MALLOC_ERROR, m2)
           | (pool, m2) \<Rightarrow>
               (Some \<lparr>lru_LRU = None, lru_MRU = None, nb_entry = 0, nb_invalid = 0, nb_call_gc = 0,
                      nb_entry_prealloc = prealloc, nb_call_gc_invalid = call_gc, entry_prealloc = pool\<rparr>,
                LRU_LIST_SUCCESS, m2)))"

definition LRU_invalidate :: "'d lru_heap \<Rightarrow> lru_list \<Rightarrow> addr \<Rightarrow> lru_rc \<times> 'd lru_heap \<times> lru_list" where
  "LRU_invalidate h l a =
     (if valid_state (h a) \<noteq> LRU_ENTRY_INVALID
      then (LRU_LIST_SUCCESS, h(a := (h a)\<lparr>valid_state := LRU_ENTRY_INVALID\<rparr>), l\<lparr>nb_invalid := nb_invalid l + 1\<rparr>)
      else (LRU_LIST_SUCCESS, h, l))"

definition LRU_new_entry :: "mem \<Rightarrow> 'd lru_heap \<Rightarrow> lru_list \<Rightarrow> addr option \<times> lru_rc \<times> mem \<times> 'd lru_heap \<times> lru_list" where
  "LRU_new_entry m h l =
     (case GET_PREALLOC m (entry_prealloc l) (unat (nb_entry_prealloc l)) sizeof_LRU_entry of
        (None, pool, m') \<Rightarrow> (None, LRU_LIST_MALLOC_ERROR, m', h, l\<lparr>entry_prealloc := pool\<rparr>)
      | (Some a, pool, m') \<Rightarrow>
          (let h1 = h(a := (h a)\<lparr>valid_state := LRU_ENTRY_VALID, next_entry := None\<rparr>);
               (h2, l2) = (case lru_MRU l of
                  None \<Rightarrow> (h1(a := (h1 a)\<lparr>prev_entry := None\<rparr>), l\<lparr>lru_LRU := Some a\<rparr>)
                | Some b \<Rightarrow>
                    (let h1' = h1(a := (h1 a)\<lparr>prev_entry := Some b\<rparr>)
                     in (h1'(b := (h1' b)\<lparr>next_entry := Some a\<rparr>), l)))
           in (Some a, LRU_LIST_SUCCESS, m', h2,
               l2\<lparr>entry_prealloc := pool, nb_entry := nb_entry l + 1, nb_call_gc := nb_call_gc l + 1,
                  lru_MRU := Some a\<rparr>)))"

text \<open>Taking the entry \<open>a\<close> out of the list and giving it back to the pool.\<close>

definition gc_unlink :: "'d lru_heap \<Rightarrow> lru_list \<Rightarrow> addr \<Rightarrow> 'd lru_heap \<times> lru_list" where
  "gc_unlink h l a =
     (let (h1, l1) = (case prev_entry (h a) of
             Some p \<Rightarrow> (h(p := (h p)\<lparr>next_entry := next_entry (h a)\<rparr>), l)
           | None \<Rightarrow> (h, l\<lparr>lru_LRU := next_entry (h a)\<rparr>));
          h2 = (case next_entry (h1 a) of
             Some n \<Rightarrow> h1(n := (h1 n)\<lparr>prev_entry := prev_entry (h1 a)\<rparr>)
           | None \<Rightarrow> h1)
      in (h2, l1\<lparr>nb_entry := nb_entry l - 1, nb_invalid := nb_invalid l - 1,
                 entry_prealloc := RELEASE_PREALLOC a (entry_prealloc l)\<rparr>))"

partial_function (option) gc_loop ::
  "('d \<Rightarrow> 'x \<Rightarrow> int \<times> 'x) \<Rightarrow> 'd lru_heap \<Rightarrow> lru_list \<Rightarrow> 'x \<Rightarrow> addr option \<Rightarrow> lru_rc \<Rightarrow> (lru_rc \<times> 'd lru_heap \<times> lru_list \<times> 'x) option" where
  "gc_loop clean_entry h l x pentry rc =
     (if pentry = lru_MRU l then Some (rc, h, l, x)
      else case pentry of
        None \<Rightarrow> None
      | Some a \<Rightarrow>
          (if valid_state (h a) = LRU_ENTRY_INVALID
           then gc_loop clean_entry (fst (gc_unlink h l a)) (snd (gc_unlink h l a))
                  (snd (clean_entry (buffdata (h a)) x)) (next_entry (h a))
                  (if fst (clean_entry (buffdata (h a)) x) \<noteq> 0 then LRU_LIST_BAD_RELEASE_ENTRY else rc)
           else gc_loop clean_entry h l x (next_entry (h a)) rc))"

definition LRU_gc_invalid ::
  "('d \<Rightarrow> 'x \<Rightarrow> int \<times> 'x) \<Rightarrow> 'd lru_heap \<Rightarrow> lru_list \<Rightarrow> 'x \<Rightarrow> (lru_rc \<times> 'd lru_heap \<times> lru_list \<times> 'x) option" where
  "LRU_gc_invalid clean_entry h l x =
     (if nb_invalid l = 0 then Some (LRU_LIST_SUCCESS, h, l, x)
      else case lru_MRU l of
        None \<Rightarrow> Some (LRU_LIST_EMPTY_LIST, h, l, x)
      | Some b \<Rightarrow>
          if prev_entry (h b) = None then Some (LRU_LIST_SUCCESS, h, l, x)
          else if nb_call_gc l < nb_call_gc_invalid l then Some (LRU_LIST_SUCCESS, h, l, x)
          else gc_loop clean_entry h l x (lru_LRU l) LRU_LIST_SUCCESS)"

text \<open>\<open>LRU_LIST_SET_INVALID\<close> is 0.\<close>

partial_function (option) inval_loop ::
  "('d \<Rightarrow> 'x \<Rightarrow> int \<times> 'x) \<Rightarrow> 'd lru_heap \<Rightarrow> lru_list \<Rightarrow> 'x \<Rightarrow> addr option \<Rightarrow> (lru_rc \<times> 'd lru_heap \<times> lru_list \<times> 'x) option" where
  "inval_loop testfunc h l x pentry =
     (if pentry = lru_MRU l then Some (LRU_LIST_SUCCESS, h, l, x)
      else case pentry of
        None \<Rightarrow> None
      | Some a \<Rightarrow>
          (if valid_state (h a) \<noteq> LRU_ENTRY_INVALID
           then (if fst (testfunc (buffdata (h a)) x) = 0
                 then (case LRU_invalidate h l a of
                         (rc, h', l') \<Rightarrow>
                           if rc \<noteq> LRU_LIST_SUCCESS then Some (rc, h', l', snd (testfunc (buffdata (h a)) x))
                           else inval_loop testfunc h' l' (snd (testfunc (buffdata (h a)) x)) (next_entry (h a)))
                 else inval_loop testfunc h l (snd (testfunc (buffdata (h a)) x)) (next_entry (h a)))
           else inval_loop testfunc h l x (next_entry (h a))))"

definition LRU_invalidate_by_function ::
  "('d \<Rightarrow> 'x \<Rightarrow> int \<times> 'x) \<Rightarrow> 'd lru_heap \<Rightarrow> lru_list \<Rightarrow> 'x \<Rightarrow> (lru_rc \<times> 'd lru_heap \<times> lru_list \<times> 'x) option" where
  "LRU_invalidate_by_function testfunc h l x =
     (if nb_entry l = 0 then Some (LRU_LIST_SUCCESS, h, l, x)
      else case lru_MRU l of
        None \<Rightarrow> Some (LRU_LIST_EMPTY_LIST, h, l, x)
      | Some b \<Rightarrow>
          if prev_entry (h b) = None then Some (LRU_LIST_SUCCESS, h, l, x)
          else inval_loop testfunc h l x (lru_LRU l))"

partial_function (option) apply_loop ::
  "('d \<Rightarrow> 'x \<Rightarrow> bool \<times> 'x) \<Rightarrow> 'd lru_heap \<Rightarrow> 'x \<Rightarrow> addr option \<Rightarrow> 'x option" where
  "apply_loop myfunc h x pentry =
     (case pentry of
        None \<Rightarrow> Some x
      | Some a \<Rightarrow>
          (if valid_state (h a) \<noteq> LRU_ENTRY_INVALID
           then (if fst (myfunc (buffdata (h a)) x)
                 then apply_loop myfunc h (snd (myfunc (buffdata (h a)) x)) (prev_entry (h a))
                 else Some (snd (myfunc (buffdata (h a)) x)))
           else apply_loop myfunc h x (prev_entry (h a))))"

definition LRU_apply_function ::
  "('d \<Rightarrow> 'x \<Rightarrow> bool \<times> 'x) \<Rightarrow> 'd lru_heap \<Rightarrow> lru_list \<Rightarrow> 'x \<Rightarrow> (lru_rc \<times> 'x) option" where
  "LRU_apply_function myfunc h l x =
     (if nb_entry l = 0 then Some (LRU_LIST_SUCCESS, x)
      else case lru_MRU l of
        None \<Rightarrow> Some (LRU_LIST_EMPTY_LIST, x)
      | Some b \<Rightarrow>
          if prev_entry (h b) = None then Some (LRU_LIST_SUCCESS, x)
          else map_option (\<lambda>x'. (LRU_LIST_SUCCESS, x')) (apply_loop myfunc h x (prev_entry (h b))))"

subsection \<open>The list in the heap\<close>

definition hd_opt :: "addr list \<Rightarrow> addr option \<Rightarrow> addr option" where
  "hd_opt xs q = (case xs of [] \<Rightarrow> q | b # _ \<Rightarrow> Some b)"

definition last_opt :: "addr list \<Rightarrow> addr option \<Rightarrow> addr option" where
  "last_opt xs p = (if xs = [] then p else Some (last xs))"

lemma ends_simps [simp]:
  "hd_opt [] q = q" "hd_opt (a # xs) q = Some a" "last_opt [] p = p" "last_opt [a] p = Some a"
  "last_opt (xs @ [a]) p = Some a"
  by (simp_all add: hd_opt_def last_opt_def)

lemma last_opt_Cons: "last_opt (a # xs) p = last_opt xs (Some a)"
  by (simp add: last_opt_def)

lemma last_opt_append: "last_opt (xs @ ys) p = last_opt ys (last_opt xs p)"
  by (simp add: last_opt_def)

lemma hd_opt_append: "hd_opt (xs @ ys) q = hd_opt xs (hd_opt ys q)"
  by (cases xs) simp_all

text \<open>\<open>seg h p xs q\<close>: the entries \<open>xs\<close> are linked in order, between \<open>p\<close> and \<open>q\<close>.\<close>

fun seg :: "'d lru_heap \<Rightarrow> addr option \<Rightarrow> addr list \<Rightarrow> addr option \<Rightarrow> bool" where
  "seg h p [] q \<longleftrightarrow> True"
| "seg h p (a # xs) q \<longleftrightarrow> prev_entry (h a) = p \<and> next_entry (h a) = hd_opt xs q \<and> seg h (Some a) xs q"

lemma seg_append: "seg h p (xs @ ys) q \<longleftrightarrow> seg h p xs (hd_opt ys q) \<and> seg h (last_opt xs p) ys q"
  by (induction xs arbitrary: p) (auto simp: hd_opt_append last_opt_Cons)

lemma seg_frame: "a \<notin> set xs \<Longrightarrow> seg (h(a := e)) p xs q \<longleftrightarrow> seg h p xs q"
  by (induction xs arbitrary: p) auto

lemma seg_same_links:
  "(\<And>a. a \<in> set xs \<Longrightarrow> next_entry (h' a) = next_entry (h a) \<and> prev_entry (h' a) = prev_entry (h a)) \<Longrightarrow>
   seg h' p xs q \<longleftrightarrow> seg h p xs q"
  by (induction xs arbitrary: p) auto

lemma seg_set_next:
  assumes "seg h p (xs @ [a]) q" and "distinct (xs @ [a])"
  shows "seg (h(a := (h a)\<lparr>next_entry := q'\<rparr>)) p (xs @ [a]) q'"
  using assms by (simp add: seg_append seg_frame)

lemma seg_set_prev:
  assumes "seg h p (a # xs) q" and "a \<notin> set xs"
  shows "seg (h(a := (h a)\<lparr>prev_entry := p'\<rparr>)) p' (a # xs) q"
  using assms by (simp add: seg_frame)

abbreviation is_invalid :: "'d lru_heap \<Rightarrow> addr \<Rightarrow> bool" where
  "is_invalid h a \<equiv> valid_state (h a) = LRU_ENTRY_INVALID"

definition chain :: "'d lru_heap \<Rightarrow> lru_list \<Rightarrow> addr list \<Rightarrow> bool" where
  "chain h l xs \<longleftrightarrow> seg h None xs None \<and> lru_LRU l = hd_opt xs None \<and> lru_MRU l = last_opt xs None
     \<and> distinct xs \<and> nb_entry l = of_nat (length xs)
     \<and> nb_invalid l = of_nat (length (filter (is_invalid h) xs))"

definition lru_inv :: "mem \<Rightarrow> 'd lru_heap \<Rightarrow> lru_list \<Rightarrow> addr list \<Rightarrow> bool" where
  "lru_inv m h l xs \<longleftrightarrow> chain h l xs \<and> pool_inv m (set xs) (entry_prealloc l)"

subsection \<open>Initialisation, insertion and invalidation\<close>

lemma LRU_Init_correct:
  assumes "LRU_Init m pre gc = (Some l, rc, m')"
  shows "lru_inv m' h l [] \<and> rc = LRU_LIST_SUCCESS"
proof -
  from assms obtain m1 p where "STUFF_PREALLOC m1 (unat pre) sizeof_LRU_entry = (p, m')"
    and l: "l = \<lparr>lru_LRU = None, lru_MRU = None, nb_entry = 0, nb_invalid = 0, nb_call_gc = 0,
        nb_entry_prealloc = pre, nb_call_gc_invalid = gc, entry_prealloc = p\<rparr>" "rc = LRU_LIST_SUCCESS"
    by (auto simp: LRU_Init_def split: option.splits prod.splits list.splits)
  with STUFF_PREALLOC_inv [of m1 "{}" "unat pre" sizeof_LRU_entry p m']
  show ?thesis by (simp add: lru_inv_def chain_def pool_inv_def)
qed

lemma LRU_invalidate_correct:
  assumes inv: "lru_inv m h l xs" and a: "a \<in> set xs" and call: "LRU_invalidate h l a = (rc, h', l')"
  shows "rc = LRU_LIST_SUCCESS \<and> lru_inv m h' l' xs \<and> h' = h(a := (h a)\<lparr>valid_state := LRU_ENTRY_INVALID\<rparr>)"
proof (cases "is_invalid h a")
  case True
  then have "h(a := (h a)\<lparr>valid_state := LRU_ENTRY_INVALID\<rparr>) = h" by (intro fun_upd_idem) simp
  with True inv call show ?thesis by (simp add: LRU_invalidate_def)
next
  case False
  let ?h = "h(a := (h a)\<lparr>valid_state := LRU_ENTRY_INVALID\<rparr>)"
  from a inv obtain ys zs where xs: "xs = ys @ a # zs" "a \<notin> set ys" "a \<notin> set zs"
    by (auto simp: lru_inv_def chain_def dest: split_list)
  have f: "filter (is_invalid ?h) ys = filter (is_invalid h) ys" "filter (is_invalid ?h) zs = filter (is_invalid h) zs"
    using xs by (auto intro!: filter_cong)
  have "seg ?h None xs None" using inv by (subst seg_same_links [of _ _ h]) (auto simp: lru_inv_def chain_def)
  with inv False f call show ?thesis
    by (auto simp: lru_inv_def chain_def LRU_invalidate_def xs)
qed

lemma LRU_new_entry_correct:
  assumes inv: "lru_inv m h l xs" and call: "LRU_new_entry m h l = (Some a, rc, m', h', l')"
  shows "rc = LRU_LIST_SUCCESS \<and> a \<notin> set xs \<and> lru_inv m' h' l' (xs @ [a]) \<and> valid_state (h' a) = LRU_ENTRY_VALID
     \<and> (\<forall>b \<in> set xs. valid_state (h' b) = valid_state (h b) \<and> buffdata (h' b) = buffdata (h b))
     \<and> nb_call_gc l' = nb_call_gc l + 1"
proof -
  let ?nb = "unat (nb_entry_prealloc l)"
  from call obtain pool where g: "GET_PREALLOC m (entry_prealloc l) ?nb sizeof_LRU_entry = (Some a, pool, m')"
    by (auto simp: LRU_new_entry_def Let_def split: option.splits prod.splits)
  have p: "pool_inv m (set xs) (entry_prealloc l)" and c: "chain h l xs" using inv by (auto simp: lru_inv_def)
  from stuff.get_some [OF p g] have a: "a \<notin> set xs" and p': "pool_inv m' (set (xs @ [a])) pool" by auto
  show ?thesis
  proof (cases xs rule: rev_cases)
    case Nil
    with call c g p' show ?thesis
      by (auto simp: LRU_new_entry_def chain_def lru_inv_def Let_def)
  next
    case (snoc ys b)
    then have ab: "a \<noteq> b" "a \<notin> set ys" "b \<notin> set ys" "distinct ys" using a c by (auto simp: chain_def)
    have M: "lru_MRU l = Some b" using c snoc by (simp add: chain_def)
    let ?h = "h(a := (h a)\<lparr>valid_state := LRU_ENTRY_VALID, next_entry := None, prev_entry := Some b\<rparr>,
        b := (h b)\<lparr>next_entry := Some a\<rparr>)"
    let ?l = "l\<lparr>entry_prealloc := pool, nb_entry := nb_entry l + 1, nb_call_gc := nb_call_gc l + 1, lru_MRU := Some a\<rparr>"
    have "LRU_new_entry m h l = (Some a, LRU_LIST_SUCCESS, m', ?h, ?l)"
      using g M ab(1) by (simp add: LRU_new_entry_def)
    with call have h': "h' = ?h" and l': "l' = ?l" and rc: "rc = LRU_LIST_SUCCESS" by simp_all
    have "seg h None xs None" using c by (simp add: chain_def)
    then have s: "seg ?h None (xs @ [a]) None" using ab snoc by (simp add: seg_append seg_frame)
    have "filter (is_invalid ?h) ys = filter (is_invalid h) ys" using ab by (auto intro!: filter_cong)
    with c s p' a ab snoc show ?thesis unfolding h' l' rc
      by (auto simp: lru_inv_def chain_def hd_opt_append last_opt_def)
  qed
qed

lemma LRU_new_entry_fails:
  assumes inv: "lru_inv m h l xs" and call: "LRU_new_entry m h l = (None, rc, m', h', l')"
  shows "rc = LRU_LIST_MALLOC_ERROR \<and> h' = h \<and> lru_inv m' h' l' xs"
proof -
  let ?nb = "unat (nb_entry_prealloc l)"
  from call obtain pool where g: "GET_PREALLOC m (entry_prealloc l) ?nb sizeof_LRU_entry = (None, pool, m')"
    and r: "rc = LRU_LIST_MALLOC_ERROR" "h' = h" "l' = l\<lparr>entry_prealloc := pool\<rparr>"
    by (auto simp: LRU_new_entry_def Let_def split: option.splits prod.splits)
  have "pool_inv m (set xs) (entry_prealloc l)" using inv by (auto simp: lru_inv_def)
  from stuff.get_none [OF this g] r inv show ?thesis by (simp add: lru_inv_def chain_def)
qed

subsection \<open>Garbage collection\<close>

lemma gc_unlink_correct:
  assumes inv: "lru_inv m h l (ys @ a # b # zs)" and bad: "is_invalid h a" and g: "gc_unlink h l a = (h', l')"
  shows "lru_inv m h' l' (ys @ b # zs)"
    and "\<forall>c. valid_state (h' c) = valid_state (h c) \<and> buffdata (h' c) = buffdata (h c)"
    and "lru_MRU l' = lru_MRU l" and "next_entry (h' b) = next_entry (h b)"
    and "entry_prealloc l' = a # entry_prealloc l"
proof -
  let ?h1 = "case last_opt ys None of None \<Rightarrow> h | Some p \<Rightarrow> h(p := (h p)\<lparr>next_entry := Some b\<rparr>)"
  let ?h2 = "?h1(b := (?h1 b)\<lparr>prev_entry := last_opt ys None\<rparr>)"
  let ?l = "l\<lparr>lru_LRU := hd_opt ys (Some b), nb_entry := nb_entry l - 1, nb_invalid := nb_invalid l - 1,
      entry_prealloc := a # entry_prealloc l\<rparr>"
  have c: "chain h l (ys @ a # b # zs)" and p: "pool_inv m (set (ys @ a # b # zs)) (entry_prealloc l)"
    using inv by (auto simp: lru_inv_def)
  from c have d: "distinct (ys @ a # b # zs)" and s: "seg h None ys (Some a)" "prev_entry (h a) = last_opt ys None"
    "next_entry (h a) = Some b" "seg h (Some a) (b # zs) None" and L: "lru_LRU l = hd_opt ys (Some a)"
    by (auto simp: chain_def seg_append hd_opt_append)
  have eq: "h' = ?h2" "l' = ?l"
  proof -
    have "gc_unlink h l a = (?h2, ?l)"
    proof (cases ys rule: rev_cases)
      case Nil
      with s show ?thesis by (simp add: gc_unlink_def RELEASE_PREALLOC_def)
    next
      case (snoc us u)
      then have "hd_opt ys (Some a) = hd_opt ys (Some b)" by (cases us) auto
      then have "l\<lparr>lru_LRU := hd_opt ys (Some b)\<rparr> = l" using L by (cases l) auto
      with snoc s d show ?thesis
        by (cases l) (auto simp: gc_unlink_def RELEASE_PREALLOC_def)
    qed
    with g show "h' = ?h2" "l' = ?l" by simp_all
  qed
  have s1: "seg ?h1 None ys (Some b)" "seg ?h1 (Some a) (b # zs) None"
    using s(1,4) d by (cases ys rule: rev_cases; simp add: seg_append seg_frame)+
  then have "seg ?h2 None (ys @ b # zs) None"
    unfolding seg_append using d seg_set_prev [OF s1(2), of "last_opt ys None"]
    by (simp add: seg_frame)
  moreover show v: "\<forall>c. valid_state (h' c) = valid_state (h c) \<and> buffdata (h' c) = buffdata (h c)"
    unfolding eq by (auto split: option.splits)
  then have "filter (is_invalid h') xs = filter (is_invalid h) xs" for xs by simp
  ultimately have "chain h' l' (ys @ b # zs)"
    using c bad unfolding eq(1) [symmetric] by (simp add: chain_def eq(2) hd_opt_append last_opt_append last_opt_Cons)
  moreover have "pool_inv m (set (ys @ a # b # zs) - {a}) (RELEASE_PREALLOC a (entry_prealloc l))"
    using p by (rule stuff.release_live) simp
  moreover have "set (ys @ a # b # zs) - {a} = set (ys @ b # zs)" using d by auto
  ultimately show "lru_inv m h' l' (ys @ b # zs)" by (simp add: lru_inv_def eq(2) RELEASE_PREALLOC_def)
  show "lru_MRU l' = lru_MRU l" "entry_prealloc l' = a # entry_prealloc l" by (simp_all add: eq(2))
  have "last_opt ys None \<noteq> Some b" using d by (auto simp: last_opt_def)
  then show "next_entry (h' b) = next_entry (h b)" unfolding eq by (auto split: option.splits)
qed

definition same_data :: "'d lru_heap \<Rightarrow> 'd lru_heap \<Rightarrow> bool" where
  "same_data h' h \<longleftrightarrow> (\<forall>c. valid_state (h' c) = valid_state (h c) \<and> buffdata (h' c) = buffdata (h c))"

definition clean_all :: "('d \<Rightarrow> 'x \<Rightarrow> int \<times> 'x) \<Rightarrow> 'd lru_heap \<Rightarrow> addr list \<Rightarrow> 'x \<Rightarrow> 'x" where
  "clean_all clean h as x = fold (\<lambda>a x. snd (clean (buffdata (h a)) x)) as x"

lemma gc_loop_MRU: "pentry = lru_MRU l \<Longrightarrow> gc_loop clean h l x pentry rc = Some (rc, h, l, x)"
  by (subst gc_loop.simps) simp

text \<open>
  The loop returns; it keeps the valid entries and the newest one, in their order, gives the
  invalid ones back to the pool and calls \<open>clean_entry\<close> once on each of them, oldest first.
\<close>

lemma gc_loop_correct:
  assumes "lru_inv m h l (ys @ zs @ [b])"
  shows "\<exists>rc' h' l'. gc_loop clean h l x (hd_opt (zs @ [b]) None) rc
       = Some (rc', h', l', clean_all clean h (filter (is_invalid h) zs) x)
     \<and> lru_inv m h' l' (ys @ filter (\<lambda>a. \<not> is_invalid h a) zs @ [b]) \<and> same_data h' h
     \<and> entry_prealloc l' = rev (filter (is_invalid h) zs) @ entry_prealloc l"
  using assms
proof (induction zs arbitrary: ys h l x rc)
  case Nil
  then have "lru_MRU l = Some b" by (simp add: lru_inv_def chain_def)
  with Nil show ?case by (auto simp: gc_loop_MRU clean_all_def same_data_def)
next
  case (Cons a zs)
  have M: "lru_MRU l = Some b" "a \<noteq> b" using Cons.prems by (auto simp: lru_inv_def chain_def last_opt_def)
  have n: "next_entry (h a) = hd_opt (zs @ [b]) None"
    using Cons.prems by (auto simp: lru_inv_def chain_def seg_append)
  show ?case
  proof (cases "is_invalid h a")
    case True
    obtain h1 l1 where g: "gc_unlink h l a = (h1, l1)" by (cases "gc_unlink h l a")
    obtain c us where us: "zs @ [b] = c # us" by (cases "zs @ [b]") auto
    have "lru_inv m h l (ys @ a # c # us)" using Cons.prems us by simp
    note u = gc_unlink_correct [OF this True g]
    then have v: "same_data h1 h" by (simp add: same_data_def)
    then have f: "filter (is_invalid h1) zs = filter (is_invalid h) zs"
      "filter (\<lambda>a. \<not> is_invalid h1 a) zs = filter (\<lambda>a. \<not> is_invalid h a) zs" by (simp_all add: same_data_def)
    have "clean_all clean h1 = clean_all clean h" using v by (simp add: clean_all_def same_data_def fun_eq_iff)
    with Cons.IH [of h1 l1 ys] u(1,5) us f v obtain rc' h' l' where
      "gc_loop clean h1 l1 (snd (clean (buffdata (h a)) x)) (hd_opt (zs @ [b]) None)
         (if fst (clean (buffdata (h a)) x) \<noteq> 0 then LRU_LIST_BAD_RELEASE_ENTRY else rc)
       = Some (rc', h', l', clean_all clean h (filter (is_invalid h) zs) (snd (clean (buffdata (h a)) x)))"
      "lru_inv m h' l' (ys @ filter (\<lambda>a. \<not> is_invalid h a) zs @ [b])" "same_data h' h1"
      "entry_prealloc l' = rev (filter (is_invalid h) zs) @ entry_prealloc l1" by metis
    with True M n g u(5) v show ?thesis
      by (subst gc_loop.simps) (auto simp: clean_all_def same_data_def)
  next
    case False
    from Cons.IH [of h l "ys @ [a]"] Cons.prems obtain rc' h' l' where
      "gc_loop clean h l x (hd_opt (zs @ [b]) None) rc
       = Some (rc', h', l', clean_all clean h (filter (is_invalid h) zs) x)"
      "lru_inv m h' l' ((ys @ [a]) @ filter (\<lambda>a. \<not> is_invalid h a) zs @ [b])" "same_data h' h"
      "entry_prealloc l' = rev (filter (is_invalid h) zs) @ entry_prealloc l" by fastforce
    with False M n show ?thesis by (subst gc_loop.simps) auto
  qed
qed

lemma LRU_gc_invalid_correct:
  assumes inv: "lru_inv m h l (zs @ [b])" and small: "length zs < 2 ^ 32 - 1"
    and calls: "nb_call_gc_invalid l \<le> nb_call_gc l"
  shows "\<exists>rc h' l'. LRU_gc_invalid clean h l x = Some (rc, h', l', clean_all clean h (filter (is_invalid h) zs) x)
     \<and> lru_inv m h' l' (filter (\<lambda>a. \<not> is_invalid h a) zs @ [b]) \<and> same_data h' h"
proof -
  have c: "chain h l (zs @ [b])" using inv by (simp add: lru_inv_def)
  have M: "lru_MRU l = Some b" "lru_LRU l = hd_opt (zs @ [b]) None" and pb: "prev_entry (h b) = last_opt zs None"
    using c by (auto simp: chain_def seg_append hd_opt_append)
  consider "nb_invalid l = 0 \<or> zs = []" | "nb_invalid l \<noteq> 0" "zs \<noteq> []" by blast
  then show ?thesis
  proof cases
    case 1
    have "length (filter (is_invalid h) (zs @ [b])) < 2 ^ 32"
      using small length_filter_le [of "is_invalid h" "zs @ [b]"] by simp
    then have "nb_invalid l = 0 \<Longrightarrow> filter (is_invalid h) (zs @ [b]) = []"
      using c unat_of_nat_small32 [of "length (filter (is_invalid h) (zs @ [b]))"] unfolding chain_def
      by (metis length_0_conv unat_0)
    with 1 have none: "filter (is_invalid h) zs = []" by auto
    then have "filter (\<lambda>a. \<not> is_invalid h a) zs = zs" by (simp add: filter_empty_conv)
    moreover have "LRU_gc_invalid clean h l x = Some (LRU_LIST_SUCCESS, h, l, x)"
      using 1 M pb by (auto simp: LRU_gc_invalid_def)
    ultimately show ?thesis using inv none by (simp add: clean_all_def same_data_def)
  next
    case 2
    then have "LRU_gc_invalid clean h l x = gc_loop clean h l x (hd_opt (zs @ [b]) None) LRU_LIST_SUCCESS"
      using M pb calls by (simp add: LRU_gc_invalid_def last_opt_def leD)
    with gc_loop_correct [of m h l "[]" zs b clean x LRU_LIST_SUCCESS] inv show ?thesis by auto
  qed
qed

subsection \<open>Browsing the list\<close>

text \<open>
  The entries that \<open>LRU_invalidate_by_function\<close> tags: those that are not invalid already and
  that the test asks for, with the state of the test threaded from the oldest on.
\<close>

fun tagged :: "('d \<Rightarrow> 'x \<Rightarrow> int \<times> 'x) \<Rightarrow> 'd lru_heap \<Rightarrow> addr list \<Rightarrow> 'x \<Rightarrow> addr list \<times> 'x" where
  "tagged t h [] x = ([], x)"
| "tagged t h (a # as) x =
     (if is_invalid h a then tagged t h as x
      else if fst (t (buffdata (h a)) x) = 0
      then (a # fst (tagged t h as (snd (t (buffdata (h a)) x))), snd (tagged t h as (snd (t (buffdata (h a)) x))))
      else tagged t h as (snd (t (buffdata (h a)) x)))"

definition tag :: "'d lru_heap \<Rightarrow> addr list \<Rightarrow> 'd lru_heap" where
  "tag h as = (\<lambda>a. if a \<in> set as then (h a)\<lparr>valid_state := LRU_ENTRY_INVALID\<rparr> else h a)"

lemma tagged_subset: "set (fst (tagged t h as x)) \<subseteq> set as"
  by (induction as arbitrary: x) (simp; blast)+

lemma tagged_frame: "a \<notin> set as \<Longrightarrow> tagged t (h(a := e)) as x = tagged t h as x"
  by (induction as arbitrary: x) auto

lemma tag_Cons: "a \<notin> set as \<Longrightarrow> tag (h(a := (h a)\<lparr>valid_state := LRU_ENTRY_INVALID\<rparr>)) as = tag h (a # as)"
  by (auto simp: tag_def)

lemma inval_loop_correct:
  assumes "lru_inv m h l (ys @ zs @ [b])"
  shows "\<exists>l'. inval_loop t h l x (hd_opt (zs @ [b]) None)
       = Some (LRU_LIST_SUCCESS, tag h (fst (tagged t h zs x)), l', snd (tagged t h zs x))
     \<and> lru_inv m (tag h (fst (tagged t h zs x))) l' (ys @ zs @ [b])"
  using assms
proof (induction zs arbitrary: ys h l x)
  case Nil
  then have "lru_MRU l = Some b" by (simp add: lru_inv_def chain_def)
  with Nil show ?case by (subst inval_loop.simps) (simp add: tag_def)
next
  case (Cons a zs)
  have M: "lru_MRU l = Some b" "a \<noteq> b" and az: "a \<notin> set zs"
    using Cons.prems by (auto simp: lru_inv_def chain_def last_opt_def)
  have n: "next_entry (h a) = hd_opt (zs @ [b]) None"
    using Cons.prems by (auto simp: lru_inv_def chain_def seg_append)
  let ?x = "snd (t (buffdata (h a)) x)"
  show ?case
  proof (cases "\<not> is_invalid h a \<and> fst (t (buffdata (h a)) x) = 0")
    case True
    obtain rc h1 l1 where g: "LRU_invalidate h l a = (rc, h1, l1)" by (cases "LRU_invalidate h l a")
    from LRU_invalidate_correct [OF Cons.prems _ g] have i: "rc = LRU_LIST_SUCCESS" "lru_inv m h1 l1 (ys @ (a # zs) @ [b])"
      and h1: "h1 = h(a := (h a)\<lparr>valid_state := LRU_ENTRY_INVALID\<rparr>)" by auto
    have t1: "tagged t h1 zs ?x = tagged t h zs ?x" unfolding h1 using az by (rule tagged_frame)
    have "a \<notin> set (fst (tagged t h zs ?x))" using az tagged_subset by fast
    then have t2: "tag h1 (fst (tagged t h zs ?x)) = tag h (a # fst (tagged t h zs ?x))"
      unfolding h1 by (rule tag_Cons)
    from Cons.IH [of h1 l1 "ys @ [a]" ?x] i(2) show ?thesis
      using True M n g i(1) unfolding t1 t2 by (subst inval_loop.simps) simp
  next
    case False
    with Cons.IH [of h l "ys @ [a]"] Cons.prems M n show ?thesis
      by (subst inval_loop.simps) auto
  qed
qed

lemma LRU_invalidate_by_function_correct:
  assumes inv: "lru_inv m h l (zs @ [b])" and small: "length zs < 2 ^ 32 - 1"
  shows "\<exists>l'. LRU_invalidate_by_function t h l x
       = Some (LRU_LIST_SUCCESS, tag h (fst (tagged t h zs x)), l', snd (tagged t h zs x))
     \<and> lru_inv m (tag h (fst (tagged t h zs x))) l' (zs @ [b])"
proof -
  have c: "chain h l (zs @ [b])" using inv by (simp add: lru_inv_def)
  have M: "lru_MRU l = Some b" "lru_LRU l = hd_opt (zs @ [b]) None" and pb: "prev_entry (h b) = last_opt zs None"
    using c by (auto simp: chain_def seg_append hd_opt_append)
  have "unat (nb_entry l) = Suc (length zs)"
    using c small unat_of_nat_small32 [of "Suc (length zs)"] by (simp add: chain_def)
  then have nz: "nb_entry l \<noteq> 0" by auto
  show ?thesis
  proof (cases "zs = []")
    case True
    with inv M pb nz show ?thesis by (simp add: LRU_invalidate_by_function_def tag_def)
  next
    case False
    then have "LRU_invalidate_by_function t h l x = inval_loop t h l x (hd_opt (zs @ [b]) None)"
      using M pb nz by (simp add: LRU_invalidate_by_function_def last_opt_def)
    with inval_loop_correct [of m h l "[]" zs b t x] inv show ?thesis by auto
  qed
qed

text \<open>\<open>LRU_apply_function\<close> visits the valid entries from the newest but one to the oldest, until told to stop.\<close>

fun visit :: "('d \<Rightarrow> 'x \<Rightarrow> bool \<times> 'x) \<Rightarrow> 'd lru_heap \<Rightarrow> addr list \<Rightarrow> 'x \<Rightarrow> 'x" where
  "visit f h [] x = x"
| "visit f h (a # as) x =
     (if is_invalid h a then visit f h as x
      else if fst (f (buffdata (h a)) x) then visit f h as (snd (f (buffdata (h a)) x))
      else snd (f (buffdata (h a)) x))"

lemma apply_loop_correct:
  "seg h None zs q \<Longrightarrow> apply_loop f h x (last_opt zs None) = Some (visit f h (rev zs) x)"
proof (induction zs arbitrary: q x rule: rev_induct)
  case Nil
  then show ?case by (subst apply_loop.simps) simp
next
  case (snoc a zs)
  then have "seg h None zs (Some a)" "prev_entry (h a) = last_opt zs None" by (auto simp: seg_append)
  with snoc.IH show ?case by (subst apply_loop.simps) simp
qed

lemma LRU_apply_function_correct:
  assumes inv: "lru_inv m h l (zs @ [b])" and small: "length zs < 2 ^ 32 - 1"
  shows "LRU_apply_function f h l x = Some (LRU_LIST_SUCCESS, visit f h (rev zs) x)"
proof -
  have c: "chain h l (zs @ [b])" using inv by (simp add: lru_inv_def)
  have M: "lru_MRU l = Some b" and s: "seg h None zs (Some b)" and pb: "prev_entry (h b) = last_opt zs None"
    using c by (auto simp: chain_def seg_append)
  have "unat (nb_entry l) = Suc (length zs)"
    using c small unat_of_nat_small32 [of "Suc (length zs)"] by (simp add: chain_def)
  then have nz: "nb_entry l \<noteq> 0" by auto
  have "apply_loop f h x (last_opt zs None) = Some (visit f h (rev zs) x)" using s by (rule apply_loop_correct)
  then show ?thesis using M pb nz
    by (cases "zs = []") (auto simp: LRU_apply_function_def last_opt_def)
qed

subsection \<open>Properties\<close>

text \<open>Two entries, the older one invalid, for the witnesses.\<close>

definition demo_heap :: "nat lru_heap" where
  "demo_heap = (\<lambda>a. if a = 1 then \<lparr>next_entry = Some 2, prev_entry = None, valid_state = LRU_ENTRY_INVALID, buffdata = 10\<rparr>
     else \<lparr>next_entry = None, prev_entry = Some 1, valid_state = LRU_ENTRY_VALID, buffdata = 20\<rparr>)"

definition demo_list :: lru_list where
  "demo_list = \<lparr>lru_LRU = Some 1, lru_MRU = Some 2, nb_entry = 2, nb_invalid = 1, nb_call_gc = 2,
     nb_entry_prealloc = 4, nb_call_gc_invalid = 1, entry_prealloc = [3]\<rparr>"

definition demo_lru_mem :: mem where
  "demo_lru_mem = \<lparr>brk = 5, nalloc = 0, fails = (\<lambda>_. False), buddy = \<lparr>k_size = 20, size_header64 = 32, min_alloc_size = 16\<rparr>\<rparr>"

lemma demo_lru: "lru_inv demo_lru_mem demo_heap demo_list ([1] @ [2])"
  by (simp add: lru_inv_def chain_def pool_inv_def demo_heap_def demo_list_def demo_lru_mem_def last_opt_def)



text \<open>A new entry of the LRU list.  LRU_new_entry appends a fresh valid entry as the newest one; when the pool
  cannot give an entry it reports LRU_LIST_MALLOC_ERROR and leaves the list as it was.\<close>

theorem lru_new_entry_correct:
  assumes "lru_inv m h l xs" and "LRU_new_entry m h l = (r, rc, m', h', l')"
  shows "case r of
      None \<Rightarrow> rc = LRU_LIST_MALLOC_ERROR \<and> h' = h \<and> lru_inv m' h' l' xs
    | Some a \<Rightarrow> rc = LRU_LIST_SUCCESS \<and> a \<notin> set xs \<and> lru_inv m' h' l' (xs @ [a]) \<and> valid_state (h' a) = LRU_ENTRY_VALID
        \<and> (\<forall>c \<in> set xs. valid_state (h' c) = valid_state (h c) \<and> buffdata (h' c) = buffdata (h c))"
  using LRU_new_entry_correct [OF assms(1)] LRU_new_entry_fails [OF assms(1)] assms(2)
  by (cases r) auto

theorem lru_new_entry_correct_witness:
  "case LRU_new_entry demo_lru_mem demo_heap demo_list of
     (r, rc, m', h', l') \<Rightarrow> r = Some 3 \<and> lru_inv m' h' l' [1, 2, 3]"
proof -
  obtain r rc m' h' l' where c: "LRU_new_entry demo_lru_mem demo_heap demo_list = (r, rc, m', h', l')"
    by (cases "LRU_new_entry demo_lru_mem demo_heap demo_list")
  then have "r = Some 3"
    by (simp add: LRU_new_entry_def GET_PREALLOC_def demo_list_def Let_def split: prod.splits)
  with lru_new_entry_correct [OF demo_lru c] c show ?thesis by simp
qed

text \<open>Browsing for invalidation.  LRU_invalidate_by_function returns and tags exactly the entries before the
  newest one that are not invalid already and for which the test function asks it, threading
  the state of the test from the oldest entry on; the list keeps its order and its counters.\<close>

theorem lru_invalidate_by_function_correct:
  assumes "lru_inv m h l (zs @ [b])" and "length zs < 2 ^ 32 - 1"
  shows "\<exists>l'. LRU_invalidate_by_function t h l x
       = Some (LRU_LIST_SUCCESS, tag h (fst (tagged t h zs x)), l', snd (tagged t h zs x))
     \<and> lru_inv m (tag h (fst (tagged t h zs x))) l' (zs @ [b])"
  by (rule LRU_invalidate_by_function_correct [OF assms])

theorem lru_invalidate_by_function_correct_witness:
  "\<exists>l'. LRU_invalidate_by_function (\<lambda>d x. (0, x)) demo_heap demo_list () = Some (LRU_LIST_SUCCESS, demo_heap, l', ())"
  using lru_invalidate_by_function_correct [OF demo_lru, of "\<lambda>d x. (0, x)" "()"]
  by (auto simp: demo_heap_def tag_def)

end
