(* ===== verification/RW_Lock.thy ===== *)
theory RW_Lock
  imports Prelude
begin

text \<open>
  The read-write lock of \<^verbatim>\<open>RW_Lock/RW_Lock.c\<close> as a step relation on a lock and the list of
  its threads.  Each step is one critical section of \<open>mutexProtect\<close>: from the acquisition of
  the mutex to its release or to the wait on a condition variable, which releases it.  A
  thread blocked on \<open>condRead\<close> or \<open>condWrite\<close> is \<open>R_wait\<close> or \<open>W_wait\<close>; once signalled
  (\<open>R_woken\<close>, \<open>W_woken\<close>) it has to take the mutex again before it goes on, so other threads
  may run in between.
\<close>

record rw_lock =
  nbr_active :: u32
  nbr_waiting :: u32
  nbw_active :: u32
  nbw_waiting :: u32

datatype rw_pc = Idle | R_wait | R_woken | R_active | W_wait | W_woken | W_active

type_synonym rw_state = "rw_lock \<times> rw_pc list"

subsection \<open>The critical sections\<close>

text \<open>\<open>P_r\<close> up to its wait or its end, and after the wait: the test is not made again.\<close>

definition P_r_resume :: "rw_lock \<Rightarrow> rw_lock" where
  "P_r_resume L = L\<lparr>nbr_waiting := nbr_waiting L - 1, nbr_active := nbr_active L + 1\<rparr>"

definition P_r :: "rw_lock \<Rightarrow> rw_lock \<times> rw_pc" where
  "P_r L = (let L1 = L\<lparr>nbr_waiting := nbr_waiting L + 1\<rparr>
            in if nbw_active L1 > 0 \<or> nbw_waiting L1 > 0 then (L1, R_wait)
               else (P_r_resume L1, R_active))"

text \<open>The loop of \<open>P_w\<close>: the test is made again after each wait.\<close>

definition P_w_loop :: "rw_lock \<Rightarrow> rw_lock \<times> rw_pc" where
  "P_w_loop L = (if nbr_active L > 0 \<or> nbw_active L > 0 then (L, W_wait)
                 else (L\<lparr>nbw_waiting := nbw_waiting L - 1, nbw_active := nbw_active L + 1\<rparr>, W_active))"

definition P_w :: "rw_lock \<Rightarrow> rw_lock \<times> rw_pc" where
  "P_w L = P_w_loop (L\<lparr>nbw_waiting := nbw_waiting L + 1\<rparr>)"

text \<open>What the releasing operations do to the condition variables.\<close>

datatype wakeup = No_wakeup | Signal_write | Broadcast_read

definition V_r :: "rw_lock \<Rightarrow> rw_lock \<times> wakeup" where
  "V_r L = (let L1 = L\<lparr>nbr_active := nbr_active L - 1\<rparr>
            in (L1, if nbr_active L1 = 0 \<and> nbw_waiting L1 > 0 then Signal_write else No_wakeup))"

definition V_w :: "rw_lock \<Rightarrow> rw_lock \<times> wakeup" where
  "V_w L = (let L1 = L\<lparr>nbw_active := nbw_active L - 1\<rparr>
            in (L1, if nbw_waiting L1 > 0 then Signal_write
                    else if nbr_waiting L1 > 0 then Broadcast_read else No_wakeup))"

definition rw_lock_downgrade :: "rw_lock \<Rightarrow> rw_lock \<times> wakeup" where
  "rw_lock_downgrade L =
     (let L1 = L\<lparr>nbw_active := nbw_active L - 1\<rparr>;
          w = (if nbr_waiting L1 > 0 then Broadcast_read else No_wakeup)
      in (L1\<lparr>nbr_active := nbr_active L1 + 1\<rparr>, w))"

text \<open>\<open>rw_lock_init\<close>; its argument is the outcome of the five pthread initialisations.\<close>

definition rw_lock_init :: "bool list \<Rightarrow> rw_lock \<Rightarrow> nat \<times> rw_lock" where
  "rw_lock_init oks L =
     (if list_all id oks then (0, \<lparr>nbr_active = 0, nbr_waiting = 0, nbw_active = 0, nbw_waiting = 0\<rparr>) else (1, L))"

text \<open>
  \<open>wakes w ts ts'\<close>: the threads after a wakeup.  A signal wakes one of the waiting writers,
  whichever; it is lost when there is none.
\<close>

inductive wakes :: "wakeup \<Rightarrow> rw_pc list \<Rightarrow> rw_pc list \<Rightarrow> bool" where
  wake_none: "wakes No_wakeup ts ts"
| wake_writer: "j < length ts \<Longrightarrow> ts ! j = W_wait \<Longrightarrow> wakes Signal_write ts (ts[j := W_woken])"
| wake_lost: "W_wait \<notin> set ts \<Longrightarrow> wakes Signal_write ts ts"
| wake_readers: "wakes Broadcast_read ts (map (\<lambda>c. if c = R_wait then R_woken else c) ts)"

inductive rw_step :: "rw_state \<Rightarrow> rw_state \<Rightarrow> bool" where
  step_P_r: "i < length ts \<Longrightarrow> ts ! i = Idle \<Longrightarrow> P_r L = (L', c) \<Longrightarrow> rw_step (L, ts) (L', ts[i := c])"
| step_P_r_resume: "i < length ts \<Longrightarrow> ts ! i = R_woken \<Longrightarrow> rw_step (L, ts) (P_r_resume L, ts[i := R_active])"
| step_V_r: "i < length ts \<Longrightarrow> ts ! i = R_active \<Longrightarrow> V_r L = (L', w) \<Longrightarrow> wakes w (ts[i := Idle]) ts' \<Longrightarrow>
    rw_step (L, ts) (L', ts')"
| step_P_w: "i < length ts \<Longrightarrow> ts ! i = Idle \<Longrightarrow> P_w L = (L', c) \<Longrightarrow> rw_step (L, ts) (L', ts[i := c])"
| step_P_w_loop: "i < length ts \<Longrightarrow> ts ! i = W_woken \<Longrightarrow> P_w_loop L = (L', c) \<Longrightarrow> rw_step (L, ts) (L', ts[i := c])"
| step_V_w: "i < length ts \<Longrightarrow> ts ! i = W_active \<Longrightarrow> V_w L = (L', w) \<Longrightarrow> wakes w (ts[i := Idle]) ts' \<Longrightarrow>
    rw_step (L, ts) (L', ts')"
| step_downgrade: "i < length ts \<Longrightarrow> ts ! i = W_active \<Longrightarrow> rw_lock_downgrade L = (L', w) \<Longrightarrow>
    wakes w (ts[i := R_active]) ts' \<Longrightarrow> rw_step (L, ts) (L', ts')"

definition rw_start :: "nat \<Rightarrow> rw_state" where
  "rw_start n = (snd (rw_lock_init [True, True, True, True, True]
      \<lparr>nbr_active = 0, nbr_waiting = 0, nbw_active = 0, nbw_waiting = 0\<rparr>), replicate n Idle)"

inductive rw_reach :: "nat \<Rightarrow> rw_state \<Rightarrow> bool" for n where
  reach_start: "rw_reach n (rw_start n)"
| reach_step: "rw_reach n s \<Longrightarrow> rw_step s s' \<Longrightarrow> rw_reach n s'"

inductive_cases rw_stepE: "rw_step s s'"
inductive_simps wakes_simps [simp]: "wakes No_wakeup ts ts'" "wakes Broadcast_read ts ts'"
inductive_cases wakes_signalE: "wakes Signal_write ts ts'"

subsection \<open>Counting threads\<close>

definition cnt :: "(rw_pc \<Rightarrow> bool) \<Rightarrow> rw_pc list \<Rightarrow> nat" where
  "cnt P ts = length (filter P ts)"

lemma cnt_update:
  "i < length ts \<Longrightarrow> cnt P (ts[i := c]) + (if P (ts ! i) then 1 else 0) = cnt P ts + (if P c then 1 else 0)"
  unfolding cnt_def by (rule length_filter_update)

lemma cnt_zero: "cnt P ts = 0 \<longleftrightarrow> (\<forall>c \<in> set ts. \<not> P c)"
  by (auto simp: cnt_def filter_empty_conv)

lemma cnt_le: "cnt P ts \<le> length ts"
  by (simp add: cnt_def)

abbreviation is_r_active :: "rw_pc \<Rightarrow> bool" where "is_r_active c \<equiv> c = R_active"
abbreviation is_w_active :: "rw_pc \<Rightarrow> bool" where "is_w_active c \<equiv> c = W_active"
abbreviation is_r_waiting :: "rw_pc \<Rightarrow> bool" where "is_r_waiting c \<equiv> c = R_wait \<or> c = R_woken"
abbreviation is_w_waiting :: "rw_pc \<Rightarrow> bool" where "is_w_waiting c \<equiv> c = W_wait \<or> c = W_woken"

lemma cnt_broadcast [simp]:
  "cnt is_r_active (map (\<lambda>c. if c = R_wait then R_woken else c) ts) = cnt is_r_active ts"
  "cnt is_w_active (map (\<lambda>c. if c = R_wait then R_woken else c) ts) = cnt is_w_active ts"
  "cnt is_r_waiting (map (\<lambda>c. if c = R_wait then R_woken else c) ts) = cnt is_r_waiting ts"
  "cnt is_w_waiting (map (\<lambda>c. if c = R_wait then R_woken else c) ts) = cnt is_w_waiting ts"
  by (induction ts) (auto simp: cnt_def)

text \<open>Waking a thread keeps the counts.\<close>

lemma cnt_wakes:
  assumes "wakes w ts ts'"
  shows "cnt is_r_active ts' = cnt is_r_active ts \<and> cnt is_w_active ts' = cnt is_w_active ts
     \<and> cnt is_r_waiting ts' = cnt is_r_waiting ts \<and> cnt is_w_waiting ts' = cnt is_w_waiting ts
     \<and> length ts' = length ts"
  using assms
proof cases
  case (wake_writer j)
  with cnt_update [of j ts is_r_active W_woken] cnt_update [of j ts is_w_active W_woken]
    cnt_update [of j ts is_r_waiting W_woken] cnt_update [of j ts is_w_waiting W_woken]
  show ?thesis by simp
qed auto

definition rw_counts :: "rw_state \<Rightarrow> bool" where
  "rw_counts s \<longleftrightarrow> (case s of (L, ts) \<Rightarrow>
     nbr_active L = of_nat (cnt is_r_active ts) \<and> nbw_active L = of_nat (cnt is_w_active ts)
     \<and> nbr_waiting L = of_nat (cnt is_r_waiting ts) \<and> nbw_waiting L = of_nat (cnt is_w_waiting ts))"

lemma cnt_move:
  assumes "i < length ts"
  shows "\<not> P (ts ! i) \<Longrightarrow> P c \<Longrightarrow> cnt P (ts[i := c]) = Suc (cnt P ts)"
    and "P (ts ! i) \<Longrightarrow> \<not> P c \<Longrightarrow> Suc (cnt P (ts[i := c])) = cnt P ts"
    and "P (ts ! i) = P c \<Longrightarrow> cnt P (ts[i := c]) = cnt P ts"
  using cnt_update [OF assms, of P c] by (auto split: if_splits)

lemma of_nat_less_32: "k < 2 ^ 32 \<Longrightarrow> (0 < (of_nat k :: u32)) = (0 < k)"
  using unat_of_nat_small32 [of k] by (simp only: word_less_nat_alt unat_0)

lemma cnt_word:
  assumes "i < length ts"
  shows "\<not> P (ts ! i) \<Longrightarrow> P c \<Longrightarrow> (of_nat (cnt P (ts[i := c])) :: u32) = of_nat (cnt P ts) + 1"
    and "P (ts ! i) \<Longrightarrow> \<not> P c \<Longrightarrow> (of_nat (cnt P (ts[i := c])) :: u32) = of_nat (cnt P ts) - 1"
    and "P (ts ! i) = P c \<Longrightarrow> (of_nat (cnt P (ts[i := c])) :: u32) = of_nat (cnt P ts)"
  using cnt_update [OF assms, of P c] cnt_move(2) [OF assms, of P c, symmetric] by (auto split: if_splits)

lemma rw_counts_step:
  assumes "rw_step s s'" and "rw_counts s"
  shows "rw_counts s' \<and> length (snd s') = length (snd s)"
  using assms
proof cases
  case (step_P_r i ts L L' c)
  then show ?thesis using assms(2)
    by (auto simp: rw_counts_def P_r_def P_r_resume_def Let_def cnt_word split: if_splits)
next
  case (step_P_r_resume i ts L)
  then show ?thesis using assms(2) by (auto simp: rw_counts_def P_r_resume_def cnt_word)
next
  case (step_V_r i ts L L' w ts')
  then show ?thesis using assms(2) cnt_wakes [OF step_V_r(6)]
    by (auto simp: rw_counts_def V_r_def Let_def cnt_word)
next
  case (step_P_w i ts L L' c)
  then show ?thesis using assms(2)
    by (auto simp: rw_counts_def P_w_def P_w_loop_def Let_def cnt_word split: if_splits)
next
  case (step_P_w_loop i ts L L' c)
  then show ?thesis using assms(2) by (auto simp: rw_counts_def P_w_loop_def cnt_word split: if_splits)
next
  case (step_V_w i ts L L' w ts')
  then show ?thesis using assms(2) cnt_wakes [OF step_V_w(6)]
    by (auto simp: rw_counts_def V_w_def Let_def cnt_word)
next
  case (step_downgrade i ts L L' w ts')
  then show ?thesis using assms(2) cnt_wakes [OF step_downgrade(6)]
    by (auto simp: rw_counts_def rw_lock_downgrade_def Let_def cnt_word)
qed

subsection \<open>Invariants of the reachable states\<close>

text \<open>
  At most one writer is active; a blocked reader is owed a wakeup by some writer; a blocked
  writer is owed one by an active thread, or another writer is already on its way.
\<close>

definition rw_inv :: "rw_state \<Rightarrow> bool" where
  "rw_inv s \<longleftrightarrow> (case s of (L, ts) \<Rightarrow>
     cnt is_w_active ts \<le> 1
     \<and> (R_wait \<in> set ts \<longrightarrow> W_active \<in> set ts \<or> W_wait \<in> set ts \<or> W_woken \<in> set ts)
     \<and> (W_wait \<in> set ts \<longrightarrow> R_active \<in> set ts \<or> W_active \<in> set ts \<or> W_woken \<in> set ts))"

lemma cnt_pos: "0 < cnt P ts \<longleftrightarrow> (\<exists>c \<in> set ts. P c)"
  using cnt_zero [of P ts] by auto

lemma set_update_iff:
  "i < length ts \<Longrightarrow> c \<in> set (ts[i := d]) \<longleftrightarrow> c = d \<or> (\<exists>j < length ts. j \<noteq> i \<and> ts ! j = c)"
  by (auto simp: in_set_conv_nth nth_list_update)

lemma mem_update_other:
  assumes "i < length ts" and "ts ! i \<noteq> c"
  shows "c \<in> set (ts[i := d]) \<longleftrightarrow> c = d \<or> c \<in> set ts"
  unfolding set_update_iff [OF assms(1)] using assms(2) by (metis in_set_conv_nth)

lemma mem_update_new: "i < length ts \<Longrightarrow> d \<in> set (ts[i := d])"
  by (simp add: set_update_memI)

lemma counts_pos:
  assumes "rw_counts (L, ts)" and "length ts < 2 ^ 32"
  shows "0 < nbr_active L \<longleftrightarrow> R_active \<in> set ts" "0 < nbw_active L \<longleftrightarrow> W_active \<in> set ts"
    "0 < nbr_waiting L \<longleftrightarrow> R_wait \<in> set ts \<or> R_woken \<in> set ts"
    "0 < nbw_waiting L \<longleftrightarrow> W_wait \<in> set ts \<or> W_woken \<in> set ts"
proof -
  have "0 < (of_nat (cnt P ts) :: u32) \<longleftrightarrow> (\<exists>c \<in> set ts. P c)" for P
    using of_nat_less_32 [of "cnt P ts"] cnt_le [of P ts] assms(2) by (simp add: cnt_pos)
  note * = this
  show "0 < nbr_active L \<longleftrightarrow> R_active \<in> set ts" "0 < nbw_active L \<longleftrightarrow> W_active \<in> set ts"
    "0 < nbr_waiting L \<longleftrightarrow> R_wait \<in> set ts \<or> R_woken \<in> set ts"
    "0 < nbw_waiting L \<longleftrightarrow> W_wait \<in> set ts \<or> W_woken \<in> set ts"
    using assms(1) * [of is_r_active] * [of is_w_active] * [of is_r_waiting] * [of is_w_waiting]
    by (auto simp: rw_counts_def)
qed

text \<open>The threads after a wakeup, by the states they are in.\<close>

lemma wakes_sets:
  assumes "wakes w ts ts'"
  shows "(R_active \<in> set ts' \<longleftrightarrow> R_active \<in> set ts) \<and> (W_active \<in> set ts' \<longleftrightarrow> W_active \<in> set ts)
     \<and> (W_wait \<in> set ts' \<longrightarrow> W_wait \<in> set ts)
     \<and> (W_wait \<in> set ts \<or> W_woken \<in> set ts \<longleftrightarrow> W_wait \<in> set ts' \<or> W_woken \<in> set ts')
     \<and> (R_wait \<in> set ts' \<longrightarrow> R_wait \<in> set ts \<and> w \<noteq> Broadcast_read)
     \<and> (W_woken \<in> set ts \<longrightarrow> W_woken \<in> set ts')
     \<and> (w = Signal_write \<and> W_wait \<in> set ts \<longrightarrow> W_woken \<in> set ts')"
  using assms
proof cases
  case (wake_writer j)
  have "W_wait \<in> set ts" using wake_writer(3,4) by (metis nth_mem)
  with wake_writer mem_update_other [of j ts _ W_woken] show ?thesis
    by (simp add: mem_update_new)
qed auto

lemma rw_inv_step_take:
  assumes inv: "rw_inv (L, ts)" and i: "i < length ts"
    and old: "ts ! i = Idle \<or> ts ! i = R_woken \<or> ts ! i = W_woken"
    and new: "c = R_active \<or> c = R_wait \<and> (W_active \<in> set ts \<or> W_wait \<in> set ts \<or> W_woken \<in> set ts) \<and> ts ! i = Idle
       \<or> c = W_wait \<and> (R_active \<in> set ts \<or> W_active \<in> set ts) \<or> c = W_active \<and> W_active \<notin> set ts"
    and keep: "ts ! i = W_woken \<Longrightarrow> c = W_wait \<or> c = W_active"
  shows "rw_inv (L', ts[i := c])"
proof -
  have "cnt is_w_active (ts[i := c]) \<le> 1"
    using inv new old cnt_update [OF i, of is_w_active c] cnt_zero [of is_w_active ts]
    by (auto simp: rw_inv_def split: if_splits)
  moreover have "\<And>d. d \<noteq> W_woken \<and> d \<noteq> R_woken \<and> d \<noteq> Idle \<Longrightarrow> d \<in> set (ts[i := c]) \<longleftrightarrow> d = c \<or> d \<in> set ts"
    using mem_update_other [OF i] old by metis
  moreover have "W_woken \<in> set ts \<Longrightarrow> ts ! i \<noteq> W_woken \<Longrightarrow> W_woken \<in> set (ts[i := c])"
    using mem_update_other [OF i] by metis
  ultimately show ?thesis using inv new keep by (auto simp: rw_inv_def)
qed

lemma rw_inv_step_release:
  assumes inv: "rw_inv (L, ts)" and i: "i < length ts" and old: "ts ! i = R_active \<or> ts ! i = W_active"
    and c: "c = Idle \<or> c = R_active" and w: "wakes w (ts[i := c]) ts'"
    and sig: "c = Idle \<Longrightarrow> R_active \<in> set (ts[i := c]) \<or> w = Signal_write \<or> W_wait \<notin> set ts \<and> W_woken \<notin> set ts
       \<or> ts ! i = R_active \<and> W_active \<in> set ts"
    and bc: "ts ! i = W_active \<Longrightarrow> w = Broadcast_read \<or> W_wait \<in> set ts \<or> W_woken \<in> set ts \<or> R_wait \<notin> set ts"
  shows "rw_inv (L', ts')"
proof -
  note W = wakes_sets [OF w]
  have "cnt is_w_active ts' \<le> 1"
    using cnt_wakes [OF w] cnt_update [OF i, of is_w_active c] inv c by (auto simp: rw_inv_def split: if_splits)
  moreover have same: "\<And>d. d \<noteq> R_active \<and> d \<noteq> W_active \<and> d \<noteq> Idle \<Longrightarrow> d \<in> set (ts[i := c]) \<longleftrightarrow> d \<in> set ts"
    using mem_update_other [OF i] old c by metis
  moreover have "ts ! i = R_active \<Longrightarrow> W_active \<in> set (ts[i := c]) \<longleftrightarrow> W_active \<in> set ts"
    using mem_update_other [OF i] c by (metis rw_pc.distinct)
  moreover have "c = R_active \<Longrightarrow> R_active \<in> set (ts[i := c])" using i by (simp add: mem_update_new)
  ultimately show ?thesis using W inv old sig bc c unfolding rw_inv_def
    by (simp only: prod.case) (elim disjE; blast)
qed

lemma rw_inv_step:
  assumes "rw_step s s'" and counts: "rw_counts s" and inv: "rw_inv s" and n: "length (snd s) < 2 ^ 32"
  shows "rw_inv s'"
  using assms(1)
proof cases
  case (step_P_r i ts L L' c)
  note P = counts_pos [OF counts [unfolded step_P_r(1)]]
  show ?thesis unfolding step_P_r(2)
    using step_P_r inv P n by (intro rw_inv_step_take [of L]) (auto simp: P_r_def Let_def split: if_splits)
next
  case (step_P_r_resume i ts L)
  show ?thesis unfolding step_P_r_resume(2)
    using step_P_r_resume inv by (intro rw_inv_step_take [of L]) auto
next
  case (step_P_w i ts L L' c)
  note P = counts_pos [OF counts [unfolded step_P_w(1)]]
  show ?thesis unfolding step_P_w(2)
    using step_P_w inv P n
    by (intro rw_inv_step_take [of L]) (auto simp: P_w_def P_w_loop_def Let_def split: if_splits)
next
  case (step_P_w_loop i ts L L' c)
  note P = counts_pos [OF counts [unfolded step_P_w_loop(1)]]
  show ?thesis unfolding step_P_w_loop(2)
    using step_P_w_loop inv P n
    by (intro rw_inv_step_take [of L]) (auto simp: P_w_loop_def Let_def split: if_splits)
next
  case (step_V_r i ts L L' w ts')
  have n': "length ts < 2 ^ 32" using n step_V_r(1) by simp
  note P = counts_pos [OF counts [unfolded step_V_r(1)] n']
  have "nbr_active L - 1 = of_nat (cnt is_r_active (ts[i := Idle]))"
    using counts step_V_r by (simp add: rw_counts_def cnt_word)
  then have "0 < nbr_active L - 1 \<longleftrightarrow> R_active \<in> set (ts[i := Idle])"
    using of_nat_less_32 [of "cnt is_r_active (ts[i := Idle])"] cnt_le [of is_r_active "ts[i := Idle]"] n'
    by (simp add: cnt_pos)
  then have "w = Signal_write \<or> R_active \<in> set (ts[i := Idle]) \<or> \<not> 0 < nbw_waiting L"
    using step_V_r(5) by (auto simp: V_r_def Let_def word_greater_zero_iff split: if_splits)
  then show ?thesis unfolding step_V_r(2)
    using step_V_r inv P by (intro rw_inv_step_release [OF _ _ _ _ step_V_r(6)]) auto
next
  case (step_V_w i ts L L' w ts')
  note P = counts_pos [OF counts [unfolded step_V_w(1)]]
  show ?thesis unfolding step_V_w(2)
    using step_V_w inv P n
    by (intro rw_inv_step_release [OF _ _ _ _ step_V_w(6)]) (auto simp: V_w_def Let_def split: if_splits)
next
  case (step_downgrade i ts L L' w ts')
  note P = counts_pos [OF counts [unfolded step_downgrade(1)]]
  show ?thesis unfolding step_downgrade(2)
    using step_downgrade inv P n
    by (intro rw_inv_step_release [OF _ _ _ _ step_downgrade(6)])
      (auto simp: rw_lock_downgrade_def Let_def split: if_splits)
qed

lemma rw_reach_inv:
  assumes "rw_reach n s" and "n < 2 ^ 32"
  shows "rw_counts s \<and> rw_inv s \<and> length (snd s) = n"
  using assms(1)
proof induction
  case reach_start
  then show ?case by (auto simp: rw_start_def rw_lock_init_def rw_counts_def rw_inv_def cnt_def)
next
  case (reach_step s s')
  with rw_counts_step [of s s'] rw_inv_step [of s s'] assms(2) show ?case by auto
qed

lemma two_mem_cnt:
  assumes "i < length ts" "j < length ts" "i \<noteq> j" "P (ts ! i)" "P (ts ! j)"
  shows "2 \<le> cnt P ts"
proof -
  have "card {i, j} \<le> card {k. k < length ts \<and> P (ts ! k)}" using assms by (intro card_mono) auto
  then show ?thesis using assms(3) by (simp add: cnt_def length_filter_conv_card)
qed


text \<open>A lock with two threads, one of them an active writer, for the witnesses.\<close>

lemma reach_one_writer: "rw_reach 2 (\<lparr>nbr_active = 0, nbr_waiting = 0, nbw_active = 1, nbw_waiting = 0\<rparr>, [W_active, Idle])"
proof -
  have "rw_step (rw_start 2) (\<lparr>nbr_active = 0, nbr_waiting = 0, nbw_active = 1, nbw_waiting = 0\<rparr>, (replicate 2 Idle)[0 := W_active])"
    unfolding rw_start_def by (rule step_P_w) (auto simp: rw_lock_init_def P_w_def P_w_loop_def)
  moreover have "(replicate 2 Idle)[0 := W_active] = [W_active, Idle]" by (simp add: numeral_2_eq_2)
  ultimately show ?thesis using reach_start reach_step by metis
qed


text \<open>C16: No lost wakeup.  In every reachable state, as long as a thread is blocked on one of the
  condition variables, some thread holds the lock or has been woken up and is about to
  take it: the lock is never left free with everybody waiting.\<close>

theorem blocked_threads_have_a_waker:
  assumes "rw_reach n (L, ts)" and "n < 2 ^ 32" and "R_wait \<in> set ts \<or> W_wait \<in> set ts"
  shows "R_active \<in> set ts \<or> W_active \<in> set ts \<or> W_woken \<in> set ts"
  using rw_reach_inv [OF assms(1,2)] assms(3) by (auto simp: rw_inv_def)

lemma reach_blocked_writer:
  "rw_reach 2 (\<lparr>nbr_active = 0, nbr_waiting = 0, nbw_active = 1, nbw_waiting = 1\<rparr>, [W_active, W_wait])"
proof -
  have "rw_step (\<lparr>nbr_active = 0, nbr_waiting = 0, nbw_active = 1, nbw_waiting = 0\<rparr>, [W_active, Idle])
      (\<lparr>nbr_active = 0, nbr_waiting = 0, nbw_active = 1, nbw_waiting = 1\<rparr>, [W_active, Idle][1 := W_wait])"
    by (rule step_P_w) (auto simp: P_w_def P_w_loop_def)
  then show ?thesis using reach_step [OF reach_one_writer] by simp
qed

theorem blocked_threads_have_a_waker_witness:
  "W_wait \<in> set [W_active, W_wait] \<and> (R_active \<in> set [W_active, W_wait] \<or> W_active \<in> set [W_active, W_wait] \<or> W_woken \<in> set [W_active, W_wait])"
  using blocked_threads_have_a_waker [OF reach_blocked_writer] by simp

text \<open>C17: A reader that was woken up does not test again whether a writer came first: with three
  threads, a reader and a writer hold the lock at the same time.\<close>

theorem reader_and_writer_together:
  "rw_reach 3 (\<lparr>nbr_active = 1, nbr_waiting = 0, nbw_active = 1, nbw_waiting = 0\<rparr>, [Idle, R_active, W_active])"
proof -
  let ?L = "\<lambda>ra rw wa ww. \<lparr>nbr_active = ra, nbr_waiting = rw, nbw_active = wa, nbw_waiting = ww\<rparr> :: rw_lock"
  have start: "rw_start 3 = (?L 0 0 0 0, [Idle, Idle, Idle])"
    by (simp add: rw_start_def rw_lock_init_def numeral_3_eq_3)
  have s1: "rw_step (?L 0 0 0 0, [Idle, Idle, Idle]) (?L 0 0 1 0, [Idle, Idle, Idle][0 := W_active])"
    by (rule step_P_w) (auto simp: P_w_def P_w_loop_def)
  have s2: "rw_step (?L 0 0 1 0, [W_active, Idle, Idle]) (?L 0 1 1 0, [W_active, Idle, Idle][1 := R_wait])"
    by (rule step_P_r) (auto simp: P_r_def)
  have s3: "rw_step (?L 0 1 1 0, [W_active, R_wait, Idle]) (?L 0 1 0 0, [Idle, R_woken, Idle])"
    by (rule step_V_w [where i = 0 and w = Broadcast_read]) (auto simp: V_w_def)
  have s4: "rw_step (?L 0 1 0 0, [Idle, R_woken, Idle]) (?L 0 1 1 0, [Idle, R_woken, Idle][2 := W_active])"
    by (rule step_P_w) (auto simp: P_w_def P_w_loop_def)
  have s5: "rw_step (?L 0 1 1 0, [Idle, R_woken, W_active]) (P_r_resume (?L 0 1 1 0), [Idle, R_woken, W_active][1 := R_active])"
    by (rule step_P_r_resume) auto
  have "rw_reach 3 (?L 0 0 0 0, [Idle, Idle, Idle])" using reach_start [of 3] start by simp
  note r1 = reach_step [OF this s1, simplified]
  note r2 = reach_step [OF r1 s2, simplified]
  note r3 = reach_step [OF r2 s3, simplified]
  note r4 = reach_step [OF r3 s4, simplified]
  show ?thesis using reach_step [OF r4 s5] by (simp add: P_r_resume_def)
qed

end
