(* ===== verification/SemN.thy ===== *)
theory SemN
  imports Prelude
begin

text \<open>
  The counting semaphores of \<^verbatim>\<open>SemN/SemN.c\<close> as a step relation.  As for the read-write
  lock, a step is one critical section of the semaphore's mutex; a thread blocked in
  \<open>pthread_cond_wait\<close> is \<open>S_wait\<close>, and \<open>S_woken\<close> once it has been signalled.  \<open>granted\<close> and
  \<open>released\<close> count, for the theorems, the calls of \<open>semaphore_P\<close> that went through and the
  calls of \<open>semaphore_V\<close>.
\<close>

datatype sem_pc = S_idle | S_wait | S_woken

record sem_state =
  count :: int
  threads :: "sem_pc list"
  granted :: nat
  released :: nat

definition semaphore_init :: "int \<Rightarrow> nat \<Rightarrow> sem_state" where
  "semaphore_init v n = \<lparr>count = v, threads = replicate n S_idle, granted = 0, released = 0\<rparr>"

text \<open>The loop of \<open>semaphore_P\<close> in thread \<open>i\<close>: wait while the count is negative, else leave.\<close>

definition P_loop :: "sem_state \<Rightarrow> nat \<Rightarrow> sem_state" where
  "P_loop s i = (if count s < 0 then s\<lparr>threads := (threads s)[i := S_wait]\<rparr>
                 else s\<lparr>threads := (threads s)[i := S_idle], granted := Suc (granted s)\<rparr>)"

definition semaphore_P :: "sem_state \<Rightarrow> nat \<Rightarrow> sem_state" where
  "semaphore_P s i = P_loop (s\<lparr>count := count s - 1\<rparr>) i"

text \<open>\<open>semaphore_V\<close>; \<open>j\<close> is the thread that the signal wakes up, when there is one to wake.\<close>

definition semaphore_V :: "sem_state \<Rightarrow> nat option \<Rightarrow> sem_state" where
  "semaphore_V s j =
     (let s1 = s\<lparr>count := count s + 1, released := Suc (released s)\<rparr>
      in if count s1 \<le> 0
         then (case j of None \<Rightarrow> s1 | Some j \<Rightarrow> s1\<lparr>threads := (threads s1)[j := S_woken]\<rparr>)
         else s1)"

definition may_wake :: "sem_state \<Rightarrow> nat option \<Rightarrow> bool" where
  "may_wake s j \<longleftrightarrow> (case j of
     None \<Rightarrow> S_wait \<notin> set (threads s)
   | Some j \<Rightarrow> j < length (threads s) \<and> threads s ! j = S_wait)"

inductive sem_step :: "sem_state \<Rightarrow> sem_state \<Rightarrow> bool" where
  sem_P: "i < length (threads s) \<Longrightarrow> threads s ! i = S_idle \<Longrightarrow> sem_step s (semaphore_P s i)"
| sem_again: "i < length (threads s) \<Longrightarrow> threads s ! i = S_woken \<Longrightarrow> sem_step s (P_loop s i)"
| sem_V: "may_wake s j \<Longrightarrow> sem_step s (semaphore_V s j)"

inductive sem_reach :: "int \<Rightarrow> nat \<Rightarrow> sem_state \<Rightarrow> bool" for v n where
  sem_start: "sem_reach v n (semaphore_init v n)"
| sem_next: "sem_reach v n s \<Longrightarrow> sem_step s s' \<Longrightarrow> sem_reach v n s'"

text \<open>Threads inside \<open>semaphore_P\<close>.\<close>

definition inside :: "sem_state \<Rightarrow> nat" where
  "inside s = length (filter (\<lambda>c. c \<noteq> S_idle) (threads s))"

text \<open>The count is the initial value plus the releases minus the calls of \<open>semaphore_P\<close>.\<close>

definition sem_inv :: "int \<Rightarrow> sem_state \<Rightarrow> bool" where
  "sem_inv v s \<longleftrightarrow> count s = v + int (released s) - int (granted s) - int (inside s)
     \<and> (granted s = 0 \<or> int (granted s) \<le> v + int (released s))"

lemma P_loop_inv:
  assumes "i < length (threads s)"
    and "count s = v + int (released s) - int (granted s) - int (inside s) - (if threads s ! i = S_idle then 1 else 0)"
    and "granted s = 0 \<or> int (granted s) \<le> v + int (released s)"
  shows "sem_inv v (P_loop s i)"
  using assms length_filter_update [OF assms(1), of "\<lambda>c. c \<noteq> S_idle" S_wait] length_filter_update [OF assms(1), of "\<lambda>c. c \<noteq> S_idle" S_idle]
  by (auto simp: sem_inv_def P_loop_def inside_def split: if_splits)

lemma sem_inv_step:
  assumes "sem_step s s'" and "sem_inv v s"
  shows "sem_inv v s'"
  using assms
proof cases
  case (sem_P i)
  with assms(2) P_loop_inv [of i "s\<lparr>count := count s - 1\<rparr>" v] show ?thesis
    by (simp add: semaphore_P_def sem_inv_def inside_def)
next
  case (sem_again i)
  with assms(2) P_loop_inv [of i s v] show ?thesis by (simp add: sem_inv_def)
next
  case (sem_V j)
  have "inside (semaphore_V s j) = inside s"
    using sem_V length_filter_update [of "the j" "threads s" "\<lambda>c. c \<noteq> S_idle" S_woken]
    by (auto simp: semaphore_V_def Let_def inside_def may_wake_def split: option.splits)
  moreover have "granted (semaphore_V s j) = granted s" "released (semaphore_V s j) = Suc (released s)"
    "count (semaphore_V s j) = count s + 1"
    by (auto simp: semaphore_V_def Let_def split: option.splits)
  ultimately show ?thesis using assms(2) sem_V by (auto simp: sem_inv_def)
qed

lemma sem_reach_inv: "sem_reach v n s \<Longrightarrow> sem_inv v s"
proof (induction rule: sem_reach.induct)
  case sem_start
  then show ?case by (simp add: sem_inv_def semaphore_init_def inside_def)
qed (auto intro: sem_inv_step)




end
