(* ===== verification/Nfs4_Types.thy ===== *)
theory Nfs4_Types
  imports Prelude
begin

text \<open>
  Types shared by the NFSv4 components: the status codes of the protocol that the modelled
  code returns, C strings, and the decimal rendering that \<open>snprintf\<close> gives of a number.
\<close>

datatype nfsstat4 =
    NFS4_OK
  | NFS4ERR_PERM
  | NFS4ERR_NOENT
  | NFS4ERR_IO
  | NFS4ERR_ACCESS
  | NFS4ERR_EXIST
  | NFS4ERR_NOTDIR
  | NFS4ERR_ISDIR
  | NFS4ERR_INVAL
  | NFS4ERR_NOSPC
  | NFS4ERR_ROFS
  | NFS4ERR_NOTEMPTY
  | NFS4ERR_DQUOT
  | NFS4ERR_STALE
  | NFS4ERR_BADHANDLE
  | NFS4ERR_NOFILEHANDLE
  | NFS4ERR_FHEXPIRED
  | NFS4ERR_NOTSUPP
  | NFS4ERR_RESOURCE
  | NFS4ERR_SERVERFAULT
  | NFS4ERR_DELAY
  | NFS4ERR_SHARE_DENIED
  | NFS4ERR_BAD_STATEID
  | NFS4ERR_BAD_SEQID
  | NFS4ERR_STALE_STATEID
  | NFS4ERR_STALE_CLIENTID
  | NFS4ERR_OLD_STATEID
  | NFS4ERR_EXPIRED
  | NFS4ERR_CLID_INUSE
  | NFS4ERR_LOCK_NOTSUPP
  | NFS4ERR_LOCKED
  | NFS4ERR_LOCK_RANGE
  | NFS4ERR_LOCKS_HELD
  | NFS4ERR_DENIED
  | NFS4ERR_OPENMODE
  | NFS4ERR_RESTOREFH
  | NFS4ERR_MINOR_VERS_MISMATCH
  | NFS4ERR_OP_ILLEGAL
  | NFS4ERR_XDEV
  | NFS4ERR_MOVED
  | NFS4ERR_WRONGSEC
  | NFS4ERR_OP_NOT_IN_SESSION

text \<open>
  \<open>cstr n b\<close> is what the string functions bounded by \<open>n\<close> see of the bytes \<open>b\<close>: everything
  before the first NUL and before index \<open>n\<close>.  \<open>strncmp\<close> is zero exactly for equal ones.
\<close>

definition cstr :: "nat \<Rightarrow> u8 list \<Rightarrow> u8 list" where
  "cstr n b = takeWhile (\<lambda>c. c \<noteq> 0) (take n b)"

definition strncmp_eq :: "u8 list \<Rightarrow> u8 list \<Rightarrow> nat \<Rightarrow> bool" where
  "strncmp_eq a b n \<longleftrightarrow> cstr n a = cstr n b"

definition MAXNAMLEN :: nat where "MAXNAMLEN = 255"

definition NFS4_VERIFIER_SIZE :: nat where "NFS4_VERIFIER_SIZE = 8"

text \<open>Decimal digits of a number, as bytes.\<close>

fun dec :: "nat \<Rightarrow> u8 list" where
  "dec n = (if n < 10 then [of_nat (48 + n)] else dec (n div 10) @ [of_nat (48 + n mod 10)])"

declare dec.simps [simp del]

text \<open>\<open>snprintf(buf, n, "%u", v)\<close>: the digits, cut so that the NUL fits.\<close>

definition snprintf_u :: "nat \<Rightarrow> u32 \<Rightarrow> u8 list" where
  "snprintf_u n v = take (n - 1) (dec (unat v))"

lemma cstr_idem [simp]: "cstr n (cstr n b) = cstr n b"
proof -
  have "length (cstr n b) \<le> n" unfolding cstr_def
    using length_takeWhile_le [of "\<lambda>c. c \<noteq> 0" "take n b"] by simp
  then show ?thesis by (simp add: cstr_def takeWhile_eq_all_conv)
qed

lemma strncmp_eq_refl [simp]: "strncmp_eq a a n"
  by (simp add: strncmp_eq_def)

end
