(* ===== verification/Client_Id.thy ===== *)
theory Client_Id
  imports Hash_Table Nfs4_Types
begin

text \<open>
  The client records of NFSv4: \<^verbatim>\<open>support/nfs_client_id.c\<close> and the operations SETCLIENTID,
  SETCLIENTID_CONFIRM and RENEW (\<^verbatim>\<open>NFS_Protocols/nfs4_op_setclientid.c\<close>,
  \<^verbatim>\<open>nfs4_op_setclientid_confirm.c\<close>, \<^verbatim>\<open>nfs4_op_renew.c\<close>).

  Two hash tables, by client id and by client name, hold pointers to the same records; the
  records are a heap.  The pool of records is passed by value in the C code, so the entry an
  operation takes is not removed from the caller's pool: the model takes the pool as an
  argument and returns none.  Freed key buffers are not reused by the model's allocator.
\<close>

datatype client_rc =
    CLIENT_ID_SUCCESS
  | CLIENT_ID_INSERT_MALLOC_ERROR
  | CLIENT_ID_NOT_FOUND
  | CLIENT_ID_INVALID_ARGUMENT

datatype confirm_state =
    CONFIRMED_CLIENT_ID
  | UNCONFIRMED_CLIENT_ID
  | REBOOTED_CLIENT_ID
  | CB_RECONFIGURED_CLIENT_ID

record nfs_client_cred =
  flavor :: u32
  cred_length :: u32
  aup_uid :: u32
  aup_gid :: u32
  aup_time :: u32
  auth_union :: "u8 list"

record nfs_client_id =
  client_name :: "u8 list"
  clientid :: u64
  cb_program :: u32
  client_r_addr :: "u8 list"
  client_r_netid :: "u8 list"
  verifier :: "u8 list"
  incoming_verifier :: "u8 list"
  last_renew :: int
  confirmed :: confirm_state
  credential :: nfs_client_cred

subsection \<open>Computing client ids\<close>

text \<open>
  \<open>nfs_client_id_basic_compute\<close>: the loop advances both \<open>str\<close> and the index, so at turn \<open>i\<close>
  it tests \<open>stock[i]\<close> and reads \<open>stock[2 * i]\<close>.  \<open>None\<close> is a read outside the buffer.
\<close>

definition char_int :: "u8 \<Rightarrow> u32" where
  "char_int c = scast c"

function basic_loop :: "u8 list \<Rightarrow> nat \<Rightarrow> u32 \<Rightarrow> u32 option" where
  "basic_loop stock i acc =
     (if i \<ge> MAXNAMLEN then None
      else if stock ! i = 0 then Some acc
      else if 2 * i \<ge> MAXNAMLEN then None
      else basic_loop stock (Suc i) (acc + ((char_int (stock ! (2 * i)) * 10) XOR of_nat i)))"
  by pat_completeness auto
termination
  by (relation "measure (\<lambda>(_, i, _). MAXNAMLEN - i)") auto

declare basic_loop.simps [simp del]

text \<open>\<open>strncpy(dst, src, n)\<close>: the string, padded with NULs to \<open>n\<close> bytes.\<close>

definition strncpy :: "u8 list \<Rightarrow> nat \<Rightarrow> u8 list" where
  "strncpy s n = cstr n s @ replicate (n - length (cstr n s)) 0"

definition nfs_client_id_basic_compute :: "u8 list option \<Rightarrow> (client_rc \<times> u64) option" where
  "nfs_client_id_basic_compute name =
     (case name of
        None \<Rightarrow> Some (CLIENT_ID_INVALID_ARGUMENT, 0)
      | Some s \<Rightarrow> map_option (\<lambda>h. (CLIENT_ID_SUCCESS, ucast h)) (basic_loop (strncpy s MAXNAMLEN) 0 0))"

text \<open>
  \<open>nfs_client_id_compute\<close>: 8 packs of 9 bytes.  The tenth byte that each turn reads belongs to
  the next pack, and for the last one it is outside the array: \<open>over\<close> is whatever the
  memory holds there.
\<close>

definition CLIENT_ID_MAX_LEN :: nat where "CLIENT_ID_MAX_LEN = 72"

definition padded_name :: "u8 list \<Rightarrow> u8 \<Rightarrow> u8 list" where
  "padded_name name over = strncpy name CLIENT_ID_MAX_LEN @ [over]"

definition low7 :: "u8 \<Rightarrow> nat \<Rightarrow> u64" where
  "low7 c n = push_bit n (scast c AND 0x7F)"

definition bit8 :: "u8 \<Rightarrow> u64" where
  "bit8 c = ucast (c AND 0x80)"

definition pack_turn :: "u8 list \<Rightarrow> u64 \<Rightarrow> nat \<Rightarrow> u64" where
  "pack_turn p computed_value offset =
     (let c = (\<lambda>j. p ! (offset + j));
          i1 = low7 (c 0) 0; i2 = low7 (c 1) 7; i3 = low7 (c 2) 14; i4 = low7 (c 3) 21; i5 = low7 (c 4) 28;
          i6 = low7 (c 5) 35; i7 = low7 (c 6) 42; i8 = low7 (c 7) 49; i9 = low7 (c 8) 56;
          sm = scast (c 0) + scast (c 1) + scast (c 2) + scast (c 3) + scast (c 4) + scast (c 5)
                + scast (c 6) + scast (c 7) + scast (c 8);
          l = bit8 (c 0) XOR bit8 (c 1) XOR bit8 (c 2) XOR bit8 (c 3) XOR bit8 (c 4) XOR bit8 (c 5)
                XOR bit8 (c 6) XOR bit8 (c 7) XOR bit8 (c 8) XOR bit8 (c 9);
          extract = (i1 XOR i2 XOR i3 XOR i4 XOR i5 XOR i6 XOR i7 XOR i8 XOR i9) OR l
      in (computed_value XOR extract) XOR sm)"

definition nfs_client_id_compute :: "u8 \<Rightarrow> u8 list option \<Rightarrow> client_rc \<times> u64" where
  "nfs_client_id_compute over name =
     (case name of
        None \<Rightarrow> (CLIENT_ID_INVALID_ARGUMENT, 0)
      | Some s \<Rightarrow>
          (let v = foldl (pack_turn (padded_name s over)) 0 [0, 9, 18, 27, 36, 45, 54, 63]
           in (CLIENT_ID_SUCCESS, drop_bit 32 v XOR (v AND 0x00000000FFFFFFFF))))"

subsection \<open>The two tables\<close>

definition client_id_value_hash_func :: "u32 \<Rightarrow> u64 \<Rightarrow> u64" where
  "client_id_value_hash_func isz cid = ((cid AND 0xFFFFFFFF) + drop_bit 32 cid) mod ucast isz"

definition client_id_rbt_hash_func :: "u64 \<Rightarrow> u64" where
  "client_id_rbt_hash_func cid = (cid AND 0xFFFFFFFF) XOR drop_bit 32 cid"

definition compare_client_id :: "u64 \<Rightarrow> u64 \<Rightarrow> int" where
  "compare_client_id a b = (if a = b then 0 else 1)"

text \<open>The sum of the characters after the first one, as unsigned characters.\<close>

definition client_id_value_hash_func_reverse :: "u32 \<Rightarrow> u8 list \<Rightarrow> u64" where
  "client_id_value_hash_func_reverse isz key =
     (foldl (\<lambda>s c. s + ucast c) 0 (drop 1 (cstr MAXNAMLEN key))) mod ucast isz"

definition client_id_rbt_hash_func_reverse :: "u8 \<Rightarrow> u8 list \<Rightarrow> u64" where
  "client_id_rbt_hash_func_reverse over key =
     (case nfs_client_id_compute over (Some key) of
        (rc, r) \<Rightarrow> if rc \<noteq> CLIENT_ID_SUCCESS then 0 else r AND 0x00000000FFFFFFFF)"

definition compare_client_id_reverse :: "u8 list \<Rightarrow> u8 list \<Rightarrow> int" where
  "compare_client_id_reverse a b = (if strncmp_eq a b MAXNAMLEN then 0 else 1)"

definition client_par :: "u32 \<Rightarrow> u32 \<Rightarrow> u64 hash_parameter" where
  "client_par isz nb = \<lparr>index_size = isz, alphabet_length = 10, nb_node_prealloc = nb,
     hash_func_key = client_id_value_hash_func isz, hash_func_rbt = client_id_rbt_hash_func,
     compare_key = compare_client_id\<rparr>"

definition client_par_reverse :: "u32 \<Rightarrow> u32 \<Rightarrow> u8 \<Rightarrow> u8 list hash_parameter" where
  "client_par_reverse isz nb over = \<lparr>index_size = isz, alphabet_length = 10, nb_node_prealloc = nb,
     hash_func_key = client_id_value_hash_func_reverse isz,
     hash_func_rbt = client_id_rbt_hash_func_reverse over, compare_key = compare_client_id_reverse\<rparr>"

record clients =
  cmem :: mem
  ht_client_id :: "(u64, addr) hash_table"
  ht_client_id_reverse :: "(u8 list, addr) hash_table"
  records :: "addr \<Rightarrow> nfs_client_id"
  nb_client_id_prealloc :: u32

definition sizeof_nfs_client_id :: nat where "sizeof_nfs_client_id = 896"

text \<open>The common body of \<open>nfs_client_id_add\<close> and \<open>nfs_client_id_set\<close>, which are the same code.\<close>

definition store_client :: "clients \<Rightarrow> u64 \<Rightarrow> nfs_client_id \<Rightarrow> addr list \<Rightarrow> (client_rc \<times> clients) option" where
  "store_client s cid r pool =
     (case GET_PREALLOC (cmem s) pool (unat (nb_client_id_prealloc s)) sizeof_nfs_client_id of
        (None, _, m1) \<Rightarrow> Some (CLIENT_ID_INSERT_MALLOC_ERROR, s\<lparr>cmem := m1\<rparr>)
      | (Some p, _, m1) \<Rightarrow>
          (case Mem_Alloc m1 1 of
             (None, m2) \<Rightarrow> Some (CLIENT_ID_INSERT_MALLOC_ERROR, s\<lparr>cmem := m2\<rparr>)
           | (Some _, m2) \<Rightarrow>
               (case Mem_Alloc m2 1 of
                  (None, m3) \<Rightarrow> Some (CLIENT_ID_INSERT_MALLOC_ERROR, s\<lparr>cmem := m3\<rparr>)
                | (Some _, m3) \<Rightarrow> do {
                    (rc, m4, t) \<leftarrow> hs_put (m3, ht_client_id s) cid p HASHTABLE_SET_HOW_SET_OVERWRITE;
                    let s1 = s\<lparr>cmem := m4, ht_client_id := t, records := (records s)(p := r)\<rparr>
                    in if rc \<noteq> HASHTABLE_SUCCESS then Some (CLIENT_ID_INSERT_MALLOC_ERROR, s1)
                       else do {
                         (rc', m5, t') \<leftarrow> hs_put (m4, ht_client_id_reverse s) (cstr MAXNAMLEN (client_name r)) p
                                         HASHTABLE_SET_HOW_SET_OVERWRITE;
                         Some (if rc' \<noteq> HASHTABLE_SUCCESS then CLIENT_ID_INSERT_MALLOC_ERROR else CLIENT_ID_SUCCESS,
                               s1\<lparr>cmem := m5, ht_client_id_reverse := t'\<rparr>) } })))"

definition nfs_client_id_add :: "clients \<Rightarrow> u64 \<Rightarrow> nfs_client_id \<Rightarrow> addr list \<Rightarrow> (client_rc \<times> clients) option" where
  "nfs_client_id_add s cid r pool = store_client s cid r pool"

definition nfs_client_id_set :: "clients \<Rightarrow> u64 \<Rightarrow> nfs_client_id \<Rightarrow> addr list \<Rightarrow> (client_rc \<times> clients) option" where
  "nfs_client_id_set s cid r pool = store_client s cid r pool"

definition nfs_client_id_Get_Pointer :: "clients \<Rightarrow> u64 \<Rightarrow> (client_rc \<times> addr option \<times> clients) option" where
  "nfs_client_id_Get_Pointer s cid =
     (case Mem_Alloc (cmem s) 1 of
        (None, m1) \<Rightarrow> Some (CLIENT_ID_INSERT_MALLOC_ERROR, None, s\<lparr>cmem := m1\<rparr>)
      | (Some _, m1) \<Rightarrow> do {
          (rc, p, m2, t) \<leftarrow> hs_get (m1, ht_client_id s) cid;
          let s1 = s\<lparr>cmem := m2, ht_client_id := t\<rparr>
          in Some (if rc = HASHTABLE_SUCCESS then (CLIENT_ID_SUCCESS, p, s1) else (CLIENT_ID_NOT_FOUND, None, s1)) })"

definition nfs_client_id_get :: "clients \<Rightarrow> u64 \<Rightarrow> (client_rc \<times> nfs_client_id option \<times> clients) option" where
  "nfs_client_id_get s cid =
     (case Mem_Alloc (cmem s) 1 of
        (None, m1) \<Rightarrow> Some (CLIENT_ID_INSERT_MALLOC_ERROR, None, s\<lparr>cmem := m1\<rparr>)
      | (Some _, m1) \<Rightarrow> do {
          (rc, p, m2, t) \<leftarrow> hs_get (m1, ht_client_id s) cid;
          let s1 = s\<lparr>cmem := m2, ht_client_id := t\<rparr>
          in if rc = HASHTABLE_SUCCESS then Some (CLIENT_ID_SUCCESS, map_option (records s) p, s1)
             else Some (CLIENT_ID_NOT_FOUND, None, s1) })"

definition nfs_client_id_get_reverse :: "clients \<Rightarrow> u8 list \<Rightarrow> (client_rc \<times> nfs_client_id option \<times> clients) option" where
  "nfs_client_id_get_reverse s key = do {
     (rc, p, m2, t) \<leftarrow> hs_get (cmem s, ht_client_id_reverse s) key;
     let s1 = s\<lparr>cmem := m2, ht_client_id_reverse := t\<rparr>
     in if rc = HASHTABLE_SUCCESS then Some (CLIENT_ID_SUCCESS, map_option (records s) p, s1)
        else Some (CLIENT_ID_NOT_FOUND, None, s1) }"

definition nfs_client_id_remove :: "clients \<Rightarrow> u64 \<Rightarrow> (client_rc \<times> clients) option" where
  "nfs_client_id_remove s cid =
     (case Mem_Alloc (cmem s) 1 of
        (None, m1) \<Rightarrow> Some (CLIENT_ID_INSERT_MALLOC_ERROR, s\<lparr>cmem := m1\<rparr>)
      | (Some _, m1) \<Rightarrow> do {
          (rc, kv, m2, t) \<leftarrow> hs_del (m1, ht_client_id s) cid;
          let s1 = s\<lparr>cmem := m2, ht_client_id := t\<rparr>
          in if rc \<noteq> HASHTABLE_SUCCESS then Some (CLIENT_ID_NOT_FOUND, s1)
             else do {
               (_, p) \<leftarrow> kv;
               (rc', _, m3, t') \<leftarrow> hs_del (m2, ht_client_id_reverse s) (cstr MAXNAMLEN (client_name (records s p)));
               Some (if rc' = HASHTABLE_SUCCESS then CLIENT_ID_SUCCESS else CLIENT_ID_NOT_FOUND,
                     s1\<lparr>cmem := m3, ht_client_id_reverse := t'\<rparr>) } })"

subsection \<open>Invariant and abstraction\<close>

definition clients_inv :: "clients \<Rightarrow> bool" where
  "clients_inv s \<longleftrightarrow> ht_inv (cmem s) (ht_client_id s) \<and> ht_inv (cmem s) (ht_client_id_reverse s)
     \<and> (\<forall>a b. key_eq (parameter (ht_client_id s)) a b \<longleftrightarrow> a = b)
     \<and> (\<forall>a b. key_eq (parameter (ht_client_id_reverse s)) a b \<longleftrightarrow> strncmp_eq a b MAXNAMLEN)
     \<and> (\<forall>k p. ht_lookup (ht_client_id s) k = Some p \<longrightarrow> p < brk (cmem s))
     \<and> (\<forall>k p. ht_lookup (ht_client_id_reverse s) k = Some p \<longrightarrow> p < brk (cmem s))"

text \<open>The records as the clients of this component see them, by client id and by name.\<close>

definition client_of :: "clients \<Rightarrow> u64 \<Rightarrow> nfs_client_id option" where
  "client_of s cid = map_option (records s) (ht_lookup (ht_client_id s) cid)"

definition client_named :: "clients \<Rightarrow> u8 list \<Rightarrow> nfs_client_id option" where
  "client_named s name = map_option (records s) (ht_lookup (ht_client_id_reverse s) name)"

lemma client_par_ok:
  assumes "0 < isz"
  shows "params_ok (client_par isz nb)" "key_eq (client_par isz nb) a b \<longleftrightarrow> a = b"
proof -
  show eq: "key_eq (client_par isz nb) a b \<longleftrightarrow> a = b" for a b
    by (simp add: key_eq_def client_par_def compare_client_id_def)
  show "params_ok (client_par isz nb)"
    unfolding params_ok_def eq
    using hash_index_less [OF assms] by (auto simp: client_par_def hashval_def client_id_value_hash_func_def identity_equivp)
qed

lemma cstr_take_le: "n \<le> k \<Longrightarrow> cstr n (cstr k b) = cstr n b"
proof -
  assume "n \<le> k"
  have "takeWhile P (take n (takeWhile P (take k b))) = takeWhile P (take n b)" for P :: "u8 \<Rightarrow> bool"
    using \<open>n \<le> k\<close>
  proof (induction b arbitrary: n k)
    case (Cons a b)
    then show ?case by (cases n; cases k) auto
  qed simp
  then show ?thesis by (simp add: cstr_def)
qed

lemma compute_cstr:
  assumes "strncmp_eq a b MAXNAMLEN"
  shows "nfs_client_id_compute over (Some a) = nfs_client_id_compute over (Some b)"
proof -
  have le: "CLIENT_ID_MAX_LEN \<le> MAXNAMLEN" by (simp add: CLIENT_ID_MAX_LEN_def MAXNAMLEN_def)
  have "cstr CLIENT_ID_MAX_LEN a = cstr CLIENT_ID_MAX_LEN b"
    using assms cstr_take_le [OF le, of a] cstr_take_le [OF le, of b] by (simp add: strncmp_eq_def)
  then show ?thesis by (simp add: nfs_client_id_compute_def padded_name_def strncpy_def)
qed

lemma client_par_reverse_ok:
  assumes "0 < isz"
  shows "params_ok (client_par_reverse isz nb over)"
    "key_eq (client_par_reverse isz nb over) a b \<longleftrightarrow> strncmp_eq a b MAXNAMLEN"
proof -
  show eq: "key_eq (client_par_reverse isz nb over) a b \<longleftrightarrow> strncmp_eq a b MAXNAMLEN" for a b
    by (simp add: key_eq_def client_par_reverse_def compare_client_id_reverse_def)
  have "equivp (\<lambda>a b. strncmp_eq a b MAXNAMLEN)"
    by (auto simp: strncmp_eq_def intro!: equivpI reflpI sympI transpI)
  moreover have "hashval (client_par_reverse isz nb over) k < unat isz" for k
    using hash_index_less [OF assms]
    by (simp add: client_par_reverse_def hashval_def client_id_value_hash_func_reverse_def)
  moreover have "hashval (client_par_reverse isz nb over) a = hashval (client_par_reverse isz nb over) b
      \<and> rbtval (client_par_reverse isz nb over) a = rbtval (client_par_reverse isz nb over) b"
    if "strncmp_eq a b MAXNAMLEN" for a b
    using compute_cstr [OF that] that
    by (simp add: client_par_reverse_def hashval_def rbtval_def client_id_value_hash_func_reverse_def
        client_id_rbt_hash_func_reverse_def strncmp_eq_def)
  ultimately show "params_ok (client_par_reverse isz nb over)"
    unfolding params_ok_def eq by (simp add: client_par_reverse_def)
qed

subsection \<open>Storing, reading and removing records\<close>

lemma clients_tables:
  assumes "clients_inv s" and "mem_grows (cmem s) m"
  shows "hs_inv (parameter (ht_client_id s)) (m, ht_client_id s)"
    "hs_inv (parameter (ht_client_id_reverse s)) (m, ht_client_id_reverse s)"
  using assms by (auto simp: clients_inv_def hs_inv_def intro: ht_inv_grows)

lemma clients_inv_mem: "clients_inv s \<Longrightarrow> mem_grows (cmem s) m \<Longrightarrow> clients_inv (s\<lparr>cmem := m\<rparr>)"
  unfolding clients_inv_def by (auto intro: ht_inv_grows simp: mem_grows_def) (metis order_less_le_trans)+

lemma hs_inv_D: "hs_inv par (m, ht) \<Longrightarrow> ht_inv m ht \<and> parameter ht = par"
  by (simp add: hs_inv_def)

text \<open>The two insertions, once a fresh record \<open>p\<close> has been taken.\<close>

lemma store_tables:
  assumes inv: "clients_inv s" and g: "mem_grows (cmem s) m" and p: "brk (cmem s) \<le> p" "p < brk m"
  shows "\<exists>rc m4 t. hs_put (m, ht_client_id s) cid p HASHTABLE_SET_HOW_SET_OVERWRITE = Some (rc, m4, t)
     \<and> mem_grows m m4
     \<and> clients_inv (s\<lparr>cmem := m4, ht_client_id := t, records := (records s)(p := r)\<rparr>)
     \<and> client_of (s\<lparr>cmem := m4, ht_client_id := t, records := (records s)(p := r)\<rparr>)
         = (if rc = HASHTABLE_SUCCESS then (client_of s)(cid \<mapsto> r) else client_of s)
     \<and> client_named (s\<lparr>cmem := m4, ht_client_id := t, records := (records s)(p := r)\<rparr>) = client_named s"
proof -
  note T = clients_tables [OF inv g]
  let ?par = "parameter (ht_client_id s)" and ?f = "ht_lookup (ht_client_id s)"
  have eq: "key_eq ?par = (=)" using inv by (auto simp: clients_inv_def fun_eq_iff)
  have old: "?f k = Some q \<Longrightarrow> q < brk (cmem s)" "ht_lookup (ht_client_id_reverse s) k' = Some q \<Longrightarrow> q < brk (cmem s)" for k k' q
    using inv by (auto simp: clients_inv_def)
  from hs.put_law [OF T(1), of cid p HASHTABLE_SET_HOW_SET_OVERWRITE] obtain rc m4 t where
    put: "hs_put (m, ht_client_id s) cid p HASHTABLE_SET_HOW_SET_OVERWRITE = Some (rc, m4, t)"
    and inv4: "hs_inv ?par (m4, t)" and g4: "mem_grows m m4"
    and out: "set_outcome (=) ?f cid p HASHTABLE_SET_HOW_SET_OVERWRITE rc (ht_lookup t)"
    unfolding eq hs_grows_def by auto
  from out have upd: "ht_lookup t = (if rc = HASHTABLE_SUCCESS then upd_map (=) ?f cid (Some p) else ?f)"
    by (auto simp: set_outcome_def split: option.splits)
  let ?s = "s\<lparr>cmem := m4, ht_client_id := t, records := (records s)(p := r)\<rparr>"
  have g': "mem_grows (cmem s) m4" using g g4 by (rule mem_grows_trans)
  have "ht_lookup t k = Some q \<longrightarrow> q < brk m4" for k q
    using upd old(1) [of k q] p g4 g' by (auto simp: upd_map_def mem_grows_def split: if_splits)
  moreover have "ht_lookup (ht_client_id_reverse s) k = Some q \<longrightarrow> q < brk m4" for k q
    using old(2) [of k q] g' by (auto simp: mem_grows_def)
  ultimately have "clients_inv ?s"
    using inv hs_inv_D [OF inv4] hs_inv_D [OF clients_tables(2) [OF inv g']] by (simp add: clients_inv_def)
  moreover have "client_of ?s = (if rc = HASHTABLE_SUCCESS then (client_of s)(cid \<mapsto> r) else client_of s)"
    using old(1) p(1) by (force simp: client_of_def upd upd_map_def fun_eq_iff option.map_comp intro: option.map_cong0)
  moreover have "client_named ?s = client_named s"
    using old(2) p(1) by (force simp: client_named_def fun_eq_iff intro: option.map_cong0)
  ultimately show ?thesis using put g4 by blast
qed

lemma store_reverse:
  assumes inv: "clients_inv s" and p: "p < brk (cmem s)"
  shows "\<exists>rc m' t. hs_put (cmem s, ht_client_id_reverse s) key p HASHTABLE_SET_HOW_SET_OVERWRITE = Some (rc, m', t)
     \<and> clients_inv (s\<lparr>cmem := m', ht_client_id_reverse := t\<rparr>)
     \<and> client_of (s\<lparr>cmem := m', ht_client_id_reverse := t\<rparr>) = client_of s
     \<and> client_named (s\<lparr>cmem := m', ht_client_id_reverse := t\<rparr>) =
         (\<lambda>n. if rc = HASHTABLE_SUCCESS \<and> strncmp_eq key n MAXNAMLEN then Some (records s p) else client_named s n)"
proof -
  note T = clients_tables [OF inv mem_grows_refl]
  let ?par = "parameter (ht_client_id_reverse s)" and ?f = "ht_lookup (ht_client_id_reverse s)"
  have eq: "key_eq ?par = (\<lambda>a b. strncmp_eq a b MAXNAMLEN)" using inv by (auto simp: clients_inv_def fun_eq_iff)
  from hs.put_law [OF T(2), of key p HASHTABLE_SET_HOW_SET_OVERWRITE] obtain rc m' t where
    put: "hs_put (cmem s, ht_client_id_reverse s) key p HASHTABLE_SET_HOW_SET_OVERWRITE = Some (rc, m', t)"
    and inv': "hs_inv ?par (m', t)" and g: "mem_grows (cmem s) m'"
    and out: "set_outcome (\<lambda>a b. strncmp_eq a b MAXNAMLEN) ?f key p HASHTABLE_SET_HOW_SET_OVERWRITE rc (ht_lookup t)"
    unfolding eq hs_grows_def by auto
  from out have upd: "ht_lookup t = (if rc = HASHTABLE_SUCCESS then upd_map (\<lambda>a b. strncmp_eq a b MAXNAMLEN) ?f key (Some p) else ?f)"
    by (auto simp: set_outcome_def split: option.splits)
  have "ht_lookup t k = Some q \<longrightarrow> q < brk m'" "ht_lookup (ht_client_id s) k' = Some q \<longrightarrow> q < brk m'" for k k' q
    using upd inv p g by (auto simp: upd_map_def mem_grows_def clients_inv_def split: if_splits)
      (meson order_less_le_trans)+
  then have "clients_inv (s\<lparr>cmem := m', ht_client_id_reverse := t\<rparr>)"
    using inv hs_inv_D [OF inv'] hs_inv_D [OF clients_tables(1) [OF inv g]] by (simp add: clients_inv_def)
  then show ?thesis using put by (auto simp: client_of_def client_named_def upd upd_map_def fun_eq_iff)
qed

definition named_as :: "clients \<Rightarrow> nfs_client_id \<Rightarrow> u8 list \<Rightarrow> nfs_client_id option" where
  "named_as s r = (\<lambda>n. if strncmp_eq (client_name r) n MAXNAMLEN then Some r else client_named s n)"

lemma strncmp_eq_cstr: "strncmp_eq (cstr n a) b n \<longleftrightarrow> strncmp_eq a b n"
  by (simp add: strncmp_eq_def)

text \<open>
  Storing a record: either everything is stored, in both tables, or the operation reports an
  allocation error; no other client's record changes in any case.
\<close>

lemma store_client_correct:
  assumes inv: "clients_inv s"
  shows "\<exists>rc s'. store_client s cid r [] = Some (rc, s') \<and> clients_inv s'
     \<and> (rc = CLIENT_ID_SUCCESS \<and> client_of s' = (client_of s)(cid \<mapsto> r) \<and> client_named s' = named_as s r
        \<or> rc = CLIENT_ID_INSERT_MALLOC_ERROR \<and> client_named s' = client_named s
          \<and> (client_of s' = client_of s \<or> client_of s' = (client_of s)(cid \<mapsto> r)))"
proof -
  let ?nb = "unat (nb_client_id_prealloc s)"
  obtain e pl m1 where get: "GET_PREALLOC (cmem s) [] ?nb sizeof_nfs_client_id = (e, pl, m1)"
    by (cases "GET_PREALLOC (cmem s) [] ?nb sizeof_nfs_client_id")
  obtain k1 m2 where a1: "Mem_Alloc m1 1 = (k1, m2)" by (cases "Mem_Alloc m1 1")
  obtain k2 m3 where a2: "Mem_Alloc m2 1 = (k2, m3)" by (cases "Mem_Alloc m2 1")
  note g1 = get_grows [OF get] and g2 = Mem_Alloc_grows [OF a1] and g3 = Mem_Alloc_grows [OF a2]
  note g12 = mem_grows_trans [OF g1 g2] note g13 = mem_grows_trans [OF g12 g3]
  have fail: "clients_inv (s\<lparr>cmem := m\<rparr>) \<and> client_of (s\<lparr>cmem := m\<rparr>) = client_of s \<and> client_named (s\<lparr>cmem := m\<rparr>) = client_named s"
    if "mem_grows (cmem s) m" for m
    using clients_inv_mem [OF inv that] by (simp add: client_of_def client_named_def fun_eq_iff)
  show ?thesis
  proof (cases "e = None \<or> k1 = None \<or> k2 = None")
    case True
    then show ?thesis using get a1 a2 fail [OF g1] fail [OF g12] fail [OF g13]
      by (cases e; cases k1; cases k2) (simp_all add: store_client_def)
  next
    case False
    then obtain p b1 b2 where some: "e = Some p" "k1 = Some b1" "k2 = Some b2" by auto
    have "pool_inv (cmem s) {} []" by (simp add: pool_inv_def)
    from stuff.get_some [OF this] get some(1) have "pool_inv m1 {p} pl" by fastforce
    then have "p < brk m3" using g2 g3 by (auto simp: pool_inv_def mem_grows_def)
    moreover have "brk (cmem s) \<le> p" using GET_PREALLOC_origin [OF get, of p] some(1) by simp
    ultimately obtain rc m4 t s1 where
      put: "hs_put (m3, ht_client_id s) cid p HASHTABLE_SET_HOW_SET_OVERWRITE = Some (rc, m4, t)" "mem_grows m3 m4"
      and s1_eq: "s1 = s\<lparr>cmem := m4, ht_client_id := t, records := (records s)(p := r)\<rparr>"
      and s1: "clients_inv s1" "client_named s1 = client_named s"
        "client_of s1 = (if rc = HASHTABLE_SUCCESS then (client_of s)(cid \<mapsto> r) else client_of s)"
      using store_tables [OF inv g13, of p cid r] by blast
    have "p < brk (cmem s1)" using \<open>p < brk m3\<close> put(2) by (simp add: mem_grows_def s1_eq)
    note R = store_reverse [OF s1(1) this, of "cstr MAXNAMLEN (client_name r)"]
    have "cmem s1 = m4" "ht_client_id_reverse s1 = ht_client_id_reverse s" "records s1 p = r" by (simp_all add: s1_eq)
    from R [unfolded this strncmp_eq_cstr] obtain rc' m5 t' s2 where
      rev: "hs_put (m4, ht_client_id_reverse s) (cstr MAXNAMLEN (client_name r)) p HASHTABLE_SET_HOW_SET_OVERWRITE = Some (rc', m5, t')"
      and s2_eq: "s2 = s1\<lparr>cmem := m5, ht_client_id_reverse := t'\<rparr>"
      and s2: "clients_inv s2" "client_of s2 = client_of s1"
        "client_named s2 = (\<lambda>n. if rc' = HASHTABLE_SUCCESS \<and> strncmp_eq (client_name r) n MAXNAMLEN then Some r else client_named s1 n)"
      by blast
    show ?thesis
    proof (cases "rc = HASHTABLE_SUCCESS")
      case True
      then have "store_client s cid r [] = Some (if rc' = HASHTABLE_SUCCESS then CLIENT_ID_SUCCESS else CLIENT_ID_INSERT_MALLOC_ERROR, s2)"
        using get a1 a2 some put(1) rev by (simp add: store_client_def s1_eq s2_eq)
      with s1 s2 True show ?thesis by (cases "rc' = HASHTABLE_SUCCESS") (auto simp: named_as_def fun_eq_iff)
    next
      case False
      then have "store_client s cid r [] = Some (CLIENT_ID_INSERT_MALLOC_ERROR, s1)"
        using get a1 a2 some put(1) by (simp add: store_client_def s1_eq)
      with s1 False show ?thesis by simp
    qed
  qed
qed

lemma get_client_tables:
  assumes inv: "clients_inv s" and g: "mem_grows (cmem s) m"
  shows "\<exists>m' t. hs_get (m, ht_client_id s) cid = Some
       (if ht_lookup (ht_client_id s) cid = None then HASHTABLE_ERROR_NO_SUCH_KEY else HASHTABLE_SUCCESS,
        ht_lookup (ht_client_id s) cid, m', t) \<and> m' = m \<and> parameter t = parameter (ht_client_id s)
     \<and> clients_inv (s\<lparr>cmem := m, ht_client_id := t\<rparr>) \<and> client_of (s\<lparr>cmem := m, ht_client_id := t\<rparr>) = client_of s
     \<and> client_named (s\<lparr>cmem := m, ht_client_id := t\<rparr>) = client_named s"
proof -
  note T = clients_tables [OF inv g]
  from hs.get_law [OF T(1), of cid] obtain m' t where
    get: "hs_get (m, ht_client_id s) cid = Some
       (if ht_lookup (ht_client_id s) cid = None then HASHTABLE_ERROR_NO_SUCH_KEY else HASHTABLE_SUCCESS,
        ht_lookup (ht_client_id s) cid, m', t)"
    and t: "hs_inv (parameter (ht_client_id s)) (m', t)" "ht_lookup t = ht_lookup (ht_client_id s)" by auto
  have "m' = m" using hs_same_mem(1) [OF get] by simp
  with get t hs_inv_D [OF t(1)] hs_inv_D [OF T(2)] inv g show ?thesis
    by (auto simp: clients_inv_def client_of_def client_named_def fun_eq_iff mem_grows_def) (meson order_less_le_trans)+
qed

lemma nfs_client_id_get_correct:
  assumes inv: "clients_inv s"
  shows "\<exists>rc res s'. nfs_client_id_get s cid = Some (rc, res, s') \<and> clients_inv s'
     \<and> client_of s' = client_of s \<and> client_named s' = client_named s
     \<and> (rc = CLIENT_ID_SUCCESS \<and> client_of s cid = res \<and> res \<noteq> None
        \<or> rc = CLIENT_ID_NOT_FOUND \<and> res = None \<and> client_of s cid = None
        \<or> rc = CLIENT_ID_INSERT_MALLOC_ERROR \<and> res = None \<and> \<not> no_fail (cmem s))"
proof -
  obtain k m1 where a: "Mem_Alloc (cmem s) 1 = (k, m1)" by (cases "Mem_Alloc (cmem s) 1")
  note g = Mem_Alloc_grows [OF a]
  show ?thesis
  proof (cases k)
    case None
    then have "\<not> no_fail (cmem s)" using a by (auto simp: Mem_Alloc_def no_fail_def split: if_splits)
    with None a clients_inv_mem [OF inv g] show ?thesis
      by (simp add: nfs_client_id_get_def client_of_def client_named_def fun_eq_iff)
  next
    case (Some b)
    from get_client_tables [OF inv g, of cid] show ?thesis
      using a Some by (auto simp: nfs_client_id_get_def client_of_def)
  qed
qed

lemma del_client_tables:
  assumes inv: "clients_inv s" and g: "mem_grows (cmem s) m"
  shows "\<exists>kv t. hs_del (m, ht_client_id s) cid = Some
       (if ht_lookup (ht_client_id s) cid = None then HASHTABLE_ERROR_NO_SUCH_KEY else HASHTABLE_SUCCESS, kv, m, t)
     \<and> map_option snd kv = ht_lookup (ht_client_id s) cid
     \<and> clients_inv (s\<lparr>cmem := m, ht_client_id := t\<rparr>)
     \<and> client_of (s\<lparr>cmem := m, ht_client_id := t\<rparr>) = (client_of s)(cid := None)
     \<and> client_named (s\<lparr>cmem := m, ht_client_id := t\<rparr>) = client_named s"
proof -
  note T = clients_tables [OF inv g]
  have eq: "key_eq (parameter (ht_client_id s)) = (=)" using inv by (auto simp: clients_inv_def fun_eq_iff)
  from hs.del_law [OF T(1), of cid] obtain kv m' t where
    del: "hs_del (m, ht_client_id s) cid = Some
       (if ht_lookup (ht_client_id s) cid = None then HASHTABLE_ERROR_NO_SUCH_KEY else HASHTABLE_SUCCESS, kv, m', t)"
    and kv: "map_option snd kv = ht_lookup (ht_client_id s) cid"
    and t: "hs_inv (parameter (ht_client_id s)) (m', t)" "ht_lookup t = upd_map (=) (ht_lookup (ht_client_id s)) cid None"
    unfolding eq by auto
  have "m' = m" using hs_same_mem(2) [OF del] by simp
  moreover have "clients_inv (s\<lparr>cmem := m, ht_client_id := t\<rparr>)"
    using t hs_inv_D [OF t(1)] hs_inv_D [OF T(2)] inv g \<open>m' = m\<close>
    by (auto simp: clients_inv_def upd_map_def mem_grows_def split: if_splits) (meson order_less_le_trans)+
  ultimately show ?thesis using del kv t
    by (auto simp: client_of_def client_named_def fun_eq_iff upd_map_def)
qed

lemma del_reverse_tables:
  assumes inv: "clients_inv s"
  shows "\<exists>kv t. hs_del (cmem s, ht_client_id_reverse s) key = Some
       (if ht_lookup (ht_client_id_reverse s) key = None then HASHTABLE_ERROR_NO_SUCH_KEY else HASHTABLE_SUCCESS, kv, cmem s, t)
     \<and> clients_inv (s\<lparr>ht_client_id_reverse := t\<rparr>)
     \<and> client_of (s\<lparr>ht_client_id_reverse := t\<rparr>) = client_of s
     \<and> client_named (s\<lparr>ht_client_id_reverse := t\<rparr>) = (\<lambda>n. if strncmp_eq key n MAXNAMLEN then None else client_named s n)"
proof -
  note T = clients_tables [OF inv mem_grows_refl]
  have eq: "key_eq (parameter (ht_client_id_reverse s)) = (\<lambda>a b. strncmp_eq a b MAXNAMLEN)"
    using inv by (auto simp: clients_inv_def fun_eq_iff)
  from hs.del_law [OF T(2), of key] obtain kv m' t where
    del: "hs_del (cmem s, ht_client_id_reverse s) key = Some
       (if ht_lookup (ht_client_id_reverse s) key = None then HASHTABLE_ERROR_NO_SUCH_KEY else HASHTABLE_SUCCESS, kv, m', t)"
    and t: "hs_inv (parameter (ht_client_id_reverse s)) (m', t)"
      "ht_lookup t = upd_map (\<lambda>a b. strncmp_eq a b MAXNAMLEN) (ht_lookup (ht_client_id_reverse s)) key None"
    unfolding eq by auto
  have "m' = cmem s" using hs_same_mem(2) [OF del] by simp
  moreover have "clients_inv (s\<lparr>ht_client_id_reverse := t\<rparr>)"
    using t hs_inv_D [OF t(1)] inv \<open>m' = cmem s\<close> by (auto simp: clients_inv_def upd_map_def split: if_splits)
  ultimately show ?thesis using del t
    by (auto simp: client_of_def client_named_def fun_eq_iff upd_map_def)
qed

lemma nfs_client_id_remove_correct:
  assumes inv: "clients_inv s"
  shows "\<exists>rc s'. nfs_client_id_remove s cid = Some (rc, s') \<and> clients_inv s'
     \<and> (case client_of s cid of
          None \<Rightarrow> rc \<noteq> CLIENT_ID_SUCCESS \<and> client_of s' = client_of s \<and> client_named s' = client_named s
        | Some r \<Rightarrow> rc = CLIENT_ID_INSERT_MALLOC_ERROR \<and> client_of s' = client_of s \<and> client_named s' = client_named s
            \<or> client_of s' = (client_of s)(cid := None)
              \<and> client_named s' = (\<lambda>n. if strncmp_eq (client_name r) n MAXNAMLEN then None else client_named s n)
              \<and> rc = (if client_named s (client_name r) = None then CLIENT_ID_NOT_FOUND else CLIENT_ID_SUCCESS))"
proof -
  obtain k m1 where a: "Mem_Alloc (cmem s) 1 = (k, m1)" by (cases "Mem_Alloc (cmem s) 1")
  note g = Mem_Alloc_grows [OF a]
  show ?thesis
  proof (cases k)
    case None
    with a clients_inv_mem [OF inv g] show ?thesis
      by (auto simp: nfs_client_id_remove_def client_of_def client_named_def fun_eq_iff split: option.splits)
  next
    case (Some b)
    from del_client_tables [OF inv g, of cid] obtain kv t s1 where
      d: "hs_del (m1, ht_client_id s) cid = Some
        (if ht_lookup (ht_client_id s) cid = None then HASHTABLE_ERROR_NO_SUCH_KEY else HASHTABLE_SUCCESS, kv, m1, t)"
      "map_option snd kv = ht_lookup (ht_client_id s) cid"
      and s1: "s1 = s\<lparr>cmem := m1, ht_client_id := t\<rparr>" "clients_inv s1" "client_of s1 = (client_of s)(cid := None)"
        "client_named s1 = client_named s" by blast
    show ?thesis
    proof (cases "ht_lookup (ht_client_id s) cid")
      case None
      then have "client_of s1 = client_of s" using s1(3) by (auto simp: client_of_def fun_eq_iff)
      with None a Some d s1 show ?thesis by (simp add: nfs_client_id_remove_def client_of_def)
    next
      case (Some p)
      with d(2) obtain k' where kv: "kv = Some (k', p)" by (cases kv) auto
      let ?key = "cstr MAXNAMLEN (client_name (records s p))"
      from del_reverse_tables [OF s1(2), of ?key] obtain kv' t' where
        r: "hs_del (m1, ht_client_id_reverse s) ?key = Some
          (if ht_lookup (ht_client_id_reverse s) ?key = None then HASHTABLE_ERROR_NO_SUCH_KEY else HASHTABLE_SUCCESS, kv', m1, t')"
        and s2: "clients_inv (s1\<lparr>ht_client_id_reverse := t'\<rparr>)" "client_of (s1\<lparr>ht_client_id_reverse := t'\<rparr>) = client_of s1"
          "client_named (s1\<lparr>ht_client_id_reverse := t'\<rparr>)
             = (\<lambda>n. if strncmp_eq (client_name (records s p)) n MAXNAMLEN then None else client_named s n)"
        unfolding s1(4) strncmp_eq_cstr by (auto simp: s1(1))
      have same: "ht_lookup (ht_client_id_reverse s) ?key = ht_lookup (ht_client_id_reverse s) (client_name (records s p))"
        using hs.lookup_cong [OF clients_tables(2) [OF inv mem_grows_refl], of ?key "client_name (records s p)"] inv
        by (simp add: clients_inv_def strncmp_eq_cstr)
      have of: "client_of s cid = Some (records s p)" using Some by (simp add: client_of_def)
      have "nfs_client_id_remove s cid = Some
          (if client_named s (client_name (records s p)) = None then CLIENT_ID_NOT_FOUND else CLIENT_ID_SUCCESS,
           s1\<lparr>ht_client_id_reverse := t'\<rparr>)"
        using a \<open>k = Some b\<close> d(1) r kv Some same
        by (simp add: nfs_client_id_remove_def client_named_def s1(1))
      then show ?thesis using s2 unfolding of s1(3) by simp
    qed
  qed
qed

subsection \<open>Initialisation\<close>

definition nfs_Init_client_id :: "mem \<Rightarrow> bool \<Rightarrow> (nat \<Rightarrow> bool) \<Rightarrow> u64 hash_parameter \<Rightarrow> int \<times> (u64, addr) hash_table option \<times> mem" where
  "nfs_Init_client_id m attr_ok lock_ok hash_param =
     (case HashTable_Init m attr_ok lock_ok hash_param of
        (None, m') \<Rightarrow> (-1, None, m')
      | (Some ht, m') \<Rightarrow> (0, Some ht, m'))"

definition nfs_Init_client_id_reverse :: "mem \<Rightarrow> bool \<Rightarrow> (nat \<Rightarrow> bool) \<Rightarrow> u8 list hash_parameter \<Rightarrow> int \<times> (u8 list, addr) hash_table option \<times> mem" where
  "nfs_Init_client_id_reverse m attr_ok lock_ok hash_param_reverse =
     (case HashTable_Init m attr_ok lock_ok hash_param_reverse of
        (None, m') \<Rightarrow> (-1, None, m')
      | (Some ht, m') \<Rightarrow> (0, Some ht, m'))"

lemma HashTable_Init_grows:
  assumes "HashTable_Init m a l par = (Some ht, m')"
  shows "mem_grows m m'"
proof -
  have all: "alloc_all m n = (r, m') \<Longrightarrow> mem_grows m m'" for m n r m'
  proof (induction n arbitrary: m)
    case (Suc n)
    obtain k m1 where k: "Mem_Alloc m 1 = (k, m1)" by (cases "Mem_Alloc m 1")
    with Suc.prems Suc.IH [of m1] Mem_Alloc_grows [OF k] show ?case
      by (auto split: option.splits intro: mem_grows_trans)
  qed simp
  from assms obtain m1 m2 ps where "alloc_all m 1 = (True, m1)" "alloc_all m1 5 = (True, m2)"
    "prealloc_slots m2 (unat (nb_node_prealloc par)) (unat (index_size par)) = (Some ps, m')"
    by (auto simp: HashTable_Init_def split: if_splits option.splits prod.splits bool.splits)
  with all prealloc_slots_range show ?thesis by (cases ps) (meson mem_grows_trans)
qed

text \<open>The tables as the two initialisations leave them.\<close>

lemma clients_init:
  assumes "nfs_Init_client_id m a l (client_par isz nb) = (0, Some t, m1)"
    and "nfs_Init_client_id_reverse m1 a' l' (client_par_reverse isz' nb' over) = (0, Some t', m2)"
    and "0 < isz" "0 < isz'"
  shows "clients_inv \<lparr>cmem = m2, ht_client_id = t, ht_client_id_reverse = t', records = rs, nb_client_id_prealloc = np\<rparr>"
    and "client_of \<lparr>cmem = m2, ht_client_id = t, ht_client_id_reverse = t', records = rs, nb_client_id_prealloc = np\<rparr> = (\<lambda>_. None)"
    and "client_named \<lparr>cmem = m2, ht_client_id = t, ht_client_id_reverse = t', records = rs, nb_client_id_prealloc = np\<rparr> = (\<lambda>_. None)"
proof -
  from assms(1,2) have i: "HashTable_Init m a l (client_par isz nb) = (Some t, m1)"
    "HashTable_Init m1 a' l' (client_par_reverse isz' nb' over) = (Some t', m2)"
    by (auto simp: nfs_Init_client_id_def nfs_Init_client_id_reverse_def split: option.splits prod.splits)
  note A = HashTable_Init_correct [OF i(1) client_par_ok(1) [OF assms(3)]]
  note B = HashTable_Init_correct [OF i(2) client_par_reverse_ok(1) [OF assms(4)]]
  have "ht_inv m2 t" using A(1) HashTable_Init_grows [OF i(2)] by (rule ht_inv_grows)
  with A B client_par_ok(2) [OF assms(3)] client_par_reverse_ok(2) [OF assms(4)]
  show "clients_inv \<lparr>cmem = m2, ht_client_id = t, ht_client_id_reverse = t', records = rs, nb_client_id_prealloc = np\<rparr>"
    by (simp add: clients_inv_def)
  show "client_of \<lparr>cmem = m2, ht_client_id = t, ht_client_id_reverse = t', records = rs, nb_client_id_prealloc = np\<rparr> = (\<lambda>_. None)"
    "client_named \<lparr>cmem = m2, ht_client_id = t, ht_client_id_reverse = t', records = rs, nb_client_id_prealloc = np\<rparr> = (\<lambda>_. None)"
    using A(3) B(3) by (simp_all add: client_of_def client_named_def fun_eq_iff)
qed

subsection \<open>The computation of client ids\<close>

lemma strncpy_nth:
  assumes "i < n"
  shows "strncpy s n ! i = (if i < length (cstr n s) then cstr n s ! i else 0)"
  using assms by (simp add: strncpy_def nth_append)

lemma cstr_nth_nonzero: "i < length (cstr n s) \<Longrightarrow> cstr n s ! i \<noteq> 0"
  unfolding cstr_def by (metis (mono_tags) nth_mem set_takeWhileD)

text \<open>
  The loop stays inside the buffer exactly for names of at most 128 characters, and sees the
  characters of even index only.
\<close>

lemma basic_loop_short:
  assumes "length (cstr MAXNAMLEN s) \<le> 128" and "i \<le> length (cstr MAXNAMLEN s)"
  shows "basic_loop (strncpy s MAXNAMLEN) i acc \<noteq> None"
  using assms(2)
proof (induction "length (cstr MAXNAMLEN s) - i" arbitrary: i acc)
  case 0
  then have "i = length (cstr MAXNAMLEN s)" by simp
  then show ?case using assms(1) by (subst basic_loop.simps) (simp add: strncpy_nth MAXNAMLEN_def)
next
  case (Suc d)
  then have "i < length (cstr MAXNAMLEN s)" "d = length (cstr MAXNAMLEN s) - Suc i" by simp_all
  with Suc.hyps(1) [of "Suc i"] assms(1) show ?case
    by (subst basic_loop.simps) (simp add: strncpy_nth MAXNAMLEN_def cstr_nth_nonzero)
qed

lemma basic_loop_long:
  assumes "128 < length (cstr MAXNAMLEN s)" and "i \<le> 128"
  shows "basic_loop (strncpy s MAXNAMLEN) i acc = None"
  using assms(2)
proof (induction "128 - i" arbitrary: i acc)
  case 0
  then have "i = 128" by simp
  then show ?case using assms(1) cstr_nth_nonzero [of 128 MAXNAMLEN s]
    by (subst basic_loop.simps) (simp add: strncpy_nth MAXNAMLEN_def)
next
  case (Suc d)
  then have "i < 128" "d = 128 - Suc i" by simp_all
  with Suc.hyps(1) [of "Suc i"] assms(1) cstr_nth_nonzero [of i MAXNAMLEN s] show ?case
    by (subst basic_loop.simps) (simp add: strncpy_nth MAXNAMLEN_def)
qed

lemma basic_loop_even:
  assumes len: "length (cstr MAXNAMLEN s) = length (cstr MAXNAMLEN t)"
    and even: "\<And>j. 2 * j < length (cstr MAXNAMLEN s) \<Longrightarrow> cstr MAXNAMLEN s ! (2 * j) = cstr MAXNAMLEN t ! (2 * j)"
  shows "basic_loop (strncpy s MAXNAMLEN) i acc = basic_loop (strncpy t MAXNAMLEN) i acc"
proof (induction "MAXNAMLEN - i" arbitrary: i acc)
  case 0
  then show ?case by (simp add: basic_loop.simps)
next
  case (Suc d)
  have z: "strncpy s MAXNAMLEN ! i = 0 \<longleftrightarrow> strncpy t MAXNAMLEN ! i = 0" if "i < MAXNAMLEN"
    using that len cstr_nth_nonzero by (auto simp: strncpy_nth)
  have e: "strncpy s MAXNAMLEN ! (2 * i) = strncpy t MAXNAMLEN ! (2 * i)" if "2 * i < MAXNAMLEN"
    using that len even [of i] by (simp add: strncpy_nth)
  have "d = MAXNAMLEN - Suc i" using Suc.hyps(2) by simp
  from Suc.hyps(1) [OF this] z e show ?case
    by (subst (1 2) basic_loop.simps) simp
qed

subsection \<open>Properties\<close>

definition demo_client :: nfs_client_id where
  "demo_client = \<lparr>client_name = [104, 49], clientid = 7, cb_program = 1, client_r_addr = [], client_r_netid = [],
     verifier = [], incoming_verifier = [], last_renew = 0, confirmed = UNCONFIRMED_CLIENT_ID,
     credential = \<lparr>flavor = 1, cred_length = 0, aup_uid = 0, aup_gid = 0, aup_time = 0, auth_union = []\<rparr>\<rparr>"

text \<open>Tables of 17 trees on a server without allocation failures, for the witnesses.\<close>

lemma demo_clients:
  "\<exists>s. clients_inv s \<and> no_fail (cmem s) \<and> 0 < nb_client_id_prealloc s
     \<and> 0 < nb_node_prealloc (parameter (ht_client_id s)) \<and> 0 < nb_node_prealloc (parameter (ht_client_id_reverse s))
     \<and> client_of s = (\<lambda>_. None) \<and> client_named s = (\<lambda>_. None)"
proof -
  let ?p = "client_par 17 4" and ?q = "client_par_reverse 17 4 0"
  have "no_fail demo_mem" by (simp add: no_fail_def demo_mem_def)
  from HashTable_Init_succeeds [OF this, of ?p] obtain t :: "(u64, addr) hash_table" and m1 where
    1: "HashTable_Init demo_mem True (\<lambda>_. True) ?p = (Some t, m1)" "no_fail m1" by (auto simp: client_par_def)
  from HashTable_Init_succeeds [OF 1(2), of ?q] obtain t' :: "(u8 list, addr) hash_table" and m2 where
    2: "HashTable_Init m1 True (\<lambda>_. True) ?q = (Some t', m2)" "no_fail m2" by (auto simp: client_par_reverse_def)
  have i1: "nfs_Init_client_id demo_mem True (\<lambda>_. True) ?p = (0, Some t, m1)"
    using 1 by (simp add: nfs_Init_client_id_def)
  have i2: "nfs_Init_client_id_reverse m1 True (\<lambda>_. True) ?q = (0, Some t', m2)"
    using 2 by (simp add: nfs_Init_client_id_reverse_def)
  let ?s = "\<lparr>cmem = m2, ht_client_id = t, ht_client_id_reverse = t', records = \<lambda>_. demo_client, nb_client_id_prealloc = 20\<rparr>"
  have "parameter t = ?p" "parameter t' = ?q"
    using HashTable_Init_correct(2) [OF 1(1) client_par_ok(1)] HashTable_Init_correct(2) [OF 2(1) client_par_reverse_ok(1)] by simp_all
  with clients_init [OF i1 i2, of "\<lambda>_. demo_client" 20] 2(2) show ?thesis
    by (intro exI [of _ ?s]) (simp add: client_par_def client_par_reverse_def)
qed



text \<open>Removing a client.  nfs_client_id_remove removes the record from the table by id and from the table by
  name, reports CLIENT_ID_NOT_FOUND when the name was not there, and changes nothing when
  the client is unknown or its key cannot be allocated.\<close>

theorem client_remove_correct:
  assumes "clients_inv s"
  shows "\<exists>rc s'. nfs_client_id_remove s cid = Some (rc, s') \<and> clients_inv s'
     \<and> (case client_of s cid of
          None \<Rightarrow> rc \<noteq> CLIENT_ID_SUCCESS \<and> client_of s' = client_of s \<and> client_named s' = client_named s
        | Some r \<Rightarrow> rc = CLIENT_ID_INSERT_MALLOC_ERROR \<and> client_of s' = client_of s \<and> client_named s' = client_named s
            \<or> client_of s' = (client_of s)(cid := None)
              \<and> client_named s' = (\<lambda>n. if strncmp_eq (client_name r) n MAXNAMLEN then None else client_named s n)
              \<and> rc = (if client_named s (client_name r) = None then CLIENT_ID_NOT_FOUND else CLIENT_ID_SUCCESS))"
  by (rule nfs_client_id_remove_correct [OF assms])

theorem client_remove_correct_witness:
  "\<exists>s rc s'. nfs_client_id_remove s 7 = Some (rc, s') \<and> rc \<noteq> CLIENT_ID_SUCCESS \<and> client_of s' = client_of s"
proof -
  from demo_clients obtain s where "clients_inv s" "client_of s = (\<lambda>_. None)" by blast
  with client_remove_correct [of s 7] obtain rc s' where
    "nfs_client_id_remove s 7 = Some (rc, s')" "rc \<noteq> CLIENT_ID_SUCCESS" "client_of s' = client_of s" by auto
  then show ?thesis by blast
qed

text \<open>Bounds of nfs_client_id_basic_compute.  The computation of a client id returns, without reading outside its
  buffer, exactly for the names of at most 128 characters; for a longer name it reads past
  the end of the buffer.\<close>

theorem basic_compute_bounds:
  "nfs_client_id_basic_compute (Some s) \<noteq> None \<longleftrightarrow> length (cstr MAXNAMLEN s) \<le> 128"
proof (cases "length (cstr MAXNAMLEN s) \<le> 128")
  case True
  then show ?thesis using basic_loop_short [OF True, of 0 0] by (simp add: nfs_client_id_basic_compute_def)
next
  case False
  then show ?thesis using basic_loop_long [of s 0 0] by (simp add: nfs_client_id_basic_compute_def)
qed

text \<open>Names with the same client id.  Two names of the same length that agree at the even positions get the
  same client id: the loop of nfs_client_id_basic_compute skips every other character.\<close>

theorem basic_compute_skips_characters:
  assumes "length (cstr MAXNAMLEN s) = length (cstr MAXNAMLEN t)"
    and "\<And>j. 2 * j < length (cstr MAXNAMLEN s) \<Longrightarrow> cstr MAXNAMLEN s ! (2 * j) = cstr MAXNAMLEN t ! (2 * j)"
  shows "nfs_client_id_basic_compute (Some s) = nfs_client_id_basic_compute (Some t)"
  using basic_loop_even [OF assms] by (simp add: nfs_client_id_basic_compute_def)

theorem basic_compute_skips_characters_witness:
  "nfs_client_id_basic_compute (Some [104, 49]) = nfs_client_id_basic_compute (Some [104, 50])"
proof (rule basic_compute_skips_characters)
  have c: "cstr MAXNAMLEN [104, 49] = [104, 49]" "cstr MAXNAMLEN [104, 50] = [104, 50]"
    by (simp_all add: cstr_def MAXNAMLEN_def)
  show "length (cstr MAXNAMLEN [104, 49]) = length (cstr MAXNAMLEN [104, 50])" by (simp add: c)
  show "cstr MAXNAMLEN [104, 49] ! (2 * j) = cstr MAXNAMLEN [104, 50] ! (2 * j)"
    if "2 * j < length (cstr MAXNAMLEN [104, 49])" for j
  proof -
    have "j = 0" using that by (simp add: c)
    then show ?thesis by (simp add: c)
  qed
qed

text \<open>The value of nfs_client_id_compute always fits in 32 bits.\<close>

theorem client_id_compute_32_bits:
  "snd (nfs_client_id_compute over name) < 2 ^ 32"
proof (cases name)
  case None
  then show ?thesis by (simp add: nfs_client_id_compute_def)
next
  case (Some s)
  have low: "v AND 0x00000000FFFFFFFF = take_bit 32 v" for v :: u64
    by (simp add: take_bit_eq_mask mask_eq_exp_minus_1)
  have "drop_bit 32 v = take_bit 32 (drop_bit 32 v)" for v :: u64
    by (rule bit_word_eqI) (auto simp: bit_simps dest: bit_imp_le_length)
  then have "drop_bit 32 v XOR (v AND 0x00000000FFFFFFFF) = take_bit 32 (drop_bit 32 v XOR v)" for v :: u64
    unfolding low by (metis take_bit_xor)
  moreover have "take_bit 32 (w :: u64) < 2 ^ 32" for w
    using take_bit_nat_less_exp [of 32 "unat w"] by (simp add: word_less_nat_alt unsigned_take_bit_eq)
  ultimately have "drop_bit 32 v XOR (v AND 0x00000000FFFFFFFF) < 2 ^ 32" for v :: u64 by (simp only:)
  then show ?thesis unfolding nfs_client_id_compute_def Some option.case Let_def snd_conv .
qed

text \<open>The byte after the name buffer matters.  nfs_client_id_compute reads one byte past padded_name, and its
  value changes the client id of the same name.\<close>

theorem client_id_compute_reads_past_the_buffer:
  "nfs_client_id_compute 0 (Some []) \<noteq> nfs_client_id_compute 0x80 (Some [])"
proof -
  have p: "padded_name [] over ! j = (if j < 72 then 0 else over)" if "j \<le> 72" for over j
    using that by (auto simp: padded_name_def strncpy_def cstr_def CLIENT_ID_MAX_LEN_def nth_append)
  have "foldl (pack_turn (padded_name [] over)) 0 [0, 9, 18, 27, 36, 45, 54, 63] = bit8 over" for over
    by (simp add: pack_turn_def low7_def bit8_def p Let_def)
  then show ?thesis by (simp add: nfs_client_id_compute_def bit8_def)
qed

end
