(* ===== verification/Nfs4_Client.thy ===== *)
theory Nfs4_Client
  imports Client_Id
begin

text \<open>
  The operations that establish and renew a client id:
  \<^verbatim>\<open>NFS_Protocols/nfs4_op_setclientid.c\<close>, \<^verbatim>\<open>nfs4_op_setclientid_confirm.c\<close> and
  \<^verbatim>\<open>nfs4_op_renew.c\<close>, over the client tables of the theory \<^verbatim>\<open>Client_Id\<close>, with
  \<open>nfs_compare_clientcred\<close> of \<^verbatim>\<open>support/nfs_export_list.c\<close>.

  The arguments of an operation are the fields the code reads; the clock and the boot time
  of the server are arguments.  \<open>None\<close> is a write outside the local name buffer, or a
  computation of the client id that reads outside of it.
\<close>

subsection \<open>Credentials\<close>

definition AUTH_UNIX :: u32 where "AUTH_UNIX = 1"

definition nfs_compare_clientcred :: "nfs_client_cred option \<Rightarrow> nfs_client_cred option \<Rightarrow> bool" where
  "nfs_compare_clientcred pcred1 pcred2 =
     (case (pcred1, pcred2) of
        (Some c1, Some c2) \<Rightarrow>
          if flavor c1 \<noteq> flavor c2 then False
          else if cred_length c1 \<noteq> cred_length c2 then False
          else if flavor c1 = AUTH_UNIX then
            (if aup_uid c1 \<noteq> aup_uid c2 then False
             else if aup_gid c1 \<noteq> aup_gid c2 then False
             else if aup_time c1 \<noteq> aup_time c2 then False
             else True)
          else take (unat (cred_length c1)) (auth_union c1) = take (unat (cred_length c1)) (auth_union c2)
      | _ \<Rightarrow> False)"

subsection \<open>SETCLIENTID\<close>

record setclientid_arg =
  id_val :: "u8 list"
  arg_verifier :: "u8 list"
  arg_cb_program :: u32
  arg_r_addr :: "u8 list"
  arg_r_netid :: "u8 list"

datatype setclientid_res =
    SETCLIENTID_resok u64 "u8 list"
  | SETCLIENTID_client_using "u8 list" "u8 list"
  | SETCLIENTID_none

text \<open>The fields that the operation sets in the record of a rebooted client, and of a new one.\<close>

definition fill_record :: "u32 \<Rightarrow> setclientid_arg \<Rightarrow> u64 \<Rightarrow> confirm_state \<Rightarrow> nfs_client_id \<Rightarrow> nfs_client_id" where
  "fill_record ServerBootTime arg cid st r =
     r\<lparr>client_name := cstr (length (id_val arg)) (id_val arg),
       client_r_addr := strncpy (arg_r_addr arg) MAXNAMLEN,
       client_r_netid := strncpy (arg_r_netid arg) MAXNAMLEN,
       incoming_verifier := strncpy (arg_verifier arg) NFS4_VERIFIER_SIZE,
       verifier := snprintf_u NFS4_VERIFIER_SIZE ServerBootTime,
       confirmed := st, cb_program := arg_cb_program arg, clientid := cid, last_renew := 0\<rparr>"

definition blank_record :: "nfs_client_cred \<Rightarrow> nfs_client_id" where
  "blank_record cred = \<lparr>client_name = [], clientid = 0, cb_program = 0, client_r_addr = [], client_r_netid = [],
     verifier = [], incoming_verifier = [], last_renew = 0, confirmed = UNCONFIRMED_CLIENT_ID, credential = cred\<rparr>"

definition setclientid_ok :: "u32 \<Rightarrow> u64 \<Rightarrow> clients \<Rightarrow> nfsstat4 \<times> setclientid_res \<times> clients" where
  "setclientid_ok ServerBootTime cid s =
     (NFS4_OK, SETCLIENTID_resok cid (snprintf_u NFS4_VERIFIER_SIZE ServerBootTime), s)"

text \<open>
  \<open>compare_cred\<close> is the build option \<^verbatim>\<open>_NFSV4_COMPARE_CRED_IN_SETCLIENTID\<close>; \<open>pool\<close> is
  the worker's \<open>clientid_pool\<close>.
\<close>

definition nfs4_op_setclientid ::
  "bool \<Rightarrow> u32 \<Rightarrow> nfs_client_cred \<Rightarrow> addr list \<Rightarrow> clients \<Rightarrow> setclientid_arg \<Rightarrow> (nfsstat4 \<times> setclientid_res \<times> clients) option" where
  "nfs4_op_setclientid compare_cred ServerBootTime cred pool s arg =
     (if length (id_val arg) \<ge> MAXNAMLEN then None
      else do {
        (rc, cid) \<leftarrow> nfs_client_id_basic_compute (Some (cstr (length (id_val arg)) (id_val arg)));
        if rc \<noteq> CLIENT_ID_SUCCESS then Some (NFS4ERR_SERVERFAULT, SETCLIENTID_none, s)
        else do {
          (rc1, res, s1) \<leftarrow> nfs_client_id_get s cid;
          (case (rc1, res) of
             (CLIENT_ID_SUCCESS, Some r) \<Rightarrow>
               if confirmed r = CONFIRMED_CLIENT_ID then
                 (if compare_cred \<and> \<not> nfs_compare_clientcred (Some (credential r)) (Some cred)
                  then Some (NFS4ERR_CLID_INUSE, SETCLIENTID_client_using (client_r_netid r) (client_r_addr r), s1)
                  else if \<not> strncmp_eq (incoming_verifier r) (arg_verifier arg) NFS4_VERIFIER_SIZE
                  then do {
                    (rc2, s2) \<leftarrow> nfs_client_id_set s1 cid (fill_record ServerBootTime arg cid REBOOTED_CLIENT_ID r) pool;
                    Some (if rc2 \<noteq> CLIENT_ID_SUCCESS then (NFS4ERR_SERVERFAULT, SETCLIENTID_none, s2)
                          else setclientid_ok ServerBootTime cid s2) }
                  else if cb_program r = arg_cb_program arg
                  then do {
                    (rc2, s2) \<leftarrow> nfs_client_id_set s1 cid (r\<lparr>confirmed := UNCONFIRMED_CLIENT_ID\<rparr>) pool;
                    Some (if rc2 \<noteq> CLIENT_ID_SUCCESS then (NFS4ERR_SERVERFAULT, SETCLIENTID_none, s2)
                          else setclientid_ok ServerBootTime cid s2) }
                  else Some (setclientid_ok ServerBootTime cid s1))
               else Some (setclientid_ok ServerBootTime cid s1)
           | (CLIENT_ID_SUCCESS, None) \<Rightarrow> None
           | _ \<Rightarrow> do {
               (rc2, s2) \<leftarrow> nfs_client_id_add s1 cid
                            (fill_record ServerBootTime arg cid UNCONFIRMED_CLIENT_ID (blank_record cred)) pool;
               Some (if rc2 \<noteq> CLIENT_ID_SUCCESS then (NFS4ERR_SERVERFAULT, SETCLIENTID_none, s2)
                     else setclientid_ok ServerBootTime cid s2) }) } })"

subsection \<open>SETCLIENTID_CONFIRM and RENEW\<close>

definition nfs4_op_setclientid_confirm ::
  "int \<Rightarrow> addr list \<Rightarrow> clients \<Rightarrow> u64 \<Rightarrow> u8 list \<Rightarrow> (nfsstat4 \<times> clients) option" where
  "nfs4_op_setclientid_confirm now pool s cid confirm = do {
     (rc, res, s1) \<leftarrow> nfs_client_id_get s cid;
     (case (rc, res) of
        (CLIENT_ID_SUCCESS, Some r) \<Rightarrow>
          if confirmed r = CONFIRMED_CLIENT_ID then
            (if \<not> strncmp_eq (verifier r) confirm NFS4_VERIFIER_SIZE then Some (NFS4ERR_CLID_INUSE, s1)
             else Some (NFS4_OK, s1))
          else do {
            (rc2, s2) \<leftarrow> nfs_client_id_set s1 cid (r\<lparr>confirmed := CONFIRMED_CLIENT_ID, last_renew := now\<rparr>) pool;
            Some (if rc2 \<noteq> CLIENT_ID_SUCCESS then NFS4ERR_SERVERFAULT else NFS4_OK, s2) }
      | (CLIENT_ID_SUCCESS, None) \<Rightarrow> None
      | _ \<Rightarrow> Some (NFS4ERR_STALE_CLIENTID, s1)) }"

text \<open>RENEW: the time is stored in a local copy of the record.\<close>

definition nfs4_op_renew :: "int \<Rightarrow> clients \<Rightarrow> u64 \<Rightarrow> (nfsstat4 \<times> clients) option" where
  "nfs4_op_renew now s cid = do {
     (rc, res, s1) \<leftarrow> nfs_client_id_get s cid;
     Some (if rc = CLIENT_ID_SUCCESS
           then (let nfs_clientid = map_option (\<lambda>r. r\<lparr>last_renew := now\<rparr>) res in (NFS4_OK, s1))
           else (NFS4ERR_STALE_CLIENTID, s1)) }"

subsection \<open>What the operations do to a client\<close>

text \<open>The state of a client after a SETCLIENTID that returned NFS4\_OK, given its state before.\<close>

definition sc_next :: "u32 \<Rightarrow> nfs_client_cred \<Rightarrow> setclientid_arg \<Rightarrow> u64 \<Rightarrow> nfs_client_id option \<Rightarrow> nfs_client_id" where
  "sc_next ServerBootTime cred arg cid old =
     (case old of
        None \<Rightarrow> fill_record ServerBootTime arg cid UNCONFIRMED_CLIENT_ID (blank_record cred)
      | Some r \<Rightarrow>
          if confirmed r = CONFIRMED_CLIENT_ID then
            (if \<not> strncmp_eq (incoming_verifier r) (arg_verifier arg) NFS4_VERIFIER_SIZE
             then fill_record ServerBootTime arg cid REBOOTED_CLIENT_ID r
             else if cb_program r = arg_cb_program arg then r\<lparr>confirmed := UNCONFIRMED_CLIENT_ID\<rparr> else r)
          else r)"

lemma set_client_cases:
  assumes "clients_inv s"
  obtains s' where "store_client s cid r [] = Some (CLIENT_ID_SUCCESS, s')" "clients_inv s'"
      "client_of s' = (client_of s)(cid \<mapsto> r)"
    | s' where "store_client s cid r [] = Some (CLIENT_ID_INSERT_MALLOC_ERROR, s')" "clients_inv s'"
      "client_of s' = client_of s \<or> client_of s' = (client_of s)(cid \<mapsto> r)"
  using store_client_correct [OF assms, of cid r] by blast

definition sc_post :: "u32 \<Rightarrow> nfs_client_cred \<Rightarrow> setclientid_arg \<Rightarrow> u64 \<Rightarrow> clients \<Rightarrow> (nfsstat4 \<times> setclientid_res \<times> clients) option \<Rightarrow> bool" where
  "sc_post ServerBootTime cred arg cid s out \<longleftrightarrow> (\<exists>st res s'. out = Some (st, res, s') \<and> clients_inv s'
     \<and> (\<forall>k. k \<noteq> cid \<longrightarrow> client_of s' k = client_of s k)
     \<and> (st = NFS4_OK \<longrightarrow> res = SETCLIENTID_resok cid (snprintf_u NFS4_VERIFIER_SIZE ServerBootTime)
          \<and> client_of s' cid = Some (sc_next ServerBootTime cred arg cid (client_of s cid)))
     \<and> (st = NFS4_OK \<or> st = NFS4ERR_SERVERFAULT \<or> st = NFS4ERR_CLID_INUSE \<and> client_of s' = client_of s))"

lemma sc_post_store:
  assumes "clients_inv s1" and "client_of s1 = client_of s"
    and "r = sc_next ServerBootTime cred arg cid (client_of s cid)"
  shows "sc_post ServerBootTime cred arg cid s
     (store_client s1 cid r [] \<bind> (\<lambda>(rc2, s2). Some (if rc2 \<noteq> CLIENT_ID_SUCCESS then (NFS4ERR_SERVERFAULT, SETCLIENTID_none, s2)
        else setclientid_ok ServerBootTime cid s2)))"
  using assms(1)
proof (cases rule: set_client_cases [of s1 cid r])
  case (1 s')
  with assms show ?thesis by (simp add: sc_post_def setclientid_ok_def)
next
  case (2 s')
  with assms show ?thesis by (auto simp: sc_post_def)
qed

lemma sc_post_keep:
  assumes "clients_inv s1" and "client_of s1 = client_of s"
    and "client_of s cid = Some (sc_next ServerBootTime cred arg cid (client_of s cid))"
  shows "sc_post ServerBootTime cred arg cid s (Some (setclientid_ok ServerBootTime cid s1))"
  using assms by (simp add: sc_post_def setclientid_ok_def)

lemma setclientid_step:
  assumes inv: "clients_inv s" and nf: "no_fail (cmem s)" and len: "length (id_val arg) < MAXNAMLEN"
    and cid: "nfs_client_id_basic_compute (Some (cstr (length (id_val arg)) (id_val arg))) = Some (CLIENT_ID_SUCCESS, cid)"
  shows "sc_post ServerBootTime cred arg cid s (nfs4_op_setclientid compare_cred ServerBootTime cred [] s arg)"
proof -
  from nfs_client_id_get_correct [OF inv, of cid] nf obtain rc res s1 where
    get: "nfs_client_id_get s cid = Some (rc, res, s1)" and s1: "clients_inv s1" "client_of s1 = client_of s"
    and res: "rc = CLIENT_ID_SUCCESS \<and> client_of s cid = res \<and> res \<noteq> None
      \<or> rc = CLIENT_ID_NOT_FOUND \<and> res = None \<and> client_of s cid = None" by blast
  show ?thesis
  proof (cases "client_of s cid")
    case None
    with res have rr: "rc = CLIENT_ID_NOT_FOUND" "res = None" by auto
    have "nfs4_op_setclientid compare_cred ServerBootTime cred [] s arg =
        store_client s1 cid (sc_next ServerBootTime cred arg cid (client_of s cid)) [] \<bind>
        (\<lambda>(rc2, s2). Some (if rc2 \<noteq> CLIENT_ID_SUCCESS then (NFS4ERR_SERVERFAULT, SETCLIENTID_none, s2)
          else setclientid_ok ServerBootTime cid s2))"
      using None rr len cid get by (simp add: nfs4_op_setclientid_def nfs_client_id_add_def sc_next_def)
    then show ?thesis using sc_post_store [OF s1 refl] by simp
  next
    case (Some r)
    with res have rr: "rc = CLIENT_ID_SUCCESS" "res = Some r" by auto
    have "sc_post ServerBootTime cred arg cid s (Some (NFS4ERR_CLID_INUSE, SETCLIENTID_client_using a b, s1))" for a b
      using s1 by (simp add: sc_post_def)
    then show ?thesis
      using Some rr len cid get sc_post_store [OF s1 refl, of ServerBootTime cred arg cid]
        sc_post_keep [OF s1, of cid ServerBootTime cred arg]
      by (auto simp: nfs4_op_setclientid_def nfs_client_id_set_def sc_next_def split: if_splits)
  qed
qed

subsection \<open>Progress\<close>

text \<open>A server that can allocate: every operation of the tables succeeds.\<close>

definition clients_ready :: "clients \<Rightarrow> bool" where
  "clients_ready s \<longleftrightarrow> clients_inv s \<and> no_fail (cmem s) \<and> 0 < nb_client_id_prealloc s
     \<and> 0 < nb_node_prealloc (parameter (ht_client_id s)) \<and> 0 < nb_node_prealloc (parameter (ht_client_id_reverse s))"

lemma Mem_Alloc_no_fail: "no_fail m \<Longrightarrow> \<exists>a m'. Mem_Alloc m n = (Some a, m') \<and> no_fail m'"
  by (simp add: Mem_Alloc_def no_fail_def)

lemma store_client_ready:
  assumes ready: "clients_ready s"
  shows "\<exists>s'. store_client s cid r [] = Some (CLIENT_ID_SUCCESS, s') \<and> clients_ready s'
     \<and> client_of s' = (client_of s)(cid \<mapsto> r)"
proof -
  let ?nb = "unat (nb_client_id_prealloc s)"
  from ready have inv: "clients_inv s" and nf: "no_fail (cmem s)" and nb: "0 < ?nb"
    and p1: "0 < nb_node_prealloc (parameter (ht_client_id s))" and p2: "0 < nb_node_prealloc (parameter (ht_client_id_reverse s))"
    by (auto simp: clients_ready_def unat_gt_0 word_greater_zero_iff)
  obtain e pl m1 where get: "GET_PREALLOC (cmem s) [] ?nb sizeof_nfs_client_id = (e, pl, m1)"
    by (cases "GET_PREALLOC (cmem s) [] ?nb sizeof_nfs_client_id")
  with GET_PREALLOC_no_fail [OF nf nb] obtain p where e: "e = Some p" "no_fail m1" by blast
  from Mem_Alloc_no_fail [OF e(2), of 1] obtain b1 m2 where a1: "Mem_Alloc m1 1 = (Some b1, m2)" "no_fail m2" by blast
  from Mem_Alloc_no_fail [OF a1(2), of 1] obtain b2 m3 where a2: "Mem_Alloc m2 1 = (Some b2, m3)" "no_fail m3" by blast
  have g: "mem_grows (cmem s) m3"
    using get_grows [OF get] Mem_Alloc_grows [OF a1(1)] Mem_Alloc_grows [OF a2(1)] by (meson mem_grows_trans)
  from hs_put_no_fail [OF clients_tables(1) [OF inv g] a2(2) p1] obtain m4 t where
    h1: "hs_put (m3, ht_client_id s) cid p HASHTABLE_SET_HOW_SET_OVERWRITE = Some (HASHTABLE_SUCCESS, m4, t)" "no_fail m4"
    "parameter t = parameter (ht_client_id s)" by blast
  from hs.put_law [OF clients_tables(1) [OF inv g], of cid p HASHTABLE_SET_HOW_SET_OVERWRITE] h1(1)
  have g4: "mem_grows m3 m4" by (auto simp: hs_grows_def)
  from hs_put_no_fail [OF clients_tables(2) [OF inv mem_grows_trans [OF g g4]] h1(2) p2, of "cstr MAXNAMLEN (client_name r)" p]
  obtain m5 t' where h2: "hs_put (m4, ht_client_id_reverse s) (cstr MAXNAMLEN (client_name r)) p HASHTABLE_SET_HOW_SET_OVERWRITE
      = Some (HASHTABLE_SUCCESS, m5, t')" "no_fail m5" "parameter t' = parameter (ht_client_id_reverse s)" by blast
  let ?s = "s\<lparr>cmem := m5, ht_client_id := t, records := (records s)(p := r), ht_client_id_reverse := t'\<rparr>"
  have st: "store_client s cid r [] = Some (CLIENT_ID_SUCCESS, ?s)"
    using get e a1 a2 h1(1) h2(1) by (simp add: store_client_def)
  with store_client_correct [OF inv, of cid r] have "clients_inv ?s" "client_of ?s = (client_of s)(cid \<mapsto> r)" by auto
  moreover have "clients_ready ?s" using \<open>clients_inv ?s\<close> h1(3) h2(2,3) ready by (simp add: clients_ready_def)
  ultimately show ?thesis using st by blast
qed

lemma get_client_ready:
  assumes ready: "clients_ready s"
  shows "\<exists>s'. nfs_client_id_get s cid = Some (if client_of s cid = None then CLIENT_ID_NOT_FOUND else CLIENT_ID_SUCCESS, client_of s cid, s')
     \<and> clients_ready s' \<and> client_of s' = client_of s"
proof -
  from ready have inv: "clients_inv s" and nf: "no_fail (cmem s)" by (auto simp: clients_ready_def)
  from Mem_Alloc_no_fail [OF nf, of 1] obtain b m1 where a: "Mem_Alloc (cmem s) 1 = (Some b, m1)" "no_fail m1" by blast
  from get_client_tables [OF inv Mem_Alloc_grows [OF a(1)], of cid] obtain t s1 where
    g: "hs_get (m1, ht_client_id s) cid = Some
       (if ht_lookup (ht_client_id s) cid = None then HASHTABLE_ERROR_NO_SUCH_KEY else HASHTABLE_SUCCESS,
        ht_lookup (ht_client_id s) cid, m1, t)" "parameter t = parameter (ht_client_id s)"
      and s1: "s1 = s\<lparr>cmem := m1, ht_client_id := t\<rparr>" "clients_inv s1" "client_of s1 = client_of s" by blast
  have "nfs_client_id_get s cid = Some (if client_of s cid = None then CLIENT_ID_NOT_FOUND else CLIENT_ID_SUCCESS, client_of s cid, s1)"
    using a(1) g(1) by (auto simp: nfs_client_id_get_def client_of_def s1(1))
  moreover have "clients_ready s1" using s1(2) a(2) ready g(2) by (simp add: clients_ready_def s1(1))
  ultimately show ?thesis using s1(3) by blast
qed

subsection \<open>Properties\<close>

definition demo_arg :: setclientid_arg where
  "demo_arg = \<lparr>id_val = [104, 49], arg_verifier = [1, 2, 3, 4, 5, 6, 7, 8], arg_cb_program = 9, arg_r_addr = [], arg_r_netid = []\<rparr>"

lemma demo_ready: "\<exists>s. clients_ready s \<and> client_of s = (\<lambda>_. None)"
  using demo_clients by (auto simp: clients_ready_def)

lemma demo_cid: "\<exists>cid. nfs_client_id_basic_compute (Some (cstr (length (id_val demo_arg)) (id_val demo_arg))) = Some (CLIENT_ID_SUCCESS, cid)"
proof -
  have "length (cstr MAXNAMLEN (cstr (Suc (Suc 0)) [104, 49])) \<le> 128" by (simp add: cstr_def MAXNAMLEN_def)
  from basic_loop_short [OF this, of 0 0] show ?thesis
    by (auto simp: nfs_client_id_basic_compute_def demo_arg_def)
qed



text \<open>C21: Establishing a client id.  On a server that can allocate, SETCLIENTID for an unknown client followed by
  SETCLIENTID\_CONFIRM with the client id it returned leaves that client confirmed, with the
  time of the confirmation as its last renewal.  The confirmation succeeds whatever verifier
  it carries.\<close>

theorem setclientid_handshake:
  assumes ready: "clients_ready s" and len: "length (id_val arg) < MAXNAMLEN"
    and cid: "nfs_client_id_basic_compute (Some (cstr (length (id_val arg)) (id_val arg))) = Some (CLIENT_ID_SUCCESS, cid)"
    and new: "client_of s cid = None"
  shows "\<exists>v s1 s2 r. nfs4_op_setclientid compare_cred ServerBootTime cred [] s arg = Some (NFS4_OK, SETCLIENTID_resok cid v, s1)
     \<and> nfs4_op_setclientid_confirm now [] s1 cid any_verifier = Some (NFS4_OK, s2)
     \<and> client_of s2 cid = Some r \<and> confirmed r = CONFIRMED_CLIENT_ID \<and> last_renew r = now
     \<and> client_name r = cstr (length (id_val arg)) (id_val arg)"
proof -
  let ?r = "fill_record ServerBootTime arg cid UNCONFIRMED_CLIENT_ID (blank_record cred)"
  from get_client_ready [OF ready, of cid] new obtain sg where
    g: "nfs_client_id_get s cid = Some (CLIENT_ID_NOT_FOUND, None, sg)" "clients_ready sg" by auto
  from store_client_ready [OF g(2), of cid ?r] obtain s1 where
    s1: "store_client sg cid ?r [] = Some (CLIENT_ID_SUCCESS, s1)" "clients_ready s1" "client_of s1 cid = Some ?r" by auto
  have op1: "nfs4_op_setclientid compare_cred ServerBootTime cred [] s arg =
      Some (NFS4_OK, SETCLIENTID_resok cid (snprintf_u NFS4_VERIFIER_SIZE ServerBootTime), s1)"
    using len cid g(1) s1(1) by (simp add: nfs4_op_setclientid_def nfs_client_id_add_def setclientid_ok_def)
  from get_client_ready [OF s1(2), of cid] s1(3) obtain sh where
    h: "nfs_client_id_get s1 cid = Some (CLIENT_ID_SUCCESS, Some ?r, sh)" "clients_ready sh" by auto
  let ?r2 = "?r\<lparr>confirmed := CONFIRMED_CLIENT_ID, last_renew := now\<rparr>"
  from store_client_ready [OF h(2), of cid ?r2] obtain s2 where
    s2: "store_client sh cid ?r2 [] = Some (CLIENT_ID_SUCCESS, s2)" "client_of s2 cid = Some ?r2" by auto
  have "nfs4_op_setclientid_confirm now [] s1 cid any_verifier = Some (NFS4_OK, s2)"
    using h(1) s2(1) by (simp add: nfs4_op_setclientid_confirm_def nfs_client_id_set_def fill_record_def)
  with op1 s2(2) show ?thesis by (simp add: fill_record_def)
qed

theorem setclientid_handshake_witness:
  "\<exists>s cid v s1 s2 r. nfs4_op_setclientid False 1300000000 (credential demo_client) [] s demo_arg = Some (NFS4_OK, SETCLIENTID_resok cid v, s1)
     \<and> nfs4_op_setclientid_confirm 5 [] s1 cid [] = Some (NFS4_OK, s2)
     \<and> client_of s2 cid = Some r \<and> confirmed r = CONFIRMED_CLIENT_ID"
proof -
  from demo_ready obtain s where s: "clients_ready s" "client_of s = (\<lambda>_. None)" by blast
  from demo_cid obtain cid where
    c: "nfs_client_id_basic_compute (Some (cstr (length (id_val demo_arg)) (id_val demo_arg))) = Some (CLIENT_ID_SUCCESS, cid)" by blast
  have "length (id_val demo_arg) < MAXNAMLEN" "client_of s cid = None"
    using s(2) by (simp_all add: demo_arg_def MAXNAMLEN_def)
  from setclientid_handshake [OF s(1) this(1) c this(2), of False 1300000000 "credential demo_client" 5 "[]"] show ?thesis by blast
qed

text \<open>RENEW does not renew.  nfs4_op_renew answers NFS4\_OK for every known client, but no record
  changes: the time of the last renewal of the client stays what it was.\<close>

theorem renew_changes_no_record:
  assumes "clients_ready s"
  shows "\<exists>s'. nfs4_op_renew now s cid = Some (if client_of s cid = None then NFS4ERR_STALE_CLIENTID else NFS4_OK, s')
     \<and> client_of s' = client_of s"
  using get_client_ready [OF assms, of cid] by (auto simp: nfs4_op_renew_def)

theorem renew_changes_no_record_witness:
  "\<exists>s s'. nfs4_op_renew 5 s 7 = Some (NFS4ERR_STALE_CLIENTID, s') \<and> client_of s' = client_of s"
proof -
  from demo_ready obtain s where "clients_ready s" "client_of s = (\<lambda>_. None)" by blast
  with renew_changes_no_record [of s 5 7] obtain s' where
    "nfs4_op_renew 5 s 7 = Some (NFS4ERR_STALE_CLIENTID, s')" "client_of s' = client_of s" by auto
  then show ?thesis by blast
qed

text \<open>Verifiers are compared as strings.  An opaque client verifier that starts with a zero byte matches
  every other such verifier: a client that rebooted with one is taken for the same
  instance, and its record is not replaced.\<close>

theorem zero_verifiers_match:
  assumes "arg_verifier arg = 0 # v" and "incoming_verifier r = 0 # w" and "confirmed r = CONFIRMED_CLIENT_ID"
  shows "client_name (sc_next ServerBootTime cred arg cid (Some r)) = client_name r
     \<and> confirmed (sc_next ServerBootTime cred arg cid (Some r)) \<noteq> REBOOTED_CLIENT_ID"
  using assms by (simp add: sc_next_def strncmp_eq_def cstr_def NFS4_VERIFIER_SIZE_def)

theorem zero_verifiers_match_witness:
  "confirmed (sc_next 1 (credential demo_client) (demo_arg\<lparr>arg_verifier := [0, 1]\<rparr>) 7
     (Some (demo_client\<lparr>incoming_verifier := [0, 2], confirmed := CONFIRMED_CLIENT_ID\<rparr>))) \<noteq> REBOOTED_CLIENT_ID"
  using zero_verifiers_match [of "demo_arg\<lparr>arg_verifier := [0, 1]\<rparr>" "[1]"
      "demo_client\<lparr>incoming_verifier := [0, 2], confirmed := CONFIRMED_CLIENT_ID\<rparr>" "[2]" 1 "credential demo_client" 7]
  by simp

end
