(* ===== verification/Open_Owner.thy ===== *)
theory Open_Owner
  imports Hash_Table Nfs4_Types
begin

text \<open>
  The open owners of NFSv4 (\<^verbatim>\<open>support/nfs_open_owner.c\<close>): a hash table from owner names to
  owner records, with the counter that numbers the owners.  A name is the client id and the
  \<open>owner_len\<close> bytes of \<open>owner_val\<close>; the records are a heap, and the table holds pointers into
  it, so \<open>nfs_open_owner_Update\<close> writes through the pointer.
\<close>

record owner_name =
  on_clientid :: u64
  on_val :: "u8 list"

record open_owner =
  oo_clientid :: u64
  oo_val :: "u8 list"
  oo_confirmed :: bool
  oo_seqid :: u32
  oo_counter :: u32
  related_owner :: "addr option"

record owners =
  omem :: mem
  ht_open_owner :: "(owner_name, addr) hash_table"
  oheap :: "addr \<Rightarrow> open_owner"
  open_owner_counter :: u32

subsection \<open>Keys\<close>

definition compare_open_owner :: "owner_name \<Rightarrow> owner_name \<Rightarrow> int" where
  "compare_open_owner pname1 pname2 =
     (if on_clientid pname1 \<noteq> on_clientid pname2 then 1
      else if length (on_val pname1) \<noteq> length (on_val pname2) then 1
      else if on_val pname1 = on_val pname2 then 0 else 1)"

definition owner_sum :: "u8 list \<Rightarrow> u32" where
  "owner_sum v = foldl (\<lambda>s c. s + ucast c) 0 v"

definition open_owner_rbt_hash_func :: "owner_name \<Rightarrow> u64" where
  "open_owner_rbt_hash_func n = on_clientid n + ucast (owner_sum (on_val n)) + of_nat (length (on_val n))"

definition open_owner_value_hash_func :: "u32 \<Rightarrow> owner_name \<Rightarrow> u64" where
  "open_owner_value_hash_func isz n =
     (on_clientid n + ucast (owner_sum (on_val n)) + of_nat (length (on_val n))) mod ucast isz"

definition owner_par :: "u32 \<Rightarrow> u32 \<Rightarrow> owner_name hash_parameter" where
  "owner_par isz nb = \<lparr>index_size = isz, alphabet_length = 10, nb_node_prealloc = nb,
     hash_func_key = open_owner_value_hash_func isz, hash_func_rbt = open_owner_rbt_hash_func,
     compare_key = compare_open_owner\<rparr>"

subsection \<open>Operations\<close>

definition nfs4_Init_open_owner :: "mem \<Rightarrow> bool \<Rightarrow> (nat \<Rightarrow> bool) \<Rightarrow> owner_name hash_parameter \<Rightarrow> int \<times> (owner_name, addr) hash_table option \<times> mem" where
  "nfs4_Init_open_owner m attr_ok lock_ok par =
     (case HashTable_Init m attr_ok lock_ok par of
        (None, m') \<Rightarrow> (-1, None, m')
      | (Some ht, m') \<Rightarrow> (0, Some ht, m'))"

definition nfs_open_owner_Set :: "owners \<Rightarrow> owner_name \<Rightarrow> addr \<Rightarrow> (bool \<times> owners) option" where
  "nfs_open_owner_Set s pname powner =
     (let c = open_owner_counter s + 1;
          s1 = s\<lparr>open_owner_counter := c, oheap := (oheap s)(powner := (oheap s powner)\<lparr>oo_counter := c\<rparr>)\<rparr>
      in do {
        (rc, m, t) \<leftarrow> hs_put (omem s, ht_open_owner s) pname powner HASHTABLE_SET_HOW_SET_NO_OVERWRITE;
        Some (rc = HASHTABLE_SUCCESS, s1\<lparr>omem := m, ht_open_owner := t\<rparr>) })"

definition nfs_open_owner_Get_Pointer :: "owners \<Rightarrow> owner_name \<Rightarrow> (addr option \<times> owners) option" where
  "nfs_open_owner_Get_Pointer s pname = do {
     (rc, p, m, t) \<leftarrow> hs_get (omem s, ht_open_owner s) pname;
     Some (if rc \<noteq> HASHTABLE_SUCCESS then None else p, s\<lparr>omem := m, ht_open_owner := t\<rparr>) }"

definition nfs_open_owner_Get :: "owners \<Rightarrow> owner_name \<Rightarrow> (open_owner option \<times> owners) option" where
  "nfs_open_owner_Get s pname = do {
     (rc, p, m, t) \<leftarrow> hs_get (omem s, ht_open_owner s) pname;
     Some (if rc \<noteq> HASHTABLE_SUCCESS then None else map_option (oheap s) p, s\<lparr>omem := m, ht_open_owner := t\<rparr>) }"

definition nfs_open_owner_Update :: "owners \<Rightarrow> owner_name \<Rightarrow> open_owner \<Rightarrow> (bool \<times> owners) option" where
  "nfs_open_owner_Update s pname powner = do {
     (rc, p, m, t) \<leftarrow> hs_get (omem s, ht_open_owner s) pname;
     let s1 = s\<lparr>omem := m, ht_open_owner := t\<rparr>
     in if rc \<noteq> HASHTABLE_SUCCESS then Some (False, s1)
        else do { a \<leftarrow> p; Some (True, s1\<lparr>oheap := (oheap s)(a := powner)\<rparr>) } }"

definition nfs_open_owner_Del :: "owners \<Rightarrow> owner_name \<Rightarrow> (bool \<times> owners) option" where
  "nfs_open_owner_Del s pname = do {
     (rc, _, m, t) \<leftarrow> hs_del (omem s, ht_open_owner s) pname;
     Some (rc = HASHTABLE_SUCCESS, s\<lparr>omem := m, ht_open_owner := t\<rparr>) }"

text \<open>
  \<open>nfs_convert_open_owner\<close> copies the bytes of the request into a buffer of \<open>MAXNAMLEN\<close>
  bytes without a check of their number: \<open>None\<close> is a copy past its end.
\<close>

definition nfs_convert_open_owner :: "u64 \<Rightarrow> u8 list \<Rightarrow> owner_name option" where
  "nfs_convert_open_owner cid val =
     (if length val > MAXNAMLEN then None else Some \<lparr>on_clientid = cid, on_val = val\<rparr>)"

subsection \<open>Correctness\<close>

lemma compare_open_owner_eq: "compare_open_owner a b = 0 \<longleftrightarrow> a = b"
  by (cases a; cases b) (auto simp: compare_open_owner_def)

lemma owner_par_ok:
  assumes "0 < isz"
  shows "params_ok (owner_par isz nb)" "key_eq (owner_par isz nb) a b \<longleftrightarrow> a = b"
proof -
  show eq: "key_eq (owner_par isz nb) a b \<longleftrightarrow> a = b" for a b
    by (simp add: key_eq_def owner_par_def compare_open_owner_eq)
  show "params_ok (owner_par isz nb)"
    unfolding params_ok_def eq
    using hash_index_less [OF assms] by (auto simp: owner_par_def hashval_def open_owner_value_hash_func_def identity_equivp)
qed

definition owners_inv :: "owners \<Rightarrow> bool" where
  "owners_inv s \<longleftrightarrow> ht_inv (omem s) (ht_open_owner s) \<and> (\<forall>a b. key_eq (parameter (ht_open_owner s)) a b \<longleftrightarrow> a = b)
     \<and> inj_on (ht_lookup (ht_open_owner s)) (dom (ht_lookup (ht_open_owner s)))"

text \<open>The owners by name, and the pointers in use.\<close>

definition owner_of :: "owners \<Rightarrow> owner_name \<Rightarrow> open_owner option" where
  "owner_of s n = map_option (oheap s) (ht_lookup (ht_open_owner s) n)"

definition owner_ptrs :: "owners \<Rightarrow> addr set" where
  "owner_ptrs s = ran (ht_lookup (ht_open_owner s))"

lemma owners_table:
  assumes "owners_inv s"
  shows "hs_inv (parameter (ht_open_owner s)) (omem s, ht_open_owner s)" "key_eq (parameter (ht_open_owner s)) = (=)"
  using assms by (auto simp: owners_inv_def hs_inv_def fun_eq_iff)

lemma owners_inv_I:
  assumes "owners_inv s" and "hs_inv (parameter (ht_open_owner s)) (m, t)"
    and "inj_on (ht_lookup t) (dom (ht_lookup t))"
  shows "owners_inv (s\<lparr>omem := m, ht_open_owner := t, oheap := h, open_owner_counter := c\<rparr>)"
  using assms by (auto simp: owners_inv_def hs_inv_def)

lemma owner_get:
  assumes inv: "owners_inv s"
  shows "\<exists>t. hs_get (omem s, ht_open_owner s) n = Some
       (if ht_lookup (ht_open_owner s) n = None then HASHTABLE_ERROR_NO_SUCH_KEY else HASHTABLE_SUCCESS,
        ht_lookup (ht_open_owner s) n, omem s, t)
     \<and> ht_lookup t = ht_lookup (ht_open_owner s)
     \<and> (\<forall>h c. owners_inv (s\<lparr>omem := omem s, ht_open_owner := t, oheap := h, open_owner_counter := c\<rparr>))"
proof -
  from hs.get_law [OF owners_table(1) [OF inv], of n] obtain m t where
    g: "hs_get (omem s, ht_open_owner s) n = Some
       (if ht_lookup (ht_open_owner s) n = None then HASHTABLE_ERROR_NO_SUCH_KEY else HASHTABLE_SUCCESS,
        ht_lookup (ht_open_owner s) n, m, t)"
    and t: "hs_inv (parameter (ht_open_owner s)) (m, t)" "ht_lookup t = ht_lookup (ht_open_owner s)" by auto
  have "m = omem s" using hs_same_mem(1) [OF g] by simp
  with g t owners_inv_I [OF inv, of "omem s" t] inv show ?thesis by (auto simp: owners_inv_def)
qed

lemma nfs_open_owner_Set_correct:
  assumes inv: "owners_inv s" and fresh: "p \<notin> owner_ptrs s"
  shows "\<exists>ok s'. nfs_open_owner_Set s n p = Some (ok, s') \<and> owners_inv s' \<and> open_owner_counter s' = open_owner_counter s + 1
     \<and> owner_of s' = (if ok then (owner_of s)(n \<mapsto> (oheap s p)\<lparr>oo_counter := open_owner_counter s + 1\<rparr>) else owner_of s)
     \<and> (ok \<longrightarrow> owner_of s n = None)"
proof -
  note T = owners_table [OF inv]
  let ?f = "ht_lookup (ht_open_owner s)"
  let ?h = "(oheap s)(p := (oheap s p)\<lparr>oo_counter := open_owner_counter s + 1\<rparr>)"
  from hs.put_law [OF T(1), of n p HASHTABLE_SET_HOW_SET_NO_OVERWRITE] obtain rc m t where
    put: "hs_put (omem s, ht_open_owner s) n p HASHTABLE_SET_HOW_SET_NO_OVERWRITE = Some (rc, m, t)"
    and t: "hs_inv (parameter (ht_open_owner s)) (m, t)"
    and out: "set_outcome (=) ?f n p HASHTABLE_SET_HOW_SET_NO_OVERWRITE rc (ht_lookup t)" unfolding T(2) by auto
  from out have upd: "ht_lookup t = (if rc = HASHTABLE_SUCCESS then ?f(n \<mapsto> p) else ?f)"
    and new: "rc = HASHTABLE_SUCCESS \<longrightarrow> ?f n = None"
    by (auto simp: set_outcome_def upd_map_def fun_eq_iff split: option.splits)
  have "inj_on (ht_lookup t) (dom (ht_lookup t))"
    using inv fresh inj_on_dom_put [of ?f p n] unfolding upd by (simp add: owners_inv_def owner_ptrs_def)
  from owners_inv_I [OF inv t this] have inv': "owners_inv (s\<lparr>omem := m, ht_open_owner := t, oheap := ?h, open_owner_counter := open_owner_counter s + 1\<rparr>)" .
  have h: "map_option ?h (?f k) = map_option (oheap s) (?f k)" for k
    using fresh by (cases "?f k") (auto simp: owner_ptrs_def ran_def)
  let ?s' = "s\<lparr>omem := m, ht_open_owner := t, oheap := ?h, open_owner_counter := open_owner_counter s + 1\<rparr>"
  have step: "nfs_open_owner_Set s n p = Some (rc = HASHTABLE_SUCCESS, ?s')"
    by (simp add: nfs_open_owner_Set_def put Let_def)
  have own: "owner_of ?s' = (if rc = HASHTABLE_SUCCESS
      then (owner_of s)(n \<mapsto> (oheap s p)\<lparr>oo_counter := open_owner_counter s + 1\<rparr>) else owner_of s)"
    by (rule ext) (simp add: owner_of_def upd h)
  show ?thesis by (intro exI conjI, rule step, rule inv', simp, rule own) (use new in \<open>simp add: owner_of_def\<close>)
qed

lemma nfs_open_owner_Update_correct:
  assumes inv: "owners_inv s"
  shows "\<exists>ok s'. nfs_open_owner_Update s n r = Some (ok, s') \<and> owners_inv s' \<and> (ok \<longleftrightarrow> owner_of s n \<noteq> None)
     \<and> owner_of s' = (if ok then (owner_of s)(n \<mapsto> r) else owner_of s)"
proof -
  let ?f = "ht_lookup (ht_open_owner s)"
  from owner_get [OF inv, of n] obtain t where g: "hs_get (omem s, ht_open_owner s) n = Some
       (if ?f n = None then HASHTABLE_ERROR_NO_SUCH_KEY else HASHTABLE_SUCCESS, ?f n, omem s, t)"
    "ht_lookup t = ?f" "\<And>h c. owners_inv (s\<lparr>omem := omem s, ht_open_owner := t, oheap := h, open_owner_counter := c\<rparr>)" by blast
  show ?thesis
  proof (cases "?f n")
    case None
    with g(1,2) g(3) [where h = "oheap s" and c = "open_owner_counter s"] show ?thesis
      by (auto simp: nfs_open_owner_Update_def owner_of_def fun_eq_iff)
  next
    case (Some a)
    have "map_option ((oheap s)(a := r)) (?f k) = (if k = n then Some r else map_option (oheap s) (?f k))" for k
      using inv Some by (cases "?f k") (auto simp: owners_inv_def inj_on_def dom_def)
    with Some g(1,2) g(3) [where h = "(oheap s)(a := r)" and c = "open_owner_counter s"] show ?thesis
      by (auto simp: nfs_open_owner_Update_def owner_of_def fun_eq_iff)
  qed
qed

lemma nfs_open_owner_Get_correct:
  assumes inv: "owners_inv s"
  shows "\<exists>s'. nfs_open_owner_Get s n = Some (owner_of s n, s') \<and> owners_inv s' \<and> owner_of s' = owner_of s"
proof -
  let ?f = "ht_lookup (ht_open_owner s)"
  from owner_get [OF inv, of n] obtain t where g: "hs_get (omem s, ht_open_owner s) n = Some
       (if ?f n = None then HASHTABLE_ERROR_NO_SUCH_KEY else HASHTABLE_SUCCESS, ?f n, omem s, t)"
    "ht_lookup t = ?f" "\<And>h c. owners_inv (s\<lparr>omem := omem s, ht_open_owner := t, oheap := h, open_owner_counter := c\<rparr>)" by blast
  then show ?thesis using g(3) [where h = "oheap s" and c = "open_owner_counter s"]
    by (auto simp: nfs_open_owner_Get_def owner_of_def fun_eq_iff)
qed

lemma nfs_open_owner_Del_correct:
  assumes inv: "owners_inv s"
  shows "\<exists>s'. nfs_open_owner_Del s n = Some (owner_of s n \<noteq> None, s') \<and> owners_inv s'
     \<and> owner_of s' = (owner_of s)(n := None)"
proof -
  note T = owners_table [OF inv]
  let ?f = "ht_lookup (ht_open_owner s)"
  from hs.del_law [OF T(1), of n] obtain kv m t where
    d: "hs_del (omem s, ht_open_owner s) n = Some
       (if ?f n = None then HASHTABLE_ERROR_NO_SUCH_KEY else HASHTABLE_SUCCESS, kv, m, t)"
    and t: "hs_inv (parameter (ht_open_owner s)) (m, t)" "ht_lookup t = ?f(n := None)"
    unfolding T(2) by (auto simp: upd_map_def fun_eq_iff)
  have "inj_on (ht_lookup t) (dom (ht_lookup t))"
    using inv inj_on_dom_del [of ?f n] unfolding t(2) by (simp add: owners_inv_def)
  from owners_inv_I [OF inv t(1) this, where h = "oheap s" and c = "open_owner_counter s"] d t(2) show ?thesis
    by (auto simp: nfs_open_owner_Del_def owner_of_def fun_eq_iff)
qed

end
