(* ===== verification/Error_Map.thy ===== *)
theory Error_Map
  imports Nfs4_Types
begin

text \<open>
  The status codes of the metadata cache and of the file system layer, and their conversion:
  \<open>cache_inode_error_convert\<close> (\<^verbatim>\<open>Cache_inode/cache_inode_misc.c\<close>), \<open>nfs4_Errno\<close>, \<open>nfs3_Errno\<close>,
  \<open>nfs2_Errno\<close> and \<open>nfs_RetryableError\<close> (\<^verbatim>\<open>NFS_Protocols/nfs_proto_tools.c\<close>).
  The codes are preprocessor constants with distinct values, here the constructors of a datatype.
\<close>

datatype cache_inode_status =
    CACHE_INODE_SUCCESS
  | CACHE_INODE_MALLOC_ERROR
  | CACHE_INODE_POOL_MUTEX_INIT_ERROR
  | CACHE_INODE_GET_NEW_LRU_ENTRY
  | CACHE_INODE_UNAPPROPRIATED_KEY
  | CACHE_INODE_INIT_ENTRY_FAILED
  | CACHE_INODE_FSAL_ERROR
  | CACHE_INODE_LRU_ERROR
  | CACHE_INODE_HASH_SET_ERROR
  | CACHE_INODE_NOT_A_DIRECTORY
  | CACHE_INODE_INCONSISTENT_ENTRY
  | CACHE_INODE_BAD_TYPE
  | CACHE_INODE_ENTRY_EXISTS
  | CACHE_INODE_DIR_NOT_EMPTY
  | CACHE_INODE_NOT_FOUND
  | CACHE_INODE_INVALID_ARGUMENT
  | CACHE_INODE_INSERT_ERROR
  | CACHE_INODE_HASH_TABLE_ERROR
  | CACHE_INODE_FSAL_EACCESS
  | CACHE_INODE_IS_A_DIRECTORY
  | CACHE_INODE_FSAL_EPERM
  | CACHE_INODE_NO_SPACE_LEFT
  | CACHE_INODE_CACHE_CONTENT_ERROR
  | CACHE_INODE_CACHE_CONTENT_EXISTS
  | CACHE_INODE_CACHE_CONTENT_EMPTY
  | CACHE_INODE_READ_ONLY_FS
  | CACHE_INODE_IO_ERROR
  | CACHE_INODE_FSAL_ESTALE
  | CACHE_INODE_FSAL_ERR_SEC
  | CACHE_INODE_STATE_CONFLICT
  | CACHE_INODE_QUOTA_EXCEEDED
  | CACHE_INODE_DEAD_ENTRY
  | CACHE_INODE_ASYNC_POST_ERROR
  | CACHE_INODE_NOT_SUPPORTED
  | CACHE_INODE_STATE_ERROR
  | CACHE_INODE_FSAL_DELAY

datatype fsal_error =
    ERR_FSAL_NO_ERROR
  | ERR_FSAL_PERM
  | ERR_FSAL_NOENT
  | ERR_FSAL_IO
  | ERR_FSAL_NXIO
  | ERR_FSAL_NOMEM
  | ERR_FSAL_ACCESS
  | ERR_FSAL_FAULT
  | ERR_FSAL_EXIST
  | ERR_FSAL_XDEV
  | ERR_FSAL_NOTDIR
  | ERR_FSAL_ISDIR
  | ERR_FSAL_INVAL
  | ERR_FSAL_FBIG
  | ERR_FSAL_NOSPC
  | ERR_FSAL_ROFS
  | ERR_FSAL_MLINK
  | ERR_FSAL_DQUOT
  | ERR_FSAL_NAMETOOLONG
  | ERR_FSAL_NOTEMPTY
  | ERR_FSAL_STALE
  | ERR_FSAL_BADHANDLE
  | ERR_FSAL_BADCOOKIE
  | ERR_FSAL_NOTSUPP
  | ERR_FSAL_TOOSMALL
  | ERR_FSAL_SERVERFAULT
  | ERR_FSAL_BADTYPE
  | ERR_FSAL_DELAY
  | ERR_FSAL_FHEXPIRED
  | ERR_FSAL_SYMLINK
  | ERR_FSAL_ATTRNOTSUPP
  | ERR_FSAL_NOT_INIT
  | ERR_FSAL_ALREADY_INIT
  | ERR_FSAL_BAD_INIT
  | ERR_FSAL_SEC
  | ERR_FSAL_NO_QUOTA
  | ERR_FSAL_NOT_OPENED

datatype nfsstat3 =
    NFS3_OK
  | NFS3ERR_PERM
  | NFS3ERR_NOENT
  | NFS3ERR_IO
  | NFS3ERR_NXIO
  | NFS3ERR_ACCES
  | NFS3ERR_EXIST
  | NFS3ERR_XDEV
  | NFS3ERR_NODEV
  | NFS3ERR_NOTDIR
  | NFS3ERR_ISDIR
  | NFS3ERR_INVAL
  | NFS3ERR_FBIG
  | NFS3ERR_NOSPC
  | NFS3ERR_ROFS
  | NFS3ERR_MLINK
  | NFS3ERR_NAMETOOLONG
  | NFS3ERR_NOTEMPTY
  | NFS3ERR_DQUOT
  | NFS3ERR_STALE
  | NFS3ERR_REMOTE
  | NFS3ERR_BADHANDLE
  | NFS3ERR_NOT_SYNC
  | NFS3ERR_BAD_COOKIE
  | NFS3ERR_NOTSUPP
  | NFS3ERR_TOOSMALL
  | NFS3ERR_SERVERFAULT
  | NFS3ERR_BADTYPE
  | NFS3ERR_JUKEBOX

datatype nfsstat2 =
    NFS_OK
  | NFSERR_PERM
  | NFSERR_NOENT
  | NFSERR_IO
  | NFSERR_NXIO
  | NFSERR_ACCES
  | NFSERR_EXIST
  | NFSERR_NODEV
  | NFSERR_NOTDIR
  | NFSERR_ISDIR
  | NFSERR_FBIG
  | NFSERR_NOSPC
  | NFSERR_ROFS
  | NFSERR_NAMETOOLONG
  | NFSERR_NOTEMPTY
  | NFSERR_DQUOT
  | NFSERR_STALE
  | NFSERR_WFLUSH

subsection \<open>Conversions\<close>

definition cache_inode_error_convert :: "fsal_error \<Rightarrow> cache_inode_status" where
  "cache_inode_error_convert major =
     (case major of
        ERR_FSAL_NO_ERROR \<Rightarrow> CACHE_INODE_SUCCESS
      | ERR_FSAL_NOENT \<Rightarrow> CACHE_INODE_NOT_FOUND
      | ERR_FSAL_EXIST \<Rightarrow> CACHE_INODE_ENTRY_EXISTS
      | ERR_FSAL_ACCESS \<Rightarrow> CACHE_INODE_FSAL_EACCESS
      | ERR_FSAL_PERM \<Rightarrow> CACHE_INODE_FSAL_EPERM
      | ERR_FSAL_NOSPC \<Rightarrow> CACHE_INODE_NO_SPACE_LEFT
      | ERR_FSAL_NOTEMPTY \<Rightarrow> CACHE_INODE_DIR_NOT_EMPTY
      | ERR_FSAL_ROFS \<Rightarrow> CACHE_INODE_READ_ONLY_FS
      | ERR_FSAL_NOTDIR \<Rightarrow> CACHE_INODE_NOT_A_DIRECTORY
      | ERR_FSAL_IO \<Rightarrow> CACHE_INODE_IO_ERROR
      | ERR_FSAL_STALE \<Rightarrow> CACHE_INODE_FSAL_ESTALE
      | ERR_FSAL_INVAL \<Rightarrow> CACHE_INODE_INVALID_ARGUMENT
      | ERR_FSAL_DQUOT \<Rightarrow> CACHE_INODE_QUOTA_EXCEEDED
      | ERR_FSAL_SEC \<Rightarrow> CACHE_INODE_FSAL_ERR_SEC
      | ERR_FSAL_NOTSUPP \<Rightarrow> CACHE_INODE_NOT_SUPPORTED
      | ERR_FSAL_DELAY \<Rightarrow> CACHE_INODE_FSAL_DELAY
      | _ \<Rightarrow> CACHE_INODE_FSAL_ERROR)"

definition nfs4_Errno :: "cache_inode_status \<Rightarrow> nfsstat4" where
  "nfs4_Errno error =
     (case error of
        CACHE_INODE_SUCCESS \<Rightarrow> NFS4_OK
      | CACHE_INODE_MALLOC_ERROR \<Rightarrow> NFS4ERR_SERVERFAULT
      | CACHE_INODE_POOL_MUTEX_INIT_ERROR \<Rightarrow> NFS4ERR_SERVERFAULT
      | CACHE_INODE_GET_NEW_LRU_ENTRY \<Rightarrow> NFS4ERR_SERVERFAULT
      | CACHE_INODE_INIT_ENTRY_FAILED \<Rightarrow> NFS4ERR_SERVERFAULT
      | CACHE_INODE_CACHE_CONTENT_EXISTS \<Rightarrow> NFS4ERR_SERVERFAULT
      | CACHE_INODE_CACHE_CONTENT_EMPTY \<Rightarrow> NFS4ERR_SERVERFAULT
      | CACHE_INODE_UNAPPROPRIATED_KEY \<Rightarrow> NFS4ERR_BADHANDLE
      | CACHE_INODE_BAD_TYPE \<Rightarrow> NFS4ERR_INVAL
      | CACHE_INODE_FSAL_ERROR \<Rightarrow> NFS4ERR_PERM
      | CACHE_INODE_INVALID_ARGUMENT \<Rightarrow> NFS4ERR_PERM
      | CACHE_INODE_NOT_A_DIRECTORY \<Rightarrow> NFS4ERR_NOTDIR
      | CACHE_INODE_ENTRY_EXISTS \<Rightarrow> NFS4ERR_EXIST
      | CACHE_INODE_DIR_NOT_EMPTY \<Rightarrow> NFS4ERR_NOTEMPTY
      | CACHE_INODE_NOT_FOUND \<Rightarrow> NFS4ERR_NOENT
      | CACHE_INODE_INSERT_ERROR \<Rightarrow> NFS4ERR_IO
      | CACHE_INODE_LRU_ERROR \<Rightarrow> NFS4ERR_IO
      | CACHE_INODE_HASH_SET_ERROR \<Rightarrow> NFS4ERR_IO
      | CACHE_INODE_FSAL_EACCESS \<Rightarrow> NFS4ERR_ACCESS
      | CACHE_INODE_FSAL_EPERM \<Rightarrow> NFS4ERR_PERM
      | CACHE_INODE_NO_SPACE_LEFT \<Rightarrow> NFS4ERR_NOSPC
      | CACHE_INODE_IS_A_DIRECTORY \<Rightarrow> NFS4ERR_ISDIR
      | CACHE_INODE_READ_ONLY_FS \<Rightarrow> NFS4ERR_ROFS
      | CACHE_INODE_IO_ERROR \<Rightarrow> NFS4ERR_IO
      | CACHE_INODE_DEAD_ENTRY \<Rightarrow> NFS4ERR_STALE
      | CACHE_INODE_FSAL_ESTALE \<Rightarrow> NFS4ERR_STALE
      | CACHE_INODE_STATE_CONFLICT \<Rightarrow> NFS4ERR_PERM
      | CACHE_INODE_QUOTA_EXCEEDED \<Rightarrow> NFS4ERR_DQUOT
      | CACHE_INODE_NOT_SUPPORTED \<Rightarrow> NFS4ERR_NOTSUPP
      | CACHE_INODE_FSAL_DELAY \<Rightarrow> NFS4ERR_DELAY
      | _ \<Rightarrow> NFS4ERR_INVAL)"

definition nfs3_Errno :: "cache_inode_status \<Rightarrow> nfsstat3" where
  "nfs3_Errno error =
     (case error of
        CACHE_INODE_SUCCESS \<Rightarrow> NFS3_OK
      | CACHE_INODE_MALLOC_ERROR \<Rightarrow> NFS3ERR_IO
      | CACHE_INODE_POOL_MUTEX_INIT_ERROR \<Rightarrow> NFS3ERR_IO
      | CACHE_INODE_GET_NEW_LRU_ENTRY \<Rightarrow> NFS3ERR_IO
      | CACHE_INODE_UNAPPROPRIATED_KEY \<Rightarrow> NFS3ERR_IO
      | CACHE_INODE_INIT_ENTRY_FAILED \<Rightarrow> NFS3ERR_IO
      | CACHE_INODE_CACHE_CONTENT_EXISTS \<Rightarrow> NFS3ERR_IO
      | CACHE_INODE_CACHE_CONTENT_EMPTY \<Rightarrow> NFS3ERR_IO
      | CACHE_INODE_INSERT_ERROR \<Rightarrow> NFS3ERR_IO
      | CACHE_INODE_LRU_ERROR \<Rightarrow> NFS3ERR_IO
      | CACHE_INODE_HASH_SET_ERROR \<Rightarrow> NFS3ERR_IO
      | CACHE_INODE_INVALID_ARGUMENT \<Rightarrow> NFS3ERR_INVAL
      | CACHE_INODE_FSAL_ERROR \<Rightarrow> NFS3ERR_IO
      | CACHE_INODE_CACHE_CONTENT_ERROR \<Rightarrow> NFS3ERR_IO
      | CACHE_INODE_NOT_A_DIRECTORY \<Rightarrow> NFS3ERR_NOTDIR
      | CACHE_INODE_ENTRY_EXISTS \<Rightarrow> NFS3ERR_EXIST
      | CACHE_INODE_DIR_NOT_EMPTY \<Rightarrow> NFS3ERR_NOTEMPTY
      | CACHE_INODE_NOT_FOUND \<Rightarrow> NFS3ERR_NOENT
      | CACHE_INODE_FSAL_EACCESS \<Rightarrow> NFS3ERR_ACCES
      | CACHE_INODE_FSAL_EPERM \<Rightarrow> NFS3ERR_PERM
      | CACHE_INODE_FSAL_ERR_SEC \<Rightarrow> NFS3ERR_PERM
      | CACHE_INODE_NO_SPACE_LEFT \<Rightarrow> NFS3ERR_NOSPC
      | CACHE_INODE_IS_A_DIRECTORY \<Rightarrow> NFS3ERR_ISDIR
      | CACHE_INODE_READ_ONLY_FS \<Rightarrow> NFS3ERR_ROFS
      | CACHE_INODE_DEAD_ENTRY \<Rightarrow> NFS3ERR_STALE
      | CACHE_INODE_FSAL_ESTALE \<Rightarrow> NFS3ERR_STALE
      | CACHE_INODE_QUOTA_EXCEEDED \<Rightarrow> NFS3ERR_DQUOT
      | CACHE_INODE_BAD_TYPE \<Rightarrow> NFS3ERR_BADTYPE
      | CACHE_INODE_NOT_SUPPORTED \<Rightarrow> NFS3ERR_NOTSUPP
      | CACHE_INODE_FSAL_DELAY \<Rightarrow> NFS3ERR_JUKEBOX
      | CACHE_INODE_IO_ERROR \<Rightarrow> NFS3ERR_IO
      | _ \<Rightarrow> NFS3ERR_INVAL)"

definition nfs2_Errno :: "cache_inode_status \<Rightarrow> nfsstat2" where
  "nfs2_Errno error =
     (case error of
        CACHE_INODE_SUCCESS \<Rightarrow> NFS_OK
      | CACHE_INODE_MALLOC_ERROR \<Rightarrow> NFSERR_IO
      | CACHE_INODE_POOL_MUTEX_INIT_ERROR \<Rightarrow> NFSERR_IO
      | CACHE_INODE_GET_NEW_LRU_ENTRY \<Rightarrow> NFSERR_IO
      | CACHE_INODE_UNAPPROPRIATED_KEY \<Rightarrow> NFSERR_IO
      | CACHE_INODE_INIT_ENTRY_FAILED \<Rightarrow> NFSERR_IO
      | CACHE_INODE_BAD_TYPE \<Rightarrow> NFSERR_IO
      | CACHE_INODE_CACHE_CONTENT_EXISTS \<Rightarrow> NFSERR_IO
      | CACHE_INODE_CACHE_CONTENT_EMPTY \<Rightarrow> NFSERR_IO
      | CACHE_INODE_INSERT_ERROR \<Rightarrow> NFSERR_IO
      | CACHE_INODE_LRU_ERROR \<Rightarrow> NFSERR_IO
      | CACHE_INODE_HASH_SET_ERROR \<Rightarrow> NFSERR_IO
      | CACHE_INODE_INVALID_ARGUMENT \<Rightarrow> NFSERR_IO
      | CACHE_INODE_NOT_A_DIRECTORY \<Rightarrow> NFSERR_NOTDIR
      | CACHE_INODE_ENTRY_EXISTS \<Rightarrow> NFSERR_EXIST
      | CACHE_INODE_FSAL_ERROR \<Rightarrow> NFSERR_IO
      | CACHE_INODE_DIR_NOT_EMPTY \<Rightarrow> NFSERR_NOTEMPTY
      | CACHE_INODE_NOT_FOUND \<Rightarrow> NFSERR_NOENT
      | CACHE_INODE_FSAL_EACCESS \<Rightarrow> NFSERR_ACCES
      | CACHE_INODE_NO_SPACE_LEFT \<Rightarrow> NFSERR_NOSPC
      | CACHE_INODE_FSAL_EPERM \<Rightarrow> NFSERR_PERM
      | CACHE_INODE_IS_A_DIRECTORY \<Rightarrow> NFSERR_ISDIR
      | CACHE_INODE_READ_ONLY_FS \<Rightarrow> NFSERR_ROFS
      | CACHE_INODE_DEAD_ENTRY \<Rightarrow> NFSERR_STALE
      | CACHE_INODE_FSAL_ESTALE \<Rightarrow> NFSERR_STALE
      | CACHE_INODE_QUOTA_EXCEEDED \<Rightarrow> NFSERR_DQUOT
      | CACHE_INODE_IO_ERROR \<Rightarrow> NFSERR_IO
      | _ \<Rightarrow> NFSERR_IO)"

text \<open>The two options of the configuration decide about I/O errors and invalid arguments.\<close>

definition nfs_RetryableError :: "bool \<Rightarrow> bool \<Rightarrow> cache_inode_status \<Rightarrow> bool" where
  "nfs_RetryableError drop_io_errors drop_inval_errors cache_status =
     (case cache_status of
        CACHE_INODE_IO_ERROR \<Rightarrow> drop_io_errors
      | CACHE_INODE_INVALID_ARGUMENT \<Rightarrow> drop_inval_errors
      | CACHE_INODE_SUCCESS \<Rightarrow> False
      | CACHE_INODE_MALLOC_ERROR \<Rightarrow> True
      | CACHE_INODE_POOL_MUTEX_INIT_ERROR \<Rightarrow> True
      | CACHE_INODE_GET_NEW_LRU_ENTRY \<Rightarrow> True
      | CACHE_INODE_UNAPPROPRIATED_KEY \<Rightarrow> True
      | CACHE_INODE_INIT_ENTRY_FAILED \<Rightarrow> True
      | CACHE_INODE_FSAL_ERROR \<Rightarrow> True
      | CACHE_INODE_LRU_ERROR \<Rightarrow> True
      | CACHE_INODE_HASH_SET_ERROR \<Rightarrow> True
      | CACHE_INODE_INCONSISTENT_ENTRY \<Rightarrow> True
      | CACHE_INODE_HASH_TABLE_ERROR \<Rightarrow> True
      | CACHE_INODE_INSERT_ERROR \<Rightarrow> True
      | CACHE_INODE_FSAL_DELAY \<Rightarrow> True
      | CACHE_INODE_NOT_A_DIRECTORY \<Rightarrow> False
      | CACHE_INODE_BAD_TYPE \<Rightarrow> False
      | CACHE_INODE_ENTRY_EXISTS \<Rightarrow> False
      | CACHE_INODE_DIR_NOT_EMPTY \<Rightarrow> False
      | CACHE_INODE_NOT_FOUND \<Rightarrow> False
      | CACHE_INODE_FSAL_EACCESS \<Rightarrow> False
      | CACHE_INODE_IS_A_DIRECTORY \<Rightarrow> False
      | CACHE_INODE_FSAL_EPERM \<Rightarrow> False
      | CACHE_INODE_NO_SPACE_LEFT \<Rightarrow> False
      | CACHE_INODE_CACHE_CONTENT_ERROR \<Rightarrow> False
      | CACHE_INODE_CACHE_CONTENT_EXISTS \<Rightarrow> False
      | CACHE_INODE_CACHE_CONTENT_EMPTY \<Rightarrow> False
      | CACHE_INODE_READ_ONLY_FS \<Rightarrow> False
      | CACHE_INODE_FSAL_ESTALE \<Rightarrow> False
      | CACHE_INODE_FSAL_ERR_SEC \<Rightarrow> False
      | CACHE_INODE_QUOTA_EXCEEDED \<Rightarrow> False
      | CACHE_INODE_NOT_SUPPORTED \<Rightarrow> False
      | _ \<Rightarrow> False)"

text \<open>What a client of each version of the protocol is told about a failure in the file system.\<close>

definition answer4 :: "fsal_error \<Rightarrow> nfsstat4" where
  "answer4 major = nfs4_Errno (cache_inode_error_convert major)"

definition answer3 :: "fsal_error \<Rightarrow> nfsstat3" where
  "answer3 major = nfs3_Errno (cache_inode_error_convert major)"

definition answer2 :: "fsal_error \<Rightarrow> nfsstat2" where
  "answer2 major = nfs2_Errno (cache_inode_error_convert major)"

text \<open>The version 3 code that a version 2 code stands for: the two protocols share these numbers.\<close>

fun as_nfsstat3 :: "nfsstat2 \<Rightarrow> nfsstat3 option" where
  "as_nfsstat3 NFS_OK = Some NFS3_OK"
| "as_nfsstat3 NFSERR_PERM = Some NFS3ERR_PERM"
| "as_nfsstat3 NFSERR_NOENT = Some NFS3ERR_NOENT"
| "as_nfsstat3 NFSERR_IO = Some NFS3ERR_IO"
| "as_nfsstat3 NFSERR_NXIO = Some NFS3ERR_NXIO"
| "as_nfsstat3 NFSERR_ACCES = Some NFS3ERR_ACCES"
| "as_nfsstat3 NFSERR_EXIST = Some NFS3ERR_EXIST"
| "as_nfsstat3 NFSERR_NODEV = Some NFS3ERR_NODEV"
| "as_nfsstat3 NFSERR_NOTDIR = Some NFS3ERR_NOTDIR"
| "as_nfsstat3 NFSERR_ISDIR = Some NFS3ERR_ISDIR"
| "as_nfsstat3 NFSERR_FBIG = Some NFS3ERR_FBIG"
| "as_nfsstat3 NFSERR_NOSPC = Some NFS3ERR_NOSPC"
| "as_nfsstat3 NFSERR_ROFS = Some NFS3ERR_ROFS"
| "as_nfsstat3 NFSERR_NAMETOOLONG = Some NFS3ERR_NAMETOOLONG"
| "as_nfsstat3 NFSERR_NOTEMPTY = Some NFS3ERR_NOTEMPTY"
| "as_nfsstat3 NFSERR_DQUOT = Some NFS3ERR_DQUOT"
| "as_nfsstat3 NFSERR_STALE = Some NFS3ERR_STALE"
| "as_nfsstat3 NFSERR_WFLUSH = None"

lemmas conversions = answer4_def answer3_def answer2_def cache_inode_error_convert_def
  nfs4_Errno_def nfs3_Errno_def nfs2_Errno_def

lemma only_success_is_ok:
  "nfs4_Errno e = NFS4_OK \<longleftrightarrow> e = CACHE_INODE_SUCCESS"
  "nfs3_Errno e = NFS3_OK \<longleftrightarrow> e = CACHE_INODE_SUCCESS"
  "nfs2_Errno e = NFS_OK \<longleftrightarrow> e = CACHE_INODE_SUCCESS"
  by (cases e; simp add: nfs4_Errno_def nfs3_Errno_def nfs2_Errno_def)+

lemma convert_success: "cache_inode_error_convert f = CACHE_INODE_SUCCESS \<longleftrightarrow> f = ERR_FSAL_NO_ERROR"
  by (cases f; simp add: cache_inode_error_convert_def)

text \<open>C27: Failures are reported as failures.  A file system error is converted to an OK status of NFSv4, NFSv3 or
  NFSv2 only if it is ERR\_FSAL\_NO\_ERROR, a success is never retried, and what the versions
  2 and 3 answer is the same code, except for the four errors for which version 2 has no
  code of its own and answers NFSERR\_IO.\<close>

theorem failures_are_reported:
  "(answer4 f = NFS4_OK \<longleftrightarrow> f = ERR_FSAL_NO_ERROR)
   \<and> (answer3 f = NFS3_OK \<longleftrightarrow> f = ERR_FSAL_NO_ERROR)
   \<and> (answer2 f = NFS_OK \<longleftrightarrow> f = ERR_FSAL_NO_ERROR)
   \<and> \<not> nfs_RetryableError drop_io drop_inval CACHE_INODE_SUCCESS
   \<and> (if f \<in> {ERR_FSAL_SEC, ERR_FSAL_INVAL, ERR_FSAL_NOTSUPP, ERR_FSAL_DELAY}
      then answer2 f = NFSERR_IO \<and> answer3 f \<noteq> NFS3ERR_IO
      else as_nfsstat3 (answer2 f) = Some (answer3 f))"
proof -
  have "if f \<in> {ERR_FSAL_SEC, ERR_FSAL_INVAL, ERR_FSAL_NOTSUPP, ERR_FSAL_DELAY}
      then answer2 f = NFSERR_IO \<and> answer3 f \<noteq> NFS3ERR_IO
      else as_nfsstat3 (answer2 f) = Some (answer3 f)"
    by (cases f; simp add: conversions)
  then show ?thesis
    by (simp add: answer4_def answer3_def answer2_def only_success_is_ok convert_success nfs_RetryableError_def)
qed

end
