(* ===== verification/Proto_Attr.thy ===== *)
theory Proto_Attr
  imports Nfs4_Types
begin

text \<open>
  NFSv4 attribute masks and attribute buffers (\<^verbatim>\<open>NFS_Protocols/nfs_proto_tools.c\<close>), in the
  build without NFSv4.1: the conversions between a bitmap and a list of attribute numbers, the checks of access
  and support against the table \<open>fattr4tab\<close> of \<^verbatim>\<open>include/nfs_proto_functions.h\<close>, and the comparison
  of two attribute buffers.  A write past the end of the local array \<open>attrmasklist\<close>, of the
  two words of a bitmap, or a read past the end of an attribute buffer is \<open>None\<close>.
\<close>

definition FATTR4_RDATTR_ERROR :: u32 where "FATTR4_RDATTR_ERROR = 11"
definition FATTR4_MOUNTED_ON_FILEID :: nat where "FATTR4_MOUNTED_ON_FILEID = 55"
definition FATTR4_ATTR_READ :: u32 where "FATTR4_ATTR_READ = 0x01"
definition FATTR4_ATTR_WRITE :: u32 where "FATTR4_ATTR_WRITE = 0x10"

text \<open>
  The table: for each attribute number whether it is supported, the size of its type (for
  64-bit pointers) and its access.
\<close>

definition fattr4tab :: "(bool \<times> nat \<times> u32) list" where
  "fattr4tab = [
    (True, 16, 0x01),
    (True, 4, 0x01),
    (True, 4, 0x01),
    (True, 8, 0x01),
    (True, 8, 0x11),
    (True, 4, 0x01),
    (True, 4, 0x01),
    (True, 4, 0x01),
    (True, 16, 0x01),
    (True, 4, 0x01),
    (True, 4, 0x01),
    (True, 4, 0x01),
    (True, 16, 0x11),
    (True, 4, 0x01),
    (True, 4, 0x11),
    (True, 4, 0x01),
    (True, 4, 0x01),
    (True, 4, 0x01),
    (True, 4, 0x01),
    (True, 16, 0x01),
    (True, 8, 0x01),
    (True, 8, 0x01),
    (True, 8, 0x01),
    (True, 8, 0x01),
    (True, 32, 0x01),
    (True, 4, 0x11),
    (True, 4, 0x01),
    (True, 8, 0x01),
    (True, 4, 0x01),
    (True, 4, 0x01),
    (True, 8, 0x01),
    (True, 8, 0x01),
    (True, 16, 0x11),
    (True, 4, 0x11),
    (True, 4, 0x01),
    (True, 4, 0x01),
    (True, 16, 0x11),
    (True, 16, 0x11),
    (False, 8, 0x01),
    (False, 8, 0x01),
    (False, 8, 0x01),
    (True, 8, 0x01),
    (True, 8, 0x01),
    (True, 8, 0x01),
    (True, 8, 0x01),
    (True, 8, 0x01),
    (True, 4, 0x11),
    (True, 12, 0x01),
    (True, 24, 0x10),
    (False, 12, 0x11),
    (False, 12, 0x11),
    (True, 12, 0x01),
    (True, 12, 0x01),
    (True, 12, 0x01),
    (True, 24, 0x10),
    (True, 8, 0x01)]"

definition attr_supported :: "u32 \<Rightarrow> bool" where
  "attr_supported a = fst (fattr4tab ! unat a)"

definition attr_size :: "u32 \<Rightarrow> nat" where
  "attr_size a = fst (snd (fattr4tab ! unat a))"

definition attr_access :: "u32 \<Rightarrow> u32" where
  "attr_access a = snd (snd (fattr4tab ! unat a))"

subsection \<open>Bitmaps\<close>

definition bitmap_bit :: "nat \<Rightarrow> nat \<Rightarrow> u32 \<Rightarrow> u32 list \<Rightarrow> nat \<Rightarrow> u32 list option" where
  "bitmap_bit cap offset w pval i =
     (let val = push_bit i 1
      in if w AND val \<noteq> 0
         then (if length pval < cap then Some (pval @ [of_nat i + 32 * of_nat offset]) else None)
         else Some pval)"

definition nfs4_bitmap4_to_list :: "nat \<Rightarrow> u32 list \<Rightarrow> u32 list option" where
  "nfs4_bitmap4_to_list cap b =
     ofold (\<lambda>pval offset. ofold (bitmap_bit cap offset (b ! offset)) pval [0 ..< 32]) [] [0 ..< length b]"

definition bitmap_set :: "nat \<times> u32 list \<Rightarrow> u32 \<Rightarrow> (nat \<times> u32 list) option" where
  "bitmap_set s x =
     (case s of (len, val) \<Rightarrow>
        let intpos = unat (x div 32); bitpos = unat (x mod 32)
        in if intpos \<ge> 2 then None
           else Some (if intpos \<noteq> 0 then 2 else len, val[intpos := val ! intpos OR push_bit bitpos 1]))"

definition nfs4_list_to_bitmap4 :: "u32 list \<Rightarrow> u32 list option" where
  "nfs4_list_to_bitmap4 pval = do { (len, val) \<leftarrow> ofold bitmap_set (1, [0, 0]) pval; Some (take len val) }"

subsection \<open>Checks against the table\<close>

fun access_loop :: "u32 \<Rightarrow> u32 list \<Rightarrow> bool" where
  "access_loop access [] = True"
| "access_loop access (a # as) =
     (if unat a > FATTR4_MOUNTED_ON_FILEID then access_loop access as
      else if attr_access a AND access \<noteq> access then False
      else access_loop access as)"

definition nfs4_Fattr_Check_Access_Bitmap :: "u32 list option \<Rightarrow> u32 \<Rightarrow> bool option" where
  "nfs4_Fattr_Check_Access_Bitmap pbitmap access =
     (case pbitmap of
        None \<Rightarrow> Some False
      | Some b \<Rightarrow>
          if access \<noteq> FATTR4_ATTR_READ \<and> access \<noteq> FATTR4_ATTR_WRITE then Some False
          else do { l \<leftarrow> nfs4_bitmap4_to_list FATTR4_MOUNTED_ON_FILEID b; Some (access_loop access l) })"

definition nfs4_Fattr_Check_Access :: "(u32 list \<times> u8 list) option \<Rightarrow> u32 \<Rightarrow> bool option" where
  "nfs4_Fattr_Check_Access fattr access =
     (case fattr of
        None \<Rightarrow> Some False
      | Some (b, _) \<Rightarrow>
          if access \<noteq> FATTR4_ATTR_READ \<and> access \<noteq> FATTR4_ATTR_WRITE then Some False
          else do { l \<leftarrow> nfs4_bitmap4_to_list FATTR4_MOUNTED_ON_FILEID b; Some (access_loop access l) })"

fun supported_loop :: "u32 list \<Rightarrow> bool" where
  "supported_loop [] = True"
| "supported_loop (a # as) =
     (if unat a > FATTR4_MOUNTED_ON_FILEID then supported_loop as
      else if \<not> attr_supported a then False
      else supported_loop as)"

definition nfs4_Fattr_Supported_Bitmap :: "u32 list option \<Rightarrow> bool option" where
  "nfs4_Fattr_Supported_Bitmap pbitmap =
     (case pbitmap of
        None \<Rightarrow> Some False
      | Some b \<Rightarrow> map_option supported_loop (nfs4_bitmap4_to_list FATTR4_MOUNTED_ON_FILEID b))"

definition nfs4_Fattr_Supported :: "(u32 list \<times> u8 list) option \<Rightarrow> bool option" where
  "nfs4_Fattr_Supported fattr =
     (case fattr of
        None \<Rightarrow> Some False
      | Some (b, _) \<Rightarrow> map_option supported_loop (nfs4_bitmap4_to_list FATTR4_MOUNTED_ON_FILEID b))"

subsection \<open>Comparing attribute buffers\<close>

fun memcmp :: "u8 list \<Rightarrow> u8 list \<Rightarrow> int" where
  "memcmp (x # xs) (y # ys) = (if x = y then memcmp xs ys else int (unat x) - int (unat y))"
| "memcmp _ _ = 0"

definition memcmp_at :: "u8 list \<Rightarrow> u8 list \<Rightarrow> nat \<Rightarrow> nat \<Rightarrow> u32 option" where
  "memcmp_at b1 b2 off n =
     (if off + n > length b1 \<or> off + n > length b2 then None
      else Some (of_int (memcmp (take n (drop off b1)) (take n (drop off b2)))))"

text \<open>\<open>memcpy\<close> of an \<open>u_int\<close> at an offset, followed by \<open>ntohl\<close>: the length in network order.\<close>

definition net_u32 :: "u8 list \<Rightarrow> nat \<Rightarrow> nat option" where
  "net_u32 b off =
     (if off + 4 > length b then None
      else Some (foldl (\<lambda>n c. 256 * n + unat c) 0 (take 4 (drop off b))))"

fun words_loop :: "u8 list \<Rightarrow> u8 list \<Rightarrow> nat \<Rightarrow> nat \<Rightarrow> u32 \<Rightarrow> (nat \<times> u32) option" where
  "words_loop b1 b2 0 off cmp = Some (off, cmp)"
| "words_loop b1 b2 (Suc k) off cmp = do {
     d \<leftarrow> memcmp_at b1 b2 off 4;
     words_loop b1 b2 k (off + 4) (cmp + d) }"

fun cmp_loop :: "u8 list \<Rightarrow> u8 list \<Rightarrow> u32 list \<Rightarrow> nat \<Rightarrow> u32 \<Rightarrow> int option" where
  "cmp_loop b1 b2 [] off cmp = Some (if cmp = 0 then 1 else 0)"
| "cmp_loop b1 b2 (a # as) off cmp =
     (if a = 0 then do {
        len \<leftarrow> net_u32 b1 off;
        d \<leftarrow> memcmp_at b1 b2 off 4;
        (off', cmp') \<leftarrow> words_loop b1 b2 len (off + 4) (cmp + d);
        cmp_loop b1 b2 as off' cmp' }
      else if a = 19 \<or> a = 36 \<or> a = 37 then do {
        len \<leftarrow> net_u32 b1 off;
        d \<leftarrow> memcmp_at b1 b2 off 4;
        d' \<leftarrow> memcmp_at b1 b2 (off + 4) len;
        cmp_loop b1 b2 as (off + 4) (cmp + d + d') }
      else if unat a \<le> FATTR4_MOUNTED_ON_FILEID then do {
        d \<leftarrow> memcmp_at b1 b2 off (attr_size a);
        cmp_loop b1 b2 as off (cmp + d) }
      else Some 0)"

text \<open>The first loop: \<open>None\<close> if the two lists agree and hold no RDATTR\_ERROR.\<close>

fun mask_loop :: "u32 list \<Rightarrow> u32 list \<Rightarrow> int option" where
  "mask_loop (a # as) (b # bs) =
     (if a \<noteq> b then Some 0
      else if a = FATTR4_RDATTR_ERROR then Some (-1)
      else if b = FATTR4_RDATTR_ERROR then Some (-1)
      else mask_loop as bs)"
| "mask_loop _ _ = None"

definition nfs4_Fattr_cmp :: "(u32 list \<times> u8 list) option \<Rightarrow> (u32 list \<times> u8 list) option \<Rightarrow> int option" where
  "nfs4_Fattr_cmp fattr1 fattr2 =
     (case (fattr1, fattr2) of
        (Some (m1, b1), Some (m2, b2)) \<Rightarrow>
          if length m1 \<noteq> length m2 then Some 0
          else do {
            l1 \<leftarrow> nfs4_bitmap4_to_list FATTR4_MOUNTED_ON_FILEID m1;
            l2 \<leftarrow> nfs4_bitmap4_to_list FATTR4_MOUNTED_ON_FILEID m2;
            if length l1 \<noteq> length l2 then Some 0
            else (case mask_loop l1 l2 of Some r \<Rightarrow> Some r | None \<Rightarrow> cmp_loop b1 b2 l1 0 0) }
      | _ \<Rightarrow> Some 0)"

subsection \<open>Sequence ids and owner strings\<close>

definition nfs4_NextSeqId :: "u32 \<Rightarrow> u32" where
  "nfs4_NextSeqId seqid = (seqid + 1) mod 0xFFFFFFFF"

text \<open>Strings without their terminator: the name before the first \<open>@\<close>, and the rest with the \<open>@\<close>.\<close>

definition nfs4_stringid_split :: "u8 list \<Rightarrow> u8 list \<times> u8 list" where
  "nfs4_stringid_split buff = (takeWhile (\<lambda>c. c \<noteq> 64) buff, dropWhile (\<lambda>c. c \<noteq> 64) buff)"

subsection \<open>What the conversions compute\<close>

text \<open>The attribute numbers of the set bits of word \<open>offset\<close>, and of a whole bitmap.\<close>

definition word_attrs :: "nat \<Rightarrow> u32 \<Rightarrow> u32 list" where
  "word_attrs offset w = map (\<lambda>i. of_nat i + 32 * of_nat offset) (filter (bit w) [0 ..< 32])"

definition bitmap_attrs :: "u32 list \<Rightarrow> u32 list" where
  "bitmap_attrs b = concat (map (\<lambda>offset. word_attrs offset (b ! offset)) [0 ..< length b])"

lemma bitmap_bit_eq:
  "bitmap_bit cap offset w pval i =
     (if bit w i then (if length pval < cap then Some (pval @ [of_nat i + 32 * of_nat offset]) else None) else Some pval)"
  by (simp add: bitmap_bit_def Let_def bit_iff_and_push_bit_not_eq_0)

lemma bitmap_word_loop:
  "length pval \<le> cap \<Longrightarrow> ofold (bitmap_bit cap offset w) pval is =
     (let r = pval @ map (\<lambda>i. of_nat i + 32 * of_nat offset) (filter (bit w) is)
      in if length r \<le> cap then Some r else None)"
  by (induction "is" arbitrary: pval) (auto simp: bitmap_bit_eq Let_def not_less)

lemma bitmap_loop:
  "length pval \<le> cap \<Longrightarrow>
     ofold (\<lambda>pval offset. ofold (bitmap_bit cap offset (b ! offset)) pval [0 ..< 32]) pval os =
     (let r = pval @ concat (map (\<lambda>offset. word_attrs offset (b ! offset)) os)
      in if length r \<le> cap then Some r else None)"
proof (induction os arbitrary: pval)
  case (Cons o' os)
  show ?case
  proof (cases "length (pval @ word_attrs o' (b ! o')) \<le> cap")
    case True
    then show ?thesis using Cons
      by (simp add: bitmap_word_loop word_attrs_def Let_def)
  next
    case False
    then show ?thesis using Cons.prems
      by (simp add: bitmap_word_loop word_attrs_def Let_def)
  qed
qed simp

lemma bitmap_to_list_eq:
  "nfs4_bitmap4_to_list cap b = (if length (bitmap_attrs b) \<le> cap then Some (bitmap_attrs b) else None)"
  using bitmap_loop [of "[]" cap b "[0 ..< length b]"]
  by (simp add: nfs4_bitmap4_to_list_def bitmap_attrs_def Let_def)

definition bitmap_post :: "u32 list \<Rightarrow> nat \<Rightarrow> u32 \<Rightarrow> u32 \<Rightarrow> nat \<Rightarrow> u32 \<Rightarrow> u32 \<Rightarrow> bool" where
  "bitmap_post xs len w0 w1 len' v0 v1 \<longleftrightarrow> ofold bitmap_set (len, [w0, w1]) xs = Some (len', [v0, v1])
     \<and> (\<forall>i<32. bit v0 i \<longleftrightarrow> bit w0 i \<or> i \<in> set (map unat xs))
     \<and> (\<forall>i<32. bit v1 i \<longleftrightarrow> bit w1 i \<or> i + 32 \<in> set (map unat xs))
     \<and> (len' = 1 \<or> len' = 2) \<and> (len = 2 \<longrightarrow> len' = 2) \<and> ((\<exists>x\<in>set xs. x \<ge> 32) \<longrightarrow> len' = 2)"

lemma bit_or_push: "i < 32 \<Longrightarrow> bit (w OR 2 ^ k :: u32) i \<longleftrightarrow> bit w i \<or> i = k"
  by (auto simp: bit_simps)

lemma bitmap_set_low:
  assumes "unat x < 32" and "bitmap_post xs len (w0 OR 2 ^ unat x) w1 len' v0 v1"
  shows "bitmap_post (x # xs) len w0 w1 len' v0 v1"
proof -
  have step: "bitmap_set (len, [w0, w1]) x = Some (len, [w0 OR 2 ^ unat x, w1])"
    using assms(1) by (simp add: bitmap_set_def unat_div unat_mod Let_def)
  have "\<not> 32 \<le> x" "i + 32 \<noteq> unat x" for i using assms(1) by (simp_all add: word_le_nat_alt)
  with assms(2) show ?thesis by (auto simp: bitmap_post_def step bit_or_push)
qed

lemma bitmap_set_high:
  assumes "32 \<le> unat x" "unat x < 64" and "bitmap_post xs 2 w0 (w1 OR 2 ^ (unat x - 32)) len' v0 v1"
  shows "bitmap_post (x # xs) len w0 w1 len' v0 v1"
proof -
  have "unat x div 32 = 1" "unat x mod 32 = unat x - 32" using assms(1,2) by (auto simp: div_if mod_if)
  then have step: "bitmap_set (len, [w0, w1]) x = Some (2, [w0, w1 OR 2 ^ (unat x - 32)])"
    by (simp add: bitmap_set_def unat_div unat_mod Let_def)
  have "i = unat x - 32 \<longleftrightarrow> i + 32 = unat x" "i < 32 \<Longrightarrow> i \<noteq> unat x" for i using assms(1) by auto
  with assms(3) show ?thesis by (auto simp: bitmap_post_def step bit_or_push)
qed

lemma list_to_bitmap_loop:
  "\<forall>x\<in>set xs. x < 64 \<Longrightarrow> len = 1 \<or> len = 2 \<Longrightarrow> \<exists>len' v0 v1. bitmap_post xs len w0 w1 len' v0 v1"
proof (induction xs arbitrary: len w0 w1)
  case Nil
  then show ?case by (auto simp: bitmap_post_def)
next
  case (Cons x xs)
  have x64: "unat x < 64" using Cons.prems(1) by (simp add: word_less_nat_alt)
  show ?case
  proof (cases "unat x < 32")
    case True
    with Cons.IH [of len "w0 OR 2 ^ unat x" w1] Cons.prems show ?thesis by (auto dest: bitmap_set_low)
  next
    case False
    with Cons.IH [of 2 w0 "w1 OR 2 ^ (unat x - 32)"] Cons.prems x64 show ?thesis
      by (auto simp: not_less dest: bitmap_set_high)
  qed
qed

lemma sorted_words_unat:
  "sorted_wrt (<) (xs :: u32 list) \<Longrightarrow> sorted_wrt (<) (map unat xs)"
  by (induction xs) (auto simp: word_less_nat_alt)

lemma filter_upt_member:
  assumes "sorted_wrt (<) ns" and "\<forall>n\<in>set ns. n < k"
  shows "filter (\<lambda>i. i \<in> set ns) [0 ..< k] = (ns :: nat list)"
proof (rule strict_sorted_equal)
  show "sorted_wrt (<) (filter (\<lambda>i. i \<in> set ns) [0 ..< k])" by (rule sorted_wrt_filter) simp
  show "sorted_wrt (<) ns" by (rule assms)
  show "set (filter (\<lambda>i. i \<in> set ns) [0 ..< k]) = set ns" using assms(2) by auto
qed

lemma attrs_of_words:
  assumes "\<forall>i<32. bit v0 i \<longleftrightarrow> i \<in> set ns" and "\<forall>i<32. bit v1 i \<longleftrightarrow> i + 32 \<in> set ns"
  shows "word_attrs 0 v0 @ word_attrs 1 v1 = map of_nat (filter (\<lambda>i. i \<in> set ns) [0 ..< 64])"
proof -
  have "filter (\<lambda>i. i \<in> set ns) [0 ..< 64] =
      filter (\<lambda>i. i \<in> set ns) [0 ..< 32] @ filter (\<lambda>i. i \<in> set ns) (map (\<lambda>i. i + 32) [0 ..< 32])"
    using upt_add_eq_append [of 0 32 32] by (simp add: map_add_upt)
  moreover have "filter (\<lambda>i. i \<in> set ns) [0 ..< 32] = filter (bit v0) [0 ..< 32]"
    by (rule filter_cong) (use assms(1) in auto)
  moreover have "filter (\<lambda>i. i \<in> set ns) (map (\<lambda>i. i + 32) [0 ..< 32]) = map (\<lambda>i. i + 32) (filter (bit v1) [0 ..< 32])"
  proof -
    have "filter ((\<lambda>i. i \<in> set ns) \<circ> (\<lambda>i. i + 32)) [0 ..< 32] = filter (bit v1) [0 ..< 32]"
      by (rule filter_cong) (use assms(2) in auto)
    then show ?thesis by (simp add: filter_map)
  qed
  ultimately show ?thesis by (simp add: word_attrs_def)
qed

lemma roundtrip:
  assumes "sorted_wrt (<) xs" and "\<forall>x\<in>set xs. x < 64"
  shows "\<exists>b. nfs4_list_to_bitmap4 xs = Some b \<and> bitmap_attrs b = xs"
proof -
  from list_to_bitmap_loop [OF assms(2), of 1 0 0] obtain len v0 v1 where
    l: "ofold bitmap_set (1, [0, 0]) xs = Some (len, [v0, v1])"
    and v: "\<forall>i<32. bit v0 i \<longleftrightarrow> i \<in> set (map unat xs)" "\<forall>i<32. bit v1 i \<longleftrightarrow> i + 32 \<in> set (map unat xs)"
    and len: "len = 1 \<or> len = 2" "(\<exists>x\<in>set xs. x \<ge> 32) \<longrightarrow> len = 2" by (auto simp: bitmap_post_def)
  have "filter (\<lambda>i. i \<in> set (map unat xs)) [0 ..< 64] = map unat xs"
    by (rule filter_upt_member) (use assms in \<open>auto simp: sorted_words_unat word_less_nat_alt\<close>)
  with attrs_of_words [OF v] have both: "word_attrs 0 v0 @ word_attrs 1 v1 = xs" by (simp add: comp_def)
  have "word_attrs 1 v1 = []" if "len = 1"
  proof -
    from that len(2) have "\<forall>x\<in>set xs. unat x < 32" by (auto simp: word_le_nat_alt not_le)
    then have "\<forall>i<32. \<not> bit v1 i" using v(2) by fastforce
    then show ?thesis by (simp add: word_attrs_def)
  qed
  with both have "bitmap_attrs (take len [v0, v1]) = xs"
    using len(1) by (auto simp: bitmap_attrs_def upt_conv_Cons numeral_2_eq_2)
  with l show ?thesis by (simp add: nfs4_list_to_bitmap4_def)
qed

subsection \<open>Properties\<close>

text \<open>Attribute lists and bitmaps.  For every increasing list of attribute numbers below 64 that fits the
  caller's array, nfs4_list_to_bitmap4 builds a bitmap from which nfs4_bitmap4_to_list
  recovers exactly that list.\<close>

theorem attribute_bitmap_roundtrip:
  assumes "sorted_wrt (<) xs" and "\<forall>x\<in>set xs. x < 64" and "length xs \<le> cap"
  shows "\<exists>b. nfs4_list_to_bitmap4 xs = Some b \<and> nfs4_bitmap4_to_list cap b = Some xs"
  using roundtrip [OF assms(1,2)] assms(3) by (auto simp: bitmap_to_list_eq)

theorem attribute_bitmap_roundtrip_witness:
  "\<exists>b. nfs4_list_to_bitmap4 [1, 5, 33, 36] = Some b \<and> nfs4_bitmap4_to_list 55 b = Some [1, 5, 33, 36]"
  by (rule attribute_bitmap_roundtrip) simp_all

text \<open>Overflow of the attribute list.  nfs4_bitmap4_to_list stays inside the caller's array of cap entries
  exactly when the bitmap has at most cap bits set; the callers' arrays have 55 entries,
  and the two words a client can send have 64 bits.\<close>

theorem attribute_list_overflow:
  "(nfs4_bitmap4_to_list cap b \<noteq> None \<longleftrightarrow> length (bitmap_attrs b) \<le> cap)
   \<and> nfs4_Fattr_Supported_Bitmap (Some [0xFFFFFFFF, 0xFFFFFFFF]) = None"
proof -
  have "filter (bit (0xFFFFFFFF :: u32)) [0 ..< 32] = [0 ..< 32]"
    by (simp add: upt_conv_Cons)
  then show ?thesis
    by (simp add: bitmap_to_list_eq nfs4_Fattr_Supported_Bitmap_def bitmap_attrs_def word_attrs_def
        FATTR4_MOUNTED_ON_FILEID_def)
qed

lemma memcmp_same [simp]: "memcmp xs xs = 0"
  by (induction xs) auto

text \<open>The attributes whose value \<open>nfs4_Fattr_cmp\<close> compares by the size of their type.\<close>

definition fixed_attr :: "u32 \<Rightarrow> bool" where
  "fixed_attr a \<longleftrightarrow> unat a \<le> FATTR4_MOUNTED_ON_FILEID \<and> a \<notin> {0, 11, 19, 36, 37}"

lemma attr_size_le: "unat a \<le> FATTR4_MOUNTED_ON_FILEID \<Longrightarrow> attr_size a \<le> 32"
proof -
  have "length fattr4tab = 56" "\<forall>e\<in>set fattr4tab. fst (snd e) \<le> 32" by (simp_all add: fattr4tab_def)
  then show "unat a \<le> FATTR4_MOUNTED_ON_FILEID \<Longrightarrow> attr_size a \<le> 32"
    by (simp add: attr_size_def FATTR4_MOUNTED_ON_FILEID_def)
qed

lemma memcmp_at_prefix:
  assumes "take 32 b1 = take 32 b2" "32 \<le> length b1" "32 \<le> length b2" "n \<le> 32"
  shows "memcmp_at b1 b2 0 n = Some 0"
proof -
  have "take n b1 = take n b2" using arg_cong [OF assms(1), of "take n"] assms(4) by (simp add: min_absorb1)
  then show ?thesis using assms(2-4) by (simp add: memcmp_at_def)
qed

lemma cmp_loop_fixed:
  assumes "take 32 b1 = take 32 b2" "32 \<le> length b1" "32 \<le> length b2" "\<forall>a\<in>set as. fixed_attr a"
  shows "cmp_loop b1 b2 as 0 cmp = Some (if cmp = 0 then 1 else 0)"
  using assms(4)
proof (induction "as" arbitrary: cmp)
  case (Cons a "as")
  then have "unat a \<le> FATTR4_MOUNTED_ON_FILEID" "a \<notin> {0, 11, 19, 36, 37}" by (simp_all add: fixed_attr_def)
  with Cons memcmp_at_prefix [OF assms(1-3) attr_size_le] show ?case by simp
qed simp

lemma mask_loop_same: "\<forall>a\<in>set l. fixed_attr a \<Longrightarrow> mask_loop l l = None"
  by (induction l) (auto simp: fixed_attr_def FATTR4_RDATTR_ERROR_def)

text \<open>VERIFY compares only the start of the buffers.  For a mask of attributes of fixed size, two attribute
  buffers that agree on their first 32 bytes are equal for nfs4_Fattr_cmp, whatever values
  the later attributes have: the offset is never advanced past a fixed-size attribute.\<close>

theorem fattr_cmp_ignores_later_attributes:
  assumes "length (bitmap_attrs msk) \<le> 55" and "\<forall>a\<in>set (bitmap_attrs msk). fixed_attr a"
    and "32 \<le> length b1" "32 \<le> length b2" and "take 32 b1 = take 32 b2"
  shows "nfs4_Fattr_cmp (Some (msk, b1)) (Some (msk, b2)) = Some 1"
  using assms cmp_loop_fixed [OF assms(5,3,4,2), of 0] mask_loop_same [OF assms(2)]
  by (simp add: nfs4_Fattr_cmp_def bitmap_to_list_eq FATTR4_MOUNTED_ON_FILEID_def)

text \<open>The mask of FSID, FILEID, SPACE\_USED and TIME\_MODIFY: 44 bytes, and two values that differ in the modification time.\<close>

theorem fattr_cmp_ignores_later_attributes_witness:
  "nfs4_Fattr_cmp (Some ([0x100100, 0x202000], replicate 32 7 @ replicate 12 1))
     (Some ([0x100100, 0x202000], replicate 32 7 @ replicate 12 2)) = Some 1"
proof (rule fattr_cmp_ignores_later_attributes)
  have a: "bitmap_attrs [0x100100, 0x202000] = [8, 20, 45, 53]"
    by (simp add: bitmap_attrs_def word_attrs_def upt_conv_Cons)
  show "length (bitmap_attrs [0x100100, 0x202000]) \<le> 55" by (simp add: a)
  show "\<forall>a\<in>set (bitmap_attrs [0x100100, 0x202000]). fixed_attr a"
    by (simp add: a fixed_attr_def FATTR4_MOUNTED_ON_FILEID_def)
qed simp_all

end
