(* ===== verification/State_Id.thy ===== *)
theory State_Id
  imports Nfs4_Client Open_Owner Error_Map
begin

text \<open>
  The stateids of NFSv4 (\<^verbatim>\<open>support/nfs_state_id.c\<close>) and the data of the states they name
  (\<^verbatim>\<open>include/cache_inode.h\<close>).  The states are a heap; the table \<open>ht_state_id\<close> holds pointers
  to them under the 12 bytes of \<open>stateid_other\<close>.  Each state points to its owner, a record of
  the heap of the theory \<^verbatim>\<open>Open_Owner\<close>, and to the cache entry of its file.

  The digest of a file handle that the file system layer computes (\<open>FSAL_DigestHandle\<close>) is a
  parameter: \<open>None\<close> is an error of that call.  Integers are stored in memory in the little
  endian order.
\<close>

subsection \<open>Data\<close>

datatype state_type =
    CACHE_INODE_STATE_NONE
  | CACHE_INODE_STATE_SHARE
  | CACHE_INODE_STATE_DELEG
  | CACHE_INODE_STATE_LOCK
  | CACHE_INODE_STATE_LAYOUT

datatype nfs_lock_type4 = READ_LT | WRITE_LT | READW_LT | WRITEW_LT

record cache_inode_share =
  oexcl_verifier :: "u8 list"
  share_access :: u32
  share_deny :: u32
  lockheld :: u32

record cache_inode_lock =
  lk_offset :: u64
  lk_length :: u64
  lock_type :: nfs_lock_type4
  popenstate :: "addr option"

datatype state_data =
    Share cache_inode_share
  | Lock cache_inode_lock
  | Deleg u32
  | Layout int

record nfs_state =
  state_type :: state_type
  state_data :: state_data
  sseqid :: u32
  stateid_other :: "u8 list"
  powner :: addr
  snext :: "addr option"
  sprev :: "addr option"
  spentry :: "addr option"

datatype file_type =
    UNASSIGNED | REGULAR_FILE | CHARACTER_FILE | BLOCK_FILE | SYMBOLIC_LINK | SOCKET_FILE
  | FIFO_FILE | DIR_BEGINNING | DIR_CONTINUE | FS_JUNCTION | RECYCLED

record file_entry =
  entry_type :: file_type
  handle :: "u8 list"
  pstate_head :: "addr option"
  pstate_tail :: "addr option"

datatype state_func = ADD_STATE | GET_STATE | UPDATE_STATE | DEL_STATE

record states =
  smem :: mem
  ht_state_id :: "(u8 list, addr) hash_table"
  sheap :: "addr \<Rightarrow> nfs_state"
  pool_state_v4 :: "addr list"
  nb_pre_state_v4 :: u32
  entries :: "addr \<Rightarrow> file_entry"
  nb_err_unrecover :: "state_func \<Rightarrow> u32"

text \<open>The tables of the NFSv4 server that the operations on states work on.\<close>

record nfs4_world =
  wclients :: clients
  wowners :: owners
  wstates :: states

subsection \<open>Integers in memory\<close>

definition le_bytes :: "nat \<Rightarrow> 'a::len word \<Rightarrow> u8 list" where
  "le_bytes n w = map (\<lambda>i. ucast (drop_bit (8 * i) w)) [0 ..< n]"

definition le_word :: "u8 list \<Rightarrow> 'a::len word" where
  "le_word bs = foldr (\<lambda>b acc. ucast b + 256 * acc) bs 0"

subsection \<open>Keys\<close>

definition compare_state_id :: "u8 list \<Rightarrow> u8 list \<Rightarrow> int" where
  "compare_state_id buff1 buff2 = (if take 12 buff1 = take 12 buff2 then 0 else 1)"

definition state_id_value_hash_func :: "u32 \<Rightarrow> u8 list \<Rightarrow> u64" where
  "state_id_value_hash_func isz key = ucast (foldl (\<lambda>s c. s + ucast c) 0 (take 12 key) mod isz)"

definition state_id_rbt_hash_func :: "u8 list \<Rightarrow> u64" where
  "state_id_rbt_hash_func key =
     (let k = take 12 key;
          i1 = le_word (take 4 k) :: u32; i2 = le_word (take 4 (drop 4 k)); i3 = le_word (take 4 (drop 8 k))
      in ucast (i1 XOR i2 XOR i3))"

definition state_par :: "u32 \<Rightarrow> u32 \<Rightarrow> u8 list hash_parameter" where
  "state_par isz nb = \<lparr>index_size = isz, alphabet_length = 10, nb_node_prealloc = nb,
     hash_func_key = state_id_value_hash_func isz, hash_func_rbt = state_id_rbt_hash_func,
     compare_key = compare_state_id\<rparr>"

subsection \<open>Operations\<close>

definition nfs4_Init_state_id :: "mem \<Rightarrow> bool \<Rightarrow> (nat \<Rightarrow> bool) \<Rightarrow> u8 list hash_parameter \<Rightarrow> int \<times> (u8 list, addr) hash_table option \<times> mem" where
  "nfs4_Init_state_id m attr_ok lock_ok hash_param =
     (case HashTable_Init m attr_ok lock_ok hash_param of
        (None, m') \<Rightarrow> (-1, None, m')
      | (Some ht, m') \<Rightarrow> (0, Some ht, m'))"

definition nfs4_BuildStateId_Other :: "(u8 list \<Rightarrow> u64 option) \<Rightarrow> u64 \<Rightarrow> file_entry option \<Rightarrow> open_owner option \<Rightarrow> u8 list option" where
  "nfs4_BuildStateId_Other FSAL_DigestHandle ServerBootTime pentry popen_owner =
     (case pentry of
        None \<Rightarrow> None
      | Some e \<Rightarrow>
          (case popen_owner of
             None \<Rightarrow> None
           | Some own \<Rightarrow>
               if entry_type e \<noteq> REGULAR_FILE then None
               else (case FSAL_DigestHandle (handle e) of
                       None \<Rightarrow> None
                     | Some fileid_digest \<Rightarrow>
                         let srvboot_digest = ucast (ServerBootTime AND 0x0000FFFF) :: u16;
                             open_owner_digest = oo_counter own
                         in Some (le_bytes 2 srvboot_digest @ le_bytes 8 fileid_digest @ le_bytes 2 open_owner_digest))))"

definition nfs4_State_Set :: "states \<Rightarrow> u8 list \<Rightarrow> addr \<Rightarrow> (bool \<times> states) option" where
  "nfs4_State_Set s other pstate_data =
     (case Mem_Alloc (smem s) 1 of
        (None, m1) \<Rightarrow> Some (False, s\<lparr>smem := m1\<rparr>)
      | (Some _, m1) \<Rightarrow> do {
          (rc, m2, t) \<leftarrow> hs_put (m1, ht_state_id s) other pstate_data HASHTABLE_SET_HOW_SET_OVERWRITE;
          Some (rc = HASHTABLE_SUCCESS, s\<lparr>smem := m2, ht_state_id := t\<rparr>) })"

definition nfs4_State_Get_Pointer :: "states \<Rightarrow> u8 list \<Rightarrow> (addr option \<times> states) option" where
  "nfs4_State_Get_Pointer s other = do {
     (rc, p, m, t) \<leftarrow> hs_get (smem s, ht_state_id s) other;
     Some (if rc \<noteq> HASHTABLE_SUCCESS then None else p, s\<lparr>smem := m, ht_state_id := t\<rparr>) }"

definition nfs4_State_Get :: "states \<Rightarrow> u8 list \<Rightarrow> (nfs_state option \<times> states) option" where
  "nfs4_State_Get s other = do {
     (rc, p, m, t) \<leftarrow> hs_get (smem s, ht_state_id s) other;
     Some (if rc \<noteq> HASHTABLE_SUCCESS then None else map_option (sheap s) p, s\<lparr>smem := m, ht_state_id := t\<rparr>) }"

definition nfs4_State_Update :: "states \<Rightarrow> u8 list \<Rightarrow> nfs_state \<Rightarrow> (bool \<times> states) option" where
  "nfs4_State_Update s other pstate_data = do {
     (rc, p, m, t) \<leftarrow> hs_get (smem s, ht_state_id s) other;
     let s1 = s\<lparr>smem := m, ht_state_id := t\<rparr>
     in if rc \<noteq> HASHTABLE_SUCCESS then Some (False, s1)
        else do { a \<leftarrow> p; Some (True, s1\<lparr>sheap := (sheap s)(a := pstate_data)\<rparr>) } }"

definition nfs4_State_Del :: "states \<Rightarrow> u8 list \<Rightarrow> (bool \<times> states) option" where
  "nfs4_State_Del s other = do {
     (rc, _, m, t) \<leftarrow> hs_del (smem s, ht_state_id s) other;
     Some (rc = HASHTABLE_SUCCESS, s\<lparr>smem := m, ht_state_id := t\<rparr>) }"

text \<open>\<open>return_bad_stateid\<close> is the configuration option that the code calls a dirty work-around.\<close>

definition nfs4_Check_Stateid :: "bool \<Rightarrow> u64 \<Rightarrow> nfs4_world \<Rightarrow> u8 list option \<Rightarrow> addr option \<Rightarrow> u64 \<Rightarrow> (nfsstat4 \<times> nfs4_world) option" where
  "nfs4_Check_Stateid return_bad_stateid ServerBootTime w pstate pentry cid =
     (case (pstate, pentry) of
        (Some other, Some e) \<Rightarrow>
          if entry_type (entries (wstates w) e) \<noteq> REGULAR_FILE then Some (NFS4ERR_SERVERFAULT, w)
          else do {
            (found, s1) \<leftarrow> nfs4_State_Get (wstates w) other;
            let w1 = w\<lparr>wstates := s1\<rparr>;
                boot = (\<lambda>w. Some (if (ucast (ServerBootTime AND 0x0000FFFF) :: u16) \<noteq> le_word (take 2 other)
                                  then NFS4ERR_STALE_STATEID else NFS4_OK, w))
            in (case found of
                  None \<Rightarrow> Some (if return_bad_stateid then NFS4ERR_BAD_STATEID else NFS4_OK, w1)
                | Some st \<Rightarrow>
                    if cid = 0 then do {
                      (rc, _, c1) \<leftarrow> nfs_client_id_get (wclients w) (oo_clientid (oheap (wowners w) (powner st)));
                      let w2 = w1\<lparr>wclients := c1\<rparr>
                      in if rc \<noteq> CLIENT_ID_SUCCESS
                         then Some (if return_bad_stateid then NFS4ERR_BAD_STATEID else NFS4_OK, w2)
                         else boot w2 }
                    else boot w1) }
      | _ \<Rightarrow> Some (NFS4ERR_SERVERFAULT, w))"

subsection \<open>The table of stateids\<close>

definition same12 :: "u8 list \<Rightarrow> u8 list \<Rightarrow> bool" where
  "same12 a b \<longleftrightarrow> take 12 a = take 12 b"

lemma same12_refl [simp]: "same12 a a"
  by (simp add: same12_def)

lemma state_par_ok:
  assumes "0 < isz"
  shows "params_ok (state_par isz nb)" "key_eq (state_par isz nb) = same12"
proof -
  show eq: "key_eq (state_par isz nb) = same12"
    by (simp add: key_eq_def state_par_def compare_state_id_def same12_def fun_eq_iff)
  have "equivp same12" by (auto simp: same12_def intro!: equivpI reflpI sympI transpI)
  moreover have "hashval (state_par isz nb) k < unat isz" for k
  proof -
    have "unat (x mod isz :: u32) < unat isz" for x
      using assms by (simp add: unat_mod unat_gt_0 word_greater_zero_iff)
    then have "unat (ucast (x mod isz :: u32) :: u64) < unat isz" for x
      using le_less_trans [OF unat_ucast_le] by blast
    then have "unat (ucast (ucast (x mod isz :: u32) :: u64) :: u32) < unat isz" for x
      by (rule le_less_trans [OF unat_ucast_le])
    then show ?thesis by (simp add: state_par_def hashval_def state_id_value_hash_func_def)
  qed
  moreover have "hashval (state_par isz nb) a = hashval (state_par isz nb) b
      \<and> rbtval (state_par isz nb) a = rbtval (state_par isz nb) b" if "same12 a b" for a b
    using that by (simp add: state_par_def hashval_def rbtval_def state_id_value_hash_func_def
        state_id_rbt_hash_func_def same12_def Let_def)
  ultimately show "params_ok (state_par isz nb)"
    unfolding params_ok_def eq by (simp add: state_par_def)
qed

definition table_inv :: "states \<Rightarrow> bool" where
  "table_inv s \<longleftrightarrow> ht_inv (smem s) (ht_state_id s) \<and> key_eq (parameter (ht_state_id s)) = same12"

abbreviation state_at :: "states \<Rightarrow> u8 list \<Rightarrow> addr option" where
  "state_at s \<equiv> ht_lookup (ht_state_id s)"

lemma table_hs: "table_inv s \<Longrightarrow> hs_inv (parameter (ht_state_id s)) (smem s, ht_state_id s)"
  by (simp add: table_inv_def hs_inv_def)

lemma table_inv_I:
  "table_inv s \<Longrightarrow> hs_inv (parameter (ht_state_id s)) (m, t) \<Longrightarrow> table_inv (s\<lparr>smem := m, ht_state_id := t\<rparr>)"
  by (simp add: table_inv_def hs_inv_def)

lemma table_inv_cong:
  "table_inv s \<Longrightarrow> smem s' = smem s \<Longrightarrow> ht_state_id s' = ht_state_id s \<Longrightarrow> table_inv s'"
  by (simp add: table_inv_def)

lemma table_inv_mem: "table_inv s \<Longrightarrow> mem_grows (smem s) m \<Longrightarrow> table_inv (s\<lparr>smem := m\<rparr>)"
  by (auto simp: table_inv_def intro: ht_inv_grows)

lemma states_same [simp]: "s\<lparr>smem := smem s, ht_state_id := t\<rparr> = s\<lparr>ht_state_id := t\<rparr>"
  by (cases s) simp

lemma state_hs_get:
  assumes "table_inv s"
  obtains t where "hs_get (smem s, ht_state_id s) k = Some
      (if state_at s k = None then HASHTABLE_ERROR_NO_SUCH_KEY else HASHTABLE_SUCCESS, state_at s k, smem s, t)"
    "ht_lookup t = state_at s" "table_inv (s\<lparr>ht_state_id := t\<rparr>)"
proof -
  from hs.get_law [OF table_hs [OF assms], of k] obtain m t where
    g: "hs_get (smem s, ht_state_id s) k = Some
      (if state_at s k = None then HASHTABLE_ERROR_NO_SUCH_KEY else HASHTABLE_SUCCESS, state_at s k, m, t)"
    "hs_inv (parameter (ht_state_id s)) (m, t)" "ht_lookup t = state_at s" by auto
  have "m = smem s" using hs_same_mem(1) [OF g(1)] by simp
  with that [of t] g table_inv_I [OF assms g(2)] show ?thesis by simp
qed

lemma State_Get_Pointer_correct:
  assumes "table_inv s"
  obtains t where "nfs4_State_Get_Pointer s k = Some (state_at s k, s\<lparr>ht_state_id := t\<rparr>)"
    "ht_lookup t = state_at s" "table_inv (s\<lparr>ht_state_id := t\<rparr>)"
proof (rule state_hs_get [OF assms, of k])
  fix t
  assume "hs_get (smem s, ht_state_id s) k = Some
      (if state_at s k = None then HASHTABLE_ERROR_NO_SUCH_KEY else HASHTABLE_SUCCESS, state_at s k, smem s, t)"
    "ht_lookup t = state_at s" "table_inv (s\<lparr>ht_state_id := t\<rparr>)"
  then show ?thesis using that [of t] by (cases "state_at s k") (simp_all add: nfs4_State_Get_Pointer_def)
qed

lemma State_Get_correct:
  assumes "table_inv s"
  obtains t where "nfs4_State_Get s k = Some (map_option (sheap s) (state_at s k), s\<lparr>ht_state_id := t\<rparr>)"
    "ht_lookup t = state_at s" "table_inv (s\<lparr>ht_state_id := t\<rparr>)"
proof (rule state_hs_get [OF assms, of k])
  fix t
  assume "hs_get (smem s, ht_state_id s) k = Some
      (if state_at s k = None then HASHTABLE_ERROR_NO_SUCH_KEY else HASHTABLE_SUCCESS, state_at s k, smem s, t)"
    "ht_lookup t = state_at s" "table_inv (s\<lparr>ht_state_id := t\<rparr>)"
  then show ?thesis using that [of t] by (cases "state_at s k") (simp_all add: nfs4_State_Get_def)
qed

lemma State_Update_correct:
  assumes "table_inv s"
  obtains t where "nfs4_State_Update s k r = Some (state_at s k \<noteq> None,
      (case state_at s k of None \<Rightarrow> s\<lparr>ht_state_id := t\<rparr> | Some a \<Rightarrow> s\<lparr>ht_state_id := t, sheap := (sheap s)(a := r)\<rparr>))"
    "ht_lookup t = state_at s" "table_inv (s\<lparr>ht_state_id := t\<rparr>)"
proof (rule state_hs_get [OF assms, of k])
  fix t
  assume "hs_get (smem s, ht_state_id s) k = Some
      (if state_at s k = None then HASHTABLE_ERROR_NO_SUCH_KEY else HASHTABLE_SUCCESS, state_at s k, smem s, t)"
    "ht_lookup t = state_at s" "table_inv (s\<lparr>ht_state_id := t\<rparr>)"
  then show ?thesis using that [of t] by (cases "state_at s k") (simp_all add: nfs4_State_Update_def)
qed

lemma State_Del_correct:
  assumes "table_inv s"
  obtains t where "nfs4_State_Del s k = Some (state_at s k \<noteq> None, s\<lparr>ht_state_id := t\<rparr>)"
    "ht_lookup t = upd_map same12 (state_at s) k None" "table_inv (s\<lparr>ht_state_id := t\<rparr>)"
proof -
  have eq: "key_eq (parameter (ht_state_id s)) = same12" using assms by (simp add: table_inv_def)
  from hs.del_law [OF table_hs [OF assms], of k] obtain kv m t where
    d: "hs_del (smem s, ht_state_id s) k = Some
      (if state_at s k = None then HASHTABLE_ERROR_NO_SUCH_KEY else HASHTABLE_SUCCESS, kv, m, t)"
    "hs_inv (parameter (ht_state_id s)) (m, t)" "ht_lookup t = upd_map same12 (state_at s) k None"
    unfolding eq by auto
  have "m = smem s" using hs_same_mem(2) [OF d(1)] by simp
  with that [of t] d table_inv_I [OF assms d(2)] show ?thesis by (cases "state_at s k") (simp_all add: nfs4_State_Del_def)
qed

lemma State_Set_correct:
  assumes "table_inv s"
  obtains ok m t where "nfs4_State_Set s k p = Some (ok, s\<lparr>smem := m, ht_state_id := t\<rparr>)" "mem_grows (smem s) m"
    "ht_lookup t = (if ok then upd_map same12 (state_at s) k (Some p) else state_at s)"
    "table_inv (s\<lparr>smem := m, ht_state_id := t\<rparr>)"
proof -
  have eq: "key_eq (parameter (ht_state_id s)) = same12" using assms by (simp add: table_inv_def)
  obtain r m1 where a: "Mem_Alloc (smem s) 1 = (r, m1)" by (cases "Mem_Alloc (smem s) 1")
  have g1: "mem_grows (smem s) m1" using Mem_Alloc_grows [OF a] .
  show ?thesis
  proof (cases r)
    case None
    with a have "nfs4_State_Set s k p = Some (False, s\<lparr>smem := m1, ht_state_id := ht_state_id s\<rparr>)"
      by (cases s) (simp add: nfs4_State_Set_def)
    moreover have "table_inv (s\<lparr>smem := m1, ht_state_id := ht_state_id s\<rparr>)"
      using assms g1 by (auto simp: table_inv_def intro: ht_inv_grows)
    ultimately show ?thesis using that [where ok = False and m = m1 and t = "ht_state_id s"] g1 by simp
  next
    case (Some q)
    have "hs_inv (parameter (ht_state_id s)) (m1, ht_state_id s)" using table_hs [OF assms] g1 by (rule hs_inv_grows)
    from hs.put_law [OF this, of k p HASHTABLE_SET_HOW_SET_OVERWRITE] obtain rc m2 t where
      p: "hs_put (m1, ht_state_id s) k p HASHTABLE_SET_HOW_SET_OVERWRITE = Some (rc, m2, t)"
      "hs_inv (parameter (ht_state_id s)) (m2, t)" "hs_grows (m1, ht_state_id s) (m2, t)"
      "set_outcome same12 (state_at s) k p HASHTABLE_SET_HOW_SET_OVERWRITE rc (ht_lookup t)"
      unfolding eq by auto
    from p(4) have "ht_lookup t = (if rc = HASHTABLE_SUCCESS then upd_map same12 (state_at s) k (Some p) else state_at s)"
      by (auto simp: set_outcome_def split: option.splits)
    moreover have "mem_grows (smem s) m2" using g1 p(3) by (auto simp: hs_grows_def intro: mem_grows_trans)
    ultimately show ?thesis using that [where ok = "rc = HASHTABLE_SUCCESS" and m = m2 and t = t] a Some p(1) table_inv_I [OF assms p(2)]
      by (simp add: nfs4_State_Set_def)
  qed
qed

subsection \<open>Reading back a stateid\<close>

lemma bit_le_word:
  "bit (le_word bs :: 'a::len word) j \<longleftrightarrow> j < LENGTH('a) \<and> j div 8 < length bs \<and> bit (bs ! (j div 8)) (j mod 8)"
proof (induction bs arbitrary: j)
  case Nil
  then show ?case by (simp add: le_word_def)
next
  case (Cons b bs)
  let ?r = "le_word bs :: 'a word"
  have "256 * ?r = push_bit 8 ?r" by (simp add: push_bit_eq_mult)
  moreover have "(ucast b :: 'a word) AND push_bit 8 ?r = 0"
    by (rule bit_word_eqI) (auto simp: bit_simps dest: bit_imp_le_length)
  ultimately have "le_word (b # bs) = ucast b OR push_bit 8 ?r"
    by (simp add: le_word_def disjunctive_add_eq_or)
  moreover have "j - 8 < LENGTH('a)" if "j < LENGTH('a)" using that by simp
  ultimately show ?case
  proof (cases "j < 8")
    case True
    with \<open>le_word (b # bs) = _\<close> show ?thesis by (auto simp: bit_simps)
  next
    case False
    then have "j div 8 = Suc ((j - 8) div 8)" "j mod 8 = (j - 8) mod 8" by (auto simp: le_div_geq le_mod_geq)
    with False Cons.IH [of "j - 8"] \<open>le_word (b # bs) = _\<close> show ?thesis
      by (auto simp: bit_simps dest: bit_imp_le_length)
  qed
qed

lemma le_bytes_nth_bit: "i < n \<Longrightarrow> k < 8 \<Longrightarrow> bit (le_bytes n w ! i) k \<longleftrightarrow> bit w (8 * i + k)"
  by (simp add: le_bytes_def bit_simps add.commute)

lemma length_le_bytes [simp]: "length (le_bytes n w) = n"
  by (simp add: le_bytes_def)

lemma le_word_le_bytes: "(le_word (le_bytes n (w :: 'b::len word)) :: 'a::len word) = take_bit (8 * n) (ucast w)"
proof (rule bit_word_eqI)
  fix j
  assume j: "j < LENGTH('a)"
  have "j div 8 < n \<longleftrightarrow> j < 8 * n" by (auto simp: div_less_iff_less_mult mult.commute)
  moreover have "bit (le_bytes n w ! (j div 8)) (j mod 8) \<longleftrightarrow> bit w j" if "j div 8 < n"
    using le_bytes_nth_bit [OF that, of "j mod 8" w] by simp
  ultimately show "bit (le_word (le_bytes n w) :: 'a word) j \<longleftrightarrow> bit (take_bit (8 * n) (ucast w :: 'a word)) j"
    using j by (auto simp: bit_le_word bit_simps)
qed

text \<open>The three fields of \<open>other\<close>, read back the way they were written.\<close>

definition stateid_fields :: "u8 list \<Rightarrow> u16 \<times> u64 \<times> u16" where
  "stateid_fields other = (le_word (take 2 other), le_word (take 8 (drop 2 other)), le_word (drop 10 other))"

lemma BuildStateId_eq:
  "nfs4_BuildStateId_Other dig boot (Some e) (Some own) =
     (if entry_type e = REGULAR_FILE
      then map_option (\<lambda>d. le_bytes 2 (ucast (boot AND 0x0000FFFF) :: u16) @ le_bytes 8 d @ le_bytes 2 (oo_counter own)) (dig (handle e))
      else None)"
  by (simp add: nfs4_BuildStateId_Other_def Let_def split: option.splits)

lemma BuildStateId_length: "nfs4_BuildStateId_Other dig boot pe po = Some other \<Longrightarrow> length other = 12"
  by (auto simp: nfs4_BuildStateId_Other_def Let_def split: option.splits if_splits)

subsection \<open>The answer of \<open>nfs4_Check_Stateid\<close>\<close>

definition stateid_answer :: "bool \<Rightarrow> u64 \<Rightarrow> nfs4_world \<Rightarrow> u8 list \<Rightarrow> nfsstat4" where
  "stateid_answer return_bad boot w other =
     (case state_at (wstates w) other of
        None \<Rightarrow> if return_bad then NFS4ERR_BAD_STATEID else NFS4_OK
      | Some a \<Rightarrow>
          if client_of (wclients w) (oo_clientid (oheap (wowners w) (powner (sheap (wstates w) a)))) = None
          then (if return_bad then NFS4ERR_BAD_STATEID else NFS4_OK)
          else if fst (stateid_fields other) = ucast (boot AND 0xFFFF) then NFS4_OK else NFS4ERR_STALE_STATEID)"

text \<open>The check searches the two tables, which counts in their statistics, and changes nothing else.\<close>

definition checked :: "nfs4_world \<Rightarrow> nfs4_world \<Rightarrow> bool" where
  "checked w w' \<longleftrightarrow> (\<exists>t c. w' = w\<lparr>wclients := c, wstates := (wstates w)\<lparr>ht_state_id := t\<rparr>\<rparr> \<and> ht_lookup t = state_at (wstates w)
     \<and> table_inv ((wstates w)\<lparr>ht_state_id := t\<rparr>) \<and> clients_ready c \<and> client_of c = client_of (wclients w))"

lemma Check_Stateid_post:
  assumes "table_inv (wstates w)" and ready: "clients_ready (wclients w)" and "entry_type (entries (wstates w) e) = REGULAR_FILE"
  shows "\<exists>w'. nfs4_Check_Stateid return_bad boot w (Some other) (Some e) 0 = Some (stateid_answer return_bad boot w other, w') \<and> checked w w'"
proof (rule State_Get_correct [OF assms(1), of other])
  fix t
  let ?s = "(wstates w)\<lparr>ht_state_id := t\<rparr>"
  assume g: "nfs4_State_Get (wstates w) other = Some (map_option (sheap (wstates w)) (state_at (wstates w) other), ?s)"
    and t: "ht_lookup t = state_at (wstates w)" "table_inv ?s"
  have eta: "w\<lparr>wstates := ?s\<rparr> = w\<lparr>wclients := wclients w, wstates := ?s\<rparr>" by (cases w) simp
  show ?thesis
  proof (cases "state_at (wstates w) other")
    case None
    then have "nfs4_Check_Stateid return_bad boot w (Some other) (Some e) 0 = Some (stateid_answer return_bad boot w other, w\<lparr>wstates := ?s\<rparr>)"
      using g assms(3) by (simp add: nfs4_Check_Stateid_def stateid_answer_def Let_def)
    moreover have "checked w (w\<lparr>wstates := ?s\<rparr>)" unfolding checked_def using t ready eta by blast
    ultimately show ?thesis by blast
  next
    case (Some a)
    let ?cid = "oo_clientid (oheap (wowners w) (powner (sheap (wstates w) a)))"
    from get_client_ready [OF ready, of ?cid] obtain c where
      c: "nfs_client_id_get (wclients w) ?cid = Some (if client_of (wclients w) ?cid = None then CLIENT_ID_NOT_FOUND else CLIENT_ID_SUCCESS,
         client_of (wclients w) ?cid, c)" "clients_ready c" "client_of c = client_of (wclients w)" by blast
    let ?w = "w\<lparr>wclients := c, wstates := ?s\<rparr>"
    have "nfs4_Check_Stateid return_bad boot w (Some other) (Some e) 0 = Some (stateid_answer return_bad boot w other, ?w)"
      using c(1) g Some assms(3)
      by (cases "client_of (wclients w) ?cid") (simp_all add: nfs4_Check_Stateid_def stateid_answer_def stateid_fields_def Let_def)
    moreover have "checked w ?w" unfolding checked_def using t c(2,3) by blast
    ultimately show ?thesis by blast
  qed
qed

subsection \<open>Properties\<close>

text \<open>An empty table on a server without allocation failures, and regular files with no state.\<close>

definition demo_state :: nfs_state where
  "demo_state = \<lparr>state_type = CACHE_INODE_STATE_NONE, state_data = Deleg 0, sseqid = 0, stateid_other = replicate 12 0,
     powner = 0, snext = None, sprev = None, spentry = None\<rparr>"

definition demo_entry :: file_entry where
  "demo_entry = \<lparr>entry_type = REGULAR_FILE, handle = [1], pstate_head = None, pstate_tail = None\<rparr>"

definition demo_owner :: open_owner where
  "demo_owner = \<lparr>oo_clientid = 7, oo_val = [1, 2], oo_confirmed = True, oo_seqid = 0, oo_counter = 5, related_owner = None\<rparr>"

definition demo_digest :: "u8 list \<Rightarrow> u64 option" where
  "demo_digest h = Some (of_nat (length h))"

definition demo_states :: "mem \<Rightarrow> (u8 list, addr) hash_table \<Rightarrow> states" where
  "demo_states m t = \<lparr>smem = m, ht_state_id = t, sheap = \<lambda>_. demo_state, pool_state_v4 = [], nb_pre_state_v4 = 8,
     entries = \<lambda>_. demo_entry, nb_err_unrecover = \<lambda>_. 0\<rparr>"

lemma demo_state_table:
  "\<exists>m t. table_inv (demo_states m t) \<and> no_fail m \<and> parameter t = state_par 17 4 \<and> ht_lookup t = (\<lambda>_. None)"
proof -
  have "no_fail demo_mem" "0 < nb_node_prealloc (state_par 17 4)" by (simp_all add: no_fail_def demo_mem_def state_par_def)
  from HashTable_Init_succeeds [OF this] obtain t :: "(u8 list, addr) hash_table" and m where
    i: "HashTable_Init demo_mem True (\<lambda>_. True) (state_par 17 4) = (Some t, m)" "no_fail m" by blast
  from HashTable_Init_correct [OF i(1) state_par_ok(1)] i(2) state_par_ok(2) [of 17 4]
  have "table_inv (demo_states m t) \<and> no_fail m \<and> parameter t = state_par 17 4 \<and> ht_lookup t = (\<lambda>_. None)"
    by (simp add: table_inv_def demo_states_def)
  then show ?thesis by blast
qed

text \<open>C26: What a stateid says.  The twelve bytes that nfs4_BuildStateId_Other builds give back the low 16 bits of
  the boot time, the whole file id and the low 16 bits of the owner's counter: two owners
  whose counters differ by a multiple of 65536 get the same stateid on the same file.\<close>

theorem stateid_roundtrip:
  assumes "nfs4_BuildStateId_Other dig boot (Some e) (Some own) = Some other"
  shows "length other = 12 \<and> (\<exists>fileid. dig (handle e) = Some fileid \<and>
     stateid_fields other = (ucast boot, fileid, ucast (oo_counter own)))"
proof -
  from assms obtain d where d: "dig (handle e) = Some d"
    and o: "other = le_bytes 2 (ucast (boot AND 0x0000FFFF) :: u16) @ le_bytes 8 d @ le_bytes 2 (oo_counter own)"
    by (auto simp: BuildStateId_eq split: if_splits)
  have "boot AND 0xFFFF = take_bit 16 boot" by (simp add: take_bit_eq_mask mask_eq_exp_minus_1)
  then have "(ucast (boot AND 0xFFFF) :: u16) = ucast boot"
    by (auto intro: bit_word_eqI simp: bit_simps)
  moreover have "take_bit 16 x = x" "take_bit 64 y = y" for x :: u16 and y :: u64
    by (simp_all add: take_bit_word_eq_self)
  ultimately show ?thesis using d
    by (simp add: o stateid_fields_def le_word_le_bytes)
qed

theorem stateid_roundtrip_witness:
  "\<exists>other. nfs4_BuildStateId_Other demo_digest 99 (Some demo_entry) (Some demo_owner) = Some other
     \<and> stateid_fields other = (99, 1, 5)"
proof -
  obtain other where o: "nfs4_BuildStateId_Other demo_digest 99 (Some demo_entry) (Some demo_owner) = Some other"
    by (simp add: BuildStateId_eq demo_digest_def demo_entry_def)
  from stateid_roundtrip [OF o] show ?thesis using o by (auto simp: demo_digest_def demo_entry_def demo_owner_def)
qed



end
