(* ===== verification/Cache_State.thy ===== *)
theory Cache_State
  imports State_Id
begin

text \<open>
  The states of a file (\<^verbatim>\<open>Cache_inode/cache_inode_state.c\<close>): a doubly linked list of states per
  cache entry, threaded through the heap of states, next to the table of stateids.

  \<open>None\<close> is the dereference of a null pointer, or a walk through the list that does not end.  The
  locks of the entries are taken and released around the bodies modelled here, so each
  operation is one atomic step.  The pointers to the client data, the operation context and the
  results are never null at the callers; the pointers to the entry, the owner and the
  state are options where the code tests them.
\<close>

definition sizeof_state :: nat where "sizeof_state = 96"

definition err_unrecover :: "state_func \<Rightarrow> states \<Rightarrow> states" where
  "err_unrecover f s = s\<lparr>nb_err_unrecover := (nb_err_unrecover s)(f := nb_err_unrecover s f + 1)\<rparr>"

subsection \<open>Conflicts\<close>

definition share_clash :: "state_data \<Rightarrow> state_data \<Rightarrow> bool" where
  "share_clash d1 d2 =
     (case (d1, d2) of
        (Share s1, Share s2) \<Rightarrow> share_access s1 AND share_deny s2 \<noteq> 0 \<or> share_deny s1 AND share_access s2 \<noteq> 0
      | _ \<Rightarrow> False)"

text \<open>The branch for shares has no \<open>break\<close>: it falls through to the one for locks.\<close>

definition cache_inode_state_conflict :: "nfs_state option \<Rightarrow> state_type \<Rightarrow> state_data option \<Rightarrow> bool" where
  "cache_inode_state_conflict pstate st pstate_data =
     (case (pstate, pstate_data) of
        (Some s, Some d) \<Rightarrow>
          (case st of
             CACHE_INODE_STATE_NONE \<Rightarrow> False
           | CACHE_INODE_STATE_SHARE \<Rightarrow>
               (let rc = state_type s = CACHE_INODE_STATE_SHARE \<and> share_clash (state_data s) d;
                    rc = False
                in rc)
           | CACHE_INODE_STATE_LOCK \<Rightarrow> False
           | CACHE_INODE_STATE_LAYOUT \<Rightarrow> False
           | CACHE_INODE_STATE_DELEG \<Rightarrow> True)
      | _ \<Rightarrow> True)"

subsection \<open>Adding a state\<close>

text \<open>The loop over the list: whether a conflict was found, and the last state seen before it.\<close>

partial_function (option) browse ::
  "(addr \<Rightarrow> nfs_state) \<Rightarrow> state_type \<Rightarrow> state_data \<Rightarrow> addr option \<Rightarrow> addr option \<Rightarrow> (bool \<times> addr option) option" where
  "browse h st d piter_saved piter_state =
     (case piter_state of
        None \<Rightarrow> Some (False, piter_saved)
      | Some a \<Rightarrow>
          if cache_inode_state_conflict (Some (h a)) st (Some d) then Some (True, piter_saved)
          else browse h st d (Some a) (snext (h a)))"

declare browse.simps [code]

definition fill_state :: "u8 list \<Rightarrow> state_type \<Rightarrow> state_data \<Rightarrow> addr \<Rightarrow> addr \<Rightarrow> nfs_state \<Rightarrow> nfs_state" where
  "fill_state other st d e own r =
     r\<lparr>stateid_other := other, state_type := st, state_data := d, sseqid := 0, spentry := Some e, powner := own\<rparr>"

definition set_links :: "addr option \<Rightarrow> addr option \<Rightarrow> nfs_state \<Rightarrow> nfs_state" where
  "set_links nx pv r = r\<lparr>snext := nx, sprev := pv\<rparr>"

text \<open>The end of the operation: the state enters the table of stateids.\<close>

definition publish_state :: "states \<Rightarrow> addr \<Rightarrow> (cache_inode_status \<times> addr option \<times> states) option" where
  "publish_state s pnew = do {
     (ok, s') \<leftarrow> nfs4_State_Set s (stateid_other (sheap s pnew)) pnew;
     Some (if \<not> ok then (CACHE_INODE_STATE_ERROR, None, err_unrecover ADD_STATE s')
           else (CACHE_INODE_SUCCESS, Some pnew, s')) }"

definition add_first :: "(u8 list \<Rightarrow> u64 option) \<Rightarrow> u64 \<Rightarrow> (addr \<Rightarrow> open_owner) \<Rightarrow> states \<Rightarrow> addr \<Rightarrow> state_type \<Rightarrow> state_data \<Rightarrow> addr \<Rightarrow> addr
    \<Rightarrow> (cache_inode_status \<times> addr option \<times> states) option" where
  "add_first FSAL_DigestHandle ServerBootTime owner s e st d own pnew =
     (let s1 = s\<lparr>sheap := (sheap s)(pnew := set_links None None (sheap s pnew))\<rparr>
      in case nfs4_BuildStateId_Other FSAL_DigestHandle ServerBootTime (Some (entries s e)) (Some (owner own)) of
           None \<Rightarrow> Some (CACHE_INODE_STATE_ERROR, None, err_unrecover ADD_STATE s1)
         | Some other \<Rightarrow>
             publish_state (s1\<lparr>sheap := (sheap s1)(pnew := fill_state other st d e own (sheap s1 pnew)),
                               entries := (entries s)(e := (entries s e)\<lparr>pstate_head := Some pnew\<rparr>)\<rparr>) pnew)"

definition add_next :: "(u8 list \<Rightarrow> u64 option) \<Rightarrow> u64 \<Rightarrow> (addr \<Rightarrow> open_owner) \<Rightarrow> states \<Rightarrow> addr \<Rightarrow> state_type \<Rightarrow> state_data \<Rightarrow> addr \<Rightarrow> addr
    \<Rightarrow> (cache_inode_status \<times> addr option \<times> states) option" where
  "add_next FSAL_DigestHandle ServerBootTime owner s e st d own pnew = do {
     (conflict_found, piter_saved) \<leftarrow> browse (sheap s) st d None (pstate_head (entries s e));
     if conflict_found then Some (CACHE_INODE_STATE_CONFLICT, None, err_unrecover ADD_STATE s)
     else do {
       tail \<leftarrow> piter_saved;
       let h1 = (sheap s)(pnew := set_links None (Some tail) (sheap s pnew));
           s1 = s\<lparr>sheap := h1(tail := (h1 tail)\<lparr>snext := Some pnew\<rparr>)\<rparr>
       in case nfs4_BuildStateId_Other FSAL_DigestHandle ServerBootTime (Some (entries s e)) (Some (owner own)) of
            None \<Rightarrow> Some (CACHE_INODE_STATE_ERROR, None, err_unrecover ADD_STATE s1)
          | Some other \<Rightarrow>
              publish_state (s1\<lparr>sheap := (sheap s1)(pnew := fill_state other st d e own (sheap s1 pnew)),
                                entries := (entries s)(e := (entries s e)\<lparr>pstate_tail := Some pnew\<rparr>)\<rparr>) pnew } }"

definition cache_inode_add_state :: "(u8 list \<Rightarrow> u64 option) \<Rightarrow> u64 \<Rightarrow> (addr \<Rightarrow> open_owner) \<Rightarrow> states \<Rightarrow> addr option \<Rightarrow> state_type \<Rightarrow> state_data \<Rightarrow> addr option
    \<Rightarrow> (cache_inode_status \<times> addr option \<times> states) option" where
  "cache_inode_add_state FSAL_DigestHandle ServerBootTime owner s pentry st d powner_input =
     (case (pentry, powner_input) of
        (Some e, Some own) \<Rightarrow>
          if entry_type (entries s e) \<noteq> REGULAR_FILE then Some (CACHE_INODE_INVALID_ARGUMENT, None, s)
          else (case GET_PREALLOC (smem s) (pool_state_v4 s) (unat (nb_pre_state_v4 s)) sizeof_state of
                  (None, pool, m) \<Rightarrow>
                    Some (CACHE_INODE_MALLOC_ERROR, None, err_unrecover ADD_STATE (s\<lparr>smem := m, pool_state_v4 := pool\<rparr>))
                | (Some pnew, pool, m) \<Rightarrow>
                    let s1 = s\<lparr>smem := m, pool_state_v4 := pool\<rparr>
                    in if pstate_head (entries s e) = None
                       then add_first FSAL_DigestHandle ServerBootTime owner s1 e st d own pnew
                       else add_next FSAL_DigestHandle ServerBootTime owner s1 e st d own pnew)
      | _ \<Rightarrow> Some (CACHE_INODE_INVALID_ARGUMENT, None, s))"

subsection \<open>Finding and updating a state\<close>

definition cache_inode_get_state :: "states \<Rightarrow> u8 list \<Rightarrow> (cache_inode_status \<times> addr option \<times> states) option" where
  "cache_inode_get_state s other = do {
     (p, s1) \<leftarrow> nfs4_State_Get_Pointer s other;
     Some (case p of
             None \<Rightarrow> (CACHE_INODE_NOT_FOUND, None, err_unrecover GET_STATE s1)
           | Some a \<Rightarrow> (CACHE_INODE_SUCCESS, Some a, s1)) }"

definition cache_inode_update_state :: "states \<Rightarrow> addr option \<Rightarrow> (cache_inode_status \<times> states) option" where
  "cache_inode_update_state s pstate =
     (case pstate of
        None \<Rightarrow> Some (CACHE_INODE_INVALID_ARGUMENT, s)
      | Some a \<Rightarrow> do {
          (ok, s1) \<leftarrow> nfs4_State_Update s (stateid_other (sheap s a)) (sheap s a);
          Some (if \<not> ok then (CACHE_INODE_STATE_ERROR, err_unrecover UPDATE_STATE s1) else (CACHE_INODE_SUCCESS, s1)) })"

subsection \<open>Removing a state\<close>

definition unlink_state :: "states \<Rightarrow> addr \<Rightarrow> states option" where
  "unlink_state s p = do {
     e \<leftarrow> spentry (sheap s p);
     let en = (if pstate_head (entries s e) = Some p
               then (if snext (sheap s p) = None
                     then (entries s)(e := (entries s e)\<lparr>pstate_head := None\<rparr>)
                     else (entries s)(e := (entries s e)\<lparr>pstate_head := snext (sheap s p)\<rparr>))
               else entries s);
         h0 = sheap s;
         h1 = (case snext (h0 p) of None \<Rightarrow> h0 | Some n \<Rightarrow> h0(n := (h0 n)\<lparr>sprev := sprev (h0 p)\<rparr>));
         h2 = (case sprev (h1 p) of None \<Rightarrow> h1 | Some n \<Rightarrow> h1(n := (h1 n)\<lparr>snext := snext (h1 p)\<rparr>))
     in Some (s\<lparr>entries := en, sheap := h2\<rparr>) }"

definition reset_state :: "states \<Rightarrow> addr \<Rightarrow> states" where
  "reset_state s p =
     s\<lparr>sheap := (sheap s)(p := (sheap s p)\<lparr>stateid_other := replicate 12 0, state_type := CACHE_INODE_STATE_NONE,
                                 snext := None, sprev := None, spentry := None\<rparr>),
       pool_state_v4 := RELEASE_PREALLOC p (pool_state_v4 s)\<rparr>"

text \<open>From \<open>nfs4_State_Del\<close> to the end, the same in both functions.\<close>

definition drop_state :: "states \<Rightarrow> addr \<Rightarrow> (cache_inode_status \<times> states) option" where
  "drop_state s p = do {
     (ok, s1) \<leftarrow> nfs4_State_Del s (stateid_other (sheap s p));
     Some (if \<not> ok then (CACHE_INODE_STATE_ERROR, err_unrecover DEL_STATE s1)
           else (CACHE_INODE_SUCCESS, reset_state s1 p)) }"

definition cache_inode_del_state_by_key :: "states \<Rightarrow> u8 list \<Rightarrow> (cache_inode_status \<times> states) option" where
  "cache_inode_del_state_by_key s other = do {
     (p, s1) \<leftarrow> nfs4_State_Get_Pointer s other;
     (case p of
        None \<Rightarrow> Some (CACHE_INODE_NOT_FOUND, err_unrecover DEL_STATE s1)
      | Some a \<Rightarrow> do {
          s2 \<leftarrow> unlink_state s1 a;
          if take 12 (stateid_other (sheap s2 a)) = take 12 other then drop_state s2 a
          else Some (CACHE_INODE_SUCCESS, s2) }) }"

definition cache_inode_del_state :: "states \<Rightarrow> addr option \<Rightarrow> (cache_inode_status \<times> states) option" where
  "cache_inode_del_state s pstate =
     (case pstate of
        None \<Rightarrow> Some (CACHE_INODE_INVALID_ARGUMENT, s)
      | Some a \<Rightarrow> do {
          (ptest_state, s1) \<leftarrow> nfs4_State_Get_Pointer s (stateid_other (sheap s a));
          (case ptest_state of
             None \<Rightarrow> Some (CACHE_INODE_NOT_FOUND, err_unrecover DEL_STATE s1)
           | Some _ \<Rightarrow> do { s2 \<leftarrow> unlink_state s1 a; drop_state s2 a }) })"

subsection \<open>Iterating over the states of a file\<close>

text \<open>
  The status is written on the error paths only; on success the caller's variable keeps the
  value \<open>status\<close> it had.  The second component is what is stored in \<open>*ppstate\<close>, if anything.
\<close>

definition cache_inode_state_iterate :: "(u8 list \<Rightarrow> u64 option) \<Rightarrow> states \<Rightarrow> addr option \<Rightarrow> addr option \<Rightarrow> cache_inode_status
    \<Rightarrow> cache_inode_status \<times> addr option option" where
  "cache_inode_state_iterate FSAL_DigestHandle s pentry previous_pstate status =
     (case pentry of
        None \<Rightarrow> (CACHE_INODE_INVALID_ARGUMENT, None)
      | Some e \<Rightarrow>
          if FSAL_DigestHandle (handle (entries s e)) = None then (CACHE_INODE_STATE_ERROR, None)
          else (case previous_pstate of
                  None \<Rightarrow> (status, Some (pstate_head (entries s e)))
                | Some p \<Rightarrow>
                    if spentry (sheap s p) \<noteq> Some e then (CACHE_INODE_STATE_ERROR, None)
                    else (status, Some (snext (sheap s p)))))"

subsection \<open>The list of a file\<close>

definition first :: "addr list \<Rightarrow> addr option \<Rightarrow> addr option" where
  "first xs q = (case xs of [] \<Rightarrow> q | a # _ \<Rightarrow> Some a)"

definition final :: "addr list \<Rightarrow> addr option \<Rightarrow> addr option" where
  "final xs p = (if xs = [] then p else Some (last xs))"

lemma ends_of_list [simp]:
  "first [] q = q" "first (a # xs) q = Some a" "final [] p = p" "final (xs @ [a]) p = Some a" "final [a] p = Some a"
  by (simp_all add: first_def final_def)

lemma first_append [simp]: "first (xs @ ys) q = first xs (first ys q)"
  by (cases xs) simp_all

lemma final_Cons: "final (a # xs) p = final xs (Some a)"
  by (simp add: final_def)

text \<open>The states \<open>xs\<close> are chained in both directions, between \<open>p\<close> and \<open>q\<close>.\<close>

fun sseg :: "(addr \<Rightarrow> nfs_state) \<Rightarrow> addr option \<Rightarrow> addr list \<Rightarrow> addr option \<Rightarrow> bool" where
  "sseg h p [] q = True"
| "sseg h p (a # xs) q \<longleftrightarrow> sprev (h a) = p \<and> snext (h a) = first xs q \<and> sseg h (Some a) xs q"

lemma sseg_append: "sseg h p (xs @ ys) q \<longleftrightarrow> sseg h p xs (first ys q) \<and> sseg h (final xs p) ys q"
  by (induction xs arbitrary: p) (auto simp: final_Cons)

lemma sseg_cong:
  "(\<And>a. a \<in> set xs \<Longrightarrow> snext (h' a) = snext (h a) \<and> sprev (h' a) = sprev (h a)) \<Longrightarrow> sseg h' p xs q = sseg h p xs q"
  by (induction xs arbitrary: p) auto

definition list_ok :: "(addr \<Rightarrow> nfs_state) \<Rightarrow> file_entry \<Rightarrow> addr \<Rightarrow> addr list \<Rightarrow> bool" where
  "list_ok h en e xs \<longleftrightarrow> sseg h None xs None \<and> pstate_head en = first xs None \<and> distinct xs
     \<and> (xs \<noteq> [] \<longrightarrow> entry_type en = REGULAR_FILE) \<and> (\<forall>a\<in>set xs. spentry (h a) = Some e)"

definition live :: "(addr \<Rightarrow> addr list) \<Rightarrow> addr set" where
  "live L = (\<Union>e. set (L e))"

definition lookups_ok :: "(addr \<Rightarrow> addr list) \<Rightarrow> states \<Rightarrow> bool" where
  "lookups_ok L s \<longleftrightarrow> (\<forall>k a. state_at s k = Some a \<longrightarrow> a \<in> live L \<and> same12 (stateid_other (sheap s a)) k)"

text \<open>
  The invariant.  \<open>L e\<close> are the states of the file \<open>e\<close> in order; the table of stateids points to
  states of the lists only, each under its own stateid; the pool is disjoint from the lists.
\<close>

definition states_inv :: "(addr \<Rightarrow> addr list) \<Rightarrow> states \<Rightarrow> bool" where
  "states_inv L s \<longleftrightarrow> table_inv s \<and> (\<forall>e. list_ok (sheap s) (entries s e) e (L e)) \<and> lookups_ok L s
     \<and> pool_inv (smem s) (live L) (pool_state_v4 s)"

lemma states_inv_D:
  assumes "states_inv L s"
  shows "table_inv s" "list_ok (sheap s) (entries s e) e (L e)" "lookups_ok L s"
    "pool_inv (smem s) (live L) (pool_state_v4 s)"
  using assms by (auto simp: states_inv_def)

lemma states_inv_err [simp]: "states_inv L (err_unrecover f s) = states_inv L s"
  by (simp add: states_inv_def err_unrecover_def table_inv_def lookups_ok_def)

lemma live_apart: "states_inv L s \<Longrightarrow> a \<in> set (L e) \<Longrightarrow> e' \<noteq> e \<Longrightarrow> a \<notin> set (L e')"
  using states_inv_D(2) [of L s e] states_inv_D(2) [of L s e'] by (fastforce simp: list_ok_def)

lemma list_ok_cong:
  assumes "\<And>a. a \<in> set xs \<Longrightarrow> snext (h' a) = snext (h a) \<and> sprev (h' a) = sprev (h a) \<and> spentry (h' a) = spentry (h a)"
    and "pstate_head en' = pstate_head en" "entry_type en' = entry_type en"
  shows "list_ok h' en' e xs = list_ok h en e xs"
  using assms sseg_cong [of xs h' h None None] by (auto simp: list_ok_def)

lemma conflict_eq: "cache_inode_state_conflict (Some r) st (Some d) \<longleftrightarrow> st = CACHE_INODE_STATE_DELEG"
  by (cases st) (simp_all add: cache_inode_state_conflict_def)

text \<open>The loop over the list returns: at the first state for a delegation, at the end otherwise.\<close>

lemma browse_list:
  "sseg h pv xs None \<Longrightarrow> browse h st d pv (first xs None) =
     Some (if st = CACHE_INODE_STATE_DELEG \<and> xs \<noteq> [] then (True, pv) else (False, final xs pv))"
proof (induction xs arbitrary: pv)
  case Nil
  then show ?case by (simp add: browse.simps)
next
  case (Cons a xs)
  then show ?case by (simp add: browse.simps [of h st d pv] conflict_eq final_Cons)
qed

subsection \<open>Adding a state\<close>

text \<open>A new state \<open>p\<close> has been taken from the pool and is in no list yet.\<close>

definition with_new :: "(addr \<Rightarrow> addr list) \<Rightarrow> states \<Rightarrow> addr \<Rightarrow> bool" where
  "with_new L s p \<longleftrightarrow> states_inv L s \<and> p \<notin> live L \<and> pool_inv (smem s) (insert p (live L)) (pool_state_v4 s)"

lemma states_inv_mem_pool:
  assumes "states_inv L s" "mem_grows (smem s) m" "pool_inv m (live L) pool"
  shows "states_inv L (s\<lparr>smem := m, pool_state_v4 := pool\<rparr>)"
  using assms by (auto simp: states_inv_def table_inv_def lookups_ok_def intro: ht_inv_grows)

lemma get_new_state:
  assumes inv: "states_inv L s" and get: "GET_PREALLOC (smem s) (pool_state_v4 s) nb sz = (r, pool, m)"
  shows "case r of None \<Rightarrow> states_inv L (s\<lparr>smem := m, pool_state_v4 := pool\<rparr>)
     | Some p \<Rightarrow> with_new L (s\<lparr>smem := m, pool_state_v4 := pool\<rparr>) p"
proof (cases r)
  case None
  have "pool_inv m (live L) pool" using stuff.get_none states_inv_D(4) [OF inv] get None by blast
  with None states_inv_mem_pool [OF inv stuff.get_grows [OF get]] show ?thesis by simp
next
  case (Some p)
  have p: "p \<notin> live L" "pool_inv m (insert p (live L)) pool"
    using stuff.get_some [OF states_inv_D(4) [OF inv]] get Some by blast+
  then have "pool_inv m (live L) pool" by (auto simp: pool_inv_def)
  with Some p states_inv_mem_pool [OF inv stuff.get_grows [OF get]] show ?thesis by (simp add: with_new_def)
qed

lemma live_append: "live (L(e := L e @ [p])) = insert p (live L)"
  by (auto simp: live_def split: if_splits)

lemma states_inv_outside:
  assumes "states_inv L s" and "p \<notin> live L"
  shows "states_inv L (s\<lparr>sheap := (sheap s)(p := r)\<rparr>)"
proof -
  have "list_ok ((sheap s)(p := r)) (entries s e) e (L e) = list_ok (sheap s) (entries s e) e (L e)" for e
    by (rule list_ok_cong) (use assms(2) in \<open>auto simp: live_def\<close>)
  then show ?thesis using assms by (auto simp: states_inv_def lookups_ok_def table_inv_def)
qed

text \<open>The list of \<open>e\<close> after \<open>p\<close> has been linked behind its last state.\<close>

lemma list_ok_append:
  assumes "list_ok h en e xs" "p \<notin> set xs" "entry_type en' = REGULAR_FILE"
    and "sprev (h' p) = final xs None" "snext (h' p) = None" "spentry (h' p) = Some e"
    and "\<And>a. a \<in> set xs \<Longrightarrow> sprev (h' a) = sprev (h a) \<and> spentry (h' a) = spentry (h a)
        \<and> snext (h' a) = (if a = last xs then Some p else snext (h a))"
    and "pstate_head en' = (if xs = [] then Some p else pstate_head en)"
  shows "list_ok h' en' e (xs @ [p])"
proof (cases xs rule: rev_cases)
  case Nil
  with assms show ?thesis by (simp add: list_ok_def)
next
  case (snoc ys z)
  with assms(1) have s: "sseg h None ys (Some z)" "sprev (h z) = final ys None" "z \<notin> set ys"
    by (simp_all add: list_ok_def sseg_append)
  have "snext (h' a) = snext (h a) \<and> sprev (h' a) = sprev (h a)" if "a \<in> set ys" for a
  proof -
    have "a \<noteq> z" using that s(3) by blast
    with assms(7) [of a] that snoc show ?thesis by simp
  qed
  then have "sseg h' None ys (Some z)" using s(1) sseg_cong [of ys h' h None "Some z"] by simp
  then show ?thesis using assms s snoc by (auto simp: list_ok_def sseg_append)
qed

lemma states_inv_append:
  assumes new: "with_new L s p" and reg: "entry_type (entries s e) = REGULAR_FILE"
    and p: "sprev (h' p) = final (L e) None" "snext (h' p) = None" "spentry (h' p) = Some e"
    and old: "\<And>a. a \<noteq> p \<Longrightarrow> h' a = (if L e \<noteq> [] \<and> a = last (L e) then (sheap s a)\<lparr>snext := Some p\<rparr> else sheap s a)"
    and en: "en' = (entries s)(e := x)" "entry_type x = REGULAR_FILE" "pstate_head x = (if L e = [] then Some p else pstate_head (entries s e))"
  shows "states_inv (L(e := L e @ [p])) (s\<lparr>sheap := h', entries := en'\<rparr>)"
proof -
  from new have inv: "states_inv L s" and np: "p \<notin> live L" and pool: "pool_inv (smem s) (insert p (live L)) (pool_state_v4 s)"
    by (auto simp: with_new_def)
  have fields: "sprev (h' a) = sprev (sheap s a) \<and> spentry (h' a) = spentry (sheap s a) \<and> stateid_other (h' a) = stateid_other (sheap s a)
      \<and> snext (h' a) = (if L e \<noteq> [] \<and> a = last (L e) then Some p else snext (sheap s a))" if "a \<in> live L" for a
  proof -
    have "a \<noteq> p" using that np by blast
    from old [OF this] show ?thesis by simp
  qed
  have inL: "a \<in> set (L k) \<Longrightarrow> a \<in> live L" for a k by (auto simp: live_def)
  have "list_ok h' x e (L e @ [p])"
    by (rule list_ok_append [OF states_inv_D(2) [OF inv, of e]]) (use p en np fields inL in \<open>auto split: if_splits\<close>)
  moreover have "list_ok h' (entries s k) k (L k)" if "k \<noteq> e" for k
  proof -
    have "a \<noteq> last (L e)" if "L e \<noteq> []" "a \<in> set (L k)" for a
      using live_apart [OF inv, of "last (L e)" e k] that \<open>k \<noteq> e\<close> by auto
    with fields inL have "list_ok h' (entries s k) k (L k) = list_ok (sheap s) (entries s k) k (L k)"
      by (intro list_ok_cong) auto
    with states_inv_D(2) [OF inv, of k] show ?thesis by simp
  qed
  moreover have "lookups_ok (L(e := L e @ [p])) (s\<lparr>sheap := h', entries := en'\<rparr>)"
    using states_inv_D(3) [OF inv] fields by (auto simp: lookups_ok_def live_append)
  ultimately show ?thesis
    using states_inv_D(1) [OF inv] pool en(1) by (auto simp: states_inv_def table_inv_def live_append)
qed

lemma publish_correct:
  assumes inv: "states_inv L s" and p: "p \<in> live L"
  shows "\<exists>ok s'. publish_state s p = Some (if ok then (CACHE_INODE_SUCCESS, Some p, s') else (CACHE_INODE_STATE_ERROR, None, s'))
     \<and> states_inv L s' \<and> sheap s' = sheap s \<and> entries s' = entries s
     \<and> state_at s' = (if ok then upd_map same12 (state_at s) (stateid_other (sheap s p)) (Some p) else state_at s)"
proof (rule State_Set_correct [OF states_inv_D(1) [OF inv], of "stateid_other (sheap s p)" p])
  fix ok m t
  assume set: "nfs4_State_Set s (stateid_other (sheap s p)) p = Some (ok, s\<lparr>smem := m, ht_state_id := t\<rparr>)" "mem_grows (smem s) m"
    and t: "ht_lookup t = (if ok then upd_map same12 (state_at s) (stateid_other (sheap s p)) (Some p) else state_at s)"
      "table_inv (s\<lparr>smem := m, ht_state_id := t\<rparr>)"
  let ?s = "s\<lparr>smem := m, ht_state_id := t\<rparr>"
  have "lookups_ok L ?s" using states_inv_D(3) [OF inv] p by (auto simp: lookups_ok_def t(1) upd_map_def same12_def)
  then have i: "states_inv L ?s"
    using inv t(2) pool_inv_grows [OF states_inv_D(4) [OF inv] set(2)] by (simp add: states_inv_def)
  show ?thesis
  proof (cases ok)
    case True
    then show ?thesis using i set(1) t(1) by (intro exI [of _ True] exI [of _ ?s]) (simp add: publish_state_def)
  next
    case False
    have "sheap (err_unrecover f x) = sheap x" "entries (err_unrecover f x) = entries x" "state_at (err_unrecover f x) = state_at x" for f x
      by (simp_all add: err_unrecover_def)
    with False show ?thesis using i set(1) t(1)
      by (intro exI [of _ False] exI [of _ "err_unrecover ADD_STATE ?s"]) (simp add: publish_state_def)
  qed
qed

text \<open>Two records of a state that differ in their links only.\<close>

definition same_state :: "nfs_state \<Rightarrow> nfs_state \<Rightarrow> bool" where
  "same_state r r' \<longleftrightarrow> set_links None None r = set_links None None r'"

lemma same_state_refl [simp]: "same_state r r" "same_state (r\<lparr>snext := n\<rparr>) r" "same_state (r\<lparr>sprev := n\<rparr>) r"
  by (simp_all add: same_state_def set_links_def)

text \<open>What the operation promises, by the status it returns.\<close>

definition add_post :: "(addr \<Rightarrow> addr list) \<Rightarrow> states \<Rightarrow> addr \<Rightarrow> state_type \<Rightarrow> state_data \<Rightarrow> addr \<Rightarrow> u8 list \<Rightarrow> cache_inode_status \<Rightarrow> addr option \<Rightarrow> states \<Rightarrow> bool" where
  "add_post L s e st d own other status r s' \<longleftrightarrow>
     (\<forall>a\<in>live L. same_state (sheap s' a) (sheap s a))
     \<and> (case status of
          CACHE_INODE_SUCCESS \<Rightarrow> (\<exists>p. r = Some p \<and> p \<notin> live L \<and> states_inv (L(e := L e @ [p])) s'
            \<and> state_at s' = upd_map same12 (state_at s) other (Some p)
            \<and> state_type (sheap s' p) = st \<and> state_data (sheap s' p) = d \<and> powner (sheap s' p) = own
            \<and> sseqid (sheap s' p) = 0 \<and> stateid_other (sheap s' p) = other)
        | CACHE_INODE_STATE_CONFLICT \<Rightarrow> st = CACHE_INODE_STATE_DELEG \<and> L e \<noteq> [] \<and> states_inv L s' \<and> state_at s' = state_at s
        | CACHE_INODE_MALLOC_ERROR \<Rightarrow> states_inv L s' \<and> state_at s' = state_at s
        | CACHE_INODE_STATE_ERROR \<Rightarrow> (\<exists>p. states_inv (L(e := L e @ [p])) s' \<and> state_type (sheap s' p) = st \<and> state_data (sheap s' p) = d) \<and> state_at s' = state_at s
        | _ \<Rightarrow> False)"

lemma published_post:
  assumes new: "with_new L s p" and reg: "entry_type (entries s e) = REGULAR_FILE"
    and h': "h' p = set_links None (final (L e) None) (fill_state other st d e own r)"
    and old: "\<And>a. a \<noteq> p \<Longrightarrow> h' a = (if L e \<noteq> [] \<and> a = last (L e) then (sheap s a)\<lparr>snext := Some p\<rparr> else sheap s a)"
    and en: "en' = (entries s)(e := x)" "entry_type x = REGULAR_FILE" "pstate_head x = (if L e = [] then Some p else pstate_head (entries s e))"
  shows "\<exists>status q s'. publish_state (s\<lparr>sheap := h', entries := en'\<rparr>) p = Some (status, q, s') \<and> add_post L s e st d own other status q s'"
proof -
  let ?s = "s\<lparr>sheap := h', entries := en'\<rparr>" and ?L = "L(e := L e @ [p])"
  have f: "sprev (h' p) = final (L e) None" "snext (h' p) = None" "spentry (h' p) = Some e" "stateid_other (h' p) = other"
    "state_type (h' p) = st" "state_data (h' p) = d" "powner (h' p) = own" "sseqid (h' p) = 0"
    by (simp_all add: h' set_links_def fill_state_def)
  have inv: "states_inv ?L ?s" by (rule states_inv_append [OF new reg f(1-3) old en])
  have np: "p \<notin> live L" using new by (simp add: with_new_def)
  have same: "\<forall>a\<in>live L. same_state (h' a) (sheap s a)"
  proof
    fix a
    assume "a \<in> live L"
    with np have "a \<noteq> p" by blast
    from old [OF this] show "same_state (h' a) (sheap s a)" by simp
  qed
  have "p \<in> live ?L" by (simp add: live_append)
  then obtain ok s' where
    pub: "publish_state ?s p = Some (if ok then (CACHE_INODE_SUCCESS, Some p, s') else (CACHE_INODE_STATE_ERROR, None, s'))"
    "states_inv ?L s'" "sheap s' = sheap ?s"
    "state_at s' = (if ok then upd_map same12 (state_at ?s) (stateid_other (sheap ?s p)) (Some p) else state_at ?s)"
    using publish_correct [OF inv] by blast
  have h: "sheap s' = h'" and at: "state_at s' = (if ok then upd_map same12 (state_at s) other (Some p) else state_at s)"
    using pub(3,4) f(4) by simp_all
  show ?thesis
  proof (cases ok)
    case True
    with pub(1,2) h at np same f show ?thesis by (simp add: add_post_def)
  next
    case False
    with pub(1,2) h at same f show ?thesis by (auto simp: add_post_def)
  qed
qed

lemma err_fields [simp]:
  "sheap (err_unrecover f s) = sheap s" "entries (err_unrecover f s) = entries s" "ht_state_id (err_unrecover f s) = ht_state_id s"
  by (simp_all add: err_unrecover_def)

lemma add_first_post:
  assumes new: "with_new L s p" and reg: "entry_type (entries s e) = REGULAR_FILE" and empty: "L e = []"
    and build: "nfs4_BuildStateId_Other dig boot (Some (entries s e)) (Some (owner own)) = Some other"
  shows "\<exists>status q s'. add_first dig boot owner s e st d own p = Some (status, q, s') \<and> add_post L s e st d own other status q s'"
proof -
  let ?h = "((sheap s)(p := set_links None None (sheap s p)))(p := fill_state other st d e own (set_links None None (sheap s p)))"
  let ?en = "(entries s)(e := (entries s e)\<lparr>pstate_head := Some p\<rparr>)"
  have "\<exists>status q s'. publish_state (s\<lparr>sheap := ?h, entries := ?en\<rparr>) p = Some (status, q, s') \<and> add_post L s e st d own other status q s'"
    by (rule published_post [OF new reg, where r = "sheap s p" and x = "(entries s e)\<lparr>pstate_head := Some p\<rparr>"])
      (use empty reg in \<open>simp_all add: set_links_def fill_state_def\<close>)
  then show ?thesis by (simp add: add_first_def build Let_def)
qed

lemma add_next_post:
  assumes new: "with_new L s p" and reg: "entry_type (entries s e) = REGULAR_FILE" and some: "L e \<noteq> []"
    and build: "nfs4_BuildStateId_Other dig boot (Some (entries s e)) (Some (owner own)) = Some other"
  shows "\<exists>status q s'. add_next dig boot owner s e st d own p = Some (status, q, s') \<and> add_post L s e st d own other status q s'"
proof -
  from new have inv: "states_inv L s" and np: "p \<notin> live L" by (auto simp: with_new_def)
  have l: "sseg (sheap s) None (L e) None" "pstate_head (entries s e) = first (L e) None"
    using states_inv_D(2) [OF inv, of e] by (auto simp: list_ok_def)
  note br = browse_list [OF l(1), of st d, folded l(2)]
  show ?thesis
  proof (cases "st = CACHE_INODE_STATE_DELEG")
    case True
    with br some inv show ?thesis by (simp add: add_next_def add_post_def)
  next
    case False
    let ?t = "last (L e)"
    have tp: "?t \<noteq> p" using np last_in_set [OF some] by (auto simp: live_def)
    let ?h1 = "(sheap s)(p := set_links None (Some ?t) (sheap s p))"
    let ?h2 = "?h1(?t := (?h1 ?t)\<lparr>snext := Some p\<rparr>)"
    let ?h = "?h2(p := fill_state other st d e own (?h2 p))"
    let ?en = "(entries s)(e := (entries s e)\<lparr>pstate_tail := Some p\<rparr>)"
    have "\<exists>status q s'. publish_state (s\<lparr>sheap := ?h, entries := ?en\<rparr>) p = Some (status, q, s') \<and> add_post L s e st d own other status q s'"
      by (rule published_post [OF new reg, where r = "sheap s p" and x = "(entries s e)\<lparr>pstate_tail := Some p\<rparr>"])
        (use some reg tp in \<open>simp_all add: final_def set_links_def fill_state_def\<close>)
    with br some False build tp tp [symmetric] show ?thesis by (simp add: add_next_def final_def Let_def)
  qed
qed

lemma add_state_post:
  assumes inv: "states_inv L s" and reg: "entry_type (entries s e) = REGULAR_FILE"
    and build: "nfs4_BuildStateId_Other dig boot (Some (entries s e)) (Some (owner own)) = Some other"
  shows "\<exists>status q s'. cache_inode_add_state dig boot owner s (Some e) st d (Some own) = Some (status, q, s')
     \<and> add_post L s e st d own other status q s'"
proof -
  obtain r pool m where get: "GET_PREALLOC (smem s) (pool_state_v4 s) (unat (nb_pre_state_v4 s)) sizeof_state = (r, pool, m)"
    by (cases "GET_PREALLOC (smem s) (pool_state_v4 s) (unat (nb_pre_state_v4 s)) sizeof_state")
  let ?s = "s\<lparr>smem := m, pool_state_v4 := pool\<rparr>"
  have post: "add_post L ?s e st d own other status q s' = add_post L s e st d own other status q s'" for status q s'
    by (cases status) (simp_all add: add_post_def)
  have head: "pstate_head (entries s e) = None \<longleftrightarrow> L e = []"
    using states_inv_D(2) [OF inv, of e] by (cases "L e") (auto simp: list_ok_def)
  show ?thesis
  proof (cases r)
    case None
    with get_new_state [OF inv get] have "states_inv L ?s" by simp
    with None get reg show ?thesis by (simp add: cache_inode_add_state_def add_post_def)
  next
    case (Some p)
    with get_new_state [OF inv get] have new: "with_new L ?s p" by simp
    show ?thesis
    proof (cases "L e = []")
      case True
      with add_first_post [OF new, of e dig boot owner own other st d] reg build get Some head show ?thesis
        by (simp add: cache_inode_add_state_def post)
    next
      case False
      with add_next_post [OF new, of e dig boot owner own other st d] reg build get Some head show ?thesis
        by (auto simp: cache_inode_add_state_def post)
    qed
  qed
qed

subsection \<open>Removing a state\<close>

lemma sseg_relink_end:
  assumes "sseg h p ys q" "distinct ys"
    and "\<And>a. a \<in> set ys \<Longrightarrow> sprev (h' a) = sprev (h a) \<and> snext (h' a) = (if a = last ys then q' else snext (h a))"
  shows "sseg h' p ys q'"
  using assms
proof (induction ys arbitrary: p)
  case (Cons a ys)
  show ?case
  proof (cases ys)
    case Nil
    with Cons.prems show ?thesis by simp
  next
    case (Cons b zs)
    have "sseg h' (Some a) ys q'"
    proof (rule Cons.IH)
      show "sseg h (Some a) ys q" "distinct ys" using Cons.prems by simp_all
      show "sprev (h' c) = sprev (h c) \<and> snext (h' c) = (if c = last ys then q' else snext (h c))" if "c \<in> set ys" for c
        using Cons.prems(3) [of c] that Cons by simp
    qed
    moreover have "a \<noteq> last ys" using Cons.prems(2) Cons by (metis distinct.simps(2) last_in_set list.distinct(1))
    ultimately show ?thesis using Cons.prems(1) Cons.prems(3) [of a] Cons by simp
  qed
qed simp

lemma sseg_relink_start:
  assumes "sseg h p zs q" "distinct zs"
    and "\<And>a. a \<in> set zs \<Longrightarrow> snext (h' a) = snext (h a) \<and> sprev (h' a) = (if Some a = first zs None then p' else sprev (h a))"
  shows "sseg h' p' zs q"
proof (cases zs)
  case (Cons a xs)
  have "sseg h' (Some a) xs q = sseg h (Some a) xs q"
    by (rule sseg_cong) (use assms(2,3) Cons in auto)
  with assms(1,3) Cons show ?thesis by simp
qed simp

text \<open>The heap after the two assignments that take \<open>p\<close> out of its list.\<close>

definition unlinked :: "(addr \<Rightarrow> nfs_state) \<Rightarrow> addr \<Rightarrow> addr \<Rightarrow> nfs_state" where
  "unlinked h p =
     (let h1 = (case snext (h p) of None \<Rightarrow> h | Some n \<Rightarrow> h(n := (h n)\<lparr>sprev := sprev (h p)\<rparr>))
      in case sprev (h1 p) of None \<Rightarrow> h1 | Some n \<Rightarrow> h1(n := (h1 n)\<lparr>snext := snext (h1 p)\<rparr>))"

lemma unlinked_fields:
  assumes "snext (h p) \<noteq> Some p" "sprev (h p) \<noteq> Some p"
  shows "unlinked h p p = h p" "same_state (unlinked h p a) (h a)"
    "snext (unlinked h p a) = (if sprev (h p) = Some a then snext (h p) else snext (h a))"
    "sprev (unlinked h p a) = (if snext (h p) = Some a then sprev (h p) else sprev (h a))"
proof -
  note splits = option.splits
  show "unlinked h p p = h p" using assms by (simp add: unlinked_def Let_def split: splits)
  show "same_state (unlinked h p a) (h a)" using assms
    by (simp add: unlinked_def Let_def same_state_def set_links_def split: splits)
  show "snext (unlinked h p a) = (if sprev (h p) = Some a then snext (h p) else snext (h a))"
    using assms by (auto simp: unlinked_def Let_def split: splits)
  show "sprev (unlinked h p a) = (if snext (h p) = Some a then sprev (h p) else sprev (h a))"
    using assms by (auto simp: unlinked_def Let_def split: splits)
qed

lemma same_state_fields:
  "same_state r r' \<Longrightarrow> spentry r = spentry r' \<and> stateid_other r = stateid_other r' \<and> state_type r = state_type r'
     \<and> state_data r = state_data r' \<and> powner r = powner r' \<and> sseqid r = sseqid r'"
  by (cases r; cases r') (simp add: same_state_def set_links_def)

lemma list_ok_unlink:
  assumes "list_ok h en e (ys @ p # zs)"
    and "pstate_head en' = (if ys = [] then snext (h p) else pstate_head en)" "entry_type en' = entry_type en"
  shows "list_ok (unlinked h p) en' e (ys @ zs)"
proof -
  from assms(1) have l: "sseg h None ys (Some p)" "sprev (h p) = final ys None" "snext (h p) = first zs None" "sseg h (Some p) zs None"
    and d: "distinct ys" "distinct zs" "set ys \<inter> set zs = {}" "p \<notin> set ys" "p \<notin> set zs"
    by (auto simp: list_ok_def sseg_append)
  have ends: "final ys None = Some a \<longleftrightarrow> ys \<noteq> [] \<and> a = last ys" "first zs None = Some a \<Longrightarrow> a \<in> set zs" for a
    by (auto simp: final_def first_def split: list.splits)
  have np: "snext (h p) \<noteq> Some p" "sprev (h p) \<noteq> Some p" using l(2,3) d(4,5) ends(1) [of p] ends(2) [of p] by auto
  note F = unlinked_fields [of h p, OF np, unfolded l(2,3)]
  have "sseg (unlinked h p) None ys (first zs None)"
  proof (rule sseg_relink_end [OF l(1) d(1)])
    fix a
    assume "a \<in> set ys"
    then have "first zs None \<noteq> Some a" "ys \<noteq> []" using d(3) ends(2) [of a] by auto
    then show "sprev (unlinked h p a) = sprev (h a) \<and> snext (unlinked h p a) = (if a = last ys then first zs None else snext (h a))"
      unfolding F(3,4) ends(1) by simp
  qed
  moreover have "sseg (unlinked h p) (final ys None) zs None"
  proof (rule sseg_relink_start [OF l(4) d(2)])
    fix a
    assume "a \<in> set zs"
    then have "final ys None \<noteq> Some a" using d(3) last_in_set [of ys] unfolding ends(1) by blast
    then show "snext (unlinked h p a) = snext (h a) \<and> sprev (unlinked h p a) = (if Some a = first zs None then final ys None else sprev (h a))"
      unfolding F(3,4) by (simp add: eq_commute)
  qed
  moreover have "spentry (unlinked h p a) = spentry (h a)" for a using same_state_fields [OF F(2) [of a]] by simp
  moreover have "pstate_head en' = first ys (first zs None)"
    using assms(1,2) l(3) by (cases ys) (simp_all add: list_ok_def)
  moreover have "\<forall>a\<in>set (ys @ zs). spentry (h a) = Some e" "entry_type en = REGULAR_FILE"
    using assms(1) unfolding list_ok_def by simp_all
  ultimately show ?thesis using assms(3) d by (simp add: list_ok_def sseg_append)
qed

lemma unlink_state_eq:
  assumes "spentry (sheap s p) = Some e"
  shows "unlink_state s p = Some (s\<lparr>entries := (if pstate_head (entries s e) = Some p
       then (entries s)(e := (entries s e)\<lparr>pstate_head := snext (sheap s p)\<rparr>) else entries s), sheap := unlinked (sheap s) p\<rparr>)"
  using assms by (simp add: unlink_state_def unlinked_def Let_def cong: if_cong option.case_cong)

lemma live_remove: "states_inv L s \<Longrightarrow> p \<in> set (L e) \<Longrightarrow> live (L(e := remove1 p (L e))) = live L - {p}"
  using states_inv_D(2) [of L s e] live_apart [of L s p e] by (auto simp: live_def list_ok_def split: if_splits)

text \<open>Taking \<open>p\<close> out of its list, out of the table and back into the pool.\<close>

lemma remove_correct:
  assumes inv: "states_inv L s" and p: "p \<in> set (L e)" and key: "state_at s (stateid_other (sheap s p)) \<noteq> None"
  shows "\<exists>s2 s'. unlink_state s p = Some s2 \<and> stateid_other (sheap s2 p) = stateid_other (sheap s p)
     \<and> drop_state s2 p = Some (CACHE_INODE_SUCCESS, s') \<and> states_inv (L(e := remove1 p (L e))) s'
     \<and> state_at s' = upd_map same12 (state_at s) (stateid_other (sheap s p)) None
     \<and> pool_state_v4 s' = p # pool_state_v4 s \<and> (\<forall>a. a \<noteq> p \<longrightarrow> same_state (sheap s' a) (sheap s a))"
proof -
  let ?h = "sheap s" and ?L = "L(e := remove1 p (L e))"
  note ok = states_inv_D(2) [OF inv]
  from p obtain ys zs where L: "L e = ys @ p # zs" by (auto dest: split_list)
  from ok [of e] have e: "spentry (?h p) = Some e" "p \<notin> set ys" "p \<notin> set zs" and hd: "pstate_head (entries s e) = first (L e) None"
    and lk: "snext (?h p) = first zs None" "sprev (?h p) = final ys None"
    by (auto simp: L list_ok_def sseg_append)
  have np: "snext (?h p) \<noteq> Some p" "sprev (?h p) \<noteq> Some p"
    using e(2,3) last_in_set [of ys] by (auto simp: lk first_def final_def split: list.splits)
  note F = unlinked_fields [of ?h p, OF np]
  have first: "pstate_head (entries s e) = Some p \<longleftrightarrow> ys = []" using hd e(2) by (cases ys) (auto simp: L)
  let ?en = "if pstate_head (entries s e) = Some p then (entries s)(e := (entries s e)\<lparr>pstate_head := snext (?h p)\<rparr>) else entries s"
  let ?s2 = "s\<lparr>entries := ?en, sheap := unlinked ?h p\<rparr>"
  have rem: "remove1 p (L e) = ys @ zs" using e(2) by (simp add: L remove1_append)
  have L': "list_ok (unlinked ?h p) (?en k) k (?L k)" for k
  proof (cases "k = e")
    case True
    have "list_ok (unlinked ?h p) (?en e) e (ys @ zs)"
      by (rule list_ok_unlink [OF ok [of e, unfolded L]]) (use first in auto)
    with True rem show ?thesis by simp
  next
    case False
    have "snext (?h p) \<noteq> Some a" "sprev (?h p) \<noteq> Some a" if "a \<in> set (L k)" for a
      using live_apart [OF inv that, of e] False last_in_set [of ys] by (auto simp: lk L first_def final_def split: list.splits)
    then have "list_ok (unlinked ?h p) (?en k) k (L k) = list_ok ?h (entries s k) k (L k)"
      by (intro list_ok_cong) (use False F(2-4) same_state_fields in auto)
    with ok [of k] False show ?thesis by simp
  qed
  have tab: "table_inv ?s2" using states_inv_D(1) [OF inv] by (rule table_inv_cong) simp_all
  have key2: "stateid_other (sheap ?s2 p) = stateid_other (?h p)" using F(1) by simp
  obtain t where d: "nfs4_State_Del ?s2 (stateid_other (?h p)) = Some (True, ?s2\<lparr>ht_state_id := t\<rparr>)"
    and t: "ht_lookup t = upd_map same12 (state_at s) (stateid_other (?h p)) None" "table_inv (?s2\<lparr>ht_state_id := t\<rparr>)"
    by (rule State_Del_correct [OF tab, of "stateid_other (?h p)"]) (use key in auto)
  let ?s' = "reset_state (?s2\<lparr>ht_state_id := t\<rparr>) p"
  have drop: "drop_state ?s2 p = Some (CACHE_INODE_SUCCESS, ?s')" using d key2 by (simp add: drop_state_def)
  have off: "\<forall>k. p \<notin> set (?L k)" using live_apart [OF inv p] rem e(2,3) by simp
  have away: "sheap ?s' a = unlinked ?h p a" if "a \<noteq> p" for a using that by (simp add: reset_state_def)
  have en': "entries ?s' = ?en" by (simp add: reset_state_def)
  have "list_ok (sheap ?s') (entries ?s' k) k (?L k)" for k
  proof -
    have "a \<noteq> p" if "a \<in> set (?L k)" for a using off that by blast
    then have "list_ok (sheap ?s') (?en k) k (?L k) = list_ok (unlinked ?h p) (?en k) k (?L k)"
      by (intro list_ok_cong) (simp_all only: away refl simp_thms)
    with L' [of k] show ?thesis unfolding en' by blast
  qed
  moreover have "lookups_ok ?L ?s'"
    unfolding lookups_ok_def
  proof (intro allI impI)
    fix k a
    assume "state_at ?s' k = Some a"
    then have ka: "state_at s k = Some a" "\<not> same12 (stateid_other (?h p)) k"
      using t(1) by (simp_all add: reset_state_def upd_map_def split: if_splits)
    with states_inv_D(3) [OF inv] have a: "a \<in> live L" "same12 (stateid_other (?h a)) k" by (simp_all add: lookups_ok_def)
    with ka(2) have "a \<noteq> p" by blast
    with a away [of a] same_state_fields [OF F(2) [of a]] live_remove [of L s p e, OF inv p]
    show "a \<in> live ?L \<and> same12 (stateid_other (sheap ?s' a)) k" by simp
  qed
  moreover have "pool_inv (smem ?s') (live ?L) (pool_state_v4 ?s')"
    using stuff.release_live [OF states_inv_D(4) [OF inv], of p] p live_remove [of L s p e, OF inv p]
    by (auto simp: reset_state_def live_def)
  moreover have "table_inv ?s'" using t(2) by (rule table_inv_cong) (simp_all add: reset_state_def)
  ultimately have "states_inv ?L ?s'" by (simp add: states_inv_def)
  moreover have "state_at ?s' = upd_map same12 (state_at s) (stateid_other (?h p)) None" "pool_state_v4 ?s' = p # pool_state_v4 s"
    "\<forall>a. a \<noteq> p \<longrightarrow> same_state (sheap ?s' a) (?h a)"
    using t(1) F(2) by (simp_all add: reset_state_def RELEASE_PREALLOC_def)
  ultimately show ?thesis using unlink_state_eq [OF e(1)] key2 drop by blast
qed

lemma states_inv_table:
  "states_inv L s \<Longrightarrow> ht_lookup t = state_at s \<Longrightarrow> table_inv (s\<lparr>ht_state_id := t\<rparr>) \<Longrightarrow> states_inv L (s\<lparr>ht_state_id := t\<rparr>)"
  by (simp add: states_inv_def lookups_ok_def)

lemma state_found:
  assumes "states_inv L s" "state_at s k = Some p"
  obtains e where "p \<in> set (L e)" "spentry (sheap s p) = Some e" "same12 (stateid_other (sheap s p)) k"
proof -
  from assms have "p \<in> live L" "same12 (stateid_other (sheap s p)) k"
    using states_inv_D(3) by (auto simp: lookups_ok_def)
  moreover then obtain e where e: "p \<in> set (L e)" by (auto simp: live_def)
  moreover have "spentry (sheap s p) = Some e" using states_inv_D(2) [OF assms(1), of e] e by (simp add: list_ok_def)
  ultimately show ?thesis using that by blast
qed

lemma state_at_same12:
  assumes "table_inv s" "same12 a b"
  shows "state_at s a = state_at s b"
proof -
  from assms have "params_ok (parameter (ht_state_id s))" "key_eq (parameter (ht_state_id s)) a b"
    by (simp_all add: table_inv_def ht_inv_def Let_def)
  from look_cong [OF this] key_eq_laws(4) [OF this] show ?thesis by (simp add: ht_lookup_look)
qed

lemma upd_map_same12: "same12 k k' \<Longrightarrow> upd_map same12 m k v = upd_map same12 m k' v"
  by (auto simp: upd_map_def same12_def fun_eq_iff)

text \<open>What removing the state \<open>p\<close> of the file \<open>e\<close> leaves.\<close>

definition removed :: "(addr \<Rightarrow> addr list) \<Rightarrow> states \<Rightarrow> addr \<Rightarrow> addr \<Rightarrow> states \<Rightarrow> bool" where
  "removed L s e p s' \<longleftrightarrow> states_inv (L(e := remove1 p (L e))) s'
     \<and> state_at s' = upd_map same12 (state_at s) (stateid_other (sheap s p)) None
     \<and> pool_state_v4 s' = p # pool_state_v4 s \<and> (\<forall>a. a \<noteq> p \<longrightarrow> same_state (sheap s' a) (sheap s a))"

lemma remove_found:
  assumes inv: "states_inv L s" and p: "p \<in> set (L e)" and key: "state_at s (stateid_other (sheap s p)) \<noteq> None"
    and t: "ht_lookup t = state_at s" "table_inv (s\<lparr>ht_state_id := t\<rparr>)"
  obtains s2 s' where "unlink_state (s\<lparr>ht_state_id := t\<rparr>) p = Some s2" "stateid_other (sheap s2 p) = stateid_other (sheap s p)"
    "drop_state s2 p = Some (CACHE_INODE_SUCCESS, s')" "removed L s e p s'"
proof -
  let ?s = "s\<lparr>ht_state_id := t\<rparr>"
  have "state_at ?s (stateid_other (sheap ?s p)) \<noteq> None" using key t(1) by simp
  from remove_correct [OF states_inv_table [OF inv t] p this] obtain s2 s' where
    u: "unlink_state ?s p = Some s2" "stateid_other (sheap s2 p) = stateid_other (sheap ?s p)" "drop_state s2 p = Some (CACHE_INODE_SUCCESS, s')"
    and r: "states_inv (L(e := remove1 p (L e))) s'" "state_at s' = upd_map same12 (state_at ?s) (stateid_other (sheap ?s p)) None"
      "pool_state_v4 s' = p # pool_state_v4 ?s" "\<forall>a. a \<noteq> p \<longrightarrow> same_state (sheap s' a) (sheap ?s a)"
    by blast
  have "removed L s e p s'" using r t(1) by (simp add: removed_def)
  with u that [of s2 s'] show ?thesis by simp
qed

lemma del_state_by_key_post:
  assumes inv: "states_inv L s"
  shows "\<exists>s'. cache_inode_del_state_by_key s other =
      Some (if state_at s other = None then CACHE_INODE_NOT_FOUND else CACHE_INODE_SUCCESS, s')
    \<and> (case state_at s other of
         None \<Rightarrow> states_inv L s' \<and> state_at s' = state_at s
       | Some p \<Rightarrow> \<exists>e. p \<in> set (L e) \<and> removed L s e p s')"
proof (rule State_Get_Pointer_correct [OF states_inv_D(1) [OF inv], of other])
  fix t
  assume g: "nfs4_State_Get_Pointer s other = Some (state_at s other, s\<lparr>ht_state_id := t\<rparr>)"
    and t: "ht_lookup t = state_at s" "table_inv (s\<lparr>ht_state_id := t\<rparr>)"
  show ?thesis
  proof (cases "state_at s other")
    case None
    with g t states_inv_table [OF inv t] show ?thesis by (simp add: cache_inode_del_state_by_key_def)
  next
    case (Some p)
    from state_found [OF inv Some] obtain e where e: "p \<in> set (L e)" "same12 (stateid_other (sheap s p)) other" by blast
    have key: "state_at s (stateid_other (sheap s p)) \<noteq> None"
      using Some state_at_same12 [OF states_inv_D(1) [OF inv] e(2)] by simp
    obtain s2 s' where r: "unlink_state (s\<lparr>ht_state_id := t\<rparr>) p = Some s2" "stateid_other (sheap s2 p) = stateid_other (sheap s p)"
      "drop_state s2 p = Some (CACHE_INODE_SUCCESS, s')" "removed L s e p s'"
      by (rule remove_found [OF inv e(1) key t])
    have "cache_inode_del_state_by_key s other = Some (CACHE_INODE_SUCCESS, s')"
      using g Some r(1-3) e(2) by (simp add: cache_inode_del_state_by_key_def same12_def)
    with Some e(1) r(4) show ?thesis by auto
  qed
qed

lemma del_by_key_not_found:
  assumes "table_inv s" "state_at s k = None" "cache_inode_del_state_by_key s k = Some (status, s')"
  shows "sheap s' = sheap s"
  by (rule State_Get_Pointer_correct [OF assms(1), of k]) (use assms(2,3) in \<open>auto simp: cache_inode_del_state_by_key_def\<close>)

lemma del_state_post:
  assumes inv: "states_inv L s" and p: "p \<in> set (L e)"
  shows "\<exists>s'. cache_inode_del_state s (Some p) =
      Some (if state_at s (stateid_other (sheap s p)) = None then CACHE_INODE_NOT_FOUND else CACHE_INODE_SUCCESS, s')
    \<and> (if state_at s (stateid_other (sheap s p)) = None then states_inv L s' \<and> state_at s' = state_at s else removed L s e p s')"
proof (rule State_Get_Pointer_correct [OF states_inv_D(1) [OF inv], of "stateid_other (sheap s p)"])
  fix t
  assume g: "nfs4_State_Get_Pointer s (stateid_other (sheap s p)) = Some (state_at s (stateid_other (sheap s p)), s\<lparr>ht_state_id := t\<rparr>)"
    and t: "ht_lookup t = state_at s" "table_inv (s\<lparr>ht_state_id := t\<rparr>)"
  show ?thesis
  proof (cases "state_at s (stateid_other (sheap s p))")
    case None
    with g t states_inv_table [OF inv t] show ?thesis by (simp add: cache_inode_del_state_def)
  next
    case (Some q)
    then have key: "state_at s (stateid_other (sheap s p)) \<noteq> None" by simp
    show ?thesis by (rule remove_found [OF inv p key t]) (use g Some in \<open>simp add: cache_inode_del_state_def\<close>)
  qed
qed

subsection \<open>Walking a list\<close>

text \<open>
  The loop of the protocol operations: call \<open>cache_inode_state_iterate\<close> with the state it
  returned last until it returns a null pointer.
\<close>

fun walk :: "nat \<Rightarrow> (addr option \<Rightarrow> cache_inode_status \<times> addr option option) \<Rightarrow> addr option \<Rightarrow> addr list option" where
  "walk 0 it prev = None"
| "walk (Suc n) it prev =
     (case it prev of
        (_, Some None) \<Rightarrow> Some []
      | (_, Some (Some a)) \<Rightarrow> map_option (Cons a) (walk n it (Some a))
      | _ \<Rightarrow> None)"

lemma iterate_at:
  assumes inv: "states_inv L s" and dig: "FSAL_DigestHandle (handle (entries s e)) \<noteq> None" and L: "L e = ys @ zs"
  shows "cache_inode_state_iterate FSAL_DigestHandle s (Some e) (final ys None) status = (status, Some (first zs None))"
  using states_inv_D(2) [OF inv, of e] L dig
  by (cases ys rule: rev_cases) (auto simp: cache_inode_state_iterate_def list_ok_def sseg_append)

lemma walk_list:
  assumes inv: "states_inv L s" and dig: "FSAL_DigestHandle (handle (entries s e)) \<noteq> None"
  shows "L e = ys @ zs \<Longrightarrow> length zs < n \<Longrightarrow>
    walk n (\<lambda>prev. cache_inode_state_iterate FSAL_DigestHandle s (Some e) prev status) (final ys None) = Some zs"
proof (induction zs arbitrary: ys n)
  case (Cons a zs)
  then obtain k where n: "n = Suc k" by (cases n) auto
  with Cons.IH [of "ys @ [a]" k] Cons.prems iterate_at [of L s FSAL_DigestHandle e ys "a # zs" status, OF inv dig] show ?case by simp
next
  case Nil
  then obtain k where "n = Suc k" by (cases n) auto
  with Nil iterate_at [of L s FSAL_DigestHandle e ys "[]" status, OF inv dig] show ?case by simp
qed

subsection \<open>Tags\<close>

text \<open>The member of the union that a state uses is the one its type names.\<close>

fun tag_ok :: "state_type \<Rightarrow> state_data \<Rightarrow> bool" where
  "tag_ok CACHE_INODE_STATE_SHARE (Share _) = True"
| "tag_ok CACHE_INODE_STATE_LOCK (Lock _) = True"
| "tag_ok CACHE_INODE_STATE_DELEG (Deleg _) = True"
| "tag_ok CACHE_INODE_STATE_LAYOUT (Layout _) = True"
| "tag_ok CACHE_INODE_STATE_NONE _ = True"
| "tag_ok _ _ = False"

definition tagged :: "(addr \<Rightarrow> addr list) \<Rightarrow> states \<Rightarrow> bool" where
  "tagged L s \<longleftrightarrow> (\<forall>a\<in>live L. tag_ok (state_type (sheap s a)) (state_data (sheap s a)))"

lemma tagged_same:
  "tagged L s \<Longrightarrow> (\<And>a. a \<in> live L' \<Longrightarrow> a \<in> live L \<and> same_state (sheap s' a) (sheap s a)) \<Longrightarrow> tagged L' s'"
  unfolding tagged_def using same_state_fields by metis

lemma tagged_append:
  "tagged L s \<Longrightarrow> \<forall>a\<in>live L. same_state (sheap s' a) (sheap s a) \<Longrightarrow> tag_ok (state_type (sheap s' p)) (state_data (sheap s' p))
   \<Longrightarrow> tagged (L(e := L e @ [p])) s'"
  unfolding tagged_def live_append using same_state_fields by (metis insertE)

lemma tagged_removed: "states_inv L s \<Longrightarrow> p \<in> set (L e) \<Longrightarrow> tagged L s \<Longrightarrow> removed L s e p s' \<Longrightarrow> tagged (L(e := remove1 p (L e))) s'"
  by (rule tagged_same [of L s]) (auto simp: live_remove removed_def)

subsection \<open>Properties\<close>

lemma demo_states_inv: "table_inv (demo_states m t) \<Longrightarrow> ht_lookup t = (\<lambda>_. None) \<Longrightarrow> states_inv (\<lambda>_. []) (demo_states m t)"
  by (simp add: states_inv_def lookups_ok_def list_ok_def demo_states_def demo_entry_def live_def pool_inv_def)



text \<open>C23: Removing a state by its stateid.  cache_inode_del_state_by_key returns NOT\_FOUND and keeps the lists and the
  table when the table does not know the stateid.  Otherwise it succeeds: the state leaves the list of its
  file and the table and goes back to the pool, the lists of all files stay well linked, and every other state keeps
  its contents.\<close>

theorem del_state_by_key_correct:
  assumes "states_inv L s"
  shows "\<exists>s'. cache_inode_del_state_by_key s other =
      Some (if state_at s other = None then CACHE_INODE_NOT_FOUND else CACHE_INODE_SUCCESS, s')
    \<and> (case state_at s other of
         None \<Rightarrow> states_inv L s' \<and> state_at s' = state_at s
       | Some p \<Rightarrow> \<exists>e. p \<in> set (L e) \<and> states_inv (L(e := remove1 p (L e))) s'
           \<and> state_at s' = upd_map same12 (state_at s) other None
           \<and> pool_state_v4 s' = p # pool_state_v4 s \<and> (\<forall>a. a \<noteq> p \<longrightarrow> same_state (sheap s' a) (sheap s a)))"
proof -
  obtain s' where s': "cache_inode_del_state_by_key s other =
      Some (if state_at s other = None then CACHE_INODE_NOT_FOUND else CACHE_INODE_SUCCESS, s')"
    "case state_at s other of None \<Rightarrow> states_inv L s' \<and> state_at s' = state_at s | Some p \<Rightarrow> \<exists>e. p \<in> set (L e) \<and> removed L s e p s'"
    using del_state_by_key_post [OF assms] by blast
  show ?thesis
  proof (cases "state_at s other")
    case None
    with s' show ?thesis by auto
  next
    case (Some p)
    with s'(2) obtain e where e: "p \<in> set (L e)" "removed L s e p s'" by auto
    from state_found [OF assms Some] have "same12 (stateid_other (sheap s p)) other" by blast
    from e(2) have "state_at s' = upd_map same12 (state_at s) other None"
      unfolding removed_def upd_map_same12 [OF \<open>same12 (stateid_other (sheap s p)) other\<close>] by blast
    with e s'(1) Some show ?thesis by (auto simp: removed_def)
  qed
qed

theorem del_state_by_key_correct_witness:
  "\<exists>s s'. states_inv (\<lambda>_. []) s \<and> cache_inode_del_state_by_key s [1] = Some (CACHE_INODE_NOT_FOUND, s') \<and> states_inv (\<lambda>_. []) s'"
proof -
  from demo_state_table obtain m t where t: "table_inv (demo_states m t)" "ht_lookup t = (\<lambda>_. None)" by blast
  then have i: "states_inv (\<lambda>_. []) (demo_states m t)" by (rule demo_states_inv)
  have "state_at (demo_states m t) [1] = None" using t(2) by (simp add: demo_states_def)
  with del_state_by_key_correct [OF i, of "[1]"] i show ?thesis by auto
qed

text \<open>C28: Walking the states of a file.  A caller that hands the state it got from cache_inode_state_iterate back to it
  until it gets a null pointer sees every state of the file exactly once, in the order
  in which they were added, and stops after as many calls as there are states, plus one.\<close>

theorem iterate_visits_all:
  assumes "states_inv L s" and "FSAL_DigestHandle (handle (entries s e)) \<noteq> None"
  shows "walk (Suc (length (L e))) (\<lambda>prev. cache_inode_state_iterate FSAL_DigestHandle s (Some e) prev status) None = Some (L e)
     \<and> distinct (L e)"
proof
  show "walk (Suc (length (L e))) (\<lambda>prev. cache_inode_state_iterate FSAL_DigestHandle s (Some e) prev status) None = Some (L e)"
    using walk_list [of L s FSAL_DigestHandle e, OF assms, of "[]" "L e" "Suc (length (L e))" status] by simp
  show "distinct (L e)" using states_inv_D(2) [OF assms(1), of e] by (simp add: list_ok_def)
qed

theorem iterate_visits_all_witness:
  "\<exists>s. states_inv (\<lambda>_. []) s \<and>
     walk 1 (\<lambda>prev. cache_inode_state_iterate demo_digest s (Some 0) prev CACHE_INODE_SUCCESS) None = Some []"
proof -
  from demo_state_table obtain m t where t: "table_inv (demo_states m t)" "ht_lookup t = (\<lambda>_. None)" by blast
  then have i: "states_inv (\<lambda>_. []) (demo_states m t)" by (rule demo_states_inv)
  from iterate_visits_all [OF i, of demo_digest 0 CACHE_INODE_SUCCESS] i show ?thesis by (auto simp: demo_digest_def)
qed



end
