(* ===== verification/File_Handle.thy ===== *)
theory File_Handle
  imports State_Id
begin

text \<open>
  File handles (\<^verbatim>\<open>support/nfs_filehandle_mgmt.c\<close>, with the layouts of \<^verbatim>\<open>include/nfs_file_handle.h\<close>): the
  structures that the server hands to its clients as opaque bytes and reads back.

  A structure is the list of its bytes, with the offsets that a C compiler gives its fields on a
  little-endian machine with 64-bit pointers.  \<open>None\<close> is an access through a null pointer or past the end
  of a buffer.  The two functions of the file system layer that a handle passes through,
  \<open>FSAL_DigestHandle\<close> and \<open>FSAL_ExpandHandle\<close>, are arguments.  The functions that print a handle are
  not modelled.
\<close>

subsection \<open>Fields of a structure\<close>

definition field :: "nat \<Rightarrow> nat \<Rightarrow> u8 list \<Rightarrow> u8 list" where
  "field off n b = take n (drop off b)"

definition put :: "nat \<Rightarrow> u8 list \<Rightarrow> u8 list \<Rightarrow> u8 list" where
  "put off xs b = take off b @ xs @ drop (off + length xs) b"

lemma length_put [simp]: "off + length xs \<le> length b \<Longrightarrow> length (put off xs b) = length b"
  by (simp add: put_def)

lemma field_put_same: "off \<le> length b \<Longrightarrow> n = length xs \<Longrightarrow> field off n (put off xs b) = xs"
  by (simp add: field_def put_def)

lemma field_put_before: "off + n \<le> off' \<Longrightarrow> off' \<le> length b \<Longrightarrow> field off n (put off' xs b) = field off n b"
  by (auto simp: field_def put_def drop_take min_def)

lemma field_put_after:
  "off' + length xs \<le> off \<Longrightarrow> off' + length xs \<le> length b \<Longrightarrow> field off n (put off' xs b) = field off n b"
  by (simp add: field_def put_def)

lemma field_put_start:
  "off \<le> length b \<Longrightarrow> length xs \<le> n \<Longrightarrow> field off n (put off xs b) = xs @ field (off + length xs) (n - length xs) b"
  by (simp add: field_def put_def)

subsection \<open>Layouts\<close>

text \<open>
  \<^verbatim>\<open>file_handle_v2_t\<close>: \<open>exportid\<close> at 0, \<open>fsopaque\<close> at 2 (29 bytes), \<open>xattr_pos\<close> at 31.
  \<^verbatim>\<open>file_handle_v3_t\<close>: \<open>exportid\<close> at 0, \<open>fsopaque\<close> at 2 (61 bytes), \<open>xattr_pos\<close> at 63.
  \<^verbatim>\<open>file_handle_v4_t\<close>: \<open>pseudofs_id\<close> at 0, \<open>ds_flag\<close> at 2, \<open>pseudofs_flag\<close> at 3, \<open>exportid\<close> at 4,
  \<open>refid\<close> at 8, two bytes of padding, \<open>srvboot_time\<close> at 12, \<open>fsopaque\<close> at 16 (93 bytes), \<open>xattr_pos\<close>
  at 109 and two bytes of padding.
\<close>

definition sizeof_v2 :: nat where "sizeof_v2 = 32"
definition sizeof_v3 :: nat where "sizeof_v3 = 64"
definition sizeof_v4 :: nat where "sizeof_v4 = 112"

text \<open>\<^verbatim>\<open>nfs_fh4\<close> and \<^verbatim>\<open>nfs_fh3\<close>: a length and a pointer, here with the address and the bytes it points to.\<close>

record nfs_fh =
  fh_len :: u32
  fh_val :: "(u64 \<times> u8 list) option"

record fh_param =
  fh_expire :: bool
  returns_err_fh_expired :: bool

definition read_v4 :: "nfs_fh \<Rightarrow> nat \<Rightarrow> nat \<Rightarrow> u8 list option" where
  "read_v4 pfh off n =
     (case fh_val pfh of
        None \<Rightarrow> None
      | Some (_, b) \<Rightarrow> if off + n \<le> length b then Some (field off n b) else None)"

subsection \<open>From a handle to the file system layer\<close>

definition nfs4_FhandleToFSAL :: "(u8 list \<Rightarrow> 'h option) \<Rightarrow> nfs_fh \<Rightarrow> 'h option option" where
  "nfs4_FhandleToFSAL FSAL_ExpandHandle pfh4 =
     (if unat (fh_len pfh4) \<noteq> sizeof_v4 then Some None
      else do {
        pseudofs_id \<leftarrow> read_v4 pfh4 0 2;
        pseudofs_flag \<leftarrow> read_v4 pfh4 3 1;
        if (le_word pseudofs_id :: u16) \<noteq> 0 \<or> (le_word pseudofs_flag :: u8) \<noteq> 0 then Some None
        else do {
          fsopaque \<leftarrow> read_v4 pfh4 16 93;
          Some (FSAL_ExpandHandle fsopaque) } })"

definition nfs3_FhandleToFSAL :: "(u8 list \<Rightarrow> 'h option) \<Rightarrow> nfs_fh \<Rightarrow> 'h option option" where
  "nfs3_FhandleToFSAL FSAL_ExpandHandle pfh3 =
     (if unat (fh_len pfh3) \<noteq> sizeof_v3 then Some None
      else do { fsopaque \<leftarrow> read_v4 pfh3 2 61; Some (FSAL_ExpandHandle fsopaque) })"

definition nfs2_FhandleToFSAL :: "(u8 list \<Rightarrow> 'h option) \<Rightarrow> u8 list \<Rightarrow> 'h option" where
  "nfs2_FhandleToFSAL FSAL_ExpandHandle pfh2 = FSAL_ExpandHandle (field 2 29 pfh2)"

subsection \<open>From the file system layer to a handle\<close>

text \<open>
  The local variable \<open>file_handle\<close> starts as the bytes \<open>stack\<close> that happen to be there, and
  \<open>FSAL_DigestHandle\<close> writes as many bytes of \<open>fsopaque\<close> as the file system uses.
\<close>

definition nfs4_FSALToFhandle :: "('h \<Rightarrow> u8 list option) \<Rightarrow> fh_param \<Rightarrow> u64 \<Rightarrow> u16 \<Rightarrow> u8 list \<Rightarrow> nfs_fh \<Rightarrow> 'h \<Rightarrow> (bool \<times> nfs_fh) option" where
  "nfs4_FSALToFhandle FSAL_DigestHandle param ServerBootTime export_id stack pfh4 pfsalhandle = do {
     (ptr, buf) \<leftarrow> fh_val pfh4;
     if length buf < sizeof_v4 then None
     else (let buf = put 0 (replicate sizeof_v4 0) buf in
       case FSAL_DigestHandle pfsalhandle of
         None \<Rightarrow> Some (False, pfh4\<lparr>fh_val := Some (ptr, buf)\<rparr>)
       | Some d \<Rightarrow>
           if 93 < length d then None
           else let fh = put 16 d stack;
                    fh = put 4 (le_bytes 4 (ucast export_id :: u32)) fh;
                    fh = put 0 (le_bytes 2 (0 :: u16)) fh;
                    fh = put 3 [0] fh;
                    fh = put 2 [0] fh;
                    fh = put 8 (le_bytes 2 (0 :: u16)) fh;
                    fh = put 12 (le_bytes 4 (if fh_expire param then ucast ServerBootTime else 0 :: u32)) fh;
                    fh = put 109 [0] fh
                in Some (True, pfh4\<lparr>fh_len := of_nat sizeof_v4, fh_val := Some (ptr, put 0 fh buf)\<rparr>)) }"

definition NFS3_FHSIZE :: nat where "NFS3_FHSIZE = 64"

definition nfs3_FSALToFhandle :: "('h \<Rightarrow> u8 list option) \<Rightarrow> u16 \<Rightarrow> nfs_fh \<Rightarrow> 'h \<Rightarrow> (bool \<times> nfs_fh) option" where
  "nfs3_FSALToFhandle FSAL_DigestHandle export_id pfh3 pfsalhandle = do {
     (ptr, buf) \<leftarrow> fh_val pfh3;
     if length buf < NFS3_FHSIZE then None
     else (let buf = put 0 (replicate NFS3_FHSIZE 0) buf; fh = replicate sizeof_v3 0 in
       case FSAL_DigestHandle pfsalhandle of
         None \<Rightarrow> Some (False, pfh3\<lparr>fh_val := Some (ptr, buf)\<rparr>)
       | Some d \<Rightarrow>
           if 61 < length d then None
           else let fh = put 2 d fh;
                    fh = put 0 (le_bytes 2 export_id) fh;
                    fh = put 63 [0] fh
                in Some (True, pfh3\<lparr>fh_len := of_nat sizeof_v3, fh_val := Some (ptr, put 0 fh buf)\<rparr>)) }"

definition NFS2_FHSIZE :: nat where "NFS2_FHSIZE = 32"

definition nfs2_FSALToFhandle :: "('h \<Rightarrow> u8 list option) \<Rightarrow> u16 \<Rightarrow> u8 list \<Rightarrow> u8 list \<Rightarrow> 'h \<Rightarrow> (bool \<times> u8 list) option" where
  "nfs2_FSALToFhandle FSAL_DigestHandle export_id stack pfh2 pfsalhandle =
     (let buf = put 0 (replicate NFS2_FHSIZE 0) pfh2 in
      case FSAL_DigestHandle pfsalhandle of
        None \<Rightarrow> Some (False, buf)
      | Some d \<Rightarrow>
          if 29 < length d then None
          else let fh = put 2 d stack;
                   fh = put 0 (le_bytes 2 export_id) fh;
                   fh = put 31 [0] fh
               in Some (True, put 0 fh buf))"

subsection \<open>Reading a handle\<close>

text \<open>The export id comes back as a \<^verbatim>\<open>short\<close>.\<close>

definition to_short :: "'a::len word \<Rightarrow> int" where
  "to_short w = sint (ucast w :: u16)"

definition nfs4_FhandleToExportId :: "nfs_fh \<Rightarrow> int option" where
  "nfs4_FhandleToExportId pfh4 =
     (if fh_val pfh4 = None then Some (- 1)
      else do { e \<leftarrow> read_v4 pfh4 4 4; Some (to_short (le_word e :: u32)) })"

definition nfs3_FhandleToExportId :: "nfs_fh \<Rightarrow> int option" where
  "nfs3_FhandleToExportId pfh3 =
     (if fh_val pfh3 = None then Some (- 1)
      else do { e \<leftarrow> read_v4 pfh3 0 2; Some (to_short (le_word e :: u16)) })"

definition nfs2_FhandleToExportId :: "u8 list \<Rightarrow> int" where
  "nfs2_FhandleToExportId pfh2 = to_short (le_word (field 0 2 pfh2) :: u16)"

definition nfs3_Is_Fh_Xattr :: "nfs_fh option \<Rightarrow> bool option" where
  "nfs3_Is_Fh_Xattr pfh =
     (case pfh of None \<Rightarrow> Some False | Some fh \<Rightarrow> do { x \<leftarrow> read_v4 fh 63 1; Some ((le_word x :: u8) \<noteq> 0) })"

definition nfs4_Is_Fh_Xattr :: "nfs_fh option \<Rightarrow> bool option" where
  "nfs4_Is_Fh_Xattr pfh =
     (case pfh of None \<Rightarrow> Some False | Some fh \<Rightarrow> do { x \<leftarrow> read_v4 fh 109 1; Some ((le_word x :: u8) \<noteq> 0) })"

definition nfs4_Is_Fh_Pseudo :: "nfs_fh option \<Rightarrow> u8 option" where
  "nfs4_Is_Fh_Pseudo pfh =
     (case pfh of None \<Rightarrow> Some 0 | Some fh \<Rightarrow> do { x \<leftarrow> read_v4 fh 3 1; Some (le_word x) })"

definition nfs4_Is_Fh_Referral :: "nfs_fh option \<Rightarrow> bool option" where
  "nfs4_Is_Fh_Referral pfh =
     (case pfh of None \<Rightarrow> Some False | Some fh \<Rightarrow> do { x \<leftarrow> read_v4 fh 8 2; Some ((le_word x :: u16) > 0) })"

definition nfs4_Is_Fh_Empty :: "nfs_fh option \<Rightarrow> nfsstat4" where
  "nfs4_Is_Fh_Empty pfh =
     (case pfh of
        None \<Rightarrow> NFS4ERR_NOFILEHANDLE
      | Some fh \<Rightarrow> if fh_len fh = 0 then NFS4ERR_NOFILEHANDLE else NFS4_OK)"

definition nfs4_Is_Fh_Invalid :: "nfs_fh option \<Rightarrow> nfsstat4" where
  "nfs4_Is_Fh_Invalid pfh =
     (case pfh of
        None \<Rightarrow> NFS4ERR_BADHANDLE
      | Some fh \<Rightarrow>
          if sizeof_v4 < unat (fh_len fh) then NFS4ERR_BADHANDLE
          else if fh_val fh = None then NFS4ERR_BADHANDLE
          else NFS4_OK)"

text \<open>
  The pointer to the structure \<open>nfs_fh4\<close> itself, not its \<open>nfs_fh4_val\<close>, is cast to a handle, so
  \<open>srvboot_time\<close> is read at offset 12 of the bytes of \<open>nfs_fh4\<close>: a length of four bytes, four bytes
  of padding and the pointer.
\<close>

definition nfs_fh4_bytes :: "nfs_fh \<Rightarrow> u8 list" where
  "nfs_fh4_bytes fh =
     le_bytes 4 (fh_len fh) @ replicate 4 0 @ le_bytes 8 (case fh_val fh of None \<Rightarrow> 0 | Some (ptr, _) \<Rightarrow> ptr)"

definition nfs4_Is_Fh_Expired :: "fh_param \<Rightarrow> u64 \<Rightarrow> nfs_fh option \<Rightarrow> nfsstat4" where
  "nfs4_Is_Fh_Expired param ServerBootTime pfh =
     (case pfh of
        None \<Rightarrow> NFS4ERR_BADHANDLE
      | Some fh \<Rightarrow>
          if fh_expire param \<and> (le_word (field 12 4 (nfs_fh4_bytes fh)) :: u32) \<noteq> ucast ServerBootTime
             \<and> returns_err_fh_expired param
          then NFS4ERR_FHEXPIRED
          else NFS4_OK)"

subsection \<open>What a handle holds\<close>

lemma length_field [simp]: "off + n \<le> length b \<Longrightarrow> length (field off n b) = n"
  by (simp add: field_def)

lemma put_all: "length xs = length b \<Longrightarrow> put 0 xs b = xs"
  by (simp add: put_def)

lemma field_prefix: "off + n \<le> length xs \<Longrightarrow> field off n (put 0 xs b) = field off n xs"
  by (simp add: field_def put_def)

lemmas fields = field_put_same field_put_before field_put_after field_prefix

lemma le_word_le_bytes_same: "8 * n = LENGTH('a) \<Longrightarrow> le_word (le_bytes n w) = (w :: 'a::len word)"
  by (simp add: le_word_le_bytes take_bit_word_eq_self)

lemma le_word_zero [simp]: "le_word [0] = (0 :: 'a::len word)" "le_word (le_bytes n (0 :: 'b::len word)) = (0 :: 'a::len word)"
  by (simp_all add: le_word_le_bytes) (simp add: le_word_def)

text \<open>The bytes of a version 4 handle.\<close>

definition v4_handle :: "fh_param \<Rightarrow> u64 \<Rightarrow> u16 \<Rightarrow> u8 list \<Rightarrow> u8 list \<Rightarrow> u8 list \<Rightarrow> bool" where
  "v4_handle param boot eid d stack b \<longleftrightarrow> 112 \<le> length b \<and> field 0 2 b = le_bytes 2 (0 :: u16) \<and> field 2 1 b = [0] \<and> field 3 1 b = [0]
     \<and> field 4 4 b = le_bytes 4 (ucast eid :: u32) \<and> field 8 2 b = le_bytes 2 (0 :: u16)
     \<and> field 12 4 b = le_bytes 4 (if fh_expire param then ucast boot else 0 :: u32)
     \<and> field 16 93 b = d @ field (16 + length d) (93 - length d) stack \<and> field 109 1 b = [0]"

lemma FSALToFhandle4:
  assumes "fh_val pfh = Some (ptr, buf)" "112 \<le> length buf" "length stack = 112" "digest h = Some d" "length d \<le> 93"
  shows "\<exists>b. nfs4_FSALToFhandle digest param boot eid stack pfh h = Some (True, pfh\<lparr>fh_len := 112, fh_val := Some (ptr, b)\<rparr>)
     \<and> v4_handle param boot eid d stack b"
proof -
  let ?t = "le_bytes 4 (if fh_expire param then ucast boot else 0 :: u32)"
  let ?fh = "put 109 [0] (put 12 ?t (put 8 (le_bytes 2 (0 :: u16)) (put 2 [0] (put 3 [0] (put 0 (le_bytes 2 (0 :: u16))
      (put 4 (le_bytes 4 (ucast eid :: u32)) (put 16 d stack)))))))"
  have len: "length ?fh = 112" using assms(3,5) by simp
  have f: "v4_handle param boot eid d stack ?fh"
    using assms(3,5) by (simp add: v4_handle_def field_put_same field_put_before field_put_after field_put_start)
  have "v4_handle param boot eid d stack (put 0 ?fh (put 0 (replicate 112 0) buf))"
    using f len assms(2) by (simp add: v4_handle_def field_prefix)
  moreover have "nfs4_FSALToFhandle digest param boot eid stack pfh h
      = Some (True, pfh\<lparr>fh_len := 112, fh_val := Some (ptr, put 0 ?fh (put 0 (replicate 112 0) buf))\<rparr>)"
    using assms by (simp add: nfs4_FSALToFhandle_def sizeof_v4_def Let_def)
  ultimately show ?thesis by blast
qed

lemma read_v4_eq: "fh_val fh = Some (ptr, b) \<Longrightarrow> off + n \<le> length b \<Longrightarrow> read_v4 fh off n = Some (field off n b)"
  by (simp add: read_v4_def)

lemma v4_handle_read:
  assumes "v4_handle param boot eid d stack b" "fh_val fh = Some (ptr, b)" "fh_len fh = 112"
  shows "nfs4_FhandleToFSAL expand fh = Some (expand (d @ field (16 + length d) (93 - length d) stack))"
    "nfs4_FhandleToExportId fh = Some (to_short eid)" "nfs4_Is_Fh_Pseudo (Some fh) = Some 0"
    "nfs4_Is_Fh_Referral (Some fh) = Some False" "nfs4_Is_Fh_Xattr (Some fh) = Some False"
    "nfs4_Is_Fh_Empty (Some fh) = NFS4_OK" "nfs4_Is_Fh_Invalid (Some fh) = NFS4_OK"
proof -
  have "(ucast (ucast eid :: u32) :: u16) = eid" by (rule bit_word_eqI) (simp add: bit_simps)
  then show "nfs4_FhandleToExportId fh = Some (to_short eid)"
    using assms by (simp add: nfs4_FhandleToExportId_def read_v4_eq v4_handle_def le_word_le_bytes_same to_short_def)
qed (use assms in \<open>simp_all add: nfs4_FhandleToFSAL_def nfs4_Is_Fh_Pseudo_def nfs4_Is_Fh_Referral_def
      nfs4_Is_Fh_Xattr_def nfs4_Is_Fh_Empty_def nfs4_Is_Fh_Invalid_def sizeof_v4_def read_v4_eq v4_handle_def\<close>)

lemma to_short_eq: "to_short (e :: u16) = (if e < 0x8000 then uint e else uint e - 65536)"
proof -
  have u: "0 \<le> uint e" "uint e < 65536" using uint_lt2p [of e] by simp_all
  then have "uint e div 32768 = (if uint e < 32768 then 0 else 1)" by auto
  then have b: "bit (uint e) 15 \<longleftrightarrow> \<not> uint e < 32768" by (simp add: bit_iff_odd)
  have "to_short e = signed_take_bit 15 (uint e)" by (simp add: to_short_def sint_uint)
  also have "\<dots> = uint e - 65536 * of_bool (bit (uint e) 15)"
    using u by (simp add: signed_take_bit_eq_take_bit_minus take_bit_int_eq_self)
  finally show ?thesis by (simp add: b word_less_def)
qed

text \<open>
  The bytes of \<open>fsopaque\<close> that the digest does not fill are the bytes of the stack, so two handles of
  one file may differ.  The handles of version 3 are built in a zeroed variable.
\<close>

lemma v4_handle_keeps_stack_bytes:
  assumes "length d < 93"
  shows "v4_handle param boot eid d (replicate 112 0) b \<Longrightarrow> \<not> v4_handle param boot eid d (replicate 112 1) b"
proof
  assume "v4_handle param boot eid d (replicate 112 0) b" "v4_handle param boot eid d (replicate 112 1) b"
  then have "field (16 + length d) (93 - length d) (replicate 112 0 :: u8 list) = field (16 + length d) (93 - length d) (replicate 112 1)"
    by (simp add: v4_handle_def)
  moreover have "field (16 + length d) (93 - length d) (replicate 112 (x :: u8)) = replicate (93 - length d) x" for x
    by (simp add: field_def)
  ultimately show False using assms by (simp add: replicate_eq_replicate)
qed

lemma FSALToFhandle3:
  assumes "fh_val pfh = Some (ptr, buf)" "64 \<le> length buf" "digest h = Some d" "length d \<le> 61"
  shows "\<exists>b. nfs3_FSALToFhandle digest eid pfh h = Some (True, pfh\<lparr>fh_len := 64, fh_val := Some (ptr, b)\<rparr>)
     \<and> 64 \<le> length b \<and> field 0 2 b = le_bytes 2 eid \<and> field 2 61 b = d @ replicate (61 - length d) 0 \<and> field 63 1 b = [0]"
proof -
  let ?fh = "put 63 [0] (put 0 (le_bytes 2 eid) (put 2 d (replicate 64 0)))"
  have len: "length ?fh = 64" using assms(4) by simp
  have "field 0 2 ?fh = le_bytes 2 eid" "field 63 1 ?fh = [0]" "field 2 61 ?fh = d @ replicate (61 - length d) 0"
    using assms(4) by (simp_all add: field_put_same field_put_before field_put_after field_put_start) (simp add: field_def)
  then show ?thesis using assms len
    by (intro exI [of _ "put 0 ?fh (put 0 (replicate 64 0) buf)"])
      (simp add: nfs3_FSALToFhandle_def sizeof_v3_def NFS3_FHSIZE_def Let_def field_prefix)
qed

subsection \<open>Properties\<close>



text \<open>The check for expired handles.  nfs4_Is_Fh_Expired compares the boot time with the upper half of the address
  of the buffer and never looks at the handle.  With expiring handles and the error
  enabled, a handle of the running server is refused wherever the buffer's address does not
  happen to match, and a stale one is accepted where it does.\<close>

theorem expiry_check_ignores_handle:
  "nfs4_Is_Fh_Expired param boot (Some \<lparr>fh_len = n, fh_val = Some (ptr, b)\<rparr>) =
     (if fh_expire param \<and> returns_err_fh_expired param \<and> (ucast (drop_bit 32 ptr) :: u32) \<noteq> ucast boot
      then NFS4ERR_FHEXPIRED else NFS4_OK)"
proof -
  have "field 12 4 (nfs_fh4_bytes \<lparr>fh_len = n, fh_val = Some (ptr, b)\<rparr>) = drop 4 (le_bytes 8 ptr)"
    by (simp add: field_def nfs_fh4_bytes_def)
  also have "\<dots> = le_bytes 4 (drop_bit 32 ptr)"
    by (rule nth_equalityI) (simp_all add: le_bytes_def add.commute)
  finally have "(le_word (field 12 4 (nfs_fh4_bytes \<lparr>fh_len = n, fh_val = Some (ptr, b)\<rparr>)) :: u32) = ucast (drop_bit 32 ptr)"
    by (simp add: le_word_le_bytes take_bit_word_eq_self)
  then show ?thesis by (simp add: nfs4_Is_Fh_Expired_def)
qed

end
