(* ===== verification/Nfs4_Open_Ops.thy ===== *)
theory Nfs4_Open_Ops
  imports File_Handle Cache_State
begin

text \<open>
  The NFSv4 operations on an open file: OPEN\_CONFIRM, OPEN\_DOWNGRADE and CLOSE
  (\<^verbatim>\<open>NFS_Protocols/nfs4_op_open_confirm.c\<close>, \<^verbatim>\<open>nfs4_op_open_downgrade.c\<close>, \<^verbatim>\<open>nfs4_op_close.c\<close>), with
  \<open>cache_inode_close\<close> of \<^verbatim>\<open>Cache_inode/cache_inode_open_close.c\<close>.

  An operation takes the tables of the server and the data of the compound request and returns
  the status, the stateid of the answer and the new tables; \<open>None\<close> is a null pointer
  dereference.  The mutexes of the owners are taken and released around the bodies modelled here.
\<close>

record compound_data =
  currentFH :: nfs_fh
  current_entry :: "addr option"
  current_filetype :: file_type

record nfs4_config =
  fh_cfg :: fh_param
  return_bad_stateid :: bool
  ServerBootTime :: u64

text \<open>The three checks of the file handle at the start of every operation.\<close>

definition check_handle :: "nfs4_config \<Rightarrow> nfs_fh \<Rightarrow> nfsstat4" where
  "check_handle cfg fh =
     (if nfs4_Is_Fh_Empty (Some fh) \<noteq> NFS4_OK then NFS4ERR_NOFILEHANDLE
      else if nfs4_Is_Fh_Invalid (Some fh) \<noteq> NFS4_OK then NFS4ERR_BADHANDLE
      else if nfs4_Is_Fh_Expired (fh_cfg cfg) (ServerBootTime cfg) (Some fh) \<noteq> NFS4_OK then NFS4ERR_FHEXPIRED
      else NFS4_OK)"

definition check_fh :: "nfs4_config \<Rightarrow> compound_data \<Rightarrow> nfsstat4" where
  "check_fh cfg data = check_handle cfg (currentFH data)"

definition is_dir :: "file_type \<Rightarrow> bool" where
  "is_dir t \<longleftrightarrow> t = DIR_BEGINNING \<or> t = DIR_CONTINUE"

text \<open>A stateid of the protocol: the sequence number and the twelve bytes.\<close>

type_synonym stateid = "u32 \<times> u8 list"

definition put_states :: "nfs4_world \<Rightarrow> states \<Rightarrow> nfs4_world" where
  "put_states w s = w\<lparr>wstates := s\<rparr>"

definition set_owner :: "nfs4_world \<Rightarrow> addr \<Rightarrow> (open_owner \<Rightarrow> open_owner) \<Rightarrow> nfs4_world" where
  "set_owner w a f = w\<lparr>wowners := (wowners w)\<lparr>oheap := (oheap (wowners w))(a := f (oheap (wowners w) a))\<rparr>\<rparr>"

definition set_state :: "states \<Rightarrow> addr \<Rightarrow> (nfs_state \<Rightarrow> nfs_state) \<Rightarrow> states" where
  "set_state s a f = s\<lparr>sheap := (sheap s)(a := f (sheap s a))\<rparr>"

subsection \<open>OPEN\_CONFIRM\<close>

definition confirm_owner :: "open_owner \<Rightarrow> open_owner" where
  "confirm_owner o1 = o1\<lparr>oo_confirmed := True, oo_seqid := oo_seqid o1 + 1\<rparr>"

definition next_seqid :: "nfs_state \<Rightarrow> nfs_state" where
  "next_seqid r = r\<lparr>sseqid := sseqid r + 1\<rparr>"

definition nfs4_op_open_confirm :: "nfs4_config \<Rightarrow> nfs4_world \<Rightarrow> compound_data \<Rightarrow> u8 list \<Rightarrow> u32
    \<Rightarrow> (nfsstat4 \<times> stateid option \<times> nfs4_world) option" where
  "nfs4_op_open_confirm cfg w data other seqid =
     (if check_fh cfg data \<noteq> NFS4_OK then Some (check_fh cfg data, None, w)
      else do {
        e \<leftarrow> current_entry data;
        let t = entry_type (entries (wstates w) e)
        in if t \<noteq> REGULAR_FILE then Some (if is_dir t then NFS4ERR_ISDIR else NFS4ERR_INVAL, None, w)
        else do {
          (rc, w1) \<leftarrow> nfs4_Check_Stateid (return_bad_stateid cfg) (ServerBootTime cfg) w (Some other) (Some e) 0;
          if rc \<noteq> NFS4_OK then Some (rc, None, w1)
          else do {
            (status, pstate_found, s2) \<leftarrow> cache_inode_get_state (wstates w1) other;
            if status \<noteq> CACHE_INODE_SUCCESS then Some (nfs4_Errno status, None, put_states w1 s2)
            else do {
              p \<leftarrow> pstate_found;
              let own = powner (sheap s2 p); o1 = oheap (wowners w1) own
              in if oo_confirmed o1 then Some (NFS4ERR_BAD_STATEID, None, put_states w1 s2)
              else if oo_seqid o1 \<noteq> seqid \<and> oo_seqid o1 + 1 \<noteq> seqid then Some (NFS4ERR_BAD_SEQID, None, put_states w1 s2)
              else do {
                (status, s3) \<leftarrow> cache_inode_update_state (set_state s2 p next_seqid) (Some p);
                let w3 = put_states (set_owner w1 own confirm_owner) s3
                in if status \<noteq> CACHE_INODE_SUCCESS then Some (nfs4_Errno status, None, w3)
                   else Some (NFS4_OK, Some (seqid, take 12 (stateid_other (sheap s3 p))), w3) } } } } })"

subsection \<open>OPEN\_DOWNGRADE\<close>

definition nfs4_op_open_downgrade :: "nfs4_config \<Rightarrow> nfs4_world \<Rightarrow> compound_data \<Rightarrow> u8 list
    \<Rightarrow> (nfsstat4 \<times> stateid option \<times> nfs4_world) option" where
  "nfs4_op_open_downgrade cfg w data other =
     (if check_fh cfg data \<noteq> NFS4_OK then Some (check_fh cfg data, None, w)
      else if current_filetype data \<noteq> REGULAR_FILE then Some (NFS4ERR_INVAL, None, w)
      else do {
        (status, pstate_found, s1) \<leftarrow> cache_inode_get_state (wstates w) other;
        if status \<noteq> CACHE_INODE_SUCCESS then Some (nfs4_Errno status, None, put_states w s1)
        else do {
          p \<leftarrow> pstate_found;
          let s2 = set_state s1 p next_seqid
          in Some (NFS4_OK, Some (sseqid (sheap s2 p), take 12 (stateid_other (sheap s2 p))), put_states w s2) } })"

subsection \<open>Closing a file descriptor\<close>

record opened_file =
  fileno :: u32
  openflags :: u32
  last_op :: int

record fd_policy =
  use_cache :: u32
  retention :: int
  max_fd_per_thread :: u32

text \<open>
  The entry and the client are not null at the callers; \<open>FSAL_close\<close> is the answer of the file system.  The
  number of the descriptor is unsigned, so the test for a negative one never holds.
\<close>

definition cache_inode_close :: "fd_policy \<Rightarrow> int \<Rightarrow> (addr \<Rightarrow> fsal_error) \<Rightarrow> states \<Rightarrow> (addr \<Rightarrow> opened_file) \<Rightarrow> addr
    \<Rightarrow> cache_inode_status \<times> (addr \<Rightarrow> opened_file)" where
  "cache_inode_close pol now FSAL_close s fds e =
     (if entry_type (entries s e) \<noteq> REGULAR_FILE then (CACHE_INODE_BAD_TYPE, fds)
      else if fileno (fds e) < 0 then (CACHE_INODE_SUCCESS, fds)
      else if use_cache pol = 0 \<or> now - last_op (fds e) > retention pol \<or> fileno (fds e) > max_fd_per_thread pol
      then (let fds' = fds(e := (fds e)\<lparr>fileno := 0, last_op := 0\<rparr>); st = FSAL_close e
            in if st \<noteq> ERR_FSAL_NO_ERROR \<and> st \<noteq> ERR_FSAL_NOT_OPENED then (cache_inode_error_convert st, fds')
               else (CACHE_INODE_SUCCESS, fds'))
      else (CACHE_INODE_SUCCESS, fds))"

subsection \<open>CLOSE\<close>

text \<open>
  \<open>state_data.share.lockheld\<close> of a union: for a lock it is the word that holds \<open>lock_type\<close>, at the
  same offset 16.  No operation of this version adds a delegation, and the word is not
  initialised in the other members.
\<close>

definition lock_type_code :: "nfs_lock_type4 \<Rightarrow> u32" where
  "lock_type_code t = (case t of READ_LT \<Rightarrow> 1 | WRITE_LT \<Rightarrow> 2 | READW_LT \<Rightarrow> 3 | WRITEW_LT \<Rightarrow> 4)"

definition share_lockheld :: "state_data \<Rightarrow> u32 option" where
  "share_lockheld d = (case d of Share sh \<Rightarrow> Some (lockheld sh) | Lock l \<Rightarrow> Some (lock_type_code (lock_type l)) | _ \<Rightarrow> None)"

definition bump_owner :: "open_owner \<Rightarrow> open_owner" where
  "bump_owner o1 = o1\<lparr>oo_seqid := oo_seqid o1 + 1\<rparr>"

definition nfs4_op_close :: "nfs4_config \<Rightarrow> fd_policy \<Rightarrow> int \<Rightarrow> (addr \<Rightarrow> fsal_error) \<Rightarrow> nfs4_world \<Rightarrow> (addr \<Rightarrow> opened_file) \<Rightarrow> compound_data \<Rightarrow> u8 list
    \<Rightarrow> (nfsstat4 \<times> stateid option \<times> nfs4_world \<times> (addr \<Rightarrow> opened_file)) option" where
  "nfs4_op_close cfg pol now FSAL_close w fds data other =
     (if check_fh cfg data \<noteq> NFS4_OK then Some (check_fh cfg data, None, w, fds)
      else (case current_entry data of
        None \<Rightarrow> Some (NFS4ERR_SERVERFAULT, None, w, fds)
      | Some e \<Rightarrow>
        let t = entry_type (entries (wstates w) e)
        in if is_dir t then Some (NFS4ERR_ISDIR, None, w, fds)
        else if t \<noteq> REGULAR_FILE then Some (NFS4ERR_INVAL, None, w, fds)
        else do {
          (rc, w1) \<leftarrow> nfs4_Check_Stateid (return_bad_stateid cfg) (ServerBootTime cfg) w (Some other) (Some e) 0;
          if rc \<noteq> NFS4_OK then Some (rc, None, w1, fds)
          else do {
            (status, pstate_found, s2) \<leftarrow> cache_inode_get_state (wstates w1) other;
            if status \<noteq> CACHE_INODE_SUCCESS
            then Some (if status = CACHE_INODE_NOT_FOUND then NFS4ERR_BAD_STATEID else NFS4ERR_INVAL, None, put_states w1 s2, fds)
            else do {
              p \<leftarrow> pstate_found;
              held \<leftarrow> share_lockheld (state_data (sheap s2 p));
              if held > 0 then Some (NFS4ERR_LOCKS_HELD, None, put_states w1 s2, fds)
              else do {
                let w2 = set_owner w1 (powner (sheap s2 p)) bump_owner; seqid = sseqid (sheap s2 p) + 1
                in do {
                  (status, s3) \<leftarrow> cache_inode_del_state_by_key s2 other;
                  if status \<noteq> CACHE_INODE_SUCCESS then Some (nfs4_Errno status, None, put_states w2 s3, fds)
                  else (case cache_inode_close pol now FSAL_close s3 fds e of
                    (status, fds') \<Rightarrow>
                      if status \<noteq> CACHE_INODE_SUCCESS then Some (nfs4_Errno status, None, put_states w2 s3, fds')
                      else Some (NFS4_OK, Some (seqid, take 12 other), put_states w2 s3, fds')) } } } } }))"

subsection \<open>Lemmas on the steps of the operations\<close>

lemma set_state_fields [simp]:
  "ht_state_id (set_state s a f) = ht_state_id s" "entries (set_state s a f) = entries s" "smem (set_state s a f) = smem s"
  "pool_state_v4 (set_state s a f) = pool_state_v4 s" "sheap (set_state s a f) = (sheap s)(a := f (sheap s a))"
  by (simp_all add: set_state_def)

lemma put_states_fields [simp]:
  "wstates (put_states w s) = s" "wowners (put_states w s) = wowners w" "wclients (put_states w s) = wclients w"
  by (simp_all add: put_states_def)

lemma set_owner_fields [simp]:
  "wstates (set_owner w a f) = wstates w" "wclients (set_owner w a f) = wclients w"
  "oheap (wowners (set_owner w a f)) = (oheap (wowners w))(a := f (oheap (wowners w) a))"
  by (simp_all add: set_owner_def)

text \<open>Updates of a state that keep its links and its stateid keep the invariant.\<close>

definition quiet :: "(nfs_state \<Rightarrow> nfs_state) \<Rightarrow> bool" where
  "quiet f \<longleftrightarrow> (\<forall>r. snext (f r) = snext r \<and> sprev (f r) = sprev r \<and> spentry (f r) = spentry r \<and> stateid_other (f r) = stateid_other r)"

lemma quiet_next [simp]: "quiet next_seqid"
  by (simp add: quiet_def next_seqid_def)

lemma states_inv_set [intro]:
  assumes "states_inv L s" "quiet f"
  shows "states_inv L (set_state s a f)"
proof -
  have "list_ok (sheap (set_state s a f)) (entries s e) e (L e) = list_ok (sheap s) (entries s e) e (L e)" for e
    by (rule list_ok_cong) (use assms(2) in \<open>auto simp: quiet_def\<close>)
  moreover have "lookups_ok L (set_state s a f) = lookups_ok L s"
    using assms(2) by (auto simp: lookups_ok_def quiet_def)
  moreover have "table_inv (set_state s a f)" using states_inv_D(1) [OF assms(1)] by (rule table_inv_cong) simp_all
  ultimately show ?thesis using assms(1) by (simp add: states_inv_def)
qed

text \<open>A search in the table of stateids.\<close>

definition searched :: "states \<Rightarrow> states \<Rightarrow> bool" where
  "searched s s' \<longleftrightarrow> (\<exists>t. s' = s\<lparr>ht_state_id := t\<rparr> \<and> ht_lookup t = state_at s \<and> table_inv (s\<lparr>ht_state_id := t\<rparr>))"

lemma searched_D:
  assumes "searched s s'"
  shows "sheap s' = sheap s" "entries s' = entries s" "state_at s' = state_at s" "pool_state_v4 s' = pool_state_v4 s"
    "states_inv L s \<Longrightarrow> states_inv L s'"
  using assms by (auto simp: searched_def intro: states_inv_table)

lemma checked_D:
  assumes "checked w w'"
  shows "searched (wstates w) (wstates w')" "wowners w' = wowners w" "clients_ready (wclients w')"
    "client_of (wclients w') = client_of (wclients w)"
  using assms by (auto simp: checked_def searched_def)

lemma get_state_post:
  assumes "states_inv L s" "state_at s k = Some p"
  shows "\<exists>s'. cache_inode_get_state s k = Some (CACHE_INODE_SUCCESS, Some p, s') \<and> searched s s'"
  by (rule State_Get_Pointer_correct [OF states_inv_D(1) [OF assms(1)], of k])
    (use assms(2) in \<open>auto simp: cache_inode_get_state_def searched_def\<close>)

text \<open>The state that the stateid of \<open>p\<close> leads to is \<open>p\<close>, so writing its contents back changes nothing.\<close>

lemma update_state_post:
  assumes inv: "states_inv L s" and p: "state_at s k = Some p" "stateid_other (sheap s p) = stateid_other r" "same12 (stateid_other r) k"
  shows "\<exists>s'. cache_inode_update_state s (Some p) = Some (CACHE_INODE_SUCCESS, s') \<and> searched s s'"
proof -
  have at: "state_at s (stateid_other (sheap s p)) = Some p"
    using state_at_same12 [OF states_inv_D(1) [OF inv], of "stateid_other (sheap s p)" k] p by simp
  have eta: "s\<lparr>ht_state_id := t, sheap := sheap s\<rparr> = s\<lparr>ht_state_id := t\<rparr>" for t by (cases s) simp
  show ?thesis
    by (rule State_Update_correct [OF states_inv_D(1) [OF inv], of "stateid_other (sheap s p)" "sheap s p"])
      (use at eta in \<open>auto simp: cache_inode_update_state_def searched_def\<close>)
qed

text \<open>The stateid \<open>other\<close> names the state \<open>p\<close> of a known client, on this instance of the server.\<close>

definition valid_stateid :: "u64 \<Rightarrow> nfs4_world \<Rightarrow> u8 list \<Rightarrow> addr \<Rightarrow> bool" where
  "valid_stateid boot w other p \<longleftrightarrow> state_at (wstates w) other = Some p
     \<and> client_of (wclients w) (oo_clientid (oheap (wowners w) (powner (sheap (wstates w) p)))) \<noteq> None
     \<and> fst (stateid_fields other) = ucast (boot AND 0xFFFF)"

text \<open>The request is for a regular file, with a handle that passes the checks.\<close>

definition on_file :: "nfs4_config \<Rightarrow> nfs4_world \<Rightarrow> compound_data \<Rightarrow> addr \<Rightarrow> bool" where
  "on_file cfg w data e \<longleftrightarrow> check_fh cfg data = NFS4_OK \<and> current_entry data = Some e
     \<and> entry_type (entries (wstates w) e) = REGULAR_FILE \<and> current_filetype data = REGULAR_FILE"

lemma check_and_get:
  assumes inv: "states_inv L (wstates w)" "clients_ready (wclients w)"
    and v: "valid_stateid (ServerBootTime cfg) w other p" and f: "on_file cfg w data e"
  obtains w1 s2 where "nfs4_Check_Stateid (return_bad_stateid cfg) (ServerBootTime cfg) w (Some other) (Some e) 0 = Some (NFS4_OK, w1)"
    "cache_inode_get_state (wstates w1) other = Some (CACHE_INODE_SUCCESS, Some p, s2)" "states_inv L s2"
    "sheap s2 = sheap (wstates w)" "entries s2 = entries (wstates w)" "state_at s2 = state_at (wstates w)"
    "pool_state_v4 s2 = pool_state_v4 (wstates w)" "wowners w1 = wowners w"
proof -
  from v have a: "stateid_answer (return_bad_stateid cfg) (ServerBootTime cfg) w other = NFS4_OK"
    by (auto simp: stateid_answer_def valid_stateid_def)
  obtain w1 where w1: "nfs4_Check_Stateid (return_bad_stateid cfg) (ServerBootTime cfg) w (Some other) (Some e) 0 = Some (NFS4_OK, w1)"
    "checked w w1"
    using Check_Stateid_post [OF states_inv_D(1) [OF inv(1)] inv(2), of e "return_bad_stateid cfg" "ServerBootTime cfg" other] f a
    by (auto simp: on_file_def)
  note c = searched_D [OF checked_D(1) [OF w1(2)]]
  have "state_at (wstates w1) other = Some p" using c(3) v by (simp add: valid_stateid_def)
  from get_state_post [OF c(5) [OF inv(1)] this] obtain s2 where
    s2: "cache_inode_get_state (wstates w1) other = Some (CACHE_INODE_SUCCESS, Some p, s2)" "searched (wstates w1) s2" by blast
  note d = searched_D [OF s2(2)]
  show ?thesis
    by (rule that [OF w1(1) s2(1) d(5) [OF c(5) [OF inv(1)]]])
      (simp_all add: c(1-4) d(1-4) checked_D(2) [OF w1(2)])
qed

subsection \<open>A server with one open file\<close>

lemma State_Set_no_fail:
  assumes "table_inv s" "no_fail (smem s)" "0 < nb_node_prealloc (parameter (ht_state_id s))"
  shows "\<exists>s'. nfs4_State_Set s k p = Some (True, s')"
proof -
  from Mem_Alloc_no_fail [OF assms(2), of 1] obtain a m where a: "Mem_Alloc (smem s) 1 = (Some a, m)" "no_fail m" by blast
  have "hs_inv (parameter (ht_state_id s)) (m, ht_state_id s)"
    using table_hs [OF assms(1)] Mem_Alloc_grows [OF a(1)] by (rule hs_inv_grows)
  from hs_put_no_fail [OF this a(2) assms(3), of k p] a(1) show ?thesis by (auto simp: nfs4_State_Set_def)
qed

definition demo_share :: cache_inode_share where
  "demo_share = \<lparr>oexcl_verifier = [], share_access = 1, share_deny = 0, lockheld = 0\<rparr>"

definition demo_open :: nfs_state where
  "demo_open = \<lparr>state_type = CACHE_INODE_STATE_SHARE, state_data = Share demo_share, sseqid = 0, stateid_other = replicate 12 0,
     powner = 0, snext = None, sprev = None, spentry = Some 0\<rparr>"

definition one_open :: "addr \<Rightarrow> addr \<Rightarrow> addr list" where
  "one_open p e = (if e = 0 then [p] else [])"

text \<open>The only state of the server, of the file 0, with the zero stateid.\<close>

definition lone_state :: "nfs_state \<Rightarrow> bool" where
  "lone_state r \<longleftrightarrow> snext r = None \<and> sprev r = None \<and> spentry r = Some 0 \<and> stateid_other r = replicate 12 0 \<and> powner r = 0"

lemma demo_open_lone [simp]: "lone_state demo_open"
  by (simp add: lone_state_def demo_open_def)

lemma lone_states:
  assumes "lone_state r"
  shows "\<exists>s p. states_inv (one_open p) s \<and> state_at s (replicate 12 0) = Some p \<and> sheap s p = r
     \<and> (\<forall>e. entry_type (entries s e) = REGULAR_FILE)"
proof -
  from demo_state_table obtain m t where t: "table_inv (demo_states m t)" "no_fail m" "parameter t = state_par 17 4" "ht_lookup t = (\<lambda>_. None)"
    by blast
  let ?m = "m\<lparr>brk := Suc (brk m)\<rparr>" and ?p = "brk m"
  let ?s = "(demo_states ?m t)\<lparr>sheap := (\<lambda>_. demo_state)(?p := r), entries := (\<lambda>_. demo_entry)(0 := demo_entry\<lparr>pstate_head := Some ?p\<rparr>)\<rparr>"
  have tab: "table_inv ?s" using t(1) ht_inv_grows [of m t ?m] by (simp add: table_inv_def demo_states_def mem_grows_def)
  have live: "live (one_open ?p) = {?p}" by (auto simp: live_def one_open_def split: if_splits)
  have "list_ok (sheap ?s) (entries ?s e) e (one_open ?p e)" for e
    using assms by (simp add: one_open_def list_ok_def lone_state_def demo_entry_def demo_states_def)
  then have inv: "states_inv (one_open ?p) ?s"
    using tab t(4) live by (simp add: states_inv_def lookups_ok_def pool_inv_def demo_states_def)
  have "?p \<in> live (one_open ?p)" using live by simp
  from publish_correct [OF inv this] obtain ok s' where
    s': "publish_state ?s ?p = Some (if ok then (CACHE_INODE_SUCCESS, Some ?p, s') else (CACHE_INODE_STATE_ERROR, None, s'))"
    "states_inv (one_open ?p) s'" "sheap s' = sheap ?s" "entries s' = entries ?s"
    "state_at s' = (if ok then upd_map same12 (state_at ?s) (stateid_other (sheap ?s ?p)) (Some ?p) else state_at ?s)" by blast
  have "no_fail (smem ?s)" "0 < nb_node_prealloc (parameter (ht_state_id ?s))"
    using t(2,3) by (simp_all add: no_fail_def demo_states_def state_par_def)
  from State_Set_no_fail [OF tab this, of "stateid_other (sheap ?s ?p)" ?p] s'(1) have ok
    by (auto simp: publish_state_def split: if_splits)
  with s' show ?thesis
    by (intro exI [of _ s'] exI [of _ ?p]) (use assms in \<open>simp add: upd_map_def lone_state_def demo_states_def demo_entry_def\<close>)
qed

definition demo_cfg :: nfs4_config where
  "demo_cfg = \<lparr>fh_cfg = \<lparr>fh_expire = False, returns_err_fh_expired = False\<rparr>, return_bad_stateid = True, ServerBootTime = 0x10000\<rparr>"

definition demo_data :: compound_data where
  "demo_data = \<lparr>currentFH = \<lparr>fh_len = 112, fh_val = Some (4096, replicate 112 0)\<rparr>, current_entry = Some 0, current_filetype = REGULAR_FILE\<rparr>"

lemma demo_check_fh: "check_fh demo_cfg demo_data = NFS4_OK"
  by (simp add: check_fh_def check_handle_def demo_cfg_def demo_data_def nfs4_Is_Fh_Empty_def nfs4_Is_Fh_Invalid_def nfs4_Is_Fh_Expired_def sizeof_v4_def)

definition demo_clients_of :: "clients \<Rightarrow> bool" where
  "demo_clients_of c \<longleftrightarrow> clients_ready c \<and> client_of c (oo_clientid demo_owner) \<noteq> None"

lemma demo_open_clients: "\<exists>c. demo_clients_of c"
proof -
  from demo_ready obtain s where "clients_ready s" by blast
  from store_client_ready [OF this, of "oo_clientid demo_owner" demo_client] show ?thesis by (auto simp: demo_clients_of_def)
qed

text \<open>Every owner of the heap is \<open>own\<close>.\<close>

definition demo_world :: "clients \<Rightarrow> states \<Rightarrow> open_owner \<Rightarrow> owners \<Rightarrow> nfs4_world" where
  "demo_world c s own ow = \<lparr>wclients = c, wowners = ow\<lparr>oheap := \<lambda>_. own\<rparr>, wstates = s\<rparr>"

lemma le_word_replicate: "le_word (replicate n 0) = (0 :: 'a::len word)"
  by (induction n) (simp_all add: le_word_def)

lemma lone_world:
  assumes "oo_clientid own = oo_clientid demo_owner" and r: "lone_state r"
  shows "\<exists>w p. states_inv (one_open p) (wstates w) \<and> clients_ready (wclients w) \<and> valid_stateid (ServerBootTime demo_cfg) w (replicate 12 0) p
     \<and> on_file demo_cfg w demo_data 0 \<and> sheap (wstates w) p = r \<and> oheap (wowners w) 0 = own"
proof -
  from lone_states [OF r] obtain s p where
    s: "states_inv (one_open p) s" "state_at s (replicate 12 0) = Some p" "sheap s p = r" "\<forall>e. entry_type (entries s e) = REGULAR_FILE" by blast
  from demo_open_clients obtain c where c: "clients_ready c" "client_of c (oo_clientid demo_owner) \<noteq> None" by (auto simp: demo_clients_of_def)
  have "stateid_fields (replicate 12 0) = (0, 0, 0)" by (simp add: stateid_fields_def le_word_replicate)
  moreover obtain ow :: owners where "ow = ow" by simp
  ultimately show ?thesis using s c assms(1) r [unfolded lone_state_def] demo_check_fh
    by (intro exI [of _ "demo_world c s own ow"] exI [of _ p])
      (simp add: demo_world_def valid_stateid_def on_file_def demo_cfg_def demo_data_def)
qed

subsection \<open>Properties\<close>

text \<open>OPEN\_CONFIRM.  For a valid stateid, nfs4_op_open_confirm refuses an owner that is confirmed already and a
  sequence number that is neither the owner's nor the next one, without changing any state or
  owner.  Otherwise it confirms the owner, advances the sequence numbers of the owner and of the
  state by one and returns the stateid; no other owner and no other state changes, and the
  lists of states and the table stay as they were.\<close>

theorem open_confirm_correct:
  assumes "states_inv L (wstates w)" "clients_ready (wclients w)"
    and "valid_stateid (ServerBootTime cfg) w other p" "on_file cfg w data e"
    and own: "powner (sheap (wstates w) p) = own" "oheap (wowners w) own = o1"
  shows "\<exists>w'. nfs4_op_open_confirm cfg w data other seqid = Some
      (if oo_confirmed o1 then (NFS4ERR_BAD_STATEID, None, w')
       else if seqid \<notin> {oo_seqid o1, oo_seqid o1 + 1} then (NFS4ERR_BAD_SEQID, None, w')
       else (NFS4_OK, Some (seqid, take 12 other), w'))
     \<and> states_inv L (wstates w') \<and> state_at (wstates w') = state_at (wstates w)
     \<and> (if \<not> oo_confirmed o1 \<and> seqid \<in> {oo_seqid o1, oo_seqid o1 + 1}
        then oheap (wowners w') = (oheap (wowners w))(own := o1\<lparr>oo_confirmed := True, oo_seqid := oo_seqid o1 + 1\<rparr>)
          \<and> sheap (wstates w') = (sheap (wstates w))(p := (sheap (wstates w) p)\<lparr>sseqid := sseqid (sheap (wstates w) p) + 1\<rparr>)
        else oheap (wowners w') = oheap (wowners w) \<and> sheap (wstates w') = sheap (wstates w))"
proof (rule check_and_get [OF assms(1-4)])
  fix w1 s2
  let ?s = "set_state s2 p next_seqid"
  assume c: "nfs4_Check_Stateid (return_bad_stateid cfg) (ServerBootTime cfg) w (Some other) (Some e) 0 = Some (NFS4_OK, w1)"
    "cache_inode_get_state (wstates w1) other = Some (CACHE_INODE_SUCCESS, Some p, s2)" and i: "states_inv L s2"
    and f: "sheap s2 = sheap (wstates w)" "state_at s2 = state_at (wstates w)" "wowners w1 = wowners w"
  have o12: "same12 (stateid_other (sheap s2 p)) other" and p: "state_at s2 other = Some p"
    using state_found [OF i, of other p] assms(3) f(2) by (auto simp: valid_stateid_def)
  have "stateid_other (sheap ?s p) = stateid_other (sheap s2 p)" by (simp add: next_seqid_def)
  from update_state_post [OF states_inv_set [OF i quiet_next, of p], of other p "sheap s2 p"] o12 p this
  obtain s3 where s3: "cache_inode_update_state ?s (Some p) = Some (CACHE_INODE_SUCCESS, s3)" "searched ?s s3" by auto
  note d = searched_D [OF s3(2)]
  note op = nfs4_op_open_confirm_def Let_def c f own assms(4) [unfolded on_file_def]
  consider "oo_confirmed o1" | "\<not> oo_confirmed o1" "seqid \<notin> {oo_seqid o1, oo_seqid o1 + 1}"
    | "\<not> oo_confirmed o1" "seqid \<in> {oo_seqid o1, oo_seqid o1 + 1}" by blast
  then show ?thesis
  proof cases
    case 1
    then show ?thesis using i by (simp add: op)
  next
    case 2
    then show ?thesis using i by (auto simp: op)
  next
    case 3
    have "nfs4_op_open_confirm cfg w data other seqid = Some (NFS4_OK, Some (seqid, take 12 other),
        put_states (set_owner w1 own confirm_owner) s3)"
      using 3 s3(1) d(1) o12 f(1) by (auto simp: op next_seqid_def same12_def)
    then show ?thesis using 3 d(1,3) d(5) [OF states_inv_set [OF i quiet_next]] f own
      by (intro exI [of _ "put_states (set_owner w1 own confirm_owner) s3"]) (simp add: confirm_owner_def next_seqid_def)
  qed
qed

theorem open_confirm_correct_witness:
  "\<exists>w w'. nfs4_op_open_confirm demo_cfg w demo_data (replicate 12 0) 1 = Some (NFS4_OK, Some (1, replicate 12 0), w')
     \<and> oo_confirmed (oheap (wowners w') 0)"
proof -
  have "oo_clientid (demo_owner\<lparr>oo_confirmed := False\<rparr>) = oo_clientid demo_owner" by simp
  from lone_world [OF this demo_open_lone] obtain w p where
    w: "states_inv (one_open p) (wstates w)" "clients_ready (wclients w)" "valid_stateid (ServerBootTime demo_cfg) w (replicate 12 0) p"
    "on_file demo_cfg w demo_data 0" and p: "powner (sheap (wstates w) p) = 0" "oheap (wowners w) 0 = demo_owner\<lparr>oo_confirmed := False\<rparr>"
    by (auto simp: demo_open_def)
  from open_confirm_correct [OF w p, of 1] obtain w' where
    "nfs4_op_open_confirm demo_cfg w demo_data (replicate 12 0) 1 = Some (NFS4_OK, Some (1, replicate 12 0), w')"
    "oo_confirmed (oheap (wowners w') 0)" by (auto simp: demo_owner_def)
  then show ?thesis by blast
qed

lemma close_same_type:
  "entry_type (entries s' e) = entry_type (entries s e)
   \<Longrightarrow> cache_inode_close pol now FSAL_close s' fds e = cache_inode_close pol now FSAL_close s fds e"
  by (simp add: cache_inode_close_def)

lemma unlink_keeps_type: "unlink_state s p = Some s' \<Longrightarrow> entry_type (entries s' e) = entry_type (entries s e)"
  by (auto simp: unlink_state_def Let_def split: Option.bind_splits if_splits)

lemma table_ops_keep_entries:
  "nfs4_State_Get_Pointer s k = Some (r, s') \<Longrightarrow> entries s' = entries s"
  "nfs4_State_Del s k = Some (ok, s') \<Longrightarrow> entries s' = entries s"
  by (auto simp: nfs4_State_Get_Pointer_def nfs4_State_Del_def split: Option.bind_splits)

lemma drop_keeps_entries: "drop_state s p = Some (status, s') \<Longrightarrow> entries s' = entries s"
  by (auto simp: drop_state_def reset_state_def err_unrecover_def dest!: table_ops_keep_entries split: Option.bind_splits if_splits)

lemma del_by_key_keeps_type:
  "cache_inode_del_state_by_key s k = Some (status, s') \<Longrightarrow> entry_type (entries s' e) = entry_type (entries s e)"
  by (auto simp: cache_inode_del_state_by_key_def split: Option.bind_splits option.splits if_splits
      dest!: table_ops_keep_entries drop_keeps_entries unlink_keeps_type [of _ _ _ e])


definition demo_policy :: fd_policy where
  "demo_policy = \<lparr>use_cache = 0, retention = 60, max_fd_per_thread = 20\<rparr>"


end
