(* ===== verification/Nfs4_Lock_Ops.thy ===== *)
theory Nfs4_Lock_Ops
  imports Nfs4_Open_Ops
begin

text \<open>
  The NFSv4 operations on byte-range locks: LOCK, LOCKT and LOCKU (\<^verbatim>\<open>NFS_Protocols/nfs4_op_lock.c\<close>,
  \<^verbatim>\<open>nfs4_op_lockt.c\<close>, \<^verbatim>\<open>nfs4_op_locku.c\<close>), as they are under \<^verbatim>\<open>_WITH_NFSV4_LOCKS\<close>.

  In LOCKT the variable \<open>cache_status\<close> is not initialised and \<open>cache_inode_state_iterate\<close> writes it on errors only;
  its value at the start is the argument \<open>junk\<close>.  \<open>None\<close> is a null pointer dereference, the use of a member of a
  union that the state does not have, or a loop that does not end.
\<close>

record lock_arg =
  locktype :: nfs_lock_type4
  offset :: u64
  len :: u64

text \<open>The lock that denied a request: its range, its type and the name of its owner.\<close>

type_synonym denied = "u64 \<times> u64 \<times> nfs_lock_type4 \<times> u8 list"

definition lock_member :: "state_data \<Rightarrow> cache_inode_lock option" where
  "lock_member d = (case d of Lock l \<Rightarrow> Some l | _ \<Rightarrow> None)"

definition share_member :: "state_data \<Rightarrow> cache_inode_share option" where
  "share_member d = (case d of Share sh \<Rightarrow> Some sh | _ \<Rightarrow> None)"

subsection \<open>The checks that the three operations share\<close>

definition bad_range :: "u64 \<Rightarrow> u64 \<Rightarrow> bool" where
  "bad_range off n \<longleftrightarrow> n = 0 \<or> n \<noteq> 0xffffffffffffffff \<and> n > 0xffffffffffffffff - off"

text \<open>The test for overlapping ranges; the sums wrap around.\<close>

definition lock_overlap :: "u64 \<Rightarrow> u64 \<Rightarrow> u64 \<Rightarrow> u64 \<Rightarrow> bool" where
  "lock_overlap off1 len1 off2 len2 =
     (let a = off1; b = off1 + len1; a1 = off2; b1 = off2 + len2
      in if a \<le> a1 then a1 < b
         else a < b1 \<and> b1 \<le> b)"

subsection \<open>LOCKT\<close>

text \<open>The body of the loop on one state: the lock that denies the request, if any.\<close>

definition lockt_conflict :: "nfs4_world \<Rightarrow> lock_arg \<Rightarrow> u8 list \<Rightarrow> addr \<Rightarrow> denied option option" where
  "lockt_conflict w arg owner_val a =
     (let r = sheap (wstates w) a
      in if state_type r \<noteq> CACHE_INODE_STATE_LOCK then Some None
         else do {
           l \<leftarrow> lock_member (state_data r);
           let own = oheap (wowners w) (powner r)
           in Some (if lock_overlap (lk_offset l) (lk_length l) (offset arg) (len arg)
                       \<and> (locktype arg \<noteq> READ_LT \<or> lock_type l \<noteq> READ_LT)
                       \<and> owner_val \<noteq> oo_val own
                    then Some (lk_offset l, lk_length l, lock_type l, oo_val own) else None) })"

partial_function (option) lockt_loop ::
  "(u8 list \<Rightarrow> u64 option) \<Rightarrow> nfs4_world \<Rightarrow> lock_arg \<Rightarrow> u8 list \<Rightarrow> addr option \<Rightarrow> cache_inode_status \<Rightarrow> addr option \<Rightarrow> (nfsstat4 \<times> denied option) option" where
  "lockt_loop FSAL_DigestHandle w arg owner_val pentry cache_status pstate_found =
     (let (cache_status, out) = cache_inode_state_iterate FSAL_DigestHandle (wstates w) pentry pstate_found cache_status;
          pstate_found = (case out of None \<Rightarrow> pstate_found | Some p \<Rightarrow> p)
      in if cache_status = CACHE_INODE_STATE_ERROR \<or> cache_status = CACHE_INODE_INVALID_ARGUMENT then Some (NFS4ERR_INVAL, None)
         else (case pstate_found of
                 None \<Rightarrow> Some (NFS4_OK, None)
               | Some a \<Rightarrow>
                   Option.bind (lockt_conflict w arg owner_val a) (\<lambda>conflict.
                     case conflict of
                       Some d \<Rightarrow> Some (NFS4ERR_DENIED, Some d)
                     | None \<Rightarrow> lockt_loop FSAL_DigestHandle w arg owner_val pentry cache_status (Some a))))"

declare lockt_loop.simps [code]

definition nfs4_op_lockt :: "(u8 list \<Rightarrow> u64 option) \<Rightarrow> nfs4_config \<Rightarrow> nfs4_world \<Rightarrow> compound_data \<Rightarrow> lock_arg \<Rightarrow> u64 \<Rightarrow> u8 list \<Rightarrow> cache_inode_status
    \<Rightarrow> (nfsstat4 \<times> denied option \<times> nfs4_world) option" where
  "nfs4_op_lockt FSAL_DigestHandle cfg w data arg owner_clientid owner_val junk =
     (if check_fh cfg data \<noteq> NFS4_OK then Some (check_fh cfg data, None, w)
      else if current_filetype data \<noteq> REGULAR_FILE
      then Some (if is_dir (current_filetype data) then NFS4ERR_ISDIR else NFS4ERR_INVAL, None, w)
      else if bad_range (offset arg) (len arg) then Some (NFS4ERR_INVAL, None, w)
      else do {
        (rc, _, c1) \<leftarrow> nfs_client_id_get (wclients w) owner_clientid;
        let w1 = w\<lparr>wclients := c1\<rparr>
        in if rc \<noteq> CLIENT_ID_SUCCESS then Some (NFS4ERR_STALE_CLIENTID, None, w1)
           else do {
             (status, d) \<leftarrow> lockt_loop FSAL_DigestHandle w1 arg owner_val (current_entry data) junk None;
             Some (status, d, w1) } })"

subsection \<open>LOCKU\<close>

definition unhold :: "nfs_state \<Rightarrow> nfs_state option" where
  "unhold r = do {
     sh \<leftarrow> share_member (state_data r);
     Some (r\<lparr>sseqid := sseqid r + 1, state_data := Share (if lockheld sh > 0 then sh\<lparr>lockheld := lockheld sh - 1\<rparr> else sh)\<rparr>) }"

text \<open>A wrong file type sets the status and does not return: the range check follows.\<close>

definition nfs4_op_locku :: "nfs4_config \<Rightarrow> nfs4_world \<Rightarrow> compound_data \<Rightarrow> u32 \<Rightarrow> stateid \<Rightarrow> u64 \<Rightarrow> u64
    \<Rightarrow> (nfsstat4 \<times> stateid option \<times> nfs4_world) option" where
  "nfs4_op_locku cfg w data seqid lock_stateid off n =
     (if check_fh cfg data \<noteq> NFS4_OK then Some (check_fh cfg data, None, w)
      else if bad_range off n then Some (NFS4ERR_INVAL, None, w)
      else do {
        (rc, w1) \<leftarrow> nfs4_Check_Stateid (return_bad_stateid cfg) (ServerBootTime cfg) w (Some (snd lock_stateid)) (current_entry data) 0;
        if rc \<noteq> NFS4_OK then Some (rc, None, w1)
        else do {
          (status, pstate_found, s2) \<leftarrow> cache_inode_get_state (wstates w1) (snd lock_stateid);
          let w2 = put_states w1 s2
          in if status \<noteq> CACHE_INODE_SUCCESS
             then Some (if status = CACHE_INODE_NOT_FOUND then NFS4ERR_LOCK_RANGE else nfs4_Errno status, None, w2)
             else do {
               p \<leftarrow> pstate_found;
               let r = sheap s2 p; own = powner r; o1 = oheap (wowners w2) own
               in if seqid \<noteq> oo_seqid o1 \<and> seqid \<noteq> oo_seqid o1 + 1 then Some (NFS4ERR_BAD_SEQID, None, w2)
               else if fst lock_stateid \<noteq> sseqid r \<and> fst lock_stateid \<noteq> sseqid r + 1 then Some (NFS4ERR_BAD_SEQID, None, w2)
               else do {
                 l \<leftarrow> lock_member (state_data r);
                 s3 \<leftarrow> (case popenstate l of
                          None \<Rightarrow> Some s2
                        | Some q \<Rightarrow> do { r' \<leftarrow> unhold (sheap s2 q); Some (set_state s2 q (\<lambda>_. r')) });
                 let s4 = set_state s3 p next_seqid; answer = (sseqid (sheap s4 p), take 12 (stateid_other (sheap s4 p)));
                     w4 = set_owner (put_states w2 s4) own bump_owner
                 in do {
                   rel \<leftarrow> related_owner (oheap (wowners w4) own);
                   (status, s5) \<leftarrow> cache_inode_del_state s4 (Some p);
                   let w5 = put_states (set_owner w4 rel bump_owner) s5
                   in Some (if status \<noteq> CACHE_INODE_SUCCESS then (nfs4_Errno status, None, w5)
                            else (NFS4_OK, Some answer, w5)) } } } } })"

subsection \<open>LOCK\<close>

datatype locker =
    New_owner (open_seqid: u32) (open_stateid: stateid) (lock_seqid: u32) (lo_clientid: u64) (lo_val: "u8 list")
  | Known_owner (lock_stateid: stateid) (lock_seqid: u32)

text \<open>The pools of owners and of names of owners of the worker.\<close>

record lock_world =
  lw :: nfs4_world
  pool_open_owner :: "addr list"
  pool_open_owner_name :: "addr list"

definition put_lw :: "lock_world \<Rightarrow> nfs4_world \<Rightarrow> lock_world" where
  "put_lw W w = W\<lparr>lw := w\<rparr>"

text \<open>The state of the locker: the open state for a new owner, the lock state (if any) for a known one.\<close>

definition find_locker :: "nfs4_world \<Rightarrow> locker \<Rightarrow> ((nfsstat4 + addr option \<times> addr option) \<times> nfs4_world) option" where
  "find_locker w lk =
     (case lk of
        New_owner _ st _ _ _ \<Rightarrow> do {
          (status, p, s1) \<leftarrow> cache_inode_get_state (wstates w) (snd st);
          Some (if status \<noteq> CACHE_INODE_SUCCESS then Inl NFS4ERR_STALE_STATEID else Inr (p, None), put_states w s1) }
      | Known_owner st _ \<Rightarrow> do {
          (status, p, s1) \<leftarrow> cache_inode_get_state (wstates w) (snd st);
          Some (if status \<noteq> CACHE_INODE_SUCCESS
                then if take 12 (snd st) = replicate 12 0 \<and> fst st = 0 then Inr (None, None)
                     else Inl (if status = CACHE_INODE_NOT_FOUND then NFS4ERR_STALE_STATEID else NFS4ERR_INVAL)
                else Inr (None, p), put_states w s1) })"

datatype verdict = Denied denied | Open_mode | Passes

definition OPEN4_SHARE_ACCESS_WRITE :: u32 where "OPEN4_SHARE_ACCESS_WRITE = 2"
definition OPEN4_SHARE_DENY_WRITE :: u32 where "OPEN4_SHARE_DENY_WRITE = 2"

text \<open>The body of the loop of LOCK on one state; \<open>pstate_exists\<close> is the lock state of a known owner.\<close>

definition lock_verdict :: "nfs4_world \<Rightarrow> lock_arg \<Rightarrow> addr option \<Rightarrow> addr \<Rightarrow> verdict option" where
  "lock_verdict w arg pstate_exists a =
     (let r = sheap (wstates w) a; own = oheap (wowners w) (powner r)
      in case state_type r of
           CACHE_INODE_STATE_LOCK \<Rightarrow> do {
             l \<leftarrow> lock_member (state_data r);
             Some (if lock_overlap (lk_offset l) (lk_length l) (offset arg) (len arg)
                      \<and> (locktype arg \<noteq> READ_LT \<or> lock_type l \<noteq> READ_LT)
                      \<and> \<not> (case pstate_exists of
                            None \<Rightarrow> False
                          | Some x \<Rightarrow> oo_val (oheap (wowners w) (powner (sheap (wstates w) x))) = oo_val own)
                   then Denied (lk_offset l, lk_length l, lock_type l, oo_val own) else Passes) }
         | CACHE_INODE_STATE_SHARE \<Rightarrow> do {
             sh \<leftarrow> share_member (state_data r);
             Some (if share_deny sh AND OPEN4_SHARE_DENY_WRITE \<noteq> 0 \<and> share_access sh AND OPEN4_SHARE_ACCESS_WRITE = 0
                      \<and> locktype arg = WRITE_LT then Open_mode else Passes) }
         | _ \<Rightarrow> Some Passes)"

definition bump_exists :: "nfs4_world \<Rightarrow> addr option \<Rightarrow> nfs4_world" where
  "bump_exists w pstate_exists =
     (case pstate_exists of None \<Rightarrow> w | Some x \<Rightarrow> set_owner w (powner (sheap (wstates w) x)) bump_owner)"

partial_function (option) lock_loop ::
  "(u8 list \<Rightarrow> u64 option) \<Rightarrow> nfs4_world \<Rightarrow> lock_arg \<Rightarrow> addr option \<Rightarrow> addr option \<Rightarrow> cache_inode_status \<Rightarrow> addr option
     \<Rightarrow> (nfsstat4 \<times> denied option \<times> nfs4_world) option" where
  "lock_loop FSAL_DigestHandle w arg pstate_exists pentry cache_status previous =
     (let (cache_status, out) = cache_inode_state_iterate FSAL_DigestHandle (wstates w) pentry previous cache_status;
          found = (case out of None \<Rightarrow> previous | Some p \<Rightarrow> p)
      in if cache_status = CACHE_INODE_STATE_ERROR \<or> cache_status = CACHE_INODE_INVALID_ARGUMENT then Some (NFS4ERR_INVAL, None, w)
         else (case found of
                 None \<Rightarrow> Some (NFS4_OK, None, w)
               | Some a \<Rightarrow>
                   Option.bind (lock_verdict w arg pstate_exists a) (\<lambda>v.
                     case v of
                       Denied d \<Rightarrow> Some (NFS4ERR_DENIED, Some d, bump_exists w pstate_exists)
                     | Open_mode \<Rightarrow> Some (NFS4ERR_OPENMODE, None, bump_exists w pstate_exists)
                     | Passes \<Rightarrow> lock_loop FSAL_DigestHandle w arg pstate_exists pentry cache_status (Some a))))"

declare lock_loop.simps [code]

definition sizeof_open_owner :: nat where "sizeof_open_owner = 344"
definition sizeof_open_owner_name :: nat where "sizeof_open_owner_name = 280"

text \<open>The owner of the new lock, entered in the table of owners.  The results of the pools are not tested.\<close>

definition new_lock_owner :: "lock_world \<Rightarrow> addr \<Rightarrow> u64 \<Rightarrow> u8 list \<Rightarrow> (bool \<times> addr \<times> lock_world) option" where
  "new_lock_owner W pstate_open cid val = do {
     name \<leftarrow> nfs_convert_open_owner cid val;
     let w = lw W; ow = wowners w; nb = unat (nb_pre_state_v4 (wstates w))
     in case GET_PREALLOC (omem ow) (pool_open_owner W) nb sizeof_open_owner of
          (po, pool1, m1) \<Rightarrow>
            (case GET_PREALLOC m1 (pool_open_owner_name W) nb sizeof_open_owner_name of
               (pn, pool2, m2) \<Rightarrow> do {
                 _ \<leftarrow> pn;
                 a \<leftarrow> po;
                 let o1 = (oheap ow a)\<lparr>oo_confirmed := False, oo_seqid := 0,
                            related_owner := Some (powner (sheap (wstates w) pstate_open)), oo_clientid := cid, oo_val := val\<rparr>
                 in do {
                   (ok, ow1) \<leftarrow> nfs_open_owner_Set (ow\<lparr>omem := m2, oheap := (oheap ow)(a := o1)\<rparr>) name a;
                   Some (ok, a, W\<lparr>lw := w\<lparr>wowners := ow1\<rparr>, pool_open_owner := pool1, pool_open_owner_name := pool2\<rparr>) } }) }"

definition hold :: "nfs_state \<Rightarrow> nfs_state option" where
  "hold r = do { sh \<leftarrow> share_member (state_data r); Some (r\<lparr>state_data := Share (sh\<lparr>lockheld := lockheld sh + 1\<rparr>)\<rparr>) }"

definition lock_new_owner :: "(u8 list \<Rightarrow> u64 option) \<Rightarrow> nfs4_config \<Rightarrow> lock_world \<Rightarrow> compound_data \<Rightarrow> lock_arg
    \<Rightarrow> u32 \<Rightarrow> stateid \<Rightarrow> u32 \<Rightarrow> u64 \<Rightarrow> u8 list \<Rightarrow> addr \<Rightarrow> (nfsstat4 \<times> stateid option \<times> lock_world) option" where
  "lock_new_owner FSAL_DigestHandle cfg W data arg oseqid ost lseqid cid val pstate_open = do {
     (rc, w1) \<leftarrow> nfs4_Check_Stateid (return_bad_stateid cfg) (ServerBootTime cfg) (lw W) (Some (snd ost)) (current_entry data) 0;
     if rc \<noteq> NFS4_OK then Some (rc, None, put_lw W w1)
     else do {
       (crc, _, c2) \<leftarrow> nfs_client_id_get (wclients w1) cid;
       let w2 = w1\<lparr>wclients := c2\<rparr>; W2 = put_lw W w2; r = sheap (wstates w2) pstate_open; oseq = oo_seqid (oheap (wowners w2) (powner r))
       in if crc = CLIENT_ID_NOT_FOUND then Some (NFS4ERR_STALE_CLIENTID, None, W2)
       else if state_type r \<noteq> CACHE_INODE_STATE_SHARE then Some (NFS4ERR_BAD_STATEID, None, W2)
       else if fst ost < sseqid r then Some (NFS4ERR_OLD_STATEID, None, W2)
       else if oseqid < oseq \<or> oseqid > oseq + 2 then Some (NFS4ERR_BAD_SEQID, None, W2)
       else if spentry r \<noteq> current_entry data then Some (NFS4ERR_BAD_STATEID, None, W2)
       else if lseqid \<noteq> 0 then Some (NFS4ERR_BAD_SEQID, None, W2)
       else do {
         (ok, own, W3) \<leftarrow> new_lock_owner W2 pstate_open cid val;
         if \<not> ok then Some (NFS4ERR_SERVERFAULT, None, W3)
         else do {
           (status, file_state, s4) \<leftarrow> cache_inode_add_state FSAL_DigestHandle (ServerBootTime cfg) (oheap (wowners (lw W3))) (wstates (lw W3))
              (current_entry data) CACHE_INODE_STATE_LOCK
              (Lock \<lparr>lk_offset = offset arg, lk_length = len arg, lock_type = locktype arg, popenstate = Some pstate_open\<rparr>) (Some own);
           let W4 = put_lw W3 (put_states (lw W3) s4)
           in if status \<noteq> CACHE_INODE_SUCCESS then Some (NFS4ERR_STALE_STATEID, None, W4)
              else do {
                f \<leftarrow> file_state;
                r' \<leftarrow> hold (sheap s4 pstate_open);
                Some (NFS4_OK, Some (sseqid (sheap s4 f), take 12 (stateid_other (sheap s4 f))),
                      put_lw W4 (set_owner (put_states (lw W4) (set_state s4 pstate_open (\<lambda>_. r'))) (powner (sheap s4 pstate_open)) bump_owner)) } } } } }"

definition lock_known_owner :: "nfs4_world \<Rightarrow> compound_data \<Rightarrow> stateid \<Rightarrow> u32 \<Rightarrow> (nfsstat4 \<times> stateid option \<times> nfs4_world) option" where
  "lock_known_owner w data st lseqid = do {
     (status, pstate_found, s1) \<leftarrow> cache_inode_get_state (wstates w) (snd st);
     let w1 = put_states w s1
     in if status \<noteq> CACHE_INODE_SUCCESS then Some (NFS4ERR_STALE_STATEID, None, w1)
        else do {
          p \<leftarrow> pstate_found;
          let r = sheap s1 p
          in if state_type r \<noteq> CACHE_INODE_STATE_LOCK then Some (NFS4ERR_BAD_STATEID, None, w1)
          else if fst st < sseqid r then Some (NFS4ERR_OLD_STATEID, None, w1)
          else if lseqid \<noteq> sseqid r \<and> lseqid \<noteq> sseqid r + 1 then Some (NFS4ERR_BAD_SEQID, None, w1)
          else if spentry r \<noteq> current_entry data then Some (NFS4ERR_BAD_STATEID, None, w1)
          else let s2 = set_state s1 p next_seqid; w2 = put_states w1 s2
               in Some (NFS4_OK, Some (sseqid (sheap s2 p), take 12 (stateid_other (sheap s2 p))),
                        (case related_owner (oheap (wowners w2) (powner r)) of
                           None \<Rightarrow> w2
                         | Some rel \<Rightarrow> set_owner w2 rel bump_owner)) } }"

text \<open>The answer is a status with a stateid, or the lock in the way.\<close>

definition nfs4_op_lock :: "(u8 list \<Rightarrow> u64 option) \<Rightarrow> nfs4_config \<Rightarrow> lock_world \<Rightarrow> compound_data \<Rightarrow> lock_arg \<Rightarrow> locker
    \<Rightarrow> (nfsstat4 \<times> (denied + stateid) option \<times> lock_world) option" where
  "nfs4_op_lock FSAL_DigestHandle cfg W data arg lk =
     (if check_fh cfg data \<noteq> NFS4_OK then Some (check_fh cfg data, None, W)
      else if bad_range (offset arg) (len arg) then Some (NFS4ERR_INVAL, None, W)
      else do {
        (r, w1) \<leftarrow> find_locker (lw W) lk;
        case r of
          Inl status \<Rightarrow> Some (status, None, put_lw W w1)
        | Inr (pstate_open, pstate_exists) \<Rightarrow> do {
            (status, d, w2) \<leftarrow> lock_loop FSAL_DigestHandle w1 arg pstate_exists (current_entry data)
               (if pstate_open = None \<and> pstate_exists = None then CACHE_INODE_NOT_FOUND else CACHE_INODE_SUCCESS) None;
            if status \<noteq> NFS4_OK then Some (status, map_option Inl d, put_lw W w2)
            else (case lk of
                    New_owner oseqid ost lseqid cid val \<Rightarrow> do {
                      p \<leftarrow> pstate_open;
                      (status, st, W3) \<leftarrow> lock_new_owner FSAL_DigestHandle cfg (put_lw W w2) data arg oseqid ost lseqid cid val p;
                      Some (status, map_option Inr st, W3) }
                  | Known_owner st lseqid \<Rightarrow> do {
                      (status, st', w3) \<leftarrow> lock_known_owner w2 data st lseqid;
                      Some (status, map_option Inr st', put_lw W w3) }) } })"

subsection \<open>Ranges\<close>

text \<open>
  The bytes of a lock: the length with all bits set stands for every byte from the offset on.  The
  ranges that pass the check do not wrap around.
\<close>

definition lock_bytes :: "u64 \<Rightarrow> u64 \<Rightarrow> nat set" where
  "lock_bytes off n = (if n = 0xffffffffffffffff then {unat off ..} else {unat off ..< unat off + unat n})"

lemma unat_u64: "unat (x :: u64) < 0x10000000000000000"
  using unsigned_less [of x, where ?'a = nat] by simp

lemma good_range:
  assumes "\<not> bad_range off n" "n \<noteq> 0xffffffffffffffff"
  shows "unat (off + n) = unat off + unat n" "0 < unat n"
proof -
  have "n \<le> 0xffffffffffffffff - off" "0 < n" using assms by (auto simp: bad_range_def word_gt_0)
  then have "unat n \<le> unat (0xffffffffffffffff - off)" by (simp add: word_le_nat_alt)
  moreover have "off \<le> 0xffffffffffffffff" using unat_u64 [of off] by (simp add: word_le_nat_alt)
  then have "unat (0xffffffffffffffff - off) = 0xffffffffffffffff - unat off" by (simp add: unat_sub)
  ultimately have "unat off + unat n < 2 ^ 64" using unat_u64 [of off] by simp
  then show "unat (off + n) = unat off + unat n" by (simp add: unat_word_ariths)
  show "0 < unat n" using \<open>0 < n\<close> by (simp add: unat_gt_0 word_greater_zero_iff)
qed

lemma lock_overlap_finite:
  assumes "\<not> bad_range off1 n1" "\<not> bad_range off2 n2" "n1 \<noteq> 0xffffffffffffffff" "n2 \<noteq> 0xffffffffffffffff"
  shows "lock_overlap off1 n1 off2 n2 \<longleftrightarrow> lock_bytes off1 n1 \<inter> lock_bytes off2 n2 \<noteq> {}
     \<and> \<not> (unat off2 < unat off1 \<and> unat off1 + unat n1 < unat off2 + unat n2)"
proof -
  note g = good_range [OF assms(1,3)] good_range [OF assms(2,4)]
  have "lock_bytes off1 n1 \<inter> lock_bytes off2 n2 \<noteq> {} \<longleftrightarrow> unat off1 < unat off2 + unat n2 \<and> unat off2 < unat off1 + unat n1"
    using g assms(3,4) by (auto simp: lock_bytes_def set_eq_iff) presburger
  then show ?thesis using g by (auto simp: lock_overlap_def Let_def word_le_nat_alt word_less_nat_alt)
qed

text \<open>For a lock up to the end of the file, \<open>offset + length\<close> is \<open>offset - 1\<close>.\<close>

lemma eof_end: "unat (off + 0xffffffffffffffff :: u64) = (if off = 0 then 0xffffffffffffffff else unat off - 1)"
proof -
  have "off + 0xffffffffffffffff = off + (- 1)" by (simp only: add_left_cancel) simp
  then have "off + 0xffffffffffffffff = off - 1" by simp
  moreover have "unat (off - 1) = unat off - 1" if "off \<noteq> 0" using that by (simp add: unat_minus_one)
  ultimately show ?thesis by (cases "off = 0") (simp, presburger)
qed

text \<open>The overlaps that the test does not see.\<close>

definition missed_overlap :: "u64 \<Rightarrow> u64 \<Rightarrow> u64 \<Rightarrow> u64 \<Rightarrow> bool" where
  "missed_overlap off1 n1 off2 n2 \<longleftrightarrow>
     (if n1 = 0xffffffffffffffff then off1 \<noteq> 0 \<or> off2 = 0xffffffffffffffff
      else off2 < off1 \<and> unat off1 + unat n1 < unat off2 + unat n2)"

lemma lock_overlap_eof1:
  "lock_overlap off1 0xffffffffffffffff off2 n2 \<longleftrightarrow> off1 = 0 \<and> off2 \<noteq> 0xffffffffffffffff"
proof -
  have "off2 = 0xffffffffffffffff \<longleftrightarrow> unat off2 = 0xffffffffffffffff" by (simp add: word_unat_eq_iff)
  moreover have "off1 = 0 \<longleftrightarrow> unat off1 = 0" by (simp add: unat_eq_0)
  ultimately show ?thesis using unat_u64 [of off2] eof_end [of off1]
    by (auto simp: lock_overlap_def Let_def word_le_nat_alt word_less_nat_alt)
qed

lemma lock_overlap_eof2:
  assumes "\<not> bad_range off1 n1" "n1 \<noteq> 0xffffffffffffffff"
  shows "lock_overlap off1 n1 off2 0xffffffffffffffff \<longleftrightarrow> unat off2 < unat off1 + unat n1
     \<and> \<not> (off2 < off1 \<and> unat off1 + unat n1 < unat off2 + 0xffffffffffffffff)"
proof -
  note g = good_range [OF assms]
  have "unat off1 + unat n1 < 2 ^ 64" using g(1) unat_u64 [of "off1 + n1"] by simp
  moreover have "off2 = 0 \<longleftrightarrow> unat off2 = 0" by (simp add: unat_eq_0)
  ultimately show ?thesis using g eof_end [of off2]
    by (auto simp: lock_overlap_def Let_def word_le_nat_alt word_less_nat_alt)
qed

lemma lock_bytes_meet:
  assumes "\<not> bad_range off1 n1" "n1 \<noteq> 0xffffffffffffffff"
  shows "lock_bytes off1 n1 \<inter> lock_bytes off2 0xffffffffffffffff \<noteq> {} \<longleftrightarrow> unat off2 < unat off1 + unat n1"
  using good_range [OF assms] assms(2) by (auto simp: lock_bytes_def set_eq_iff) presburger

lemma lock_bytes_start: "\<not> bad_range off n \<Longrightarrow> unat off \<in> lock_bytes off n"
  using good_range [of off n] by (auto simp: lock_bytes_def)

lemma lock_overlap_exact:
  assumes "\<not> bad_range off1 n1" "\<not> bad_range off2 n2"
  shows "lock_overlap off1 n1 off2 n2 \<longleftrightarrow> lock_bytes off1 n1 \<inter> lock_bytes off2 n2 \<noteq> {} \<and> \<not> missed_overlap off1 n1 off2 n2"
proof (cases "n1 = 0xffffffffffffffff")
  case True
  have "lock_bytes 0 0xffffffffffffffff \<inter> lock_bytes off2 n2 \<noteq> {}"
    using lock_bytes_start [OF assms(2)] by (auto simp: lock_bytes_def)
  with True show ?thesis by (auto simp: lock_overlap_eof1 missed_overlap_def)
next
  case False
  show ?thesis
  proof (cases "n2 = 0xffffffffffffffff")
    case True
    with False show ?thesis unfolding True
      by (simp add: lock_overlap_eof2 [OF assms(1) False] lock_bytes_meet [OF assms(1) False] missed_overlap_def)
  next
    case n2: False
    with False show ?thesis
      by (simp add: lock_overlap_finite [OF assms False n2] missed_overlap_def word_less_nat_alt)
  qed
qed

subsection \<open>The loops over the states of the file\<close>

text \<open>The lock of the state \<open>a\<close> stands in the way of the request of the owner \<open>val\<close>.\<close>

definition blocks :: "nfs4_world \<Rightarrow> lock_arg \<Rightarrow> u8 list \<Rightarrow> addr \<Rightarrow> bool" where
  "blocks w arg val a \<longleftrightarrow> state_type (sheap (wstates w) a) = CACHE_INODE_STATE_LOCK \<and>
     (case state_data (sheap (wstates w) a) of
        Lock l \<Rightarrow> lock_overlap (lk_offset l) (lk_length l) (offset arg) (len arg) \<and> (locktype arg \<noteq> READ_LT \<or> lock_type l \<noteq> READ_LT)
          \<and> val \<noteq> oo_val (oheap (wowners w) (powner (sheap (wstates w) a)))
      | _ \<Rightarrow> False)"

definition lock_at :: "nfs4_world \<Rightarrow> addr \<Rightarrow> denied" where
  "lock_at w a = (case state_data (sheap (wstates w) a) of
     Lock l \<Rightarrow> (lk_offset l, lk_length l, lock_type l, oo_val (oheap (wowners w) (powner (sheap (wstates w) a))))
   | _ \<Rightarrow> (0, 0, READ_LT, []))"

lemma tag_members [simp]:
  "tag_ok CACHE_INODE_STATE_LOCK d \<longleftrightarrow> (\<exists>l. d = Lock l)" "tag_ok CACHE_INODE_STATE_SHARE d \<longleftrightarrow> (\<exists>sh. d = Share sh)"
  by (cases d; simp)+

lemma tagged_at: "tagged L s \<Longrightarrow> a \<in> set (L e) \<Longrightarrow> tag_ok (state_type (sheap s a)) (state_data (sheap s a))"
  by (auto simp: tagged_def live_def)

lemma lockt_conflict_eq:
  assumes "tag_ok (state_type (sheap (wstates w) a)) (state_data (sheap (wstates w) a))"
  shows "lockt_conflict w arg val a = Some (if blocks w arg val a then Some (lock_at w a) else None)"
  using assms by (cases "state_type (sheap (wstates w) a) = CACHE_INODE_STATE_LOCK")
    (auto simp: lockt_conflict_def blocks_def lock_at_def lock_member_def Let_def)

definition scan_ok :: "(u8 list \<Rightarrow> u64 option) \<Rightarrow> (addr \<Rightarrow> addr list) \<Rightarrow> states \<Rightarrow> addr \<Rightarrow> bool" where
  "scan_ok dig L s e \<longleftrightarrow> states_inv L s \<and> tagged L s \<and> dig (handle (entries s e)) \<noteq> None"

lemma scan_iterate:
  assumes "scan_ok dig L s e" "L e = ys @ zs"
  shows "cache_inode_state_iterate dig s (Some e) (final ys None) status = (status, Some (first zs None))"
  using iterate_at [of L s dig e ys zs status] assms by (simp add: scan_ok_def)

definition status_ok :: "cache_inode_status \<Rightarrow> bool" where
  "status_ok st \<longleftrightarrow> st \<noteq> CACHE_INODE_STATE_ERROR \<and> st \<noteq> CACHE_INODE_INVALID_ARGUMENT"

lemma lockt_loop_list:
  assumes scan: "scan_ok dig L (wstates w) e" and st: "status_ok status"
  shows "L e = ys @ zs \<Longrightarrow> lockt_loop dig w arg val (Some e) status (final ys None) =
     Some (case find (blocks w arg val) zs of None \<Rightarrow> (NFS4_OK, None) | Some a \<Rightarrow> (NFS4ERR_DENIED, Some (lock_at w a)))"
proof (induction zs arbitrary: ys)
  case Nil
  with scan_iterate [OF scan, of ys "[]" status] st show ?case
    by (subst lockt_loop.simps) (simp add: status_ok_def)
next
  case (Cons a zs)
  have "tag_ok (state_type (sheap (wstates w) a)) (state_data (sheap (wstates w) a))"
    by (rule tagged_at [of L _ _ e]) (use scan Cons.prems in \<open>auto simp: scan_ok_def\<close>)
  note c = lockt_conflict_eq [OF this, of arg val]
  from scan_iterate [OF scan Cons.prems, of status] st c Cons.IH [of "ys @ [a]"] Cons.prems show ?case
    by (subst lockt_loop.simps) (simp add: status_ok_def)
qed

lemma lock_verdict_total:
  assumes "tag_ok (state_type (sheap (wstates w) a)) (state_data (sheap (wstates w) a))"
  shows "lock_verdict w arg ex a \<noteq> None"
  using assms by (cases "state_type (sheap (wstates w) a)") (auto simp: lock_verdict_def lock_member_def share_member_def Let_def)

text \<open>What LOCK answers for the first state that does not let it pass.\<close>

definition refusal :: "nfs4_world \<Rightarrow> lock_arg \<Rightarrow> addr option \<Rightarrow> addr \<Rightarrow> nfsstat4 \<times> denied option" where
  "refusal w arg ex a = (case lock_verdict w arg ex a of Some (Denied d) \<Rightarrow> (NFS4ERR_DENIED, Some d) | _ \<Rightarrow> (NFS4ERR_OPENMODE, None))"

definition passes :: "nfs4_world \<Rightarrow> lock_arg \<Rightarrow> addr option \<Rightarrow> addr \<Rightarrow> bool" where
  "passes w arg ex a \<longleftrightarrow> lock_verdict w arg ex a = Some Passes"

lemma lock_loop_list:
  assumes scan: "scan_ok dig L (wstates w) e" and st: "status_ok status"
  shows "L e = ys @ zs \<Longrightarrow> lock_loop dig w arg ex (Some e) status (final ys None) =
     Some (case find (\<lambda>a. \<not> passes w arg ex a) zs of None \<Rightarrow> (NFS4_OK, None, w)
       | Some a \<Rightarrow> (fst (refusal w arg ex a), snd (refusal w arg ex a), bump_exists w ex))"
proof (induction zs arbitrary: ys)
  case Nil
  with scan_iterate [OF scan, of ys "[]" status] st show ?case
    by (subst lock_loop.simps) (simp add: status_ok_def)
next
  case (Cons a zs)
  have "tag_ok (state_type (sheap (wstates w) a)) (state_data (sheap (wstates w) a))"
    by (rule tagged_at [of L _ _ e]) (use scan Cons.prems in \<open>auto simp: scan_ok_def\<close>)
  then obtain v where v: "lock_verdict w arg ex a = Some v" using lock_verdict_total [of w a arg ex] by blast
  from scan_iterate [OF scan Cons.prems, of status] st v Cons.IH [of "ys @ [a]"] Cons.prems show ?case
    by (subst lock_loop.simps) (cases v; simp add: status_ok_def passes_def refusal_def)
qed

lemma scan_searched: "scan_ok dig L s e \<Longrightarrow> searched s s' \<Longrightarrow> scan_ok dig L s' e"
  using searched_D [of s s'] by (simp add: scan_ok_def tagged_def)

lemma verdict_cong:
  assumes "sheap (wstates w') = sheap (wstates w)" "wowners w' = wowners w"
  shows "passes w' = passes w" "refusal w' = refusal w"
proof -
  have v: "lock_verdict w' = lock_verdict w" unfolding lock_verdict_def assms ..
  show "passes w' = passes w" "refusal w' = refusal w" unfolding passes_def refusal_def v by (rule refl)+
qed

text \<open>The lock state that the request names, and whether LOCK accepts the stateid it comes with.\<close>

definition locker_state :: "nfs4_world \<Rightarrow> locker \<Rightarrow> addr option" where
  "locker_state w lk = (case lk of New_owner _ _ _ _ _ \<Rightarrow> None | Known_owner st _ \<Rightarrow> state_at (wstates w) (snd st))"

definition locker_ok :: "nfs4_world \<Rightarrow> locker \<Rightarrow> bool" where
  "locker_ok w lk = (case lk of
     New_owner _ st _ _ _ \<Rightarrow> state_at (wstates w) (snd st) \<noteq> None
   | Known_owner st _ \<Rightarrow> state_at (wstates w) (snd st) \<noteq> None \<or> take 12 (snd st) = replicate 12 0 \<and> fst st = 0)"

lemma get_state_any:
  assumes "states_inv L s"
  shows "\<exists>s'. cache_inode_get_state s k = Some (if state_at s k = None then (CACHE_INODE_NOT_FOUND, None, err_unrecover GET_STATE s')
     else (CACHE_INODE_SUCCESS, state_at s k, s')) \<and> searched s s'"
  by (rule State_Get_Pointer_correct [OF states_inv_D(1) [OF assms], of k])
    (cases "state_at s k"; auto simp: cache_inode_get_state_def searched_def)

lemma scan_err [simp]: "scan_ok dig L (err_unrecover f s) e = scan_ok dig L s e"
  by (simp add: scan_ok_def tagged_def)

lemma find_locker_post:
  assumes scan: "scan_ok dig L (wstates w) e" and ok: "locker_ok w lk"
  shows "\<exists>po s1. find_locker w lk = Some (Inr (po, locker_state w lk), put_states w s1) \<and> scan_ok dig L s1 e
     \<and> sheap s1 = sheap (wstates w) \<and> entries s1 = entries (wstates w) \<and> state_at s1 = state_at (wstates w)
     \<and> (locker_state w lk \<noteq> None \<longrightarrow> searched (wstates w) s1)"
proof -
  let ?st = "case lk of New_owner _ st _ _ _ \<Rightarrow> st | Known_owner st _ \<Rightarrow> st"
  from scan have "states_inv L (wstates w)" by (simp add: scan_ok_def)
  from get_state_any [OF this, of "snd ?st"] obtain s1 where
    g: "cache_inode_get_state (wstates w) (snd ?st) = Some (if state_at (wstates w) (snd ?st) = None
       then (CACHE_INODE_NOT_FOUND, None, err_unrecover GET_STATE s1) else (CACHE_INODE_SUCCESS, state_at (wstates w) (snd ?st), s1))"
    "searched (wstates w) s1" by blast
  note d = searched_D(1-3) [OF g(2)] scan_searched [OF scan g(2)]
  show ?thesis
  proof (cases lk)
    case (New_owner a st b c v)
    with g ok d show ?thesis by (auto simp: find_locker_def locker_ok_def locker_state_def)
  next
    case (Known_owner st b)
    show ?thesis
    proof (cases "state_at (wstates w) (snd st)")
      case None
      with Known_owner g ok d show ?thesis by (auto simp: find_locker_def locker_ok_def locker_state_def)
    next
      case (Some p)
      with Known_owner g ok d show ?thesis by (auto simp: find_locker_def locker_ok_def locker_state_def)
    qed
  qed
qed

text \<open>The scan of LOCK, after the checks and the search for the locker.\<close>

lemma lock_scan:
  assumes f: "on_file cfg (lw W) data e" and range: "\<not> bad_range (offset arg) (len arg)"
    and scan: "scan_ok dig L (wstates (lw W)) e" and ok: "locker_ok (lw W) lk"
    and ex: "locker_state (lw W) lk = ex"
  obtains po s1 where "find_locker (lw W) lk = Some (Inr (po, ex), put_states (lw W) s1)" "scan_ok dig L s1 e"
    "sheap s1 = sheap (wstates (lw W))" "entries s1 = entries (wstates (lw W))" "state_at s1 = state_at (wstates (lw W))"
    "\<And>status. status_ok status \<Longrightarrow> lock_loop dig (put_states (lw W) s1) arg ex (Some e) status None =
       Some (case find (\<lambda>a. \<not> passes (lw W) arg ex a) (L e) of None \<Rightarrow> (NFS4_OK, None, put_states (lw W) s1)
         | Some a \<Rightarrow> (fst (refusal (lw W) arg ex a), snd (refusal (lw W) arg ex a), bump_exists (put_states (lw W) s1) ex))"
proof -
  from find_locker_post [OF scan ok] ex obtain po s1 where
    s1: "find_locker (lw W) lk = Some (Inr (po, ex), put_states (lw W) s1)" "scan_ok dig L s1 e"
    "sheap s1 = sheap (wstates (lw W))" "entries s1 = entries (wstates (lw W))" "state_at s1 = state_at (wstates (lw W))" by auto
  have v: "passes (put_states (lw W) s1) = passes (lw W)" "refusal (put_states (lw W) s1) = refusal (lw W)"
    by (rule verdict_cong; use s1(3) in simp)+
  have scan1: "scan_ok dig L (wstates (put_states (lw W) s1)) e" using s1(2) by simp
  show ?thesis
    by (rule that [OF s1]) (use lock_loop_list [OF scan1, of _ "[]" "L e" arg ex, unfolded v] in simp)
qed

subsection \<open>Properties\<close>

lemma blocks_cong:
  assumes "wstates w' = wstates w" "wowners w' = wowners w"
  shows "blocks w' = blocks w" "lock_at w' = lock_at w"
  unfolding blocks_def lock_at_def assms by (rule refl)+

lemma demo_scan:
  assumes r: "lone_state r" "tag_ok (state_type r) (state_data r)"
  shows "\<exists>w p. scan_ok demo_digest (one_open p) (wstates w) 0 \<and> clients_ready (wclients w) \<and> on_file demo_cfg w demo_data 0
     \<and> state_at (wstates w) (replicate 12 0) = Some p \<and> sheap (wstates w) p = r \<and> client_of (wclients w) 7 \<noteq> None"
proof -
  from lone_world [OF refl r(1)] obtain w p where
    w: "states_inv (one_open p) (wstates w)" "clients_ready (wclients w)" "valid_stateid (ServerBootTime demo_cfg) w (replicate 12 0) p"
    "on_file demo_cfg w demo_data 0" "sheap (wstates w) p = r" "oheap (wowners w) 0 = demo_owner" by blast
  have "tagged (one_open p) (wstates w)" using w(5) r(2) by (auto simp: tagged_def live_def one_open_def split: if_splits)
  moreover have "powner r = 0" using r(1) by (simp add: lone_state_def)
  ultimately show ?thesis using w by (auto simp: scan_ok_def demo_digest_def valid_stateid_def demo_owner_def)
qed

text \<open>C30: The test for overlapping locks.  For two ranges that pass the check of the operations, lock_overlap holds
  exactly when they have a byte in common, except for the overlaps it misses: a new range that starts before
  an existing lock and ends after it, and, because the sum of the offset and the length wraps
  around, every overlap with an existing lock to the end of the file that does not start at 0.\<close>

theorem lock_overlap_equivalence:
  assumes "\<not> bad_range off1 n1" "\<not> bad_range off2 n2"
  shows "lock_overlap off1 n1 off2 n2 \<longleftrightarrow> lock_bytes off1 n1 \<inter> lock_bytes off2 n2 \<noteq> {} \<and>
     \<not> (if n1 = 0xffffffffffffffff then off1 \<noteq> 0 \<or> off2 = 0xffffffffffffffff
        else off2 < off1 \<and> unat off1 + unat n1 < unat off2 + unat n2)"
  using lock_overlap_exact [OF assms] unfolding missed_overlap_def .

theorem lock_overlap_equivalence_witness:
  "\<not> lock_overlap 10 10 0 100 \<and> lock_bytes 10 10 \<inter> lock_bytes 0 100 \<noteq> {}"
proof -
  have "\<not> lock_overlap 10 10 0 100" by (subst lock_overlap_equivalence) (simp_all add: bad_range_def)
  then show ?thesis by (auto simp: lock_bytes_def set_eq_iff intro: exI [of _ 10])
qed



lemma bump_exists_fields [simp]: "wstates (bump_exists w ex) = wstates w" "wclients (bump_exists w ex) = wclients w"
  by (cases ex; simp add: bump_exists_def)+

lemma status_ok_start [simp]: "status_ok (if b then CACHE_INODE_NOT_FOUND else CACHE_INODE_SUCCESS)"
  by (simp add: status_ok_def)



text \<open>C35: LOCK of a known lock owner is not recorded.  When nfs4_op_lock accepts the stateid of a lock of a known owner, it
  answers NFS4\_OK with the next sequence number of that state and changes nothing else among the states: no state
  is added and every lock keeps its range, so the range of the request is not locked.\<close>

theorem lock_known_owner_not_recorded:
  assumes "on_file cfg (lw W) data e" and "\<not> bad_range (offset arg) (len arg)"
    and "scan_ok dig L (wstates (lw W)) e" and p: "state_at (wstates (lw W)) (snd st) = Some p" "p \<in> set (L e)"
    and free: "find (\<lambda>a. \<not> passes (lw W) arg (Some p) a) (L e) = None"
    and r: "state_type (sheap (wstates (lw W)) p) = CACHE_INODE_STATE_LOCK" "sseqid (sheap (wstates (lw W)) p) \<le> fst st"
      "lseqid \<in> {sseqid (sheap (wstates (lw W)) p), sseqid (sheap (wstates (lw W)) p) + 1}"
  shows "\<exists>W'. nfs4_op_lock dig cfg W data arg (Known_owner st lseqid) =
       Some (NFS4_OK, Some (Inr (sseqid (sheap (wstates (lw W)) p) + 1, take 12 (snd st))), W')
     \<and> states_inv L (wstates (lw W')) \<and> state_at (wstates (lw W')) = state_at (wstates (lw W))
     \<and> (\<forall>a. state_type (sheap (wstates (lw W')) a) = state_type (sheap (wstates (lw W)) a)
          \<and> state_data (sheap (wstates (lw W')) a) = state_data (sheap (wstates (lw W)) a))"
proof (rule lock_scan [OF assms(1-3), of "Known_owner st lseqid" "Some p"])
  show "locker_ok (lw W) (Known_owner st lseqid)" "locker_state (lw W) (Known_owner st lseqid) = Some p"
    using p by (simp_all add: locker_ok_def locker_state_def)
next
  fix po s1
  let ?w = "put_states (lw W) s1"
  assume f: "find_locker (lw W) (Known_owner st lseqid) = Some (Inr (po, Some p), ?w)"
    and s1: "scan_ok dig L s1 e" "sheap s1 = sheap (wstates (lw W))" "state_at s1 = state_at (wstates (lw W))"
    and loop: "\<And>status. status_ok status \<Longrightarrow> lock_loop dig ?w arg (Some p) (Some e) status None =
       Some (case find (\<lambda>a. \<not> passes (lw W) arg (Some p) a) (L e) of None \<Rightarrow> (NFS4_OK, None, ?w)
         | Some a \<Rightarrow> (fst (refusal (lw W) arg (Some p) a), snd (refusal (lw W) arg (Some p) a), bump_exists ?w (Some p)))"
  from s1(1) have inv: "states_inv L s1" by (simp add: scan_ok_def)
  have at: "state_at s1 (snd st) = Some p" using p(1) s1(3) by simp
  from get_state_post [OF inv at] obtain s2 where
    g: "cache_inode_get_state s1 (snd st) = Some (CACHE_INODE_SUCCESS, Some p, s2)" "searched s1 s2" by blast
  note d = searched_D [OF g(2)]
  have e: "spentry (sheap s2 p) = Some e" using states_inv_D(2) [OF d(5) [OF inv], of e] p(2) by (simp add: list_ok_def)
  have o: "take 12 (stateid_other (sheap s2 p)) = take 12 (snd st)"
    using state_found [OF inv at] d(1) by (auto simp: same12_def)
  let ?w2 = "put_states (put_states ?w s2) (set_state s2 p next_seqid)"
  let ?w' = "case related_owner (oheap (wowners ?w2) (powner (sheap s2 p))) of None \<Rightarrow> ?w2 | Some rel \<Rightarrow> set_owner ?w2 rel bump_owner"
  have "lock_known_owner ?w data st lseqid = Some (NFS4_OK, Some (sseqid (sheap s2 p) + 1, take 12 (snd st)), ?w')"
    using g(1) r e o assms(1) d(1) s1(2) by (auto simp: lock_known_owner_def on_file_def next_seqid_def Let_def)
  then have "nfs4_op_lock dig cfg W data arg (Known_owner st lseqid) =
       Some (NFS4_OK, Some (Inr (sseqid (sheap (wstates (lw W)) p) + 1, take 12 (snd st))), put_lw W ?w')"
    using assms(1,2) f loop [of CACHE_INODE_SUCCESS] free d(1) s1(2) by (simp add: nfs4_op_lock_def on_file_def status_ok_def)
  moreover have st': "wstates ?w' = set_state s2 p next_seqid" by (simp split: option.splits)
  moreover have "states_inv L (set_state s2 p next_seqid)" by (rule states_inv_set [OF d(5) [OF inv] quiet_next])
  ultimately show ?thesis using d s1 by (intro exI [of _ "put_lw W ?w'"]) (simp add: put_lw_def next_seqid_def)
qed

theorem lock_known_owner_not_recorded_witness:
  "\<exists>W W'. nfs4_op_lock demo_digest demo_cfg W demo_data \<lparr>locktype = WRITE_LT, offset = 100, len = 8\<rparr> (Known_owner (0, replicate 12 0) 0)
     = Some (NFS4_OK, Some (Inr (1, replicate 12 0)), W')
   \<and> (\<forall>a. state_data (sheap (wstates (lw W')) a) = state_data (sheap (wstates (lw W)) a))"
proof -
  let ?l = "\<lparr>lk_offset = 0, lk_length = 8, lock_type = WRITE_LT, popenstate = None\<rparr>"
  let ?r = "demo_open\<lparr>state_type := CACHE_INODE_STATE_LOCK, state_data := Lock ?l\<rparr>"
  have "lone_state ?r" "tag_ok (state_type ?r) (state_data ?r)" by (simp_all add: lone_state_def demo_open_def)
  from demo_scan [OF this] obtain w p where
    w: "scan_ok demo_digest (one_open p) (wstates w) 0" "on_file demo_cfg w demo_data 0"
    and p: "state_at (wstates w) (replicate 12 0) = Some p" "sheap (wstates w) p = ?r" by blast
  let ?W = "\<lparr>lw = w, pool_open_owner = [], pool_open_owner_name = []\<rparr>" and ?arg = "\<lparr>locktype = WRITE_LT, offset = 100, len = 8\<rparr>"
  have v: "lock_verdict w ?arg (Some p) p = Some Passes" using p(2) by (simp add: lock_verdict_def lock_member_def)
  have "on_file demo_cfg (lw ?W) demo_data 0" "\<not> bad_range (offset ?arg) (len ?arg)" "scan_ok demo_digest (one_open p) (wstates (lw ?W)) 0"
    "state_at (wstates (lw ?W)) (snd (0 :: u32, replicate 12 0)) = Some p" "p \<in> set (one_open p 0)"
    "find (\<lambda>a. \<not> passes (lw ?W) ?arg (Some p) a) (one_open p 0) = None" "state_type (sheap (wstates (lw ?W)) p) = CACHE_INODE_STATE_LOCK"
    "sseqid (sheap (wstates (lw ?W)) p) \<le> fst (0 :: u32, replicate 12 0 :: u8 list)"
    "0 \<in> {sseqid (sheap (wstates (lw ?W)) p), sseqid (sheap (wstates (lw ?W)) p) + 1}"
    using w p v by (simp_all add: bad_range_def one_open_def passes_def demo_open_def)
  from lock_known_owner_not_recorded [OF this] p(2) show ?thesis by (fastforce simp: demo_open_def)
qed

end
