(* ===== verification/Compound.thy ===== *)
theory Compound
  imports Nfs4_Open_Ops
begin

text \<open>
  The COMPOUND procedure (\<^verbatim>\<open>NFS_Protocols/nfs4_Compound.c\<close>, built without NFSv4.1) and the operations on the
  file handles of a request: PUTFH, PUTROOTFH, PUTPUBFH, SAVEFH, RESTOREFH and GETFH (\<^verbatim>\<open>nfs4_op_putfh.c\<close>
  and so on), with \<open>nfs4_SetCompoundExport\<close>, \<open>nfs4_AllocateFH\<close> and \<open>nfs_FhandleToCache\<close> of
  \<^verbatim>\<open>nfs_proto_tools.c\<close>, \<open>nfs_Get_export_by_id\<close> and \<open>nfs4_PseudoToFhandle\<close>.

  The file system layer, the check of the client against an export and the cache of files are fields of the
  record \<open>compound_env\<close>.  Each file handle has a buffer of its own; \<open>None\<close> is an access outside a
  buffer or through a null pointer.  The messages of the log are left out.
\<close>

record export =
  export_id :: u16

record 'h compound_env =
  cfg :: nfs4_config
  exports :: "export list"
  FSAL_ExpandHandle :: "u8 list \<Rightarrow> 'h option"
  cache_get :: "'h \<Rightarrow> (addr \<times> file_type) option"
  make_cred :: "export \<Rightarrow> bool"
  root_pseudo_id :: u16

record request = compound_data +
  savedFH :: nfs_fh
  rootFH :: nfs_fh
  publicFH :: nfs_fh
  mounted_on_FH :: nfs_fh
  saved_entry :: "addr option"
  saved_filetype :: file_type
  pexport :: "export option"
  rmem :: mem

subsection \<open>Buffers\<close>

definition nfs4_AllocateFH :: "mem \<Rightarrow> nfsstat4 \<times> nfs_fh \<times> mem" where
  "nfs4_AllocateFH m =
     (case Mem_Alloc m sizeof_v4 of
        (None, m') \<Rightarrow> (NFS4ERR_RESOURCE, \<lparr>fh_len = of_nat sizeof_v4, fh_val = None\<rparr>, m')
      | (Some a, m') \<Rightarrow> (NFS4_OK, \<lparr>fh_len = of_nat sizeof_v4, fh_val = Some (of_nat a, replicate sizeof_v4 0)\<rparr>, m'))"

text \<open>A handle that is empty gets a buffer.\<close>

definition ensure_fh :: "mem \<Rightarrow> nfs_fh \<Rightarrow> nfsstat4 \<times> nfs_fh \<times> mem" where
  "ensure_fh m fh = (if fh_len fh = 0 then nfs4_AllocateFH m else (NFS4_OK, fh, m))"

text \<open>\<open>memcpy\<close> of the first bytes of one buffer to another; the length of the target is not touched.\<close>

definition fh_memcpy :: "nfs_fh \<Rightarrow> nfs_fh \<Rightarrow> nfs_fh option" where
  "fh_memcpy dst src = do {
     (p, d) \<leftarrow> fh_val dst;
     (_, b) \<leftarrow> fh_val src;
     if unat (fh_len src) \<le> length b \<and> unat (fh_len src) \<le> length d
     then Some (dst\<lparr>fh_val := Some (p, put 0 (take (unat (fh_len src)) b) d)\<rparr>) else None }"

subsection \<open>The export and the file of a handle\<close>

fun nfs_Get_export_by_id :: "export list \<Rightarrow> u16 \<Rightarrow> export option" where
  "nfs_Get_export_by_id [] exportid = None"
| "nfs_Get_export_by_id (piter # next) exportid =
     (if export_id piter = exportid then Some piter else nfs_Get_export_by_id next exportid)"

definition nfs4_SetCompoundExport :: "'h compound_env \<Rightarrow> request \<Rightarrow> (nfsstat4 \<times> request) option" where
  "nfs4_SetCompoundExport env data = do {
     pseudo \<leftarrow> nfs4_Is_Fh_Pseudo (Some (currentFH data));
     if pseudo \<noteq> 0 then Some (NFS4_OK, data)
     else do {
       exportid \<leftarrow> nfs4_FhandleToExportId (currentFH data);
       if exportid = 0 then Some (NFS4ERR_BADHANDLE, data)
       else let e = nfs_Get_export_by_id (exports env) (of_int exportid); data1 = data\<lparr>pexport := e\<rparr>
            in Some (case e of
                       None \<Rightarrow> (NFS4ERR_BADHANDLE, data1)
                     | Some x \<Rightarrow> (if make_cred env x then NFS4_OK else NFS4ERR_WRONGSEC, data1)) } }"

definition nfs_FhandleToCache :: "'h compound_env \<Rightarrow> nfs_fh \<Rightarrow> (nfsstat4 \<times> (addr \<times> file_type) option) option" where
  "nfs_FhandleToCache env pfh4 = do {
     h \<leftarrow> nfs4_FhandleToFSAL (FSAL_ExpandHandle env) pfh4;
     case h of
       None \<Rightarrow> Some (NFS4ERR_BADHANDLE, None)
     | Some h \<Rightarrow> do {
         _ \<leftarrow> nfs4_FhandleToExportId pfh4;
         Some (case cache_get env h of None \<Rightarrow> (NFS4ERR_STALE, None) | Some e \<Rightarrow> (NFS4_OK, Some e)) } }"

subsection \<open>The operations on file handles\<close>

text \<open>The export is looked up only when the request has none.\<close>

definition export_or_same :: "'h compound_env \<Rightarrow> request \<Rightarrow> (nfsstat4 \<times> request) option" where
  "export_or_same env data = (if pexport data = None then nfs4_SetCompoundExport env data else Some (NFS4_OK, data))"

text \<open>The second half of PUTFH: the file of the handle that was just copied.\<close>

definition putfh_enter :: "'h compound_env \<Rightarrow> request \<Rightarrow> (nfsstat4 \<times> request) option" where
  "putfh_enter env data = do {
     pseudo \<leftarrow> nfs4_Is_Fh_Pseudo (Some (currentFH data));
     if pseudo \<noteq> 0
     then Some (NFS4_OK, data\<lparr>current_entry := None, current_filetype := DIR_BEGINNING, pexport := None\<rparr>)
     else do {
       (st, data1) \<leftarrow> export_or_same env data;
       if st \<noteq> NFS4_OK then Some (st, data1)
       else do {
         (_, e) \<leftarrow> nfs_FhandleToCache env (currentFH data);
         Some (case e of
                 None \<Rightarrow> (NFS4ERR_BADHANDLE, data1\<lparr>current_entry := None\<rparr>)
               | Some (p, t) \<Rightarrow> (NFS4_OK, data1\<lparr>current_entry := Some p, current_filetype := t\<rparr>)) } } }"

definition nfs4_op_putfh :: "'h compound_env \<Rightarrow> request \<Rightarrow> nfs_fh \<Rightarrow> (nfsstat4 \<times> request) option" where
  "nfs4_op_putfh env data object =
     (if check_handle (cfg env) object \<noteq> NFS4_OK then Some (check_handle (cfg env) object, data)
      else case ensure_fh (rmem data) (currentFH data) of
        (st1, cur, m1) \<Rightarrow>
          let data1 = data\<lparr>currentFH := cur, rmem := m1\<rparr>
          in if st1 \<noteq> NFS4_OK then Some (st1, data1)
          else case ensure_fh m1 (mounted_on_FH data) of
            (st2, mnt, m2) \<Rightarrow>
              let data2 = data1\<lparr>mounted_on_FH := mnt, rmem := m2\<rparr>
              in if st2 \<noteq> NFS4_OK then Some (st2, data2)
              else do {
                cur \<leftarrow> fh_memcpy (cur\<lparr>fh_len := fh_len object\<rparr>) object;
                mnt \<leftarrow> fh_memcpy (mnt\<lparr>fh_len := fh_len object\<rparr>) object;
                putfh_enter env (data2\<lparr>currentFH := cur, mounted_on_FH := mnt\<rparr>) })"

definition nfs4_op_savefh :: "'h compound_env \<Rightarrow> request \<Rightarrow> (nfsstat4 \<times> request) option" where
  "nfs4_op_savefh env data =
     (if check_handle (cfg env) (currentFH data) \<noteq> NFS4_OK then Some (check_handle (cfg env) (currentFH data), data)
      else case ensure_fh (rmem data) (savedFH data) of
        (st, saved, m1) \<Rightarrow>
          if st \<noteq> NFS4_OK then Some (st, data\<lparr>savedFH := saved, rmem := m1\<rparr>)
          else do {
            saved \<leftarrow> fh_memcpy saved (currentFH data);
            Some (NFS4_OK, data\<lparr>savedFH := saved, rmem := m1, saved_entry := current_entry data, saved_filetype := current_filetype data\<rparr>) })"

definition nfs4_op_restorefh :: "'h compound_env \<Rightarrow> request \<Rightarrow> (nfsstat4 \<times> request) option" where
  "nfs4_op_restorefh env data =
     (let st = check_handle (cfg env) (savedFH data)
      in if st \<noteq> NFS4_OK then Some (if st = NFS4ERR_NOFILEHANDLE then NFS4ERR_RESTOREFH else st, data)
      else do {
        (st, data1) \<leftarrow> export_or_same env data;
        if st \<noteq> NFS4_OK then Some (st, data1)
        else do {
          cur \<leftarrow> fh_memcpy (currentFH data1) (savedFH data1);
          Some (NFS4_OK, data1\<lparr>currentFH := cur, current_entry := saved_entry data1, current_filetype := saved_filetype data1\<rparr>) } })"

definition nfs4_op_getfh :: "'h compound_env \<Rightarrow> request \<Rightarrow> (nfsstat4 \<times> nfs_fh option \<times> request) option" where
  "nfs4_op_getfh env data =
     (if check_handle (cfg env) (currentFH data) \<noteq> NFS4_OK then Some (check_handle (cfg env) (currentFH data), None, data)
      else do {
        referral \<leftarrow> nfs4_Is_Fh_Referral (Some (currentFH data));
        if referral then Some (NFS4ERR_MOVED, None, data)
        else case nfs4_AllocateFH (rmem data) of
          (st, object, m1) \<Rightarrow>
            if st \<noteq> NFS4_OK then Some (st, None, data\<lparr>rmem := m1\<rparr>)
            else do {
              object \<leftarrow> fh_memcpy (object\<lparr>fh_len := fh_len (currentFH data)\<rparr>) (currentFH data);
              Some (NFS4_OK, Some object, data\<lparr>rmem := m1\<rparr>) } })"

definition nfs4_PseudoToFhandle :: "nfs_fh \<Rightarrow> u16 \<Rightarrow> nfs_fh option" where
  "nfs4_PseudoToFhandle fh4p pseudo_id = do {
     (p, b) \<leftarrow> fh_val fh4p;
     if length b < sizeof_v4 then None
     else Some \<lparr>fh_len = of_nat sizeof_v4, fh_val = Some (p, put 0 (put 0 (le_bytes 2 pseudo_id) (put 3 [1] (replicate sizeof_v4 0))) b)\<rparr> }"

definition CreateROOTFH4 :: "'h compound_env \<Rightarrow> request \<Rightarrow> (nfsstat4 \<times> request) option" where
  "CreateROOTFH4 env data =
     (case nfs4_AllocateFH (rmem data) of
        (st, fh, m1) \<Rightarrow>
          if st \<noteq> NFS4_OK then Some (st, data\<lparr>rootFH := fh, rmem := m1\<rparr>)
          else do { fh1 \<leftarrow> nfs4_PseudoToFhandle fh (root_pseudo_id env); Some (NFS4_OK, data\<lparr>rootFH := fh1, rmem := m1\<rparr>) })"

text \<open>One of the three copies of the root handle.\<close>

definition copy_root :: "mem \<Rightarrow> nfs_fh \<Rightarrow> nfs_fh \<Rightarrow> (nfsstat4 \<times> nfs_fh \<times> mem) option" where
  "copy_root m fh rfh =
     (case ensure_fh m fh of
        (st, fh1, m1) \<Rightarrow>
          if st \<noteq> NFS4_OK then Some (st, fh1, m1)
          else do { fh2 \<leftarrow> fh_memcpy fh1 rfh; Some (NFS4_OK, fh2\<lparr>fh_len := fh_len rfh\<rparr>, m1) })"

definition nfs4_op_putrootfh :: "'h compound_env \<Rightarrow> request \<Rightarrow> (nfsstat4 \<times> request) option" where
  "nfs4_op_putrootfh env data = do {
     (st, d) \<leftarrow> CreateROOTFH4 env data;
     if st \<noteq> NFS4_OK then Some (st, d)
     else let d = d\<lparr>current_entry := None, current_filetype := DIR_BEGINNING\<rparr> in do {
       (st, fh, m) \<leftarrow> copy_root (rmem d) (currentFH d) (rootFH d);
       let d = d\<lparr>currentFH := fh, rmem := m\<rparr>
       in if st \<noteq> NFS4_OK then Some (st, d)
       else do {
         (st, fh, m) \<leftarrow> copy_root (rmem d) (mounted_on_FH d) (rootFH d);
         let d = d\<lparr>mounted_on_FH := fh, rmem := m\<rparr>
         in if st \<noteq> NFS4_OK then Some (st, d)
         else do {
           (st, fh, m) \<leftarrow> copy_root (rmem d) (publicFH d) (rootFH d);
           Some (st, d\<lparr>publicFH := fh, rmem := m\<rparr>) } } } }"

definition nfs4_op_putpubfh :: "request \<Rightarrow> (nfsstat4 \<times> request) option" where
  "nfs4_op_putpubfh data = Some (NFS4ERR_NOTSUPP, data)"

subsection \<open>COMPOUND\<close>

definition optab4index :: "nat list" where
  "optab4index = [0, 0, 0, 0, 1, 2, 3, 4, 5, 6, 7, 8, 9, 10, 11, 12, 13, 14, 15, 16, 17, 18, 19, 20, 21, 22, 23,
     24, 25, 26, 27, 28, 29, 30, 31, 32, 33, 34, 35, 36, 37, 38, 39]"

definition POS_ILLEGAL :: nat where "POS_ILLEGAL = 40"
definition NFS4_OP_RELEASE_LOCKOWNER :: nat where "NFS4_OP_RELEASE_LOCKOWNER = 39"

definition opindex :: "nat \<Rightarrow> nat" where
  "opindex argop = (if argop \<le> NFS4_OP_RELEASE_LOCKOWNER then optab4index ! argop else optab4index ! POS_ILLEGAL)"

text \<open>
  The argument of an operation: its number, the file handle of the member \<open>opputfh\<close> of the union, and the
  members that the other operations read.  A result is the status with the rest of the answer.
\<close>

record 'x nfs_argop4 =
  argop :: nat
  opputfh :: nfs_fh
  opother :: 'x

datatype 'r nfs_resop4 = Status_only | Opgetfh "nfs_fh option" | Opother 'r

definition nfs4_op_illegal :: "request \<Rightarrow> nfsstat4 \<times> request" where
  "nfs4_op_illegal data = (NFS4ERR_OP_ILLEGAL, data)"

definition status_only :: "(nfsstat4 \<times> request) option \<Rightarrow> (nfsstat4 \<times> 'r nfs_resop4 \<times> request) option" where
  "status_only = map_option (\<lambda>(st, d). (st, Status_only, d))"

text \<open>
  The table \<open>optab4v0\<close>.  The functions at the other indices are those of the operations that are not on
  file handles; here they are the argument \<open>other\<close>.
\<close>

definition optab4v0 :: "'h compound_env \<Rightarrow> (nat \<Rightarrow> 'x \<Rightarrow> request \<Rightarrow> (nfsstat4 \<times> 'r \<times> request) option)
    \<Rightarrow> nat \<Rightarrow> 'x nfs_argop4 \<Rightarrow> request \<Rightarrow> (nfsstat4 \<times> 'r nfs_resop4 \<times> request) option" where
  "optab4v0 env other i arg data =
     (if i = 7 then map_option (\<lambda>(st, fh, d). (st, Opgetfh fh, d)) (nfs4_op_getfh env data)
      else if i = 19 then status_only (nfs4_op_putfh env data (opputfh arg))
      else if i = 20 then status_only (nfs4_op_putpubfh data)
      else if i = 21 then status_only (nfs4_op_putrootfh env data)
      else if i = 28 then status_only (nfs4_op_restorefh env data)
      else if i = 29 then status_only (nfs4_op_savefh env data)
      else if i = 37 then status_only (Some (nfs4_op_illegal data))
      else map_option (\<lambda>(st, r, d). (st, Opother r, d)) (other i (opother arg) data))"

text \<open>The loop over the operations; \<open>funct\<close> is the table.\<close>

fun compound_loop :: "(nat \<Rightarrow> 'x nfs_argop4 \<Rightarrow> 'd \<Rightarrow> (nfsstat4 \<times> 'r \<times> 'd) option) \<Rightarrow> 'x nfs_argop4 list \<Rightarrow> 'd
    \<Rightarrow> (nfsstat4 \<times> (nfsstat4 \<times> 'r) list \<times> 'd) option" where
  "compound_loop funct [] d = Some (NFS4_OK, [], d)"
| "compound_loop funct (a # ops) d = do {
     (status, r, d1) \<leftarrow> funct (opindex (argop a)) a d;
     if status \<noteq> NFS4_OK then Some (status, [(status, r)], d1)
     else do {
       (status', rs, d2) \<leftarrow> compound_loop funct ops d1;
       Some (status', (status, r) # rs, d2) } }"

text \<open>The structure on the stack of \<open>nfs4_Compound\<close>; the two file types are not initialised.\<close>

definition empty_fh :: nfs_fh where
  "empty_fh = \<lparr>fh_len = 0, fh_val = None\<rparr>"

definition init_data :: "request \<Rightarrow> request" where
  "init_data data = data\<lparr>currentFH := empty_fh, rootFH := empty_fh, publicFH := empty_fh, savedFH := empty_fh,
     mounted_on_FH := empty_fh, current_entry := None, saved_entry := None, pexport := None\<rparr>"

datatype ('t, 'r) compound_res =
    NFS_REQ_DROP
  | NFS_REQ_OK nfsstat4 "'t option" "'r list"

text \<open>
  \<open>cred_ok\<close> is the answer of \<open>nfs_rpc_req2client_cred\<close>; the tag of the answer is set after that call.
  The buffers that \<open>compound_data_Free\<close> releases at the end are not used again, as the allocator of the
  model never gives out an address twice.
\<close>

definition nfs4_Compound :: "(nat \<Rightarrow> 'x nfs_argop4 \<Rightarrow> request \<Rightarrow> (nfsstat4 \<times> 'r \<times> request) option) \<Rightarrow> nat \<Rightarrow> bool
    \<Rightarrow> u32 \<Rightarrow> 't \<Rightarrow> 'x nfs_argop4 list \<Rightarrow> request \<Rightarrow> (('t, nfsstat4 \<times> 'r) compound_res \<times> request) option" where
  "nfs4_Compound funct sizeof_resop cred_ok minorversion tag argarray data =
     (if minorversion \<noteq> 0 then Some (NFS_REQ_OK NFS4ERR_MINOR_VERS_MISMATCH None [], data)
      else if length argarray = 0 then Some (NFS_REQ_OK NFS4_OK None [], data)
      else if 30 < length argarray then Some (NFS_REQ_OK NFS4ERR_RESOURCE None [], data)
      else let data1 = init_data data
      in if \<not> cred_ok then Some (NFS_REQ_DROP, data1)
      else case Mem_Alloc (rmem data1) (length argarray * sizeof_resop) of
        (None, m1) \<Rightarrow> Some (NFS_REQ_DROP, data1\<lparr>rmem := m1\<rparr>)
      | (Some _, m1) \<Rightarrow> do {
          (status, rs, d) \<leftarrow> compound_loop funct argarray (data1\<lparr>rmem := m1\<rparr>);
          Some (NFS_REQ_OK status (Some tag) rs, d) })"

subsection \<open>No access outside a buffer\<close>

text \<open>
  A handle of the request is empty or has a buffer of \<open>sizeof_v4\<close> bytes and a length that fits it; while there is
  no current handle there is no saved one, as the handles never become empty again, and the length of the saved
  handle is the one it was allocated with.  A handle decoded
  from the network has as many bytes as it says.
\<close>

definition fh_ok :: "nfs_fh \<Rightarrow> bool" where
  "fh_ok fh \<longleftrightarrow>
     (case fh_val fh of
        None \<Rightarrow> fh_len fh = 0
      | Some (_, b) \<Rightarrow> fh_len fh \<noteq> 0 \<and> unat (fh_len fh) \<le> sizeof_v4 \<and> length b = sizeof_v4)"

definition fh_set :: "nfs_fh \<Rightarrow> bool" where
  "fh_set fh \<longleftrightarrow> fh_ok fh \<and> fh_val fh \<noteq> None"

definition request_ok :: "request \<Rightarrow> bool" where
  "request_ok d \<longleftrightarrow> fh_ok (currentFH d) \<and> fh_ok (savedFH d) \<and> fh_ok (publicFH d) \<and> fh_ok (mounted_on_FH d)
     \<and> (fh_val (savedFH d) \<noteq> None \<longrightarrow> fh_val (currentFH d) \<noteq> None \<and> fh_len (savedFH d) = of_nat sizeof_v4)"

definition wire_fh :: "nfs_fh \<Rightarrow> bool" where
  "wire_fh fh \<longleftrightarrow> (case fh_val fh of None \<Rightarrow> fh_len fh = 0 | Some (_, b) \<Rightarrow> length b = unat (fh_len fh))"

lemma of_nat_sizeof_v4 [simp]: "unat (of_nat sizeof_v4 :: u32) = sizeof_v4" "(of_nat sizeof_v4 :: u32) \<noteq> 0"
  by (simp_all add: sizeof_v4_def)

lemma fh_set_iff: "fh_set fh \<longleftrightarrow> (\<exists>p b. fh_val fh = Some (p, b) \<and> length b = sizeof_v4 \<and> fh_len fh \<noteq> 0 \<and> unat (fh_len fh) \<le> sizeof_v4)"
  by (auto simp: fh_set_def fh_ok_def split: option.splits)

lemma fh_set_ok: "fh_set fh \<Longrightarrow> fh_ok fh"
  by (simp add: fh_set_def)

lemma check_handle_ok: "check_handle c fh = NFS4_OK \<Longrightarrow> fh_len fh \<noteq> 0 \<and> fh_val fh \<noteq> None \<and> unat (fh_len fh) \<le> sizeof_v4"
  by (auto simp: check_handle_def nfs4_Is_Fh_Empty_def nfs4_Is_Fh_Invalid_def split: if_splits)

lemma check_handle_set: "fh_ok fh \<Longrightarrow> check_handle c fh = NFS4_OK \<Longrightarrow> fh_set fh"
  using check_handle_ok [of c fh] by (simp add: fh_set_def)

lemma ensure_fh_set:
  assumes "fh_ok fh" "ensure_fh m fh = (NFS4_OK, fh', m')"
  shows "fh_set fh'" and "fh_set fh \<Longrightarrow> fh' = fh"
proof -
  show "fh_set fh'"
    using assms by (auto simp: ensure_fh_def nfs4_AllocateFH_def fh_set_def fh_ok_def split: if_splits prod.splits option.splits)
  show "fh' = fh" if "fh_set fh"
    using that assms(2) by (auto simp: ensure_fh_def fh_set_def fh_ok_def split: if_splits option.splits)
qed

text \<open>What the copies give.\<close>

lemma fh_memcpy_wire:
  assumes "fh_set dst" "wire_fh src" "check_handle cf src = NFS4_OK"
  shows "\<exists>p b c. fh_val dst = Some (p, b) \<and> fh_val src = Some c
    \<and> fh_memcpy (dst\<lparr>fh_len := fh_len src\<rparr>) src = Some \<lparr>fh_len = fh_len src, fh_val = Some (p, put 0 (snd c) b)\<rparr>
    \<and> length (put 0 (snd c) b) = sizeof_v4"
  using assms check_handle_ok [OF assms(3)]
  by (auto simp: fh_set_iff wire_fh_def fh_memcpy_def split: option.splits)

lemma fh_memcpy_set:
  assumes "fh_set dst" "fh_set src"
  shows "\<exists>p b c. fh_val dst = Some (p, b) \<and> fh_val src = Some c
    \<and> fh_memcpy dst src = Some (dst\<lparr>fh_val := Some (p, put 0 (take (unat (fh_len src)) (snd c)) b)\<rparr>)
    \<and> length (put 0 (take (unat (fh_len src)) (snd c)) b) = sizeof_v4"
  using assms by (auto simp: fh_set_iff fh_memcpy_def min_def)

lemma read_v4_set: "fh_set fh \<Longrightarrow> off + n \<le> sizeof_v4 \<Longrightarrow> \<exists>x. read_v4 fh off n = Some x"
  by (auto simp: fh_set_iff read_v4_def)

lemma Is_Fh_Pseudo_set: "fh_set fh \<Longrightarrow> \<exists>x. nfs4_Is_Fh_Pseudo (Some fh) = Some x"
  using read_v4_set [of fh 3 1] by (auto simp: nfs4_Is_Fh_Pseudo_def sizeof_v4_def)

lemma Is_Fh_Referral_set: "fh_set fh \<Longrightarrow> \<exists>x. nfs4_Is_Fh_Referral (Some fh) = Some x"
  using read_v4_set [of fh 8 2] by (auto simp: nfs4_Is_Fh_Referral_def sizeof_v4_def)

lemma FhandleToExportId_set: "fh_set fh \<Longrightarrow> \<exists>x. nfs4_FhandleToExportId fh = Some x"
  using read_v4_set [of fh 4 4] by (auto simp: nfs4_FhandleToExportId_def sizeof_v4_def)

lemma FhandleToFSAL_set:
  assumes "fh_set fh"
  shows "\<exists>x. nfs4_FhandleToFSAL f fh = Some x"
proof -
  obtain x y z where "read_v4 fh 0 2 = Some x" "read_v4 fh 3 1 = Some y" "read_v4 fh 16 93 = Some z"
    using read_v4_set [OF assms, of 0 2] read_v4_set [OF assms, of 3 1] read_v4_set [OF assms, of 16 93]
    by (auto simp: sizeof_v4_def)
  then show ?thesis by (simp add: nfs4_FhandleToFSAL_def)
qed

lemma FhandleToCache_set: "fh_set fh \<Longrightarrow> \<exists>st e. nfs_FhandleToCache env fh = Some (st, e)"
  using FhandleToFSAL_set [of fh "FSAL_ExpandHandle env"] FhandleToExportId_set [of fh]
  by (fastforce simp: nfs_FhandleToCache_def split: option.splits)

lemma SetCompoundExport_set:
  assumes "fh_set (currentFH d)"
  shows "\<exists>st e. nfs4_SetCompoundExport env d = Some (st, d\<lparr>pexport := e\<rparr>)"
proof -
  from Is_Fh_Pseudo_set [OF assms] FhandleToExportId_set [OF assms] obtain x y where
    "nfs4_Is_Fh_Pseudo (Some (currentFH d)) = Some x" "nfs4_FhandleToExportId (currentFH d) = Some y" by blast
  moreover have "\<exists>e. d = d\<lparr>pexport := e\<rparr>" by (rule exI [of _ "pexport d"]) simp
  ultimately show ?thesis
    by (auto simp: nfs4_SetCompoundExport_def Let_def split: option.splits)
qed

text \<open>PUTFH leaves the saved handle alone and sets the current one.\<close>

definition same_saved :: "request \<Rightarrow> request \<Rightarrow> bool" where
  "same_saved d d' \<longleftrightarrow> savedFH d' = savedFH d \<and> saved_entry d' = saved_entry d \<and> saved_filetype d' = saved_filetype d
     \<and> publicFH d' = publicFH d"

lemma export_or_same_set: "fh_set (currentFH d) \<Longrightarrow> \<exists>st e. export_or_same env d = Some (st, d\<lparr>pexport := e\<rparr>)"
  using SetCompoundExport_set [of d env] exI [of "\<lambda>e. d = d\<lparr>pexport := e\<rparr>" "pexport d"]
  by (auto simp: export_or_same_def)

definition same_handles :: "request \<Rightarrow> request \<Rightarrow> bool" where
  "same_handles d d' \<longleftrightarrow> currentFH d' = currentFH d \<and> mounted_on_FH d' = mounted_on_FH d \<and> same_saved d d'"

lemma same_handles_refl [simp]: "same_handles d d"
  by (simp add: same_handles_def same_saved_def)

lemma putfh_enter_set:
  assumes "fh_set (currentFH d)"
  shows "\<exists>st d'. putfh_enter env d = Some (st, d') \<and> same_handles d d'"
proof -
  from Is_Fh_Pseudo_set [OF assms] export_or_same_set [OF assms, of env] FhandleToCache_set [OF assms, of env]
  obtain x st e st' k where x: "nfs4_Is_Fh_Pseudo (Some (currentFH d)) = Some x"
    and e: "export_or_same env d = Some (st, d\<lparr>pexport := e\<rparr>)" and k: "nfs_FhandleToCache env (currentFH d) = Some (st', k)"
    by blast
  show ?thesis
    using x e k unfolding putfh_enter_def
    by (cases "x = 0"; cases "st = NFS4_OK"; cases k) (auto simp: same_handles_def same_saved_def)
qed

lemma putfh_unfold:
  assumes ok: "request_ok d" and w: "wire_fh object" and c: "check_handle (cfg env) object = NFS4_OK"
    and e1: "ensure_fh (rmem d) (currentFH d) = (NFS4_OK, cur, m1)" and e2: "ensure_fh m1 (mounted_on_FH d) = (NFS4_OK, mnt, m2)"
  shows "\<exists>cur' mnt'. nfs4_op_putfh env d object = putfh_enter env (d\<lparr>rmem := m2, currentFH := cur', mounted_on_FH := mnt'\<rparr>)
    \<and> fh_memcpy (cur\<lparr>fh_len := fh_len object\<rparr>) object = Some cur' \<and> fh_set cur' \<and> fh_len cur' = fh_len object \<and> fh_set mnt'"
proof -
  from ok e1 e2 have s: "fh_set cur" "fh_set mnt" unfolding request_ok_def using ensure_fh_set(1) by blast+
  from fh_memcpy_wire [OF s(1) w c] obtain cur' where
    c1: "fh_memcpy (cur\<lparr>fh_len := fh_len object\<rparr>) object = Some cur'" "fh_set cur'" "fh_len cur' = fh_len object"
    using check_handle_ok [OF c] by (auto simp: fh_set_iff)
  from fh_memcpy_wire [OF s(2) w c] obtain mnt' where
    c2: "fh_memcpy (mnt\<lparr>fh_len := fh_len object\<rparr>) object = Some mnt'" "fh_set mnt'"
    using check_handle_ok [OF c] by (auto simp: fh_set_iff)
  have "nfs4_op_putfh env d object = putfh_enter env (d\<lparr>rmem := m2, currentFH := cur', mounted_on_FH := mnt'\<rparr>)"
    using c e1 e2 c1 c2 unfolding nfs4_op_putfh_def Let_def by simp
  with c1 c2 show ?thesis by blast
qed

lemma putfh_post:
  assumes ok: "request_ok d" and w: "wire_fh object"
  shows "\<exists>st d'. nfs4_op_putfh env d object = Some (st, d')
    \<and> (st = NFS4_OK \<longrightarrow> request_ok d' \<and> same_saved d d' \<and> fh_set (currentFH d') \<and> fh_len (currentFH d') = fh_len object)"
proof -
  obtain st1 cur m1 where e1: "ensure_fh (rmem d) (currentFH d) = (st1, cur, m1)" by (cases "ensure_fh (rmem d) (currentFH d)")
  obtain st2 mnt m2 where e2: "ensure_fh m1 (mounted_on_FH d) = (st2, mnt, m2)" by (cases "ensure_fh m1 (mounted_on_FH d)")
  show ?thesis
  proof (cases "check_handle (cfg env) object = NFS4_OK \<and> st1 = NFS4_OK \<and> st2 = NFS4_OK")
    case False
    with e1 e2 show ?thesis unfolding nfs4_op_putfh_def Let_def by auto
  next
    case True
    with putfh_unfold [OF ok w _ e1 [unfolded True [THEN conjunct2, THEN conjunct1]] e2 [unfolded True [THEN conjunct2, THEN conjunct2]], of env]
    obtain cur' mnt' where u: "nfs4_op_putfh env d object = putfh_enter env (d\<lparr>rmem := m2, currentFH := cur', mounted_on_FH := mnt'\<rparr>)"
      "fh_set cur'" "fh_len cur' = fh_len object" "fh_set mnt'" by blast
    from u(2) have "fh_set (currentFH (d\<lparr>rmem := m2, currentFH := cur', mounted_on_FH := mnt'\<rparr>))" by simp
    from putfh_enter_set [OF this, of env] u ok show ?thesis
      by (auto simp: request_ok_def same_handles_def same_saved_def fh_set_def)
  qed
qed

text \<open>The bytes of a handle that a client sees.\<close>

definition fh_bytes :: "nfs_fh \<Rightarrow> u8 list" where
  "fh_bytes fh = (case fh_val fh of None \<Rightarrow> [] | Some (_, b) \<Rightarrow> take (unat (fh_len fh)) b)"

lemma ensure_fh_len: "fh_ok fh \<Longrightarrow> ensure_fh m fh = (NFS4_OK, fh', m') \<Longrightarrow> fh_len fh' = (if fh_val fh = None then of_nat sizeof_v4 else fh_len fh)"
  by (auto simp: ensure_fh_def nfs4_AllocateFH_def fh_ok_def split: if_splits prod.splits option.splits)

lemma fh_memcpy_bytes:
  assumes "fh_set dst" "fh_set src"
  obtains fh where "fh_memcpy dst src = Some fh" "fh_set fh" "fh_len fh = fh_len dst"
    "\<And>n. n \<le> unat (fh_len src) \<Longrightarrow> take n (snd (the (fh_val fh))) = take n (snd (the (fh_val src)))"
proof -
  from fh_memcpy_set [OF assms] obtain p b c where *: "fh_val dst = Some (p, b)" "fh_val src = Some c"
    "fh_memcpy dst src = Some (dst\<lparr>fh_val := Some (p, put 0 (take (unat (fh_len src)) (snd c)) b)\<rparr>)"
    "length (put 0 (take (unat (fh_len src)) (snd c)) b) = sizeof_v4" by blast
  with assms show ?thesis by (intro that [OF *(3)]) (auto simp: fh_set_iff put_def min_def)
qed

lemma savefh_post:
  assumes ok: "request_ok d"
  shows "\<exists>st d'. nfs4_op_savefh env d = Some (st, d') \<and> (st = NFS4_OK \<longrightarrow> request_ok d' \<and> currentFH d' = currentFH d
    \<and> pexport d' = pexport d \<and> saved_entry d' = current_entry d \<and> saved_filetype d' = current_filetype d \<and> fh_set (savedFH d')
    \<and> (\<forall>n \<le> unat (fh_len (currentFH d)). take n (snd (the (fh_val (savedFH d')))) = take n (snd (the (fh_val (currentFH d))))))"
proof -
  obtain st sv m1 where e: "ensure_fh (rmem d) (savedFH d) = (st, sv, m1)" by (cases "ensure_fh (rmem d) (savedFH d)")
  show ?thesis
  proof (cases "check_handle (cfg env) (currentFH d) = NFS4_OK \<and> st = NFS4_OK")
    case False
    with e show ?thesis unfolding nfs4_op_savefh_def by auto
  next
    case True
    with ok have cur: "fh_set (currentFH d)" unfolding request_ok_def using check_handle_set by blast
    from ok e True have sv: "fh_set sv" "fh_len sv = of_nat sizeof_v4"
      unfolding request_ok_def using ensure_fh_set(1) ensure_fh_len by (blast, force)
    from fh_memcpy_bytes [OF sv(1) cur] obtain fh where "fh_memcpy sv (currentFH d) = Some fh" "fh_set fh" "fh_len fh = fh_len sv"
      "\<And>n. n \<le> unat (fh_len (currentFH d)) \<Longrightarrow> take n (snd (the (fh_val fh))) = take n (snd (the (fh_val (currentFH d))))" by blast
    with True e ok cur sv show ?thesis unfolding nfs4_op_savefh_def by (auto simp: request_ok_def fh_set_def)
  qed
qed

lemma restorefh_post:
  assumes ok: "request_ok d"
  shows "\<exists>st d'. nfs4_op_restorefh env d = Some (st, d') \<and> (st = NFS4_OK \<longrightarrow> request_ok d' \<and> same_saved d d'
    \<and> fh_set (currentFH d') \<and> fh_len (currentFH d') = fh_len (currentFH d)
    \<and> current_entry d' = saved_entry d \<and> current_filetype d' = saved_filetype d
    \<and> take sizeof_v4 (snd (the (fh_val (currentFH d')))) = take sizeof_v4 (snd (the (fh_val (savedFH d)))))"
proof (cases "check_handle (cfg env) (savedFH d) = NFS4_OK")
  case False
  then show ?thesis unfolding nfs4_op_restorefh_def Let_def by auto
next
  case True
  with ok have sv: "fh_set (savedFH d)" unfolding request_ok_def using check_handle_set by blast
  with ok have cur: "fh_set (currentFH d)" "fh_len (savedFH d) = of_nat sizeof_v4" by (auto simp: request_ok_def fh_set_def)
  from export_or_same_set [OF cur(1), of env] obtain st e where e: "export_or_same env d = Some (st, d\<lparr>pexport := e\<rparr>)" by blast
  from fh_memcpy_bytes [OF cur(1) sv] obtain fh where fh: "fh_memcpy (currentFH d) (savedFH d) = Some fh" "fh_set fh"
    "fh_len fh = fh_len (currentFH d)"
    "\<And>n. n \<le> unat (fh_len (savedFH d)) \<Longrightarrow> take n (snd (the (fh_val fh))) = take n (snd (the (fh_val (savedFH d))))" by blast
  from fh(4) [of sizeof_v4] cur(2) have "take sizeof_v4 (snd (the (fh_val fh))) = take sizeof_v4 (snd (the (fh_val (savedFH d))))" by simp
  with True e fh(1-3) ok sv show ?thesis unfolding nfs4_op_restorefh_def Let_def
    by (cases "st = NFS4_OK") (auto simp: request_ok_def fh_set_def same_saved_def)
qed

lemma getfh_post:
  assumes ok: "request_ok d"
  shows "\<exists>st fh d'. nfs4_op_getfh env d = Some (st, fh, d') \<and> (st = NFS4_OK \<longrightarrow> request_ok d' \<and> same_handles d d'
    \<and> map_option fh_bytes fh = Some (fh_bytes (currentFH d)))"
proof (cases "check_handle (cfg env) (currentFH d) = NFS4_OK")
  case False
  then show ?thesis unfolding nfs4_op_getfh_def by auto
next
  case True
  with ok have cur: "fh_set (currentFH d)" unfolding request_ok_def using check_handle_set by blast
  from Is_Fh_Referral_set [OF cur] obtain r where r: "nfs4_Is_Fh_Referral (Some (currentFH d)) = Some r" by blast
  obtain st ob m1 where a: "nfs4_AllocateFH (rmem d) = (st, ob, m1)" by (cases "nfs4_AllocateFH (rmem d)")
  show ?thesis
  proof (cases "r \<or> st \<noteq> NFS4_OK")
    case True
    with \<open>check_handle (cfg env) (currentFH d) = NFS4_OK\<close> r a show ?thesis unfolding nfs4_op_getfh_def by auto
  next
    case False
    with a have "fh_set (ob\<lparr>fh_len := fh_len (currentFH d)\<rparr>)"
      using cur by (auto simp: nfs4_AllocateFH_def fh_set_iff split: prod.splits option.splits)
    from fh_memcpy_bytes [OF this cur] obtain fh where fh: "fh_memcpy (ob\<lparr>fh_len := fh_len (currentFH d)\<rparr>) (currentFH d) = Some fh"
      "fh_set fh" "fh_len fh = fh_len (ob\<lparr>fh_len := fh_len (currentFH d)\<rparr>)"
      "\<And>n. n \<le> unat (fh_len (currentFH d)) \<Longrightarrow> take n (snd (the (fh_val fh))) = take n (snd (the (fh_val (currentFH d))))" by blast
    from fh(4) [OF order_refl] fh(2,3) cur have "fh_bytes fh = fh_bytes (currentFH d)" by (auto simp: fh_bytes_def fh_set_iff)
    moreover have "nfs4_op_getfh env d = Some (NFS4_OK, Some fh, d\<lparr>rmem := m1\<rparr>)"
      using False True r a fh(1) unfolding nfs4_op_getfh_def by simp
    ultimately show ?thesis using ok by (simp add: request_ok_def same_handles_def same_saved_def)
  qed
qed

lemma PseudoToFhandle_set:
  assumes "nfs4_AllocateFH m = (NFS4_OK, fh, m1)"
  shows "\<exists>fh'. nfs4_PseudoToFhandle fh i = Some fh' \<and> fh_set fh'"
  using assms by (auto simp: nfs4_AllocateFH_def nfs4_PseudoToFhandle_def fh_set_iff sizeof_v4_def put_def
      split: prod.splits option.splits)

lemma copy_root_set:
  assumes "fh_ok fh" "fh_set rfh"
  shows "\<exists>st fh' m'. copy_root m fh rfh = Some (st, fh', m') \<and> (st = NFS4_OK \<longrightarrow> fh_set fh')"
proof -
  obtain st fh1 m1 where e: "ensure_fh m fh = (st, fh1, m1)" by (cases "ensure_fh m fh")
  show ?thesis
  proof (cases "st = NFS4_OK")
    case False
    with e show ?thesis unfolding copy_root_def by simp
  next
    case True
    with e assms(1) have "fh_set fh1" using ensure_fh_set(1) by blast
    from fh_memcpy_bytes [OF this assms(2)] obtain fh2 where "fh_memcpy fh1 rfh = Some fh2" "fh_set fh2" by blast
    with True e assms(2) show ?thesis unfolding copy_root_def by (auto simp: fh_set_iff)
  qed
qed

lemma putrootfh_post:
  assumes ok: "request_ok d"
  shows "\<exists>st d'. nfs4_op_putrootfh env d = Some (st, d') \<and> (st = NFS4_OK \<longrightarrow> request_ok d')"
proof -
  obtain st fh m where a: "nfs4_AllocateFH (rmem d) = (st, fh, m)" by (cases "nfs4_AllocateFH (rmem d)")
  show ?thesis
  proof (cases "st = NFS4_OK")
    case False
    with a show ?thesis unfolding nfs4_op_putrootfh_def CreateROOTFH4_def by simp
  next
    case True
    with a PseudoToFhandle_set obtain r where r: "nfs4_PseudoToFhandle fh (root_pseudo_id env) = Some r" "fh_set r" by blast
    from ok have f: "fh_ok (currentFH d)" "fh_ok (mounted_on_FH d)" "fh_ok (publicFH d)" by (auto simp: request_ok_def)
    from copy_root_set [OF f(1) r(2), of m] obtain s1 f1 m1 where c1: "copy_root m (currentFH d) r = Some (s1, f1, m1)" "s1 = NFS4_OK \<longrightarrow> fh_set f1" by blast
    from copy_root_set [OF f(2) r(2), of m1] obtain s2 f2 m2 where c2: "copy_root m1 (mounted_on_FH d) r = Some (s2, f2, m2)" "s2 = NFS4_OK \<longrightarrow> fh_set f2" by blast
    from copy_root_set [OF f(3) r(2), of m2] obtain s3 f3 m3 where c3: "copy_root m2 (publicFH d) r = Some (s3, f3, m3)" "s3 = NFS4_OK \<longrightarrow> fh_set f3" by blast
    show ?thesis
      using True a r c1 c2 c3 ok unfolding nfs4_op_putrootfh_def CreateROOTFH4_def Let_def
      by (cases "s1 = NFS4_OK"; cases "s2 = NFS4_OK") (auto simp: request_ok_def fh_set_def)
  qed
qed

subsection \<open>COMPOUND runs the operations in order up to the first failure\<close>

definition keeps_ok :: "(nfsstat4 \<times> 'r \<times> request) option \<Rightarrow> bool" where
  "keeps_ok x \<longleftrightarrow> (\<exists>st r d. x = Some (st, r, d) \<and> (st = NFS4_OK \<longrightarrow> request_ok d))"

lemma keeps_ok_status: "\<exists>st d. x = Some (st, d) \<and> (st = NFS4_OK \<longrightarrow> request_ok d) \<Longrightarrow> keeps_ok (status_only x)"
  by (auto simp: keeps_ok_def status_only_def)

lemma keeps_ok_getfh: "request_ok d \<Longrightarrow> keeps_ok (map_option (\<lambda>(st, fh, d). (st, Opgetfh fh, d)) (nfs4_op_getfh env d))"
  using getfh_post [of d env] by (auto simp: keeps_ok_def)

lemma optab4v0_keeps_ok:
  assumes ok: "request_ok d" and w: "wire_fh (opputfh a)"
    and other: "\<And>i x d. request_ok d \<Longrightarrow> keeps_ok (other i x d)"
  shows "keeps_ok (optab4v0 env other i a d)"
proof -
  have "keeps_ok (map_option (\<lambda>(st, r, d). (st, Opother r, d)) (other i (opother a) d))"
    using other [OF ok, of i "opother a"] by (auto simp: keeps_ok_def)
  moreover have "\<exists>st d'. nfs4_op_putfh env d (opputfh a) = Some (st, d') \<and> (st = NFS4_OK \<longrightarrow> request_ok d')"
    "\<exists>st d'. nfs4_op_putrootfh env d = Some (st, d') \<and> (st = NFS4_OK \<longrightarrow> request_ok d')"
    "\<exists>st d'. nfs4_op_restorefh env d = Some (st, d') \<and> (st = NFS4_OK \<longrightarrow> request_ok d')"
    "\<exists>st d'. nfs4_op_savefh env d = Some (st, d') \<and> (st = NFS4_OK \<longrightarrow> request_ok d')"
    using putfh_post [OF ok w, of env] putrootfh_post [OF ok, of env] restorefh_post [OF ok, of env] savefh_post [OF ok, of env]
    by blast+
  ultimately show ?thesis
    unfolding optab4v0_def by (simp add: keeps_ok_getfh [OF ok] keeps_ok_status nfs4_op_putpubfh_def nfs4_op_illegal_def)
qed

text \<open>
  \<open>ran\<close> says of a list \<open>ds\<close> of states that the first \<open>length rs\<close> operations ran one after the other, each in the
  state the one before it left, with the results \<open>rs\<close>.
\<close>

definition ran :: "(nat \<Rightarrow> 'x nfs_argop4 \<Rightarrow> 'd \<Rightarrow> (nfsstat4 \<times> 'r \<times> 'd) option) \<Rightarrow> 'x nfs_argop4 list \<Rightarrow> (nfsstat4 \<times> 'r) list \<Rightarrow> 'd list \<Rightarrow> bool" where
  "ran funct ops rs ds \<longleftrightarrow> length rs \<le> length ops \<and> length ds = Suc (length rs)
     \<and> (\<forall>i < length rs. funct (opindex (argop (ops ! i))) (ops ! i) (ds ! i) = Some (fst (rs ! i), snd (rs ! i), ds ! Suc i))"

lemma ran_Nil: "ran funct ops [] [d]"
  by (simp add: ran_def)

lemma ran_Cons:
  assumes "funct (opindex (argop a)) a d = Some (st, r, hd ds)" "ran funct ops rs ds"
  shows "ran funct (a # ops) ((st, r) # rs) (d # ds)"
  unfolding ran_def
proof (intro conjI allI impI)
  from assms(2) show "length ((st, r) # rs) \<le> length (a # ops)" "length (d # ds) = Suc (length ((st, r) # rs))"
    by (simp_all add: ran_def)
  fix i assume "i < length ((st, r) # rs)"
  moreover from assms(2) have "ds \<noteq> []" by (auto simp: ran_def)
  ultimately show "funct (opindex (argop ((a # ops) ! i))) ((a # ops) ! i) ((d # ds) ! i)
      = Some (fst (((st, r) # rs) ! i), snd (((st, r) # rs) ! i), (d # ds) ! Suc i)"
    using assms by (cases i) (simp_all add: ran_def hd_conv_nth)
qed

lemma compound_loop_correct:
  assumes table: "\<And>i a d. P d \<Longrightarrow> Q a \<Longrightarrow> \<exists>st r d'. funct i a d = Some (st, r, d') \<and> (st = NFS4_OK \<longrightarrow> P d')"
    and "P d" "\<forall>a \<in> set ops. Q a"
  shows "\<exists>st rs d' ds. compound_loop funct ops d = Some (st, rs, d') \<and> ran funct ops rs ds \<and> hd ds = d \<and> last ds = d'
    \<and> (\<forall>r \<in> set (butlast rs). fst r = NFS4_OK) \<and> (rs \<noteq> [] \<longrightarrow> st = fst (last rs)) \<and> (st = NFS4_OK \<longrightarrow> length rs = length ops)
    \<and> (ops \<noteq> [] \<longrightarrow> rs \<noteq> [])"
  using assms(2,3)
proof (induction ops arbitrary: d)
  case Nil
  then show ?case using ran_Nil [of funct "[]" d] by (auto intro!: exI [of _ "[d]"])
next
  case (Cons a ops)
  from Cons.prems table [of d a "opindex (argop a)"] obtain st r d1 where
    f: "funct (opindex (argop a)) a d = Some (st, r, d1)" "st = NFS4_OK \<longrightarrow> P d1" by auto
  show ?case
  proof (cases "st = NFS4_OK")
    case False
    have "ran funct (a # ops) [(st, r)] [d, d1]" using ran_Cons [of funct a d st r "[d1]" ops "[]"] f ran_Nil [of funct ops d1] by simp
    with False f show ?thesis by (auto intro!: exI [of _ "[d, d1]"])
  next
    case True
    with f Cons.prems Cons.IH [of d1] obtain st' rs d2 ds where ih: "compound_loop funct ops d1 = Some (st', rs, d2)" "ran funct ops rs ds"
      "hd ds = d1" "last ds = d2" "\<forall>r \<in> set (butlast rs). fst r = NFS4_OK" "rs \<noteq> [] \<longrightarrow> st' = fst (last rs)"
      "st' = NFS4_OK \<longrightarrow> length rs = length ops" "ops \<noteq> [] \<longrightarrow> rs \<noteq> []" by auto
    have r: "ran funct (a # ops) ((st, r) # rs) (d # ds)" using ran_Cons f ih by metis
    have ne: "ds \<noteq> []" using ih(2) by (auto simp: ran_def)
    have e: "rs = [] \<Longrightarrow> st' = NFS4_OK" using ih(1,8) by (cases ops) auto
    show ?thesis
      using True f(1) ih r ne e by (intro exI [of _ st'] exI [of _ "(st, r) # rs"] exI [of _ d2] exI [of _ "d # ds"]) auto
  qed
qed


subsection \<open>SAVEFH and RESTOREFH\<close>

text \<open>
  After SAVEFH, a PUTFH of another handle and RESTOREFH, the current file and its type are those of the time of
  the SAVEFH.  The length of the handle is not restored: it stays that of the other handle, so the handle
  comes back byte for byte exactly when both have the same length (as all handles of this server do), and cut
  off when the other one is shorter.
\<close>

theorem save_restore_roundtrip:
  assumes ok: "request_ok d" and w: "wire_fh object"
    and s: "nfs4_op_savefh env d = Some (NFS4_OK, d1)" and p: "nfs4_op_putfh env d1 object = Some (NFS4_OK, d2)"
    and r: "nfs4_op_restorefh env d2 = Some (NFS4_OK, d3)" and len: "fh_len object \<le> fh_len (currentFH d)"
  shows "current_entry d3 = current_entry d \<and> current_filetype d3 = current_filetype d
    \<and> fh_bytes (currentFH d3) = take (unat (fh_len object)) (fh_bytes (currentFH d))
    \<and> (fh_bytes (currentFH d3) = fh_bytes (currentFH d) \<longleftrightarrow> fh_len object = fh_len (currentFH d))"
proof -
  let ?buf = "\<lambda>fh. snd (the (fh_val fh))"
  from savefh_post [OF ok, of env] s have 1: "request_ok d1" "saved_entry d1 = current_entry d" "saved_filetype d1 = current_filetype d"
    "\<forall>n \<le> unat (fh_len (currentFH d)). take n (?buf (savedFH d1)) = take n (?buf (currentFH d))" by auto
  from s have c: "check_handle (cfg env) (currentFH d) = NFS4_OK" unfolding nfs4_op_savefh_def by (auto split: if_splits)
  with ok have cur: "fh_set (currentFH d)" unfolding request_ok_def using check_handle_set by blast
  from putfh_post [OF 1(1) w, of env] p have 2: "request_ok d2" "same_saved d1 d2" "fh_len (currentFH d2) = fh_len object" by auto
  from restorefh_post [OF 2(1), of env] r have 3: "fh_set (currentFH d3)" "fh_len (currentFH d3) = fh_len (currentFH d2)"
    "current_entry d3 = saved_entry d2" "current_filetype d3 = saved_filetype d2"
    "take sizeof_v4 (?buf (currentFH d3)) = take sizeof_v4 (?buf (savedFH d2))" by auto
  let ?l = "unat (fh_len object)"
  from len have l: "?l \<le> unat (fh_len (currentFH d))" by (simp add: word_le_nat_alt)
  with cur have "?l \<le> sizeof_v4" by (auto simp: fh_set_iff)
  then have "take ?l (?buf (currentFH d3)) = take ?l (?buf (savedFH d1))"
    using arg_cong [OF 3(5), of "take ?l"] 2(2) by (simp add: same_saved_def min_def)
  also have "\<dots> = take ?l (?buf (currentFH d))" using 1(4) l by blast
  finally have b: "fh_bytes (currentFH d3) = take ?l (fh_bytes (currentFH d))"
    using 3(1,2) 2(3) cur l by (auto simp: fh_bytes_def fh_set_iff min_def)
  moreover have "length (fh_bytes (currentFH d)) = unat (fh_len (currentFH d))" using cur by (auto simp: fh_bytes_def fh_set_iff)
  ultimately have "fh_bytes (currentFH d3) = fh_bytes (currentFH d) \<longleftrightarrow> fh_len object = fh_len (currentFH d)"
    using l by (auto simp: word_unat_eq_iff dest: arg_cong [of _ _ length])
  with b 1 2 3 show ?thesis by (simp add: same_saved_def)
qed

subsection \<open>The check of the export is skipped\<close>

text \<open>
  once a request has an export, PUTFH of any handle that is not of the pseudo file system neither looks at the
  export of that handle nor checks the credentials of the client against it: its answer is the same for every
  list of exports and every result of that check, and the export of the request stays the first one.
\<close>

theorem putfh_keeps_export:
  assumes "pexport d = Some x"
  shows "nfs4_op_putfh (env\<lparr>exports := es, make_cred := f\<rparr>) d object = nfs4_op_putfh env d object
    \<and> (\<forall>st d'. nfs4_op_putfh env d object = Some (st, d') \<longrightarrow>
          pexport d' = Some x \<or> st = NFS4_OK \<and> pexport d' = None \<and> current_entry d' = None)"
proof -
  have cache: "nfs_FhandleToCache (env\<lparr>exports := es, make_cred := f\<rparr>) fh = nfs_FhandleToCache env fh" for fh
    by (simp add: nfs_FhandleToCache_def cong: option.case_cong)
  have enter: "putfh_enter (env\<lparr>exports := es, make_cred := f\<rparr>) e = putfh_enter env e
      \<and> (\<forall>st d'. putfh_enter env e = Some (st, d') \<longrightarrow> pexport d' = Some x \<or> st = NFS4_OK \<and> pexport d' = None \<and> current_entry d' = None)"
    if "pexport e = Some x" for e
  proof -
    have same: "export_or_same env' e = Some (NFS4_OK, e)" for env' :: "'a compound_env" using that by (simp add: export_or_same_def)
    show ?thesis unfolding putfh_enter_def same cache
      using that by (auto simp: bind_eq_Some_conv split: if_splits option.splits)
  qed
  obtain st1 cur m1 where e1: "ensure_fh (rmem d) (currentFH d) = (st1, cur, m1)" by (cases "ensure_fh (rmem d) (currentFH d)")
  obtain st2 mnt m2 where e2: "ensure_fh m1 (mounted_on_FH d) = (st2, mnt, m2)" by (cases "ensure_fh m1 (mounted_on_FH d)")
  have en: "putfh_enter (env\<lparr>exports := es, make_cred := f\<rparr>) (d\<lparr>rmem := m, currentFH := y, mounted_on_FH := z\<rparr>)
        = putfh_enter env (d\<lparr>rmem := m, currentFH := y, mounted_on_FH := z\<rparr>)"
      "putfh_enter env (d\<lparr>rmem := m, currentFH := y, mounted_on_FH := z\<rparr>) = Some (st, d')
        \<Longrightarrow> pexport d' = Some x \<or> st = NFS4_OK \<and> pexport d' = None \<and> current_entry d' = None" for m y z st d'
    using enter [of "d\<lparr>rmem := m, currentFH := y, mounted_on_FH := z\<rparr>"] assms by simp_all
  show ?thesis
    using assms e1 e2 unfolding nfs4_op_putfh_def Let_def
    by (auto simp: en(1) bind_eq_Some_conv dest: en(2) split: if_splits)
qed

subsection \<open>Witnesses\<close>

definition demo_env :: "u8 compound_env" where
  "demo_env = \<lparr>cfg = \<lparr>fh_cfg = \<lparr>fh_expire = False, returns_err_fh_expired = False\<rparr>, return_bad_stateid = True, ServerBootTime = 5\<rparr>,
     exports = [\<lparr>export_id = 1\<rparr>, \<lparr>export_id = 2\<rparr>], FSAL_ExpandHandle = (\<lambda>b. Some (b ! 0)),
     cache_get = (\<lambda>h. Some (unat h, REGULAR_FILE)), make_cred = (\<lambda>e. export_id e = 1), root_pseudo_id = 0\<rparr>"

text \<open>A handle of the file \<open>x\<close> of an export, and one of the pseudo file system.\<close>

definition file_fh :: "u32 \<Rightarrow> u8 \<Rightarrow> nfs_fh" where
  "file_fh e x = \<lparr>fh_len = 112, fh_val = Some (4096, put 16 [x] (put 4 (le_bytes 4 e) (replicate 112 0)))\<rparr>"

definition demo_request :: request where
  "demo_request = \<lparr>currentFH = file_fh 1 7, current_entry = Some 7, current_filetype = REGULAR_FILE, savedFH = empty_fh,
     rootFH = empty_fh, publicFH = empty_fh, mounted_on_FH = empty_fh, saved_entry = None, saved_filetype = REGULAR_FILE,
     pexport = Some \<lparr>export_id = 1\<rparr>, rmem = \<lparr>brk = 1000, nalloc = 0, fails = (\<lambda>_. False), buddy = \<lparr>k_size = 20, size_header64 = 8, min_alloc_size = 16\<rparr>\<rparr>\<rparr>"

definition demo_op :: "nat \<Rightarrow> unit nfs_argop4" where
  "demo_op n = \<lparr>argop = n, opputfh = file_fh 1 9, opother = ()\<rparr>"

definition demo_other :: "nat \<Rightarrow> unit \<Rightarrow> request \<Rightarrow> (nfsstat4 \<times> unit \<times> request) option" where
  "demo_other i x d = Some (NFS4ERR_NOTSUPP, (), d)"

lemma demo_wire: "wire_fh (file_fh e x)"
  by (simp add: wire_fh_def file_fh_def put_def length_le_bytes)

lemma demo_ok: "request_ok demo_request"
  by (simp add: request_ok_def demo_request_def empty_fh_def fh_ok_def file_fh_def put_def length_le_bytes sizeof_v4_def)


definition demo_saved :: "(nfsstat4 \<times> request) option" where
  "demo_saved = nfs4_op_savefh demo_env demo_request"

definition demo_put :: "(nfsstat4 \<times> request) option" where
  "demo_put = (case demo_saved of None \<Rightarrow> None | Some (_, d) \<Rightarrow> nfs4_op_putfh demo_env d (file_fh 2 9))"

definition demo_restored :: "(nfsstat4 \<times> request) option" where
  "demo_restored = (case demo_put of None \<Rightarrow> None | Some (_, d) \<Rightarrow> nfs4_op_restorefh demo_env d)"

lemma demo_statuses: "map_option fst demo_saved = Some NFS4_OK" "map_option fst demo_put = Some NFS4_OK" "map_option fst demo_restored = Some NFS4_OK"
  by code_simp+

theorem save_restore_roundtrip_witness:
  "\<exists>d3. demo_restored = Some (NFS4_OK, d3) \<and> current_entry d3 = Some 7 \<and> fh_bytes (currentFH d3) = fh_bytes (file_fh 1 7)"
proof -
  from demo_statuses obtain d1 d2 d3 where 1: "demo_saved = Some (NFS4_OK, d1)" and 2: "demo_put = Some (NFS4_OK, d2)"
    and 3: "demo_restored = Some (NFS4_OK, d3)" by auto
  have p: "nfs4_op_putfh demo_env d1 (file_fh 2 9) = Some (NFS4_OK, d2)" using 2 unfolding demo_put_def 1 by simp
  have r: "nfs4_op_restorefh demo_env d2 = Some (NFS4_OK, d3)" using 3 unfolding demo_restored_def 2 by simp
  have l: "fh_len (file_fh 2 9) = fh_len (currentFH demo_request)" by (simp add: file_fh_def demo_request_def)
  from save_restore_roundtrip [OF demo_ok demo_wire 1 [unfolded demo_saved_def] p r] l
  have "current_entry d3 = current_entry demo_request \<and> fh_bytes (currentFH d3) = fh_bytes (currentFH demo_request)" by (metis order_refl)
  with 3 show ?thesis by (auto simp: demo_request_def)
qed

text \<open>The second export refuses this client, and the handle of its file 9 is accepted all the same.\<close>

theorem putfh_keeps_export_witness:
  "\<not> make_cred demo_env \<lparr>export_id = 2\<rparr> \<and> map_option fst (nfs4_op_putfh demo_env demo_request (file_fh 2 9)) = Some NFS4_OK
    \<and> nfs4_op_putfh (demo_env\<lparr>exports := [], make_cred := (\<lambda>_. False)\<rparr>) demo_request (file_fh 2 9)
      = nfs4_op_putfh demo_env demo_request (file_fh 2 9)"
proof -
  have "pexport demo_request = Some \<lparr>export_id = 1\<rparr>" by (simp add: demo_request_def)
  from putfh_keeps_export [OF this, where env = demo_env and es = "[]" and f = "\<lambda>_. False" and object = "file_fh 2 9"]
  have "nfs4_op_putfh (demo_env\<lparr>exports := [], make_cred := (\<lambda>_. False)\<rparr>) demo_request (file_fh 2 9)
      = nfs4_op_putfh demo_env demo_request (file_fh 2 9)" by simp
  moreover have "map_option fst (nfs4_op_putfh demo_env demo_request (file_fh 2 9)) = Some NFS4_OK" by code_simp
  ultimately show ?thesis by (simp add: demo_env_def)
qed

text \<open>
  A request whose saved handle is a file and whose current handle is in the pseudo file system has no export;
  RESTOREFH looks for the export of the handle it is about to overwrite, so the restored file is left with
  none.
\<close>

theorem restorefh_loses_export:
  "\<exists>d1 d2 d3. nfs4_op_savefh demo_env demo_request = Some (NFS4_OK, d1)
    \<and> nfs4_op_putfh demo_env d1 \<lparr>fh_len = 4, fh_val = Some (0, [0, 0, 0, 1])\<rparr> = Some (NFS4_OK, d2)
    \<and> nfs4_op_restorefh demo_env d2 = Some (NFS4_OK, d3) \<and> current_entry d3 = Some 7 \<and> pexport d3 = None"
proof -
  let ?fh = "\<lparr>fh_len = 4, fh_val = Some (0, [0, 0, 0, 1])\<rparr> :: nfs_fh"
  have "do { (s1, d1) \<leftarrow> nfs4_op_savefh demo_env demo_request; (s2, d2) \<leftarrow> nfs4_op_putfh demo_env d1 ?fh;
      (s3, d3) \<leftarrow> nfs4_op_restorefh demo_env d2; Some (s1, s2, s3, current_entry d3, pexport d3) }
    = Some (NFS4_OK, NFS4_OK, NFS4_OK, Some 7, None)" by code_simp
  then show ?thesis by (auto simp: bind_eq_Some_conv)
qed

end
