(* ===== verification/Dup_Req.thy ===== *)
theory Dup_Req
  imports Hash_Table LRU_List
begin

text \<open>
  The cache of replies for duplicate requests (\<^verbatim>\<open>MainNFSD/nfs_dupreq.c\<close>), with the use that a worker
  makes of it (\<^verbatim>\<open>MainNFSD/nfs_worker_thread.c\<close>): a hash table from transaction ids to entries that are a heap,
  the pool of entries and the LRU list of the worker.  The list stores pointers to entries.

  \<open>freed\<close> records the calls of \<open>free_function\<close>, each with the table it was taken from, the procedure
  number and the reply.  The model is that of one worker, built without NLM and quota.  \<open>None\<close> is
  a call through an uninitialised descriptor, besides the accesses of the tables below.
\<close>

datatype func_desc = nfs2_func_desc | nfs3_func_desc | nfs4_func_desc | mnt1_func_desc | mnt3_func_desc

record 'r dupreq_entry =
  xid :: u64
  res_nfs :: 'r
  rq_prog :: u64
  rq_vers :: u64
  rq_proc :: u64
  timestamp :: int

record dupreq_param =
  nfs_program :: u64
  mnt_program :: u64
  nb_dupreq_prealloc :: u32
  expiration_dupreq :: int
  sizeof_dupreq_entry :: nat

record 'r dupreqs =
  dmem :: mem
  ht_dupreq :: "(u64, addr) hash_table"
  dheap :: "addr \<Rightarrow> 'r dupreq_entry"
  dupreq_pool :: "addr list"
  freed :: "(func_desc \<times> u64 \<times> 'r) list"
  lheap :: "addr lru_heap"
  lru_dupreq :: lru_list

datatype dupreq_status = DUPREQ_SUCCESS | DUPREQ_INSERT_MALLOC_ERROR | DUPREQ_NOT_FOUND

subsection \<open>Keys\<close>

definition dupreq_value_hash_func :: "u32 \<Rightarrow> u64 \<Rightarrow> u64" where
  "dupreq_value_hash_func isz x = x mod ucast isz"

definition dupreq_rbt_hash_func :: "u64 \<Rightarrow> u64" where
  "dupreq_rbt_hash_func x = x"

definition compare_xid :: "u64 \<Rightarrow> u64 \<Rightarrow> int" where
  "compare_xid xid1 xid2 = (if xid1 = xid2 then 0 else 1)"

definition dupreq_par :: "u32 \<Rightarrow> u32 \<Rightarrow> u64 hash_parameter" where
  "dupreq_par isz nb = \<lparr>index_size = isz, alphabet_length = 10, nb_node_prealloc = nb,
     hash_func_key = dupreq_value_hash_func isz, hash_func_rbt = dupreq_rbt_hash_func, compare_key = compare_xid\<rparr>"

subsection \<open>Operations\<close>

definition nfs_Init_dupreq :: "mem \<Rightarrow> bool \<Rightarrow> (nat \<Rightarrow> bool) \<Rightarrow> u64 hash_parameter \<Rightarrow> int \<times> (u64, addr) hash_table option \<times> mem" where
  "nfs_Init_dupreq m attr_ok lock_ok par =
     (case HashTable_Init m attr_ok lock_ok par of
        (None, m') \<Rightarrow> (-1, None, m')
      | (Some ht, m') \<Rightarrow> (0, Some ht, m'))"

text \<open>The descriptor of the procedure of a reply; for an unknown program, or an unknown version of MOUNT, it stays unset.\<close>

definition funcdesc_of :: "dupreq_param \<Rightarrow> 'r dupreq_entry \<Rightarrow> (func_desc \<times> u64) option" where
  "funcdesc_of par pdupreq =
     (if rq_prog pdupreq = nfs_program par
      then Some (if rq_vers pdupreq = 2 then (nfs2_func_desc, rq_proc pdupreq)
                 else if rq_vers pdupreq = 3 then (nfs3_func_desc, rq_proc pdupreq)
                 else if rq_vers pdupreq = 4 then (nfs4_func_desc, rq_proc pdupreq)
                 else (nfs2_func_desc, 0))
      else if rq_prog pdupreq = mnt_program par
      then (if rq_vers pdupreq = 1 then Some (mnt1_func_desc, rq_proc pdupreq)
            else if rq_vers pdupreq = 3 then Some (mnt3_func_desc, rq_proc pdupreq)
            else None)
      else None)"

definition clean_entry_dupreq :: "dupreq_param \<Rightarrow> addr \<Rightarrow> 'r dupreqs \<Rightarrow> (int \<times> 'r dupreqs) option" where
  "clean_entry_dupreq par pdupreq s = do {
     (rc, _, m, t) \<leftarrow> hs_del (dmem s, ht_dupreq s) (xid (dheap s pdupreq));
     let s1 = s\<lparr>dmem := m, ht_dupreq := t\<rparr>
     in if rc \<noteq> HASHTABLE_SUCCESS \<and> rc \<noteq> HASHTABLE_ERROR_NO_SUCH_KEY then Some (1, s1)
        else if rc = HASHTABLE_ERROR_NO_SUCH_KEY then Some (0, s1)
        else do {
          (table, proc) \<leftarrow> funcdesc_of par (dheap s pdupreq);
          Some (0, s1\<lparr>freed := freed s @ [(table, proc, res_nfs (dheap s pdupreq))],
                      dupreq_pool := RELEASE_PREALLOC pdupreq (dupreq_pool s)\<rparr>) } }"

definition nfs_dupreq_add :: "dupreq_param \<Rightarrow> int \<Rightarrow> 'r dupreqs \<Rightarrow> u64 \<Rightarrow> u64 \<times> u64 \<times> u64 \<Rightarrow> 'r \<Rightarrow> (dupreq_status \<times> 'r dupreqs) option" where
  "nfs_dupreq_add par now s x req res =
     (case GET_PREALLOC (dmem s) (dupreq_pool s) (unat (nb_dupreq_prealloc par)) (sizeof_dupreq_entry par) of
        (None, pool, m) \<Rightarrow> Some (DUPREQ_INSERT_MALLOC_ERROR, s\<lparr>dmem := m, dupreq_pool := pool\<rparr>)
      | (Some p, pool, m) \<Rightarrow>
          let e = \<lparr>xid = x, res_nfs = res, rq_prog = fst req, rq_vers = fst (snd req), rq_proc = snd (snd req), timestamp = now\<rparr>
          in do {
            (rc, m1, t) \<leftarrow> hs_put (m, ht_dupreq s) x p HASHTABLE_SET_HOW_SET_OVERWRITE;
            let s1 = s\<lparr>dmem := m1, ht_dupreq := t, dheap := (dheap s)(p := e), dupreq_pool := pool\<rparr>
            in if rc \<noteq> HASHTABLE_SUCCESS then Some (DUPREQ_INSERT_MALLOC_ERROR, s1)
               else Some (case LRU_new_entry m1 (lheap s) (lru_dupreq s) of
                   (None, _, m2, h, l) \<Rightarrow> (DUPREQ_INSERT_MALLOC_ERROR, s1\<lparr>dmem := m2, lheap := h, lru_dupreq := l\<rparr>)
                 | (Some a, _, m2, h, l) \<Rightarrow>
                     (DUPREQ_SUCCESS, s1\<lparr>dmem := m2, lheap := h(a := (h a)\<lparr>buffdata := p\<rparr>), lru_dupreq := l\<rparr>)) })"

definition nfs_dupreq_get :: "int \<Rightarrow> 'r dupreqs \<Rightarrow> u64 \<Rightarrow> (dupreq_status \<times> 'r option \<times> 'r dupreqs) option" where
  "nfs_dupreq_get now s x = do {
     (rc, p, m, t) \<leftarrow> hs_get (dmem s, ht_dupreq s) x;
     let s1 = s\<lparr>dmem := m, ht_dupreq := t\<rparr>
     in if rc = HASHTABLE_SUCCESS
        then do {
          a \<leftarrow> p;
          Some (DUPREQ_SUCCESS, Some (res_nfs (dheap s a)), s1\<lparr>dheap := (dheap s)(a := (dheap s a)\<lparr>timestamp := now\<rparr>)\<rparr>) }
        else Some (DUPREQ_NOT_FOUND, None, s1) }"

text \<open>\<open>LRU_LIST_SET_INVALID\<close> is 0 and \<open>LRU_LIST_DO_NOT_SET_INVALID\<close> is 1.\<close>

definition nfs_dupreq_gc_function :: "dupreq_param \<Rightarrow> int \<Rightarrow> (addr \<Rightarrow> 'r dupreq_entry) \<Rightarrow> addr \<Rightarrow> int" where
  "nfs_dupreq_gc_function par now h pdupreq =
     (if now - timestamp (h pdupreq) > expiration_dupreq par then 0 else 1)"

text \<open>
  The garbage collection of a worker: the expired entries of its list are tagged, then the invalid ones are
  removed.  The state of the cache is the extra parameter of \<open>clean_entry\<close>; it becomes \<open>None\<close> when a
  call of it does.
\<close>

definition lift_clean :: "dupreq_param \<Rightarrow> addr \<Rightarrow> 'r dupreqs option \<Rightarrow> int \<times> 'r dupreqs option" where
  "lift_clean par p x =
     (case x of
        None \<Rightarrow> (0, None)
      | Some s \<Rightarrow> (case clean_entry_dupreq par p s of None \<Rightarrow> (0, None) | Some (rc, s') \<Rightarrow> (rc, Some s')))"

definition dupreq_gc :: "dupreq_param \<Rightarrow> int \<Rightarrow> 'r dupreqs \<Rightarrow> (lru_rc \<times> 'r dupreqs) option" where
  "dupreq_gc par now s = do {
     (_, h, l, _) \<leftarrow> LRU_invalidate_by_function (\<lambda>p u. (nfs_dupreq_gc_function par now (dheap s) p, u)) (lheap s) (lru_dupreq s) ();
     (rc, h, l, x) \<leftarrow> LRU_gc_invalid (lift_clean par) h l (Some s);
     s' \<leftarrow> x;
     Some (rc, s'\<lparr>lheap := h, lru_dupreq := l\<rparr>) }"

text \<open>What the worker does with a request that may be a duplicate: the old reply, or the work and a new entry.\<close>

definition serve :: "dupreq_param \<Rightarrow> int \<Rightarrow> 'r dupreqs \<Rightarrow> u64 \<Rightarrow> u64 \<times> u64 \<times> u64 \<Rightarrow> 'r \<Rightarrow> ('r \<times> 'r dupreqs) option" where
  "serve par now s x req res = do {
     (status, previous, s1) \<leftarrow> nfs_dupreq_get now s x;
     if status = DUPREQ_SUCCESS then do { r \<leftarrow> previous; Some (r, s1) }
     else do { (_, s2) \<leftarrow> nfs_dupreq_add par now s1 x req res; Some (res, s2) } }"

subsection \<open>The cache as a map\<close>

text \<open>The reply stored for a transaction id.\<close>

definition replies :: "'r dupreqs \<Rightarrow> u64 \<Rightarrow> 'r option" where
  "replies s x = map_option (\<lambda>p. res_nfs (dheap s p)) (ht_lookup (ht_dupreq s) x)"

definition ptrs :: "'r dupreqs \<Rightarrow> addr list \<Rightarrow> addr list" where
  "ptrs s xs = map (\<lambda>a. buffdata (lheap s a)) xs"

text \<open>
  The table maps the transaction id of each live entry to that entry and nothing else, so no entry has been
  overwritten; the entries of the list are the live ones, each once.
\<close>

definition dq_inv :: "dupreq_param \<Rightarrow> 'r dupreqs \<Rightarrow> addr set \<Rightarrow> bool" where
  "dq_inv par s P \<longleftrightarrow> hs_inv (parameter (ht_dupreq s)) (dmem s, ht_dupreq s)
     \<and> key_eq (parameter (ht_dupreq s)) = (=)
     \<and> pool_inv (dmem s) P (dupreq_pool s)
     \<and> (\<forall>p \<in> P. ht_lookup (ht_dupreq s) (xid (dheap s p)) = Some p \<and> funcdesc_of par (dheap s p) \<noteq> None)
     \<and> (\<forall>k p. ht_lookup (ht_dupreq s) k = Some p \<longrightarrow> p \<in> P \<and> xid (dheap s p) = k)"

definition dup_inv :: "dupreq_param \<Rightarrow> 'r dupreqs \<Rightarrow> addr list \<Rightarrow> bool" where
  "dup_inv par s xs \<longleftrightarrow> dq_inv par s (set (ptrs s xs)) \<and> distinct (ptrs s xs) \<and> lru_inv (dmem s) (lheap s) (lru_dupreq s) xs"

lemma dupreq_par_ok:
  assumes "0 < isz"
  shows "params_ok (dupreq_par isz nb)" "key_eq (dupreq_par isz nb) = (=)"
proof -
  show eq: "key_eq (dupreq_par isz nb) = (=)"
    by (auto simp: key_eq_def dupreq_par_def compare_xid_def fun_eq_iff)
  show "params_ok (dupreq_par isz nb)"
    unfolding params_ok_def eq
    using hash_index_less [OF assms] by (auto simp: dupreq_par_def hashval_def dupreq_value_hash_func_def identity_equivp)
qed

lemma dq_get:
  assumes inv: "dq_inv par s P"
  shows "\<exists>t. hs_get (dmem s, ht_dupreq s) k = Some
       (if ht_lookup (ht_dupreq s) k = None then HASHTABLE_ERROR_NO_SUCH_KEY else HASHTABLE_SUCCESS,
        ht_lookup (ht_dupreq s) k, dmem s, t)
     \<and> hs_inv (parameter (ht_dupreq s)) (dmem s, t) \<and> ht_lookup t = ht_lookup (ht_dupreq s)"
proof -
  from inv have "hs_inv (parameter (ht_dupreq s)) (dmem s, ht_dupreq s)" by (simp add: dq_inv_def)
  from hs.get_law [OF this, of k] obtain m t where g: "hs_get (dmem s, ht_dupreq s) k = Some
       (if ht_lookup (ht_dupreq s) k = None then HASHTABLE_ERROR_NO_SUCH_KEY else HASHTABLE_SUCCESS,
        ht_lookup (ht_dupreq s) k, m, t)"
    and t: "hs_inv (parameter (ht_dupreq s)) (m, t)" "ht_lookup t = ht_lookup (ht_dupreq s)" by auto
  have "m = dmem s" using hs_same_mem(1) [OF g] by simp
  with g t show ?thesis by blast
qed

lemma funcdesc_of_timestamp [simp]: "funcdesc_of par (e\<lparr>timestamp := n\<rparr>) = funcdesc_of par e"
  unfolding funcdesc_of_def by (simp cong: if_cong)

text \<open>A hit refreshes the timestamp and changes nothing else.\<close>

lemma nfs_dupreq_get_correct:
  assumes inv: "dup_inv par s xs"
  shows "\<exists>s'. nfs_dupreq_get now s k
       = Some (if replies s k = None then DUPREQ_NOT_FOUND else DUPREQ_SUCCESS, replies s k, s')
     \<and> dup_inv par s' xs \<and> replies s' = replies s \<and> dmem s' = dmem s \<and> lru_dupreq s' = lru_dupreq s
     \<and> parameter (ht_dupreq s') = parameter (ht_dupreq s)"
proof -
  from inv have dq: "dq_inv par s (set (ptrs s xs))" by (simp add: dup_inv_def)
  from dq_get [OF dq, of k] obtain t where g: "hs_get (dmem s, ht_dupreq s) k = Some
       (if ht_lookup (ht_dupreq s) k = None then HASHTABLE_ERROR_NO_SUCH_KEY else HASHTABLE_SUCCESS,
        ht_lookup (ht_dupreq s) k, dmem s, t)"
    and t: "hs_inv (parameter (ht_dupreq s)) (dmem s, t)" "ht_lookup t = ht_lookup (ht_dupreq s)" by blast
  from t(1) have p: "parameter t = parameter (ht_dupreq s)" by (simp add: hs_inv_def)
  show ?thesis
  proof (cases "ht_lookup (ht_dupreq s) k")
    case None
    with g t p inv show ?thesis
      by (auto simp: nfs_dupreq_get_def replies_def dup_inv_def dq_inv_def ptrs_def fun_eq_iff)
  next
    case (Some a)
    let ?h = "(dheap s)(a := (dheap s a)\<lparr>timestamp := now\<rparr>)"
    have same: "xid (?h b) = xid (dheap s b)" "res_nfs (?h b) = res_nfs (dheap s b)"
      "funcdesc_of par (?h b) = funcdesc_of par (dheap s b)" for b by simp_all
    let ?s = "s\<lparr>dmem := dmem s, ht_dupreq := t, dheap := ?h\<rparr>"
    have "nfs_dupreq_get now s k = Some (DUPREQ_SUCCESS, Some (res_nfs (dheap s a)), ?s)"
      using g Some by (simp add: nfs_dupreq_get_def)
    moreover have "dup_inv par ?s xs"
      using inv t p same by (simp add: dup_inv_def dq_inv_def ptrs_def del: fun_upd_apply)
    moreover have "replies ?s = replies s" using t(2) same by (simp add: replies_def fun_eq_iff del: fun_upd_apply)
    ultimately show ?thesis using Some p by (simp add: replies_def)
  qed
qed

subsection \<open>Insertion\<close>

lemma LRU_new_entry_grows: "LRU_new_entry m h l = (r, rc, m', h', l') \<Longrightarrow> mem_grows m m'"
  using stuff.get_grows [of m "entry_prealloc l" "unat (nb_entry_prealloc l)" sizeof_LRU_entry]
  by (auto simp: LRU_new_entry_def Let_def split: prod.splits option.splits)

lemma lru_inv_buffdata: "lru_inv m h l xs \<Longrightarrow> lru_inv m (h(a := (h a)\<lparr>buffdata := p\<rparr>)) l xs"
proof -
  let ?h = "h(a := (h a)\<lparr>buffdata := p\<rparr>)"
  assume "lru_inv m h l xs"
  moreover have "seg ?h None xs None = seg h None xs None" by (rule seg_same_links) simp
  moreover have "filter (is_invalid ?h) xs = filter (is_invalid h) xs" by (rule filter_cong) auto
  ultimately show ?thesis by (simp add: lru_inv_def chain_def del: fun_upd_apply)
qed

lemma nfs_dupreq_add_correct:
  assumes inv: "dup_inv par s xs" and new: "replies s k = None"
    and fd: "funcdesc_of par \<lparr>xid = k, res_nfs = res, rq_prog = fst req, rq_vers = fst (snd req), rq_proc = snd (snd req), timestamp = now\<rparr> \<noteq> None"
  shows "\<exists>rc s'. nfs_dupreq_add par now s k req res = Some (rc, s')
     \<and> (rc = DUPREQ_SUCCESS \<longrightarrow> (\<exists>a. dup_inv par s' (xs @ [a])) \<and> replies s' = (replies s)(k \<mapsto> res))
     \<and> (rc \<noteq> DUPREQ_SUCCESS \<longrightarrow> (\<forall>x. x \<noteq> k \<longrightarrow> replies s' x = replies s x))"
proof -
  from inv have dq: "dq_inv par s (set (ptrs s xs))" and dist: "distinct (ptrs s xs)" and lru: "lru_inv (dmem s) (lheap s) (lru_dupreq s) xs"
    by (auto simp: dup_inv_def)
  let ?f = "ht_lookup (ht_dupreq s)" and ?P = "set (ptrs s xs)"
  from dq have par: "hs_inv (parameter (ht_dupreq s)) (dmem s, ht_dupreq s)" "key_eq (parameter (ht_dupreq s)) = (=)"
    and pool: "pool_inv (dmem s) ?P (dupreq_pool s)" by (auto simp: dq_inv_def)
  obtain r pl m where g: "GET_PREALLOC (dmem s) (dupreq_pool s) (unat (nb_dupreq_prealloc par)) (sizeof_dupreq_entry par) = (r, pl, m)"
    by (cases "GET_PREALLOC (dmem s) (dupreq_pool s) (unat (nb_dupreq_prealloc par)) (sizeof_dupreq_entry par)")
  show ?thesis
  proof (cases r)
    case None
    with g show ?thesis by (simp add: nfs_dupreq_add_def replies_def)
  next
    case (Some p)
    let ?e = "\<lparr>xid = k, res_nfs = res, rq_prog = fst req, rq_vers = fst (snd req), rq_proc = snd (snd req), timestamp = now\<rparr>"
    let ?h = "(dheap s)(p := ?e)"
    from stuff.get_some [OF pool g [unfolded Some]] have p: "p \<notin> ?P" "pool_inv m (insert p ?P) pl" and gr: "mem_grows (dmem s) m"
      using stuff.get_grows [OF g] by auto
    from hs.put_law [OF hs_inv_grows [OF par(1) gr], of k p HASHTABLE_SET_HOW_SET_OVERWRITE] obtain rc m1 t where
      put: "hs_put (m, ht_dupreq s) k p HASHTABLE_SET_HOW_SET_OVERWRITE = Some (rc, m1, t)"
      and t: "hs_inv (parameter (ht_dupreq s)) (m1, t)" and gr1: "mem_grows m m1"
      and out: "set_outcome (=) ?f k p HASHTABLE_SET_HOW_SET_OVERWRITE rc (ht_lookup t)" unfolding par(2) by (auto simp: hs_grows_def)
    from new have fk: "?f k = None" by (simp add: replies_def)
    from out have upd: "ht_lookup t = (if rc = HASHTABLE_SUCCESS then ?f(k \<mapsto> p) else ?f)"
      by (auto simp: set_outcome_def upd_map_def fun_eq_iff split: option.splits if_splits)
    have old: "?f x = Some q \<Longrightarrow> q \<noteq> p" for x q using dq p(1) by (auto simp: dq_inv_def)
    obtain n lrc m2 h l where ln: "LRU_new_entry m1 (lheap s) (lru_dupreq s) = (n, lrc, m2, h, l)"
      by (cases "LRU_new_entry m1 (lheap s) (lru_dupreq s)")
    have lru1: "lru_inv m1 (lheap s) (lru_dupreq s) xs"
      using lru pool_inv_grows [OF _ mem_grows_trans [OF gr gr1]] by (auto simp: lru_inv_def)
    have rep: "map_option (\<lambda>q. res_nfs (?h q)) (ht_lookup t x) = (if rc = HASHTABLE_SUCCESS then (replies s)(k \<mapsto> res) else replies s) x" for x
      using old [of x] by (cases "?f x") (auto simp: upd replies_def)
    show ?thesis
    proof (cases "rc = HASHTABLE_SUCCESS \<and> n \<noteq> None")
      case False
      with g Some put ln rep show ?thesis
        by (cases "rc = HASHTABLE_SUCCESS") (auto simp: nfs_dupreq_add_def Let_def replies_def)
    next
      case True
      then obtain a where n: "n = Some a" by blast
      from LRU_new_entry_correct [OF lru1 ln [unfolded n]] have a: "a \<notin> set xs" "lru_inv m2 h l (xs @ [a])"
        "\<forall>b \<in> set xs. buffdata (h b) = buffdata (lheap s b)" by auto
      have gr2: "mem_grows m1 m2" using ln n LRU_new_entry_grows by blast
      let ?lh = "h(a := (h a)\<lparr>buffdata := p\<rparr>)"
      let ?s = "s\<lparr>dmem := m2, ht_dupreq := t, dheap := ?h, dupreq_pool := pl, lheap := ?lh, lru_dupreq := l\<rparr>"
      have add: "nfs_dupreq_add par now s k req res = Some (DUPREQ_SUCCESS, ?s)"
        using g Some put ln n True by (simp add: nfs_dupreq_add_def Let_def)
      have ps: "ptrs ?s (xs @ [a]) = ptrs s xs @ [p]" using a(1,3) by (auto simp: ptrs_def)
      have "lru_inv m2 ?lh l (xs @ [a])" using a(2) by (rule lru_inv_buffdata)
      moreover have "dq_inv par ?s (insert p ?P)"
      proof -
        have "hs_inv (parameter (ht_dupreq s)) (m2, t)" using t gr2 by (rule hs_inv_grows)
        moreover have "pool_inv m2 (insert p ?P) pl" using p(2) mem_grows_trans [OF gr1 gr2] by (rule pool_inv_grows)
        moreover have "parameter t = parameter (ht_dupreq s)" using t by (simp add: hs_inv_def)
        moreover have "ht_lookup t (xid (?h q)) = Some q \<and> funcdesc_of par (?h q) \<noteq> None" if "q \<in> insert p ?P" for q
        proof (cases "q = p")
          case False
          with that dq have "?f (xid (dheap s q)) = Some q" "funcdesc_of par (dheap s q) \<noteq> None" by (simp_all add: dq_inv_def)
          with False True fk show ?thesis by (auto simp: upd)
        qed (use True fd in \<open>simp add: upd\<close>)
        moreover have "q \<in> insert p ?P \<and> xid (?h q) = x" if "ht_lookup t x = Some q" for x q
          using that True dq old [of x q] by (cases "x = k") (auto simp: upd dq_inv_def)
        ultimately show ?thesis using par(2) by (simp add: dq_inv_def del: fun_upd_apply)
      qed
      ultimately have "dup_inv par ?s (xs @ [a])" using ps p(1) dist by (simp add: dup_inv_def insert_commute)
      moreover have "replies ?s = (replies s)(k \<mapsto> res)" using rep True by (simp add: replies_def fun_eq_iff)
      ultimately show ?thesis using add by blast
    qed
  qed
qed

subsection \<open>Garbage collection\<close>

text \<open>What \<open>clean_entry_dupreq\<close> hands to \<open>free_function\<close>.\<close>

definition free_call :: "dupreq_param \<Rightarrow> 'r dupreq_entry \<Rightarrow> func_desc \<times> u64 \<times> 'r" where
  "free_call par e = (case the (funcdesc_of par e) of (table, proc) \<Rightarrow> (table, proc, res_nfs e))"

text \<open>The rest of the state, which the cleaning of entries leaves alone.\<close>

definition same_rest :: "'r dupreqs \<Rightarrow> 'r dupreqs \<Rightarrow> bool" where
  "same_rest s s' \<longleftrightarrow> dmem s' = dmem s \<and> dheap s' = dheap s \<and> lheap s' = lheap s \<and> lru_dupreq s' = lru_dupreq s"

lemma clean_entry_correct:
  assumes inv: "dq_inv par s P" and p: "p \<in> P"
  shows "\<exists>s'. clean_entry_dupreq par p s = Some (0, s') \<and> dq_inv par s' (P - {p}) \<and> same_rest s s'
     \<and> ht_lookup (ht_dupreq s') = (ht_lookup (ht_dupreq s))(xid (dheap s p) := None)
     \<and> freed s' = freed s @ [free_call par (dheap s p)]"
proof -
  let ?f = "ht_lookup (ht_dupreq s)" and ?k = "xid (dheap s p)"
  from inv p have I: "hs_inv (parameter (ht_dupreq s)) (dmem s, ht_dupreq s)" "key_eq (parameter (ht_dupreq s)) = (=)" "?f ?k = Some p"
    "pool_inv (dmem s) P (dupreq_pool s)" by (auto simp: dq_inv_def)
  from hs.del_law [OF I(1), of ?k] obtain kv m t where
    d: "hs_del (dmem s, ht_dupreq s) ?k = Some (HASHTABLE_SUCCESS, kv, m, t)"
    and t: "hs_inv (parameter (ht_dupreq s)) (m, t)" "ht_lookup t = ?f(?k := None)"
    unfolding I(2) using I(3) by (auto simp: upd_map_def fun_eq_iff)
  have m: "m = dmem s" using hs_same_mem(2) [OF d] by simp
  from inv p obtain tb pr where fd: "funcdesc_of par (dheap s p) = Some (tb, pr)" by (auto simp: dq_inv_def)
  let ?s = "s\<lparr>dmem := dmem s, ht_dupreq := t, freed := freed s @ [(tb, pr, res_nfs (dheap s p))], dupreq_pool := RELEASE_PREALLOC p (dupreq_pool s)\<rparr>"
  have "clean_entry_dupreq par p s = Some (0, ?s)" using d m fd by (simp add: clean_entry_dupreq_def)
  moreover have "dq_inv par ?s (P - {p})"
  proof -
    have "pool_inv (dmem s) (P - {p}) (RELEASE_PREALLOC p (dupreq_pool s))" using I(4) p by (rule stuff.release_live)
    moreover have "ht_lookup t (xid (dheap s q)) = Some q" if "q \<in> P - {p}" for q
    proof -
      from that inv have q: "?f (xid (dheap s q)) = Some q" by (simp add: dq_inv_def)
      with that I(3) have "xid (dheap s q) \<noteq> ?k" by auto
      with q show ?thesis by (simp add: t(2))
    qed
    moreover have "q \<in> P - {p} \<and> xid (dheap s q) = k" if "ht_lookup t k = Some q" for k q
    proof -
      from that have k: "k \<noteq> ?k" "?f k = Some q" by (auto simp: t(2) split: if_splits)
      with inv have "q \<in> P" "xid (dheap s q) = k" by (simp_all add: dq_inv_def)
      with k(1) show ?thesis by auto
    qed
    moreover have "parameter t = parameter (ht_dupreq s)" using t(1) by (simp add: hs_inv_def)
    ultimately show ?thesis using inv t(1) m by (simp add: dq_inv_def)
  qed
  ultimately show ?thesis using t(2) fd by (auto simp: same_rest_def free_call_def)
qed

lemma clean_all_correct:
  assumes "dq_inv par s P" and "distinct ps" and "set ps \<subseteq> P"
  shows "\<exists>s'. fold (\<lambda>p x. snd (lift_clean par p x)) ps (Some s) = Some s' \<and> dq_inv par s' (P - set ps) \<and> same_rest s s'
     \<and> ht_lookup (ht_dupreq s') = (\<lambda>k. if k \<in> xid ` dheap s ` set ps then None else ht_lookup (ht_dupreq s) k)
     \<and> freed s' = freed s @ map (\<lambda>p. free_call par (dheap s p)) ps"
  using assms
proof (induction ps arbitrary: s P)
  case Nil
  then show ?case by (simp add: same_rest_def)
next
  case (Cons p ps)
  from clean_entry_correct [OF Cons.prems(1)] Cons.prems(3) obtain s1 where
    1: "clean_entry_dupreq par p s = Some (0, s1)" "dq_inv par s1 (P - {p})" "same_rest s s1"
    "ht_lookup (ht_dupreq s1) = (ht_lookup (ht_dupreq s))(xid (dheap s p) := None)" "freed s1 = freed s @ [free_call par (dheap s p)]" by auto
  from Cons.IH [OF 1(2)] Cons.prems(2,3) obtain s' where
    2: "fold (\<lambda>p x. snd (lift_clean par p x)) ps (Some s1) = Some s'" "dq_inv par s' (P - {p} - set ps)" "same_rest s1 s'"
    "ht_lookup (ht_dupreq s') = (\<lambda>k. if k \<in> xid ` dheap s1 ` set ps then None else ht_lookup (ht_dupreq s1) k)"
    "freed s' = freed s1 @ map (\<lambda>p. free_call par (dheap s1 p)) ps" by auto
  have "fold (\<lambda>p x. snd (lift_clean par p x)) (p # ps) (Some s) = Some s'" using 1(1) 2(1) by (simp add: lift_clean_def)
  moreover have "P - {p} - set ps = P - set (p # ps)" by auto
  ultimately show ?case using 1 2 by (auto simp: same_rest_def fun_eq_iff)
qed

text \<open>The entries that a garbage collection removes.\<close>

definition gone :: "dupreq_param \<Rightarrow> int \<Rightarrow> 'r dupreqs \<Rightarrow> addr \<Rightarrow> bool" where
  "gone par now s a \<longleftrightarrow> is_invalid (lheap s) a \<or> expiration_dupreq par < now - timestamp (dheap s (buffdata (lheap s a)))"

lemma tagged_stateless: "tagged (\<lambda>p u. (f p, u)) h as x = (filter (\<lambda>a. \<not> is_invalid h a \<and> f (buffdata (h a)) = 0) as, x)"
  by (induction as) auto

text \<open>Invalidation keeps the counters that decide whether a collection takes place.\<close>

definition same_counters :: "lru_list \<Rightarrow> lru_list \<Rightarrow> bool" where
  "same_counters l l' \<longleftrightarrow> nb_call_gc l' = nb_call_gc l \<and> nb_call_gc_invalid l' = nb_call_gc_invalid l"

lemma inval_loop_counters: "inval_loop t h l x q = Some y \<Longrightarrow> same_counters l (fst (snd (snd y)))"
proof (rule inval_loop.raw_induct [of "\<lambda>t h l x q y. same_counters l (fst (snd (snd y)))" "((((t, h), l), x), q)" y, unfolded split_conv])
  fix loop t h l x q y
  assume ih: "\<And>t h l x q y. loop t h l x q = Some y \<Longrightarrow> same_counters l (fst (snd (snd y)))"
    and step: "(if q = lru_MRU l then Some (LRU_LIST_SUCCESS, h, l, x)
      else case q of None \<Rightarrow> None
           | Some a \<Rightarrow>
               if valid_state (h a) \<noteq> LRU_ENTRY_INVALID
               then if fst (t (buffdata (h a)) x) = 0
                    then case LRU_invalidate h l a of
                         (rc, h', l') \<Rightarrow>
                           if rc \<noteq> LRU_LIST_SUCCESS then Some (rc, h', l', snd (t (buffdata (h a)) x))
                           else loop t h' l' (snd (t (buffdata (h a)) x)) (next_entry (h a))
                    else loop t h l (snd (t (buffdata (h a)) x)) (next_entry (h a))
               else loop t h l x (next_entry (h a))) = Some y"
  from step show "same_counters l (fst (snd (snd y)))"
    by (auto simp: LRU_invalidate_def same_counters_def split: if_splits option.splits dest!: ih)
qed

lemma LRU_invalidate_by_function_counters:
  assumes "LRU_invalidate_by_function t h l x = Some (rc, h', l', x')"
  shows "nb_call_gc l' = nb_call_gc l" "nb_call_gc_invalid l' = nb_call_gc_invalid l"
  using assms inval_loop_counters [of t h l x "lru_LRU l"]
  by (auto simp: LRU_invalidate_by_function_def same_counters_def split: if_splits option.splits)

text \<open>
  C37: Garbage collection of the cache of replies.  When no reply was overwritten, the collection of a worker returns,
  and removes exactly the entries of its list, other than the newest, that are invalid or older than the
  expiration: their transaction ids are forgotten, each of their replies is handed once to the free function
  of its procedure, oldest first, the entries go back to the pool, and every other reply stays.
\<close>

theorem dupreq_gc_correct:
  assumes inv: "dup_inv par s (zs @ [b])" and small: "length zs < 2 ^ 32 - 1"
    and calls: "nb_call_gc_invalid (lru_dupreq s) \<le> nb_call_gc (lru_dupreq s)"
  shows "\<exists>rc s'. dupreq_gc par now s = Some (rc, s') \<and> dup_inv par s' (filter (\<lambda>a. \<not> gone par now s a) zs @ [b])
     \<and> replies s' = (\<lambda>k. if k \<in> (\<lambda>a. xid (dheap s (buffdata (lheap s a)))) ` {a \<in> set zs. gone par now s a} then None else replies s k)
     \<and> freed s' = freed s @ map (\<lambda>a. free_call par (dheap s (buffdata (lheap s a)))) (filter (gone par now s) zs)"
proof -
  from inv have dq: "dq_inv par s (set (ptrs s (zs @ [b])))" and dist: "distinct (ptrs s (zs @ [b]))"
    and lru: "lru_inv (dmem s) (lheap s) (lru_dupreq s) (zs @ [b])" by (auto simp: dup_inv_def)
  let ?t = "\<lambda>p u. (nfs_dupreq_gc_function par now (dheap s) p, u :: unit)"
  let ?as = "filter (\<lambda>a. \<not> is_invalid (lheap s) a \<and> nfs_dupreq_gc_function par now (dheap s) (buffdata (lheap s a)) = 0) zs"
  let ?h = "tag (lheap s) ?as" and ?ptr = "\<lambda>a. buffdata (lheap s a)" and ?out = "filter (gone par now s) zs"
  from LRU_invalidate_by_function_correct [OF lru small, of ?t "()"] obtain l1 where
    i: "LRU_invalidate_by_function ?t (lheap s) (lru_dupreq s) () = Some (LRU_LIST_SUCCESS, ?h, l1, ())"
    and lru1: "lru_inv (dmem s) ?h l1 (zs @ [b])" unfolding tagged_stateless by auto
  have calls1: "nb_call_gc_invalid l1 \<le> nb_call_gc l1" using LRU_invalidate_by_function_counters [OF i] calls by simp
  have g: "is_invalid ?h a \<longleftrightarrow> gone par now s a" if "a \<in> set zs" for a
    using that by (auto simp: tag_def gone_def nfs_dupreq_gc_function_def)
  have bd: "buffdata (?h a) = ?ptr a" for a by (simp add: tag_def)
  have f: "filter (is_invalid ?h) zs = ?out" "filter (\<lambda>a. \<not> is_invalid ?h a) zs = filter (\<lambda>a. \<not> gone par now s a) zs"
    using g by (auto intro!: filter_cong)
  from LRU_gc_invalid_correct [OF lru1 small calls1, of "lift_clean par" "Some s"] obtain rc h2 l2 where
    gc: "LRU_gc_invalid (lift_clean par) ?h l1 (Some s) = Some (rc, h2, l2, clean_all (lift_clean par) ?h ?out (Some s))"
    and lru2: "lru_inv (dmem s) h2 l2 (filter (\<lambda>a. \<not> gone par now s a) zs @ [b])" and sd: "same_data h2 ?h" unfolding f by blast
  have cl: "clean_all (lift_clean par) ?h ?out x = fold (\<lambda>p x. snd (lift_clean par p x)) (map ?ptr ?out) x" for x
    by (simp add: clean_all_def bd fold_map comp_def)
  have "distinct (map ?ptr ?out)" "set (map ?ptr ?out) \<subseteq> set (ptrs s (zs @ [b]))"
    using dist by (auto simp: ptrs_def distinct_map inj_on_def)
  from clean_all_correct [OF dq this] obtain s1 where
    c: "fold (\<lambda>p x. snd (lift_clean par p x)) (map ?ptr ?out) (Some s) = Some s1" "same_rest s s1"
    "dq_inv par s1 (set (ptrs s (zs @ [b])) - set (map ?ptr ?out))"
    "ht_lookup (ht_dupreq s1) = (\<lambda>k. if k \<in> xid ` dheap s ` set (map ?ptr ?out) then None else ht_lookup (ht_dupreq s) k)"
    "freed s1 = freed s @ map (\<lambda>p. free_call par (dheap s p)) (map ?ptr ?out)" by blast
  let ?s = "s1\<lparr>lheap := h2, lru_dupreq := l2\<rparr>" and ?in = "filter (\<lambda>a. \<not> gone par now s a) zs @ [b]"
  have "dupreq_gc par now s = Some (rc, ?s)" using i gc c(1) by (simp add: dupreq_gc_def cl)
  moreover have ps: "ptrs ?s ?in = map ?ptr ?in" using sd bd by (simp add: ptrs_def same_data_def)
  have "dup_inv par ?s ?in"
  proof -
    have "set (ptrs s (zs @ [b])) - set (map ?ptr ?out) = set (map ?ptr ?in)"
      using dist by (auto simp: ptrs_def distinct_map inj_on_def)
    then have "dq_inv par ?s (set (map ?ptr ?in))" using c(3) by (simp add: dq_inv_def)
    moreover have "distinct (map ?ptr ?in)" using dist by (auto simp: ptrs_def distinct_map inj_on_def)
    ultimately show ?thesis using lru2 c(2) ps by (simp add: dup_inv_def same_rest_def)
  qed
  moreover have "xid ` dheap s ` set (map ?ptr ?out) = (\<lambda>a. xid (dheap s (?ptr a))) ` {a \<in> set zs. gone par now s a}"
    by (simp add: image_image)
  moreover have "dheap ?s = dheap s" using c(2) by (simp add: same_rest_def)
  ultimately show ?thesis using c(4,5) by (auto simp: replies_def fun_eq_iff comp_def)
qed

subsection \<open>Duplicates\<close>

definition dupreq_ready :: "dupreq_param \<Rightarrow> 'r dupreqs \<Rightarrow> bool" where
  "dupreq_ready par s \<longleftrightarrow> no_fail (dmem s) \<and> 0 < nb_dupreq_prealloc par \<and> 0 < nb_node_prealloc (parameter (ht_dupreq s))
     \<and> 0 < nb_entry_prealloc (lru_dupreq s)"

lemma LRU_new_entry_no_fail:
  assumes "no_fail m" and "0 < nb_entry_prealloc l"
  shows "\<exists>a rc m' h' l'. LRU_new_entry m h l = (Some a, rc, m', h', l') \<and> no_fail m' \<and> nb_entry_prealloc l' = nb_entry_prealloc l"
proof -
  obtain r p m' where g: "GET_PREALLOC m (entry_prealloc l) (unat (nb_entry_prealloc l)) sizeof_LRU_entry = (r, p, m')"
    by (cases "GET_PREALLOC m (entry_prealloc l) (unat (nb_entry_prealloc l)) sizeof_LRU_entry")
  have "0 < unat (nb_entry_prealloc l)" using assms(2) by (simp add: word_less_nat_alt)
  from GET_PREALLOC_no_fail [OF assms(1) this g] g show ?thesis
    by (auto simp: LRU_new_entry_def Let_def split: option.splits prod.splits)
qed

lemma nfs_dupreq_add_succeeds:
  assumes inv: "dup_inv par s xs" and ready: "dupreq_ready par s"
  shows "\<exists>s'. nfs_dupreq_add par now s k req res = Some (DUPREQ_SUCCESS, s') \<and> dupreq_ready par s'"
proof -
  let ?sz = "sizeof_dupreq_entry par"
  obtain r pl m where g: "GET_PREALLOC (dmem s) (dupreq_pool s) (unat (nb_dupreq_prealloc par)) ?sz = (r, pl, m)"
    by (cases "GET_PREALLOC (dmem s) (dupreq_pool s) (unat (nb_dupreq_prealloc par)) ?sz")
  from ready have R: "no_fail (dmem s)" "0 < unat (nb_dupreq_prealloc par)" "0 < nb_node_prealloc (parameter (ht_dupreq s))"
    "0 < nb_entry_prealloc (lru_dupreq s)" by (auto simp: dupreq_ready_def word_less_nat_alt)
  from GET_PREALLOC_no_fail [OF R(1,2) g] obtain p where p: "r = Some p" "no_fail m" by auto
  have "hs_inv (parameter (ht_dupreq s)) (m, ht_dupreq s)"
    using inv stuff.get_grows [OF g] hs_inv_grows by (auto simp: dup_inv_def dq_inv_def)
  from hs_put_no_fail [OF this p(2) R(3), of k p] obtain m1 t where
    put: "hs_put (m, ht_dupreq s) k p HASHTABLE_SET_HOW_SET_OVERWRITE = Some (HASHTABLE_SUCCESS, m1, t)" "no_fail m1"
    "parameter t = parameter (ht_dupreq s)" by blast
  from LRU_new_entry_no_fail [OF put(2) R(4), of "lheap s"] obtain a lrc m2 h l where
    "LRU_new_entry m1 (lheap s) (lru_dupreq s) = (Some a, lrc, m2, h, l)" "no_fail m2" "nb_entry_prealloc l = nb_entry_prealloc (lru_dupreq s)" by blast
  with g p put ready show ?thesis by (auto simp: nfs_dupreq_add_def Let_def dupreq_ready_def)
qed


text \<open>
  An entry that a later reply with the same transaction id has replaced in the table stays in the list.  Its collection
  removes the later reply from the table, and the entry of that reply is then neither found nor freed.
\<close>

theorem clean_overwritten_forgets_newer:
  assumes "hs_inv (parameter (ht_dupreq s)) (dmem s, ht_dupreq s)" "key_eq (parameter (ht_dupreq s)) = (=)"
    and over: "ht_lookup (ht_dupreq s) (xid (dheap s p)) = Some q" and fd: "funcdesc_of par (dheap s p) = Some d"
    and same: "xid (dheap s q) = xid (dheap s p)"
  shows "\<exists>s'. clean_entry_dupreq par p s = Some (0, s') \<and> replies s' (xid (dheap s q)) = None
    \<and> freed s' = freed s @ [free_call par (dheap s p)]
    \<and> (\<exists>s''. clean_entry_dupreq par q s' = Some (0, s'') \<and> freed s'' = freed s' \<and> dupreq_pool s'' = dupreq_pool s')"
proof -
  let ?k = "xid (dheap s p)"
  from hs.del_law [OF assms(1), of ?k] obtain kv m t where
    d: "hs_del (dmem s, ht_dupreq s) ?k = Some (HASHTABLE_SUCCESS, kv, m, t)"
    and t: "hs_inv (parameter (ht_dupreq s)) (m, t)" "ht_lookup t = (ht_lookup (ht_dupreq s))(?k := None)"
    unfolding assms(2) using over by (auto simp: upd_map_def fun_eq_iff)
  from hs.del_law [OF t(1), of ?k] t(2) obtain kv' m' t' where
    d': "hs_del (m, t) ?k = Some (HASHTABLE_ERROR_NO_SUCH_KEY, kv', m', t')" by auto
  show ?thesis
    using d d' t(2) fd same by (cases d) (auto simp: clean_entry_dupreq_def replies_def free_call_def)
qed

subsection \<open>Witnesses\<close>

definition demo_dup_param :: dupreq_param where
  "demo_dup_param = \<lparr>nfs_program = 100003, mnt_program = 100005, nb_dupreq_prealloc = 4, expiration_dupreq = 180, sizeof_dupreq_entry = 64\<rparr>"

definition demo_dup_list :: lru_list where
  "demo_dup_list = \<lparr>lru_LRU = None, lru_MRU = None, nb_entry = 0, nb_invalid = 0, nb_call_gc = 0,
     nb_entry_prealloc = 4, nb_call_gc_invalid = 0, entry_prealloc = []\<rparr>"

lemma demo_dupreqs:
  "\<exists>s :: nat dupreqs. dup_inv demo_dup_param s [] \<and> dupreq_ready demo_dup_param s \<and> replies s = (\<lambda>_. None)
    \<and> nb_call_gc_invalid (lru_dupreq s) = 0"
proof -
  have par: "params_ok (dupreq_par 3 4)" "key_eq (dupreq_par 3 4) = (=)" by (rule dupreq_par_ok; simp)+
  have nb: "0 < nb_node_prealloc (dupreq_par 3 4)" by (simp add: dupreq_par_def)
  have "no_fail demo_mem" by (simp add: no_fail_def demo_mem_def)
  from HashTable_Init_succeeds [OF this nb] obtain ht :: "(u64, nat) hash_table" and m where
    i: "HashTable_Init demo_mem True (\<lambda>_. True) (dupreq_par 3 4) = (Some ht, m)" "no_fail m" by blast
  from HashTable_Init_correct [OF i(1) par(1)] have h: "ht_inv m ht" "parameter ht = dupreq_par 3 4" "ht_lookup ht = (\<lambda>_. None)" by auto
  let ?s = "\<lparr>dmem = m, ht_dupreq = ht, dheap = (\<lambda>_. \<lparr>xid = 0, res_nfs = 0, rq_prog = 0, rq_vers = 0, rq_proc = 0, timestamp = 0\<rparr>),
    dupreq_pool = [], freed = [], lheap = (\<lambda>_. \<lparr>next_entry = None, prev_entry = None, valid_state = LRU_ENTRY_BLANK, buffdata = 0\<rparr>),
    lru_dupreq = demo_dup_list\<rparr> :: nat dupreqs"
  have "dup_inv demo_dup_param ?s []"
    using h par(2) by (simp add: dup_inv_def dq_inv_def hs_inv_def ptrs_def lru_inv_def chain_def pool_inv_def demo_dup_list_def)
  moreover have "dupreq_ready demo_dup_param ?s"
    using i(2) h(2) nb by (simp add: dupreq_ready_def demo_dup_param_def demo_dup_list_def)
  moreover have "replies ?s = (\<lambda>_. None)" using h(3) by (simp add: replies_def fun_eq_iff)
  ultimately show ?thesis by (intro exI [of _ ?s]) (simp add: demo_dup_list_def)
qed


lemma LRU_new_entry_limit:
  "LRU_new_entry m h l = (r, rc, m', h', l') \<Longrightarrow> nb_call_gc_invalid l' = nb_call_gc_invalid l"
  by (auto simp: LRU_new_entry_def Let_def split: option.splits prod.splits)

lemma nfs_dupreq_add_limit:
  assumes "nfs_dupreq_add par now s k req res = Some (DUPREQ_SUCCESS, s')"
  shows "nb_call_gc_invalid (lru_dupreq s') = nb_call_gc_invalid (lru_dupreq s)"
proof -
  obtain r pl m where g: "GET_PREALLOC (dmem s) (dupreq_pool s) (unat (nb_dupreq_prealloc par)) (sizeof_dupreq_entry par) = (r, pl, m)"
    by (cases "GET_PREALLOC (dmem s) (dupreq_pool s) (unat (nb_dupreq_prealloc par)) (sizeof_dupreq_entry par)")
  with assms obtain p where p: "r = Some p" by (cases r) (auto simp: nfs_dupreq_add_def)
  with assms g obtain rc m1 t where put: "hs_put (m, ht_dupreq s) k p HASHTABLE_SET_HOW_SET_OVERWRITE = Some (rc, m1, t)"
    by (auto simp: nfs_dupreq_add_def Let_def bind_eq_Some_conv)
  obtain n lrc m2 h l where ln: "LRU_new_entry m1 (lheap s) (lru_dupreq s) = (n, lrc, m2, h, l)"
    by (cases "LRU_new_entry m1 (lheap s) (lru_dupreq s)")
  from assms g p put ln LRU_new_entry_limit [OF ln] show ?thesis
    by (auto simp: nfs_dupreq_add_def Let_def split: if_splits option.splits)
qed

text \<open>Two replies in the list.\<close>

theorem dupreq_gc_correct_witness:
  "\<exists>(s :: nat dupreqs) a b rc s'. replies s 7 = Some 42 \<and> replies s 8 = Some 43 \<and> dupreq_gc demo_dup_param 1000 s = Some (rc, s')
    \<and> dup_inv demo_dup_param s' (filter (\<lambda>a. \<not> gone demo_dup_param 1000 s a) [a] @ [b])"
proof -
  let ?add = "\<lambda>s k res. nfs_dupreq_add demo_dup_param 10 s k (100003, 3, 1) res"
  have fd: "funcdesc_of demo_dup_param \<lparr>xid = k, res_nfs = r, rq_prog = fst (100003, 3, 1), rq_vers = fst (snd (100003, 3, 1)),
      rq_proc = snd (snd (100003, 3, 1)), timestamp = 10\<rparr> \<noteq> None" for k and r :: nat
    by (simp add: funcdesc_of_def demo_dup_param_def)
  from demo_dupreqs obtain s :: "nat dupreqs" where s: "dup_inv demo_dup_param s []" "dupreq_ready demo_dup_param s"
    "replies s = (\<lambda>_. None)" "nb_call_gc_invalid (lru_dupreq s) = 0" by blast
  from nfs_dupreq_add_succeeds [OF s(1,2)] obtain s1 where 1: "?add s 7 42 = Some (DUPREQ_SUCCESS, s1)" and r1: "dupreq_ready demo_dup_param s1" by blast
  with nfs_dupreq_add_correct [where k = 7 and res = 42, OF s(1) _ fd] s(3) obtain a where s1: "dup_inv demo_dup_param s1 [a]" "replies s1 = (\<lambda>_. None)(7 \<mapsto> 42)" by auto
  from nfs_dupreq_add_succeeds [OF s1(1) r1] obtain s2 where 2: "?add s1 8 43 = Some (DUPREQ_SUCCESS, s2)" by blast
  with nfs_dupreq_add_correct [where k = 8 and res = 43, OF s1(1) _ fd] s1(2) obtain b where s2: "dup_inv demo_dup_param s2 ([a] @ [b])" "replies s2 = (replies s1)(8 \<mapsto> 43)" by auto
  have "nb_call_gc_invalid (lru_dupreq s2) \<le> nb_call_gc (lru_dupreq s2)"
    using nfs_dupreq_add_limit [OF 1] nfs_dupreq_add_limit [OF 2] s(4) by simp
  from dupreq_gc_correct [OF s2(1) _ this, of 1000] obtain rc s' where
    "dupreq_gc demo_dup_param 1000 s2 = Some (rc, s')" "dup_inv demo_dup_param s' (filter (\<lambda>a. \<not> gone demo_dup_param 1000 s2 a) [a] @ [b])" by auto
  moreover have "replies s2 7 = Some 42" "replies s2 8 = Some 43" using s1(2) s2(2) by simp_all
  ultimately show ?thesis by blast
qed

end
