(* ===== verification/Ip_Cache.thy ===== *)
theory Ip_Cache
  imports Hash_Table
begin

text \<open>
  The two tables keyed by the IPv4 address of a client: its host name (\<^verbatim>\<open>support/nfs_ip_name.c\<close>) and its
  statistics (\<^verbatim>\<open>support/nfs_ip_stats.c\<close>).  An address is a 32-bit word in network byte order; the key of the
  tables is a \<^verbatim>\<open>long\<close>.  The entries are a heap, the tables hold pointers.

  \<open>gethostbyaddr\<close> is an argument; it is given the address and the length that the caller says the address has.
  A host name is the list of its characters, and \<^verbatim>\<open>strncpy\<close> keeps the first \<open>MAXHOSTNAMELEN\<close> of them.
  The functions that print the tables or fill them from a configuration file are left out.
\<close>

definition MAXHOSTNAMELEN :: nat where "MAXHOSTNAMELEN = 64"

definition ip_key :: "u32 \<Rightarrow> u64" where "ip_key ipaddr = ucast ipaddr"

definition ip_value_hash_func :: "u32 \<Rightarrow> u64 \<Rightarrow> u64" where
  "ip_value_hash_func isz k = k mod ucast isz"

definition ip_rbt_hash_func :: "u64 \<Rightarrow> u64" where
  "ip_rbt_hash_func k = k"

definition compare_ip :: "u64 \<Rightarrow> u64 \<Rightarrow> int" where
  "compare_ip xid1 xid2 = (if xid1 = xid2 then 0 else 1)"

definition ip_par :: "u32 \<Rightarrow> u32 \<Rightarrow> u64 hash_parameter" where
  "ip_par isz nb = \<lparr>index_size = isz, alphabet_length = 10, nb_node_prealloc = nb,
     hash_func_key = ip_value_hash_func isz, hash_func_rbt = ip_rbt_hash_func, compare_key = compare_ip\<rparr>"

subsection \<open>Host names\<close>

datatype ip_rc = IP_SUCCESS | IP_INSERT_MALLOC_ERROR | IP_NOT_FOUND | IP_NETDB_ERROR

record nfs_ip_name =
  ipaddr :: u32
  hostname :: string
  in_timestamp :: int

record ip_names =
  nmem :: mem
  ht_ip_name :: "(u64, addr) hash_table"
  nheap :: "addr \<Rightarrow> nfs_ip_name"

definition sizeof_nfs_ip_name :: nat where "sizeof_nfs_ip_name = 88"

definition nfs_ip_name_add :: "(u32 \<Rightarrow> nat \<Rightarrow> string option) \<Rightarrow> int \<Rightarrow> ip_names \<Rightarrow> u32 \<Rightarrow> (ip_rc \<times> string option \<times> ip_names) option" where
  "nfs_ip_name_add gethostbyaddr now s ip =
     (case Mem_Alloc (nmem s) sizeof_nfs_ip_name of
        (None, m) \<Rightarrow> Some (IP_INSERT_MALLOC_ERROR, None, s\<lparr>nmem := m\<rparr>)
      | (Some p, m) \<Rightarrow>
          (case gethostbyaddr ip 8 of
             None \<Rightarrow> Some (IP_NETDB_ERROR, None, s\<lparr>nmem := m\<rparr>)
           | Some h_name \<Rightarrow>
               let e = \<lparr>ipaddr = ip, hostname = take MAXHOSTNAMELEN h_name, in_timestamp = now\<rparr>
               in do {
                 (rc, m1, t) \<leftarrow> hs_put (m, ht_ip_name s) (ip_key ip) p HASHTABLE_SET_HOW_SET_OVERWRITE;
                 let s1 = s\<lparr>nmem := m1, ht_ip_name := t, nheap := (nheap s)(p := e)\<rparr>
                 in Some (if rc \<noteq> HASHTABLE_SUCCESS then (IP_INSERT_MALLOC_ERROR, None, s1)
                          else (IP_SUCCESS, Some (hostname e), s1)) }))"

definition nfs_ip_name_get :: "ip_names \<Rightarrow> u32 \<Rightarrow> (ip_rc \<times> string option \<times> ip_names) option" where
  "nfs_ip_name_get s ip = do {
     (rc, p, m, t) \<leftarrow> hs_get (nmem s, ht_ip_name s) (ip_key ip);
     let s1 = s\<lparr>nmem := m, ht_ip_name := t\<rparr>
     in if rc = HASHTABLE_SUCCESS then do { a \<leftarrow> p; Some (IP_SUCCESS, Some (hostname (nheap s a)), s1) }
        else Some (IP_NOT_FOUND, None, s1) }"

text \<open>The argument of \<open>nfs_ip_name_remove\<close> is a signed integer.\<close>

definition nfs_ip_name_remove :: "ip_names \<Rightarrow> u32 \<Rightarrow> (ip_rc \<times> ip_names) option" where
  "nfs_ip_name_remove s ip = do {
     (rc, _, m, t) \<leftarrow> hs_del (nmem s, ht_ip_name s) (scast ip);
     Some (if rc = HASHTABLE_SUCCESS then IP_SUCCESS else IP_NOT_FOUND, s\<lparr>nmem := m, ht_ip_name := t\<rparr>) }"

definition nfs_Init_ip_name :: "mem \<Rightarrow> bool \<Rightarrow> (nat \<Rightarrow> bool) \<Rightarrow> u64 hash_parameter \<Rightarrow> int \<times> (u64, addr) hash_table option \<times> mem" where
  "nfs_Init_ip_name m attr_ok lock_ok par =
     (case HashTable_Init m attr_ok lock_ok par of
        (None, m') \<Rightarrow> (-1, None, m')
      | (Some ht, m') \<Rightarrow> (0, Some ht, m'))"

subsection \<open>Statistics\<close>

record nfs_ip_stats =
  nb_call :: u32
  nb_req_nfs2 :: u32
  nb_req_nfs3 :: u32
  nb_req_nfs4 :: u32
  nb_req_mnt1 :: u32
  nb_req_mnt3 :: u32
  req_mnt1 :: "u32 list"
  req_mnt3 :: "u32 list"
  req_nfs2 :: "u32 list"
  req_nfs3 :: "u32 list"

text \<open>The pool is a parameter passed by value: what a call takes out of it is still in the pool of the caller.\<close>

record ip_stats =
  imem :: mem
  ht_ip_stats :: "(u64, addr) hash_table"
  iheap :: "addr \<Rightarrow> nfs_ip_stats"
  ip_stats_pool :: "addr list"

record ip_stats_param =
  dump_stats_per_client :: bool
  nb_ip_stats_prealloc :: u32
  nfs_prog :: u64
  mnt_prog :: u64

definition sizeof_nfs_ip_stats :: nat where "sizeof_nfs_ip_stats = 240"

definition new_stats :: nfs_ip_stats where
  "new_stats = \<lparr>nb_call = 0, nb_req_nfs2 = 0, nb_req_nfs3 = 0, nb_req_nfs4 = 0, nb_req_mnt1 = 0, nb_req_mnt3 = 0,
     req_mnt1 = replicate 6 0, req_mnt3 = replicate 6 0, req_nfs2 = replicate 18 0, req_nfs3 = replicate 22 0\<rparr>"

definition nfs_ip_stats_add :: "ip_stats_param \<Rightarrow> ip_stats \<Rightarrow> u32 \<Rightarrow> (ip_rc \<times> ip_stats) option" where
  "nfs_ip_stats_add par s ip =
     (if \<not> dump_stats_per_client par then Some (IP_SUCCESS, s)
      else case GET_PREALLOC (imem s) (ip_stats_pool s) (unat (nb_ip_stats_prealloc par)) sizeof_nfs_ip_stats of
        (None, _, m) \<Rightarrow> Some (IP_INSERT_MALLOC_ERROR, s\<lparr>imem := m\<rparr>)
      | (Some p, _, m) \<Rightarrow> do {
          (rc, m1, t) \<leftarrow> hs_put (m, ht_ip_stats s) (ip_key ip) p HASHTABLE_SET_HOW_SET_OVERWRITE;
          Some (if rc \<noteq> HASHTABLE_SUCCESS then IP_INSERT_MALLOC_ERROR else IP_SUCCESS,
                s\<lparr>imem := m1, ht_ip_stats := t, iheap := (iheap s)(p := new_stats)\<rparr>) })"

text \<open>A counter of an array; \<open>None\<close> is an index outside it.\<close>

definition incr_at :: "u32 list \<Rightarrow> u64 \<Rightarrow> u32 list option" where
  "incr_at xs i = (if unat i < length xs then Some (xs[unat i := xs ! unat i + 1]) else None)"

definition count_request :: "ip_stats_param \<Rightarrow> nfs_ip_stats \<Rightarrow> u64 \<Rightarrow> u64 \<Rightarrow> u64 \<Rightarrow> nfs_ip_stats option" where
  "count_request par e prog vers proc =
     (let e = e\<lparr>nb_call := nb_call e + 1\<rparr>
      in if prog = nfs_prog par
         then if vers = 2 then do { xs \<leftarrow> incr_at (req_nfs2 e) proc; Some (e\<lparr>nb_req_nfs2 := nb_req_nfs2 e + 1, req_nfs2 := xs\<rparr>) }
              else if vers = 3 then do { xs \<leftarrow> incr_at (req_nfs3 e) proc; Some (e\<lparr>nb_req_nfs3 := nb_req_nfs3 e + 1, req_nfs3 := xs\<rparr>) }
              else if vers = 4 then Some (e\<lparr>nb_req_nfs4 := nb_req_nfs4 e + 1\<rparr>)
              else Some e
         else if prog = mnt_prog par
         then if vers = 1 then do { xs \<leftarrow> incr_at (req_mnt1 e) proc; Some (e\<lparr>nb_req_mnt1 := nb_req_mnt1 e + 1, req_mnt1 := xs\<rparr>) }
              else if vers = 3 then do { xs \<leftarrow> incr_at (req_mnt3 e) proc; Some (e\<lparr>nb_req_mnt3 := nb_req_mnt3 e + 1, req_mnt3 := xs\<rparr>) }
              else Some e
         else Some e)"

definition nfs_ip_stats_incr :: "ip_stats_param \<Rightarrow> ip_stats \<Rightarrow> u32 \<Rightarrow> u64 \<Rightarrow> u64 \<Rightarrow> u64 \<Rightarrow> (ip_rc \<times> ip_stats) option" where
  "nfs_ip_stats_incr par s ip prog vers proc =
     (if \<not> dump_stats_per_client par then Some (IP_SUCCESS, s)
      else do {
        (rc, p, m, t) \<leftarrow> hs_get (imem s, ht_ip_stats s) (ip_key ip);
        let s1 = s\<lparr>imem := m, ht_ip_stats := t\<rparr>
        in if rc = HASHTABLE_SUCCESS
           then do {
             a \<leftarrow> p;
             e \<leftarrow> count_request par (iheap s a) prog vers proc;
             Some (IP_SUCCESS, s1\<lparr>iheap := (iheap s)(a := e)\<rparr>) }
           else Some (IP_NOT_FOUND, s1) })"

definition nfs_ip_stats_get :: "ip_stats_param \<Rightarrow> ip_stats \<Rightarrow> u32 \<Rightarrow> (ip_rc \<times> addr option \<times> ip_stats) option" where
  "nfs_ip_stats_get par s ip =
     (if \<not> dump_stats_per_client par then Some (IP_SUCCESS, None, s)
      else do {
        (rc, p, m, t) \<leftarrow> hs_get (imem s, ht_ip_stats s) (ip_key ip);
        Some (if rc = HASHTABLE_SUCCESS then (IP_SUCCESS, p, s\<lparr>imem := m, ht_ip_stats := t\<rparr>)
              else (IP_NOT_FOUND, None, s\<lparr>imem := m, ht_ip_stats := t\<rparr>)) })"

definition nfs_Init_ip_stats :: "mem \<Rightarrow> bool \<Rightarrow> (nat \<Rightarrow> bool) \<Rightarrow> u64 hash_parameter \<Rightarrow> (u64, addr) hash_table option \<times> mem" where
  "nfs_Init_ip_stats m attr_ok lock_ok par = HashTable_Init m attr_ok lock_ok par"

subsection \<open>The cache of names\<close>

lemma ip_par_ok:
  assumes "0 < isz"
  shows "params_ok (ip_par isz nb)" "key_eq (ip_par isz nb) = (=)"
proof -
  show eq: "key_eq (ip_par isz nb) = (=)" by (auto simp: key_eq_def ip_par_def compare_ip_def fun_eq_iff)
  show "params_ok (ip_par isz nb)"
    unfolding params_ok_def eq
    using hash_index_less [OF assms] by (auto simp: ip_par_def hashval_def ip_value_hash_func_def identity_equivp)
qed

lemma ip_key_eq [simp]: "ip_key a = ip_key b \<longleftrightarrow> a = b"
proof
  assume "ip_key a = ip_key b"
  then have "unat (ucast a :: u64) = unat (ucast b :: u64)" by (simp add: ip_key_def)
  moreover have "unat (ucast x :: u64) = unat x" for x :: u32 by transfer simp
  ultimately show "a = b" by (simp add: word_unat_eq_iff)
qed simp

text \<open>The keys in the table are those of addresses.\<close>

definition names_inv :: "ip_names \<Rightarrow> bool" where
  "names_inv s \<longleftrightarrow> hs_inv (parameter (ht_ip_name s)) (nmem s, ht_ip_name s) \<and> key_eq (parameter (ht_ip_name s)) = (=)
     \<and> (\<forall>k p. ht_lookup (ht_ip_name s) k = Some p \<longrightarrow> p < brk (nmem s) \<and> k \<in> range ip_key)"

definition cached :: "ip_names \<Rightarrow> u32 \<Rightarrow> string option" where
  "cached s ip = map_option (\<lambda>p. hostname (nheap s p)) (ht_lookup (ht_ip_name s) (ip_key ip))"

lemma names_get:
  assumes inv: "names_inv s"
  shows "\<exists>s'. nfs_ip_name_get s ip = Some (if cached s ip = None then IP_NOT_FOUND else IP_SUCCESS, cached s ip, s')
     \<and> names_inv s' \<and> cached s' = cached s"
proof -
  from inv have h: "hs_inv (parameter (ht_ip_name s)) (nmem s, ht_ip_name s)" by (simp add: names_inv_def)
  from hs.get_law [OF h, of "ip_key ip"] obtain m t where
    g: "hs_get (nmem s, ht_ip_name s) (ip_key ip) = Some
       (if ht_lookup (ht_ip_name s) (ip_key ip) = None then HASHTABLE_ERROR_NO_SUCH_KEY else HASHTABLE_SUCCESS,
        ht_lookup (ht_ip_name s) (ip_key ip), m, t)"
    and t: "hs_inv (parameter (ht_ip_name s)) (m, t)" "ht_lookup t = ht_lookup (ht_ip_name s)" by auto
  have m: "m = nmem s" using hs_same_mem(1) [OF g] by simp
  have p: "parameter t = parameter (ht_ip_name s)" using t(1) by (simp add: hs_inv_def)
  have "names_inv (s\<lparr>nmem := m, ht_ip_name := t\<rparr>)" "cached (s\<lparr>nmem := m, ht_ip_name := t\<rparr>) = cached s"
    using inv t m p by (auto simp: names_inv_def cached_def fun_eq_iff)
  with g show ?thesis
    by (cases "ht_lookup (ht_ip_name s) (ip_key ip)") (auto simp: nfs_ip_name_get_def cached_def)
qed

lemma names_add:
  assumes inv: "names_inv s"
  shows "\<exists>rc h s'. nfs_ip_name_add gethostbyaddr now s ip = Some (rc, h, s') \<and> names_inv s' \<and> (rc = IP_SUCCESS \<longleftrightarrow> h \<noteq> None)
     \<and> (\<forall>n. h = Some n \<longrightarrow> map_option (take MAXHOSTNAMELEN) (gethostbyaddr ip 8) = Some n \<and> cached s' = (cached s)(ip \<mapsto> n))
     \<and> (h = None \<longrightarrow> cached s' = cached s)"
proof -
  let ?f = "ht_lookup (ht_ip_name s)"
  obtain r m where a: "Mem_Alloc (nmem s) sizeof_nfs_ip_name = (r, m)" by (cases "Mem_Alloc (nmem s) sizeof_nfs_ip_name")
  from inv have h: "hs_inv (parameter (ht_ip_name s)) (m, ht_ip_name s)" and eq: "key_eq (parameter (ht_ip_name s)) = (=)"
    using hs_inv_grows [OF _ Mem_Alloc_grows [OF a]] by (auto simp: names_inv_def)
  have old: "names_inv (s\<lparr>nmem := m\<rparr>)" "cached (s\<lparr>nmem := m\<rparr>) = cached s"
    using inv h Mem_Alloc_grows [OF a] by (auto simp: names_inv_def cached_def mem_grows_def intro: less_le_trans)
  show ?thesis
  proof (cases "r = None \<or> gethostbyaddr ip 8 = None")
    case True
    with a old show ?thesis by (cases r) (auto simp: nfs_ip_name_add_def)
  next
    case False
    then obtain p n where r: "r = Some p" and n: "gethostbyaddr ip 8 = Some n" by auto
    let ?e = "\<lparr>ipaddr = ip, hostname = take MAXHOSTNAMELEN n, in_timestamp = now\<rparr>"
    have p: "p = brk (nmem s)" "p < brk m" using a r by (auto simp: Mem_Alloc_def sizeof_nfs_ip_name_def split: if_splits)
    from hs.put_law [OF h, of "ip_key ip" p HASHTABLE_SET_HOW_SET_OVERWRITE] obtain rc m1 t where
      put: "hs_put (m, ht_ip_name s) (ip_key ip) p HASHTABLE_SET_HOW_SET_OVERWRITE = Some (rc, m1, t)"
      and t: "hs_inv (parameter (ht_ip_name s)) (m1, t)" and gr: "mem_grows m m1"
      and out: "set_outcome (=) ?f (ip_key ip) p HASHTABLE_SET_HOW_SET_OVERWRITE rc (ht_lookup t)" unfolding eq by (auto simp: hs_grows_def)
    from out have upd: "ht_lookup t = (if rc = HASHTABLE_SUCCESS then ?f(ip_key ip \<mapsto> p) else ?f)"
      by (auto simp: set_outcome_def upd_map_def fun_eq_iff split: option.splits if_splits)
    let ?s = "s\<lparr>nmem := m1, ht_ip_name := t, nheap := (nheap s)(p := ?e)\<rparr>"
    have fresh: "?f k = Some q \<Longrightarrow> q \<noteq> p \<and> q < brk m1 \<and> k \<in> range ip_key" for k q
      using inv p gr by (fastforce simp: names_inv_def mem_grows_def)
    have "names_inv ?s"
      using t eq fresh p(2) gr unfolding names_inv_def
      by (auto simp: hs_inv_def upd mem_grows_def split: if_splits)
    moreover have "cached ?s x = (if rc = HASHTABLE_SUCCESS then (cached s)(ip \<mapsto> take MAXHOSTNAMELEN n) else cached s) x" for x
      using fresh [of "ip_key x"] by (cases "?f (ip_key x)") (auto simp: cached_def upd)
    ultimately show ?thesis
      using a r n put by (cases "rc = HASHTABLE_SUCCESS") (auto simp: nfs_ip_name_add_def Let_def fun_eq_iff)
  qed
qed

text \<open>
  Removal takes its address as a signed integer, which is extended with its sign: an address with the top bit set
  is never removed.
\<close>

theorem ip_name_remove_sign:
  assumes inv: "names_inv s"
  shows "\<exists>rc s'. nfs_ip_name_remove s ip = Some (rc, s') \<and>
     (if bit ip 31 then rc = IP_NOT_FOUND \<and> cached s' = cached s
      else (rc = IP_SUCCESS \<longleftrightarrow> cached s ip \<noteq> None) \<and> cached s' = (cached s)(ip := None))"
proof -
  let ?f = "ht_lookup (ht_ip_name s)"
  from inv have h: "hs_inv (parameter (ht_ip_name s)) (nmem s, ht_ip_name s)" and eq: "key_eq (parameter (ht_ip_name s)) = (=)"
    by (auto simp: names_inv_def)
  from hs.del_law [OF h, of "scast ip"] obtain kv m t where
    d: "hs_del (nmem s, ht_ip_name s) (scast ip) = Some (if ?f (scast ip) = None then HASHTABLE_ERROR_NO_SUCH_KEY else HASHTABLE_SUCCESS, kv, m, t)"
    and t: "ht_lookup t = ?f(scast ip := None)" unfolding eq by (auto simp: upd_map_def fun_eq_iff)
  have pos: "(scast ip :: u64) = ip_key ip" if "\<not> bit ip 31"
  proof -
    have "\<not> bit ip n" if "31 \<le> n" for n
      using \<open>\<not> bit ip 31\<close> that bit_imp_le_length [of ip n] by (cases "n = 31") auto
    then show ?thesis unfolding ip_key_def by (intro bit_word_eqI) (auto simp: bit_simps min_def)
  qed
  have neg: "scast ip \<notin> range ip_key" if "bit ip 31"
  proof
    assume "scast ip \<in> range ip_key"
    then obtain x :: u32 where "(scast ip :: u64) = ucast x" by (auto simp: ip_key_def)
    then have "bit (scast ip :: u64) 40 = bit (ucast x :: u64) 40" by simp
    then show False using that by (auto simp: bit_simps dest: bit_imp_le_length)
  qed
  show ?thesis
  proof (cases "bit ip 31")
    case True
    with neg inv have "?f (scast ip) = None" by (cases "?f (scast ip)") (auto simp: names_inv_def)
    moreover from this have "ht_lookup t = ?f" using t by (auto simp: fun_eq_iff)
    ultimately show ?thesis using d True by (auto simp: nfs_ip_name_remove_def cached_def fun_eq_iff)
  next
    case False
    with d t show ?thesis unfolding pos [OF False] nfs_ip_name_remove_def
      by (cases "?f (ip_key ip)") (auto simp: cached_def fun_eq_iff)
  qed
qed

subsection \<open>The statistics\<close>

definition stats_inv :: "ip_stats \<Rightarrow> bool" where
  "stats_inv s \<longleftrightarrow> hs_inv (parameter (ht_ip_stats s)) (imem s, ht_ip_stats s) \<and> key_eq (parameter (ht_ip_stats s)) = (=)"

abbreviation stats_of :: "ip_stats \<Rightarrow> u32 \<Rightarrow> addr option" where
  "stats_of s ip \<equiv> ht_lookup (ht_ip_stats s) (ip_key ip)"

text \<open>The arrays of a record of statistics have the sizes of the tables of procedures.\<close>

definition stats_ok :: "nfs_ip_stats \<Rightarrow> bool" where
  "stats_ok e \<longleftrightarrow> length (req_mnt1 e) = 6 \<and> length (req_mnt3 e) = 6 \<and> length (req_nfs2 e) = 18 \<and> length (req_nfs3 e) = 22"

definition proc_ok :: "ip_stats_param \<Rightarrow> u64 \<Rightarrow> u64 \<Rightarrow> u64 \<Rightarrow> bool" where
  "proc_ok par prog vers proc \<longleftrightarrow>
     (prog = nfs_prog par \<longrightarrow> (vers = 2 \<longrightarrow> proc < 18) \<and> (vers = 3 \<longrightarrow> proc < 22))
     \<and> (prog \<noteq> nfs_prog par \<longrightarrow> prog = mnt_prog par \<longrightarrow> vers \<in> {1, 3} \<longrightarrow> proc < 6)"

lemma count_request_ok:
  assumes "stats_ok e" "proc_ok par prog vers proc"
  shows "\<exists>e'. count_request par e prog vers proc = Some e' \<and> stats_ok e' \<and> nb_call e' = nb_call e + 1"
  using assms
  by (auto simp: count_request_def stats_ok_def proc_ok_def incr_at_def Let_def word_less_nat_alt)

lemma stats_add:
  assumes inv: "stats_inv s" and on: "dump_stats_per_client par" and pool: "ip_stats_pool s = p # ps"
  shows "\<exists>rc s'. nfs_ip_stats_add par s ip = Some (rc, s') \<and> stats_inv s' \<and> ip_stats_pool s' = p # ps \<and> iheap s' = (iheap s)(p := new_stats)
     \<and> (rc = IP_SUCCESS \<longrightarrow> (\<forall>x. stats_of s' x = (if x = ip then Some p else stats_of s x)))"
proof -
  from inv have h: "hs_inv (parameter (ht_ip_stats s)) (imem s, ht_ip_stats s)" and eq: "key_eq (parameter (ht_ip_stats s)) = (=)"
    by (auto simp: stats_inv_def)
  from hs.put_law [OF h, of "ip_key ip" p HASHTABLE_SET_HOW_SET_OVERWRITE] obtain rc m1 t where
    put: "hs_put (imem s, ht_ip_stats s) (ip_key ip) p HASHTABLE_SET_HOW_SET_OVERWRITE = Some (rc, m1, t)"
    and t: "hs_inv (parameter (ht_ip_stats s)) (m1, t)"
    and out: "set_outcome (=) (ht_lookup (ht_ip_stats s)) (ip_key ip) p HASHTABLE_SET_HOW_SET_OVERWRITE rc (ht_lookup t)" unfolding eq by auto
  have "rc = HASHTABLE_SUCCESS \<longrightarrow> ht_lookup t = (ht_lookup (ht_ip_stats s))(ip_key ip \<mapsto> p)"
    using out by (auto simp: set_outcome_def upd_map_def fun_eq_iff split: option.splits if_splits)
  moreover have "parameter t = parameter (ht_ip_stats s)" using t by (simp add: hs_inv_def)
  ultimately show ?thesis
    using put t eq on pool by (auto simp: nfs_ip_stats_add_def GET_PREALLOC_def stats_inv_def)
qed

lemma stats_get:
  assumes "stats_inv s" and "dump_stats_per_client par"
  shows "\<exists>s'. nfs_ip_stats_get par s ip = Some (if stats_of s ip = None then IP_NOT_FOUND else IP_SUCCESS, stats_of s ip, s')"
proof -
  from assms(1) have h: "hs_inv (parameter (ht_ip_stats s)) (imem s, ht_ip_stats s)" by (simp add: stats_inv_def)
  from hs.get_law [OF h, of "ip_key ip"] assms(2) show ?thesis by (auto simp: nfs_ip_stats_get_def)
qed

lemma stats_incr:
  assumes inv: "stats_inv s" and "stats_of s ip = Some p" and "stats_ok (iheap s p)" and "proc_ok par prog vers proc"
    and "dump_stats_per_client par"
  shows "\<exists>e s'. nfs_ip_stats_incr par s ip prog vers proc = Some (IP_SUCCESS, s') \<and> stats_inv s' \<and> (\<forall>x. stats_of s' x = stats_of s x)
     \<and> ip_stats_pool s' = ip_stats_pool s \<and> iheap s' = (iheap s)(p := e) \<and> stats_ok e \<and> nb_call e = nb_call (iheap s p) + 1"
proof -
  from inv have h: "hs_inv (parameter (ht_ip_stats s)) (imem s, ht_ip_stats s)" by (simp add: stats_inv_def)
  from hs.get_law [OF h, of "ip_key ip"] assms(2) obtain m t where
    g: "hs_get (imem s, ht_ip_stats s) (ip_key ip) = Some (HASHTABLE_SUCCESS, Some p, m, t)"
    and t: "hs_inv (parameter (ht_ip_stats s)) (m, t)" "ht_lookup t = ht_lookup (ht_ip_stats s)" by auto
  from count_request_ok [OF assms(3,4)] obtain e where e: "count_request par (iheap s p) prog vers proc = Some e" "stats_ok e" "nb_call e = nb_call (iheap s p) + 1" by blast
  have "parameter t = parameter (ht_ip_stats s)" using t by (simp add: hs_inv_def)
  then show ?thesis
    using inv t assms(5) g e by (auto simp: nfs_ip_stats_incr_def stats_inv_def)
qed

text \<open>
  The pool of records of statistics is passed by value, so the record that a call takes is handed out again by the next
  one: after the requests of one client, the first request of another client resets the counters of the first
  and from then on both share one record.
\<close>

theorem clients_share_statistics:
  assumes inv: "stats_inv s" and on: "dump_stats_per_client par" and pool: "ip_stats_pool s = p # ps"
    and 1: "nfs_ip_stats_add par s a = Some (IP_SUCCESS, s1)"
    and 2: "nfs_ip_stats_incr par s1 a prog vers proc = Some (IP_SUCCESS, s2)" and proc: "proc_ok par prog vers proc"
    and 3: "nfs_ip_stats_add par s2 b = Some (IP_SUCCESS, s3)"
  shows "nb_call (iheap s2 p) = 1 \<and> nb_call (iheap s3 p) = 0
     \<and> (\<exists>t. nfs_ip_stats_get par s3 a = Some (IP_SUCCESS, Some p, t)) \<and> (\<exists>t. nfs_ip_stats_get par s3 b = Some (IP_SUCCESS, Some p, t))"
proof -
  from stats_add [OF inv on pool, of a] 1 have s1: "stats_inv s1" "ip_stats_pool s1 = p # ps" "iheap s1 p = new_stats" "stats_of s1 a = Some p" by auto
  have "stats_ok (iheap s1 p)" by (simp add: s1(3) stats_ok_def new_stats_def)
  from stats_incr [OF s1(1,4) this proc on] 2 s1(2,3,4) have s2: "stats_inv s2" "ip_stats_pool s2 = p # ps" "stats_of s2 a = Some p" "nb_call (iheap s2 p) = 1"
    by (auto simp: new_stats_def)
  from stats_add [OF s2(1) on s2(2), of b] 3 s2(3) have s3: "stats_inv s3" "stats_of s3 a = Some p" "stats_of s3 b = Some p" "iheap s3 p = new_stats" by auto
  with stats_get [OF s3(1) on, of a] stats_get [OF s3(1) on, of b] s2(4) show ?thesis by (auto simp: new_stats_def)
qed

end
