(* ===== verification/Export_Access.thy ===== *)
theory Export_Access
  imports Ip_Cache
begin

text \<open>
  Who may use an export, and as which user: the list of clients of an export and the search in it
  (\<^verbatim>\<open>support/exports.c\<close>), the credentials of a request (\<^verbatim>\<open>support/nfs_export_list.c\<close>) and \<open>nfs4_MakeCred\<close>
  (\<^verbatim>\<open>NFS_Protocols/nfs_proto_tools.c\<close>), built without IPv6 and RPCSEC_GSS.

  The calls of the name services (\<open>gethostbyaddr\<close>, \<open>innetgr\<close>, \<open>inet_network\<close>, \<open>gethostbyname\<close>,
  \<open>getnetbyname\<close>), \<open>fnmatch\<close>, \<open>inet_ntop\<close> and \<open>FSAL_GetClientContext\<close> are arguments.  The local
  buffer of a host name is not cleared: \<open>junk\<close> is what it holds behind the ten characters of
  "unresolved", which the code copies without their terminator.  \<open>None\<close> is a read past the end of that buffer.
\<close>

subsection \<open>Clients of an export\<close>

datatype client =
    HOSTIF_CLIENT u32
  | NETWORK_CLIENT u32 u32
  | NETGROUP_CLIENT string
  | WILDCARDHOST_CLIENT string
  | GSSPRINCIPAL_CLIENT string
  | HOSTIF_CLIENT_V6 "u8 list"
  | NO_CLIENT

record client_entry =
  client :: client
  options :: u32

definition EXPORT_OPTION_ROOT :: u32 where "EXPORT_OPTION_ROOT = 4"
definition EXPORT_OPTION_NETENT :: u32 where "EXPORT_OPTION_NETENT = 8"
definition EXPORT_OPTION_ACCESS :: u32 where "EXPORT_OPTION_ACCESS = 16"
definition EXPORT_OPTION_NETGRP :: u32 where "EXPORT_OPTION_NETGRP = 32"
definition EXPORTS_NB_MAX_CLIENTS :: nat where "EXPORTS_NB_MAX_CLIENTS = 128"

record exportlist =
  clients :: "client_entry list"
  exp_options :: u32
  anonymous_uid :: u32

record access_env =
  gethostbyaddr :: "u32 \<Rightarrow> nat \<Rightarrow> string option"
  innetgr :: "string \<Rightarrow> string \<Rightarrow> bool"
  fnmatch :: "string \<Rightarrow> string \<Rightarrow> bool"
  inet_ntop :: "u32 \<Rightarrow> string"
  clock :: int
  junk :: string
  stats_par :: ip_stats_param

subsection \<open>Building the list\<close>

record netdb =
  inet_network :: "string \<Rightarrow> u32"
  gethostbyname :: "string \<Rightarrow> u32 option"
  getnetbyname :: "string \<Rightarrow> u32 option"
  inet_addr :: "string \<Rightarrow> u32"
  host_by_addr :: "u32 \<Rightarrow> nat \<Rightarrow> u32 option"

text \<open>The first address of the host that a name stands for; \<open>host_by_addr\<close> is \<open>gethostbyaddr\<close> with the address of its answer.\<close>

definition nfs_LookupHostAddr :: "netdb \<Rightarrow> string \<Rightarrow> u32 option" where
  "nfs_LookupHostAddr db host =
     (case gethostbyname db host of Some a \<Rightarrow> Some a | None \<Rightarrow> host_by_addr db (inet_addr db host) 8)"

text \<open>The network mask by the class of the address; \<open>None\<close> is an error.\<close>

definition net_class_mask :: "u32 \<Rightarrow> u32" where
  "net_class_mask net_addr =
     (let class = drop_bit 30 (net_addr AND 0xc0000000)
      in if class = 0 \<or> class = 1
         then if net_addr AND 0x00ffffff = 0 then 0xff000000
              else if net_addr AND 0x0000ffff = 0 then 0xffff0000
              else if net_addr AND 0x000000ff = 0 then 0xffffff00
              else 0
         else if class = 2
         then if net_addr AND 0x0000ffff = 0 then 0xffff0000
              else if net_addr AND 0x000000ff = 0 then 0xffffff00
              else 0
         else if net_addr AND 0x000000ff = 0 then 0xffffff00
         else 0)"

definition left_justify :: "u32 \<Rightarrow> u32" where
  "left_justify net_addr =
     (if net_addr AND 0xffffff00 = 0 then push_bit 24 net_addr
      else if net_addr AND 0xffff0000 = 0 then push_bit 16 net_addr
      else if net_addr AND 0xff000000 = 0 then push_bit 8 net_addr
      else net_addr)"

definition nfs_LookupNetworkAddr :: "netdb \<Rightarrow> string \<Rightarrow> (u32 \<times> u32) option" where
  "nfs_LookupNetworkAddr db host =
     (if inet_network db host \<noteq> - 1
      then let a = left_justify (inet_network db host) in Some (a, net_class_mask a)
      else case gethostbyname db host of
        Some a \<Rightarrow> Some (a, 0)
      | None \<Rightarrow>
          (case getnetbyname db host of
             None \<Rightarrow> None
           | Some n \<Rightarrow> let a = left_justify n in Some (a, net_class_mask a)))"

definition new_client :: "netdb \<Rightarrow> u32 \<Rightarrow> string \<Rightarrow> client_entry" where
  "new_client db option name =
     (if name \<noteq> [] \<and> hd name = CHR ''@''
      then \<lparr>client = NETGROUP_CLIENT (take MAXHOSTNAMELEN (tl name)), options = option OR EXPORT_OPTION_NETGRP\<rparr>
      else case nfs_LookupHostAddr db name of
        Some a \<Rightarrow> \<lparr>client = HOSTIF_CLIENT a, options = option\<rparr>
      | None \<Rightarrow>
          (case nfs_LookupNetworkAddr db name of
             Some (netaddr, netmask) \<Rightarrow> \<lparr>client = NETWORK_CLIENT netaddr netmask, options = option OR EXPORT_OPTION_NETENT\<rparr>
           | None \<Rightarrow>
               if CHR ''*'' \<in> set name \<or> CHR ''?'' \<in> set name
               then \<lparr>client = WILDCARDHOST_CLIENT (take MAXHOSTNAMELEN name), options = option\<rparr>
               else \<lparr>client = NO_CLIENT, options = option\<rparr>))"

text \<open>The new clients are written behind the old ones; \<open>None\<close> is a write behind the array of clients.\<close>

definition nfs_AddClientsToExportList :: "netdb \<Rightarrow> exportlist \<Rightarrow> string list \<Rightarrow> u32 \<Rightarrow> exportlist option" where
  "nfs_AddClientsToExportList db e names option =
     (if EXPORTS_NB_MAX_CLIENTS < length (clients e) + length names then None
      else Some (e\<lparr>exp_options := exp_options e OR option, clients := clients e @ map (new_client db option) names\<rparr>))"

subsection \<open>Searching the list\<close>

definition resolve :: "access_env \<Rightarrow> ip_names \<Rightarrow> u32 \<Rightarrow> (string option \<times> ip_names) option" where
  "resolve env s addr = do {
     (rc, h, s1) \<leftarrow> nfs_ip_name_get s addr;
     if rc \<noteq> IP_SUCCESS
     then do {
       (rc2, h2, s2) \<leftarrow> nfs_ip_name_add (gethostbyaddr env) (clock env) s1 addr;
       Some (if rc2 \<noteq> IP_SUCCESS then None else h2, s2) }
     else Some (h, s1) }"

text \<open>A name that fills its buffer has no terminator.\<close>

definition terminated :: "string \<Rightarrow> string option" where
  "terminated n = (if length n < MAXHOSTNAMELEN then Some n else None)"

fun export_client_match :: "access_env \<Rightarrow> ip_names \<Rightarrow> u32 \<Rightarrow> string \<Rightarrow> client_entry list \<Rightarrow> u32
    \<Rightarrow> (client_entry option \<times> ip_names) option" where
  "export_client_match env s addr ipstring [] opt = Some (None, s)"
| "export_client_match env s addr ipstring (c # cs) opt =
     (if options c AND opt \<noteq> opt then export_client_match env s addr ipstring cs opt
      else case client c of
        HOSTIF_CLIENT clientaddr \<Rightarrow>
          if clientaddr = addr then Some (Some c, s) else export_client_match env s addr ipstring cs opt
      | NETWORK_CLIENT netaddr netmask \<Rightarrow>
          if netmask AND addr = netaddr then Some (Some c, s) else export_client_match env s addr ipstring cs opt
      | NETGROUP_CLIENT netgroupname \<Rightarrow> do {
          (h, s1) \<leftarrow> resolve env s addr;
          case h of
            None \<Rightarrow> export_client_match env s1 addr ipstring cs opt
          | Some n \<Rightarrow> do {
              n \<leftarrow> terminated n;
              if innetgr env netgroupname n then Some (Some c, s1) else export_client_match env s1 addr ipstring cs opt } }
      | WILDCARDHOST_CLIENT wildcard \<Rightarrow> do {
          (h, s1) \<leftarrow> resolve env s addr;
          n \<leftarrow> (case h of None \<Rightarrow> Some (''unresolved'' @ junk env) | Some n \<Rightarrow> terminated n);
          if fnmatch env wildcard n then Some (Some c, s1)
          else if fnmatch env wildcard ipstring then Some (Some c, s1)
          else export_client_match env s1 addr ipstring cs opt }
      | GSSPRINCIPAL_CLIENT _ \<Rightarrow> Some (None, s)
      | HOSTIF_CLIENT_V6 _ \<Rightarrow> Some (None, s)
      | NO_CLIENT \<Rightarrow> Some (None, s))"

text \<open>The search for an IPv6 address; its case of a host that does not match falls into the default case.\<close>

fun export_client_matchv6 :: "u8 list \<Rightarrow> client_entry list \<Rightarrow> u32 \<Rightarrow> client_entry option" where
  "export_client_matchv6 addr6 [] opt = None"
| "export_client_matchv6 addr6 (c # cs) opt =
     (if options c AND opt \<noteq> opt then export_client_matchv6 addr6 cs opt
      else case client c of
        HOSTIF_CLIENT_V6 a \<Rightarrow> if a = addr6 then Some c else None
      | NO_CLIENT \<Rightarrow> None
      | _ \<Rightarrow> export_client_matchv6 addr6 cs opt)"

subsection \<open>Requests\<close>

datatype flavor = AUTH_NONE | AUTH_UNIX u32 u32 "u32 list" | AUTH_OTHER

record svc_req =
  rq_prog :: u64
  rq_vers :: u64
  rq_proc :: u64
  rq_cred :: flavor

record access_state =
  names :: ip_names
  stats :: ip_stats

definition no_entry :: client_entry where
  "no_entry = \<lparr>client = NO_CLIENT, options = 0\<rparr>"

definition count_client :: "access_env \<Rightarrow> access_state \<Rightarrow> u32 \<Rightarrow> svc_req \<Rightarrow> access_state option" where
  "count_client env st addr req = do {
     (rc, s1) \<leftarrow> nfs_ip_stats_incr (stats_par env) (stats st) addr (rq_prog req) (rq_vers req) (rq_proc req);
     if rc = IP_NOT_FOUND
     then do {
       (rc2, s2) \<leftarrow> nfs_ip_stats_add (stats_par env) s1 addr;
       if rc2 = IP_SUCCESS
       then do {
         (_, s3) \<leftarrow> nfs_ip_stats_incr (stats_par env) s2 addr (rq_prog req) (rq_vers req) (rq_proc req);
         Some (st\<lparr>stats := s3\<rparr>) }
       else Some (st\<lparr>stats := s2\<rparr>) }
     else Some (st\<lparr>stats := s1\<rparr>) }"

definition nfs_export_check_access :: "access_env \<Rightarrow> access_state \<Rightarrow> u32 \<Rightarrow> svc_req \<Rightarrow> exportlist
    \<Rightarrow> (bool \<times> client_entry \<times> access_state) option" where
  "nfs_export_check_access env st addr req pexport =
     (if rq_proc req = 0 then Some (True, no_entry, st)
      else if rq_prog req = mnt_prog (stats_par env) then Some (rq_cred req \<noteq> AUTH_NONE, no_entry, st)
      else do {
        st1 \<leftarrow> count_client env st addr req;
        let ipstring = inet_ntop env addr
        in do {
          (r, n1) \<leftarrow> export_client_match env (names st1) addr ipstring (clients pexport) EXPORT_OPTION_ROOT;
          case r of
            Some c \<Rightarrow> Some (True, c, st1\<lparr>names := n1\<rparr>)
          | None \<Rightarrow> do {
              (r2, n2) \<leftarrow> export_client_match env n1 addr ipstring (clients pexport) EXPORT_OPTION_ACCESS;
              Some (case r2 of
                      Some c \<Rightarrow> (True, c, st1\<lparr>names := n2\<rparr>)
                    | None \<Rightarrow> (False, no_entry, st1\<lparr>names := n2\<rparr>)) } } })"

definition ANON_GID :: u32 where "ANON_GID = - 2"

text \<open>The user, group and further groups of the call of \<open>FSAL_GetClientContext\<close>; \<open>None\<close> is a refused flavor.\<close>

definition caller :: "svc_req \<Rightarrow> (u32 \<times> u32 \<times> u32 list) option" where
  "caller req =
     (case rq_cred req of
        AUTH_NONE \<Rightarrow> Some (0, 0, [])
      | AUTH_UNIX uid gid gids \<Rightarrow> Some (uid, gid, gids)
      | AUTH_OTHER \<Rightarrow> None)"

definition fsal_caller :: "client_entry \<Rightarrow> exportlist \<Rightarrow> u32 \<times> u32 \<times> u32 list \<Rightarrow> u32 \<times> u32 \<times> u32 list" where
  "fsal_caller pexport_client pexport c =
     (if fst c = 0 \<and> options pexport_client AND EXPORT_OPTION_ROOT = 0
      then (anonymous_uid pexport, ANON_GID, snd (snd c))
      else c)"

definition nfs_build_fsal_context :: "(u32 \<times> u32 \<times> u32 list \<Rightarrow> 'ctx option) \<Rightarrow> svc_req \<Rightarrow> client_entry \<Rightarrow> exportlist \<Rightarrow> 'ctx option" where
  "nfs_build_fsal_context FSAL_GetClientContext req pexport_client pexport =
     (case caller req of
        None \<Rightarrow> None
      | Some c \<Rightarrow> FSAL_GetClientContext (fsal_caller pexport_client pexport c))"

text \<open>\<open>None\<close> as a context is the answer \<^verbatim>\<open>NFS4ERR_WRONGSEC\<close>.\<close>

definition nfs4_MakeCred :: "access_env \<Rightarrow> (u32 \<times> u32 \<times> u32 list \<Rightarrow> 'ctx option) \<Rightarrow> access_state \<Rightarrow> u32 \<Rightarrow> svc_req \<Rightarrow> exportlist
    \<Rightarrow> ('ctx option \<times> access_state) option" where
  "nfs4_MakeCred env FSAL_GetClientContext st hostaddr req pexport = do {
     (ok, related_client, st1) \<leftarrow> nfs_export_check_access env st hostaddr req pexport;
     Some (if \<not> ok then None else nfs_build_fsal_context FSAL_GetClientContext req related_client pexport, st1) }"

subsection \<open>What the search finds\<close>

text \<open>The name of a client: the cached one, or else the answer of the name service, cut to the buffer.\<close>

definition host_name :: "access_env \<Rightarrow> ip_names \<Rightarrow> u32 \<Rightarrow> string option" where
  "host_name env s addr =
     (case cached s addr of Some n \<Rightarrow> Some n | None \<Rightarrow> map_option (take MAXHOSTNAMELEN) (gethostbyaddr env addr 8))"

definition names_ready :: "ip_names \<Rightarrow> bool" where
  "names_ready s \<longleftrightarrow> names_inv s \<and> no_fail (nmem s) \<and> 0 < nb_node_prealloc (parameter (ht_ip_name s))"

definition has_option :: "u32 \<Rightarrow> client_entry \<Rightarrow> bool" where
  "has_option opt c \<longleftrightarrow> options c AND opt = opt"

definition blocks :: "client_entry \<Rightarrow> bool" where
  "blocks c \<longleftrightarrow> (case client c of GSSPRINCIPAL_CLIENT _ \<Rightarrow> True | HOSTIF_CLIENT_V6 _ \<Rightarrow> True | NO_CLIENT \<Rightarrow> True | _ \<Rightarrow> False)"

definition admits :: "access_env \<Rightarrow> string option \<Rightarrow> u32 \<Rightarrow> string \<Rightarrow> client_entry \<Rightarrow> bool" where
  "admits env name addr ipstring c \<longleftrightarrow>
     (case client c of
        HOSTIF_CLIENT a \<Rightarrow> a = addr
      | NETWORK_CLIENT netaddr netmask \<Rightarrow> netmask AND addr = netaddr
      | NETGROUP_CLIENT g \<Rightarrow> (case name of None \<Rightarrow> False | Some n \<Rightarrow> innetgr env g n)
      | WILDCARDHOST_CLIENT w \<Rightarrow>
          fnmatch env w (case name of None \<Rightarrow> ''unresolved'' @ junk env | Some n \<Rightarrow> n) \<or> fnmatch env w ipstring
      | _ \<Rightarrow> False)"

text \<open>The first admitting entry with the option, before the first entry with the option that ends the search.\<close>

definition first_client :: "access_env \<Rightarrow> string option \<Rightarrow> u32 \<Rightarrow> string \<Rightarrow> client_entry list \<Rightarrow> u32 \<Rightarrow> client_entry option" where
  "first_client env name addr ipstring cs opt =
     find (admits env name addr ipstring) (takeWhile (\<lambda>c. \<not> blocks c) (filter (has_option opt) cs))"

lemma names_add_ready:
  assumes ready: "names_ready s" and new: "cached s addr = None"
  shows "\<exists>rc h s'. nfs_ip_name_add g now s addr = Some (rc, h, s') \<and> names_ready s'
     \<and> (if rc \<noteq> IP_SUCCESS then None else h) = map_option (take MAXHOSTNAMELEN) (g addr 8)
     \<and> cached s' = (cached s)(addr := map_option (take MAXHOSTNAMELEN) (g addr 8))"
proof -
  from ready have inv: "names_inv s" and nf: "no_fail (nmem s)" and nb: "0 < nb_node_prealloc (parameter (ht_ip_name s))"
    by (auto simp: names_ready_def)
  from names_add [OF inv, of g now addr] obtain rc h s' where
    a: "nfs_ip_name_add g now s addr = Some (rc, h, s')" "names_inv s'" "rc = IP_SUCCESS \<longleftrightarrow> h \<noteq> None"
    "\<forall>n. h = Some n \<longrightarrow> map_option (take MAXHOSTNAMELEN) (g addr 8) = Some n \<and> cached s' = (cached s)(addr \<mapsto> n)"
    "h = None \<longrightarrow> cached s' = cached s" by blast
  obtain p m where al: "Mem_Alloc (nmem s) sizeof_nfs_ip_name = (Some p, m)" "no_fail m"
    using nf by (auto simp: Mem_Alloc_def no_fail_def)
  have same: "(cached s)(addr := None) = cached s" using new by auto
  show ?thesis
  proof (cases "g addr 8")
    case None
    with al a(1) have "s' = s\<lparr>nmem := m\<rparr>" "rc \<noteq> IP_SUCCESS" by (auto simp: nfs_ip_name_add_def)
    with a nb al(2) None same show ?thesis by (auto simp: names_ready_def)
  next
    case (Some n)
    have "hs_inv (parameter (ht_ip_name s)) (m, ht_ip_name s)"
      using inv Mem_Alloc_grows [OF al(1)] by (auto simp: names_inv_def intro: hs_inv_grows)
    from hs_put_no_fail [OF this al(2) nb, of "ip_key addr" p] obtain m1 t where
      "hs_put (m, ht_ip_name s) (ip_key addr) p HASHTABLE_SET_HOW_SET_OVERWRITE = Some (HASHTABLE_SUCCESS, m1, t)" "no_fail m1"
      "parameter t = parameter (ht_ip_name s)" by blast
    with a(1) al(1) Some have "h = Some (take MAXHOSTNAMELEN n)" "no_fail (nmem s')" "parameter (ht_ip_name s') = parameter (ht_ip_name s)"
      by (auto simp: nfs_ip_name_add_def Let_def)
    with a nb Some show ?thesis by (auto simp: names_ready_def)
  qed
qed

lemma names_get_ready:
  assumes ready: "names_ready s"
  shows "\<exists>s'. nfs_ip_name_get s addr = Some (if cached s addr = None then IP_NOT_FOUND else IP_SUCCESS, cached s addr, s')
     \<and> names_ready s' \<and> cached s' = cached s"
proof -
  from ready have inv: "names_inv s" by (simp add: names_ready_def)
  from names_get [OF inv, of addr] obtain s' where
    g: "nfs_ip_name_get s addr = Some (if cached s addr = None then IP_NOT_FOUND else IP_SUCCESS, cached s addr, s')"
    "names_inv s'" "cached s' = cached s" by blast
  have h: "hs_inv (parameter (ht_ip_name s)) (nmem s, ht_ip_name s)" using inv by (simp add: names_inv_def)
  obtain rc p m t where l: "hs_get (nmem s, ht_ip_name s) (ip_key addr) = Some (rc, p, m, t)" "hs_inv (parameter (ht_ip_name s)) (m, t)"
    using hs.get_law [OF h, of "ip_key addr"] by auto
  have "m = nmem s" using hs_same_mem(1) [OF l(1)] by simp
  moreover have "s' = s\<lparr>nmem := m, ht_ip_name := t\<rparr>"
    using g(1) l(1) by (auto simp: nfs_ip_name_get_def Let_def bind_eq_Some_conv split: if_splits)
  ultimately show ?thesis using g ready l(2) by (auto simp: names_ready_def hs_inv_def)
qed

lemma resolve_correct:
  assumes ready: "names_ready s"
  shows "\<exists>s'. resolve env s addr = Some (host_name env s addr, s') \<and> names_ready s' \<and> host_name env s' = host_name env s"
proof -
  from names_get_ready [OF ready, of addr] obtain s1 where
    g: "nfs_ip_name_get s addr = Some (if cached s addr = None then IP_NOT_FOUND else IP_SUCCESS, cached s addr, s1)"
    "names_ready s1" "cached s1 = cached s" by blast
  show ?thesis
  proof (cases "cached s addr")
    case (Some n)
    with g show ?thesis by (auto simp: resolve_def host_name_def fun_eq_iff)
  next
    case None
    with names_add_ready [OF g(2), of addr "gethostbyaddr env" "clock env"] g(3) obtain rc h s2 where
      a: "nfs_ip_name_add (gethostbyaddr env) (clock env) s1 addr = Some (rc, h, s2)" "names_ready s2"
      "(if rc \<noteq> IP_SUCCESS then None else h) = map_option (take MAXHOSTNAMELEN) (gethostbyaddr env addr 8)"
      "cached s2 = (cached s)(addr := map_option (take MAXHOSTNAMELEN) (gethostbyaddr env addr 8))" by auto
    have "host_name env s2 x = host_name env s x" for x
      using a(4) None by (cases "gethostbyaddr env addr 8") (auto simp: host_name_def split: option.splits)
    moreover have "resolve env s addr = Some (host_name env s addr, s2)"
      using g(1) None a(1,3) by (auto simp: resolve_def host_name_def)
    ultimately show ?thesis using a(2) by (auto simp: fun_eq_iff)
  qed
qed

lemma export_client_match_correct:
  assumes "names_ready s" and "\<And>n. host_name env s addr = Some n \<Longrightarrow> length n < MAXHOSTNAMELEN"
  shows "\<exists>s'. export_client_match env s addr ipstring cs opt = Some (first_client env (host_name env s addr) addr ipstring cs opt, s')
     \<and> names_ready s' \<and> host_name env s' = host_name env s"
  using assms
proof (induction cs arbitrary: s)
  case Nil
  then show ?case by (simp add: first_client_def)
next
  case (Cons c cs)
  let ?n = "host_name env s addr"
  show ?case
  proof (cases "has_option opt c")
    case False
    with Cons show ?thesis by (auto simp: has_option_def first_client_def)
  next
    case True
    then have opt: "options c AND opt = opt" by (simp add: has_option_def)
    have fc: "first_client env ?n addr ipstring (c # cs) opt
        = (if blocks c then None else if admits env ?n addr ipstring c then Some c else first_client env ?n addr ipstring cs opt)"
      using True by (simp add: first_client_def)
    from resolve_correct [OF Cons.prems(1), of env addr] obtain s1 where
      r: "resolve env s addr = Some (?n, s1)" "names_ready s1" "host_name env s1 = host_name env s" by blast
    have len: "terminated n = Some n" if "?n = Some n" for n using Cons.prems(2) [OF that] by (simp add: terminated_def)
    from Cons.IH [OF r(2)] Cons.prems(2) r(3) obtain s2 where
      i1: "export_client_match env s1 addr ipstring cs opt = Some (first_client env ?n addr ipstring cs opt, s2)"
      "names_ready s2" "host_name env s2 = host_name env s" by auto
    from Cons.IH [OF Cons.prems] obtain s3 where
      i2: "export_client_match env s addr ipstring cs opt = Some (first_client env ?n addr ipstring cs opt, s3)"
      "names_ready s3" "host_name env s3 = host_name env s" by auto
    show ?thesis
      unfolding fc
      using opt r i1 i2 len Cons.prems(1)
      by (cases "client c"; cases ?n) (auto simp: blocks_def admits_def)
  qed
qed

subsection \<open>Access to an export\<close>

definition stats_ready :: "ip_stats_param \<Rightarrow> ip_stats \<Rightarrow> bool" where
  "stats_ready par s \<longleftrightarrow> stats_inv s \<and> ip_stats_pool s \<noteq> [] \<and> (\<forall>a. stats_ok (iheap s a))"

lemma incr_total:
  assumes ready: "stats_ready par s" and p: "proc_ok par prog vers proc"
  shows "\<exists>rc s'. nfs_ip_stats_incr par s addr prog vers proc = Some (rc, s') \<and> stats_ready par s'"
proof (cases "dump_stats_per_client par \<and> stats_of s addr \<noteq> None")
  case True
  then obtain a where a: "stats_of s addr = Some a" by blast
  from ready have inv: "stats_inv s" "stats_ok (iheap s a)" by (auto simp: stats_ready_def)
  from stats_incr [OF inv(1) a inv(2) p] True ready show ?thesis by (auto simp: stats_ready_def)
next
  case False
  show ?thesis
  proof (cases "dump_stats_per_client par")
    case False
    with ready show ?thesis by (auto simp: nfs_ip_stats_incr_def)
  next
    case True
    with False have n: "stats_of s addr = None" by simp
    from ready have h: "hs_inv (parameter (ht_ip_stats s)) (imem s, ht_ip_stats s)" by (simp add: stats_ready_def stats_inv_def)
    from hs.get_law [OF h, of "ip_key addr"] n obtain m t where
      "hs_get (imem s, ht_ip_stats s) (ip_key addr) = Some (HASHTABLE_ERROR_NO_SUCH_KEY, None, m, t)"
      "hs_inv (parameter (ht_ip_stats s)) (m, t)" by auto
    with True ready show ?thesis by (auto simp: nfs_ip_stats_incr_def stats_ready_def stats_inv_def hs_inv_def)
  qed
qed

lemma add_total:
  assumes ready: "stats_ready par s"
  shows "\<exists>rc s'. nfs_ip_stats_add par s addr = Some (rc, s') \<and> stats_ready par s'"
proof (cases "dump_stats_per_client par")
  case False
  with ready show ?thesis by (auto simp: nfs_ip_stats_add_def)
next
  case True
  from ready obtain p ps where pool: "ip_stats_pool s = p # ps" by (cases "ip_stats_pool s") (auto simp: stats_ready_def)
  from ready have "stats_inv s" by (simp add: stats_ready_def)
  from stats_add [OF this True pool, of addr] ready show ?thesis
    by (auto simp: stats_ready_def stats_ok_def new_stats_def)
qed

lemma count_client_total:
  assumes ready: "stats_ready (stats_par env) (stats st)"
    and p: "proc_ok (stats_par env) (rq_prog req) (rq_vers req) (rq_proc req)"
  shows "\<exists>s'. count_client env st addr req = Some (st\<lparr>stats := s'\<rparr>) \<and> stats_ready (stats_par env) s'"
proof -
  from incr_total [OF ready p, of addr] obtain rc s1 where
    1: "nfs_ip_stats_incr (stats_par env) (stats st) addr (rq_prog req) (rq_vers req) (rq_proc req) = Some (rc, s1)" "stats_ready (stats_par env) s1" by blast
  from add_total [OF 1(2), of addr] obtain rc2 s2 where
    2: "nfs_ip_stats_add (stats_par env) s1 addr = Some (rc2, s2)" "stats_ready (stats_par env) s2" by blast
  from incr_total [OF 2(2) p, of addr] obtain rc3 s3 where
    3: "nfs_ip_stats_incr (stats_par env) s2 addr (rq_prog req) (rq_vers req) (rq_proc req) = Some (rc3, s3)" "stats_ready (stats_par env) s3" by blast
  show ?thesis using 1 2 3 by (cases "rc = IP_NOT_FOUND"; cases "rc2 = IP_SUCCESS") (auto simp: count_client_def)
qed

text \<open>The entry by which a client gets in: one for root access before one for access.\<close>

definition entry_of :: "access_env \<Rightarrow> string option \<Rightarrow> u32 \<Rightarrow> exportlist \<Rightarrow> client_entry option" where
  "entry_of env name addr e =
     (case first_client env name addr (inet_ntop env addr) (clients e) EXPORT_OPTION_ROOT of
        Some c \<Rightarrow> Some c
      | None \<Rightarrow> first_client env name addr (inet_ntop env addr) (clients e) EXPORT_OPTION_ACCESS)"

definition access_ready :: "access_env \<Rightarrow> access_state \<Rightarrow> u32 \<Rightarrow> svc_req \<Rightarrow> bool" where
  "access_ready env st addr req \<longleftrightarrow> names_ready (names st) \<and> stats_ready (stats_par env) (stats st)
     \<and> proc_ok (stats_par env) (rq_prog req) (rq_vers req) (rq_proc req)
     \<and> (case host_name env (names st) addr of None \<Rightarrow> True | Some n \<Rightarrow> length n < MAXHOSTNAMELEN)"

text \<open>
  C39: the access check of an export (nfs\_export\_check\_access) returns and decides as follows.  A call of procedure 0 is let in, a call of the MOUNT
  program exactly when it is authenticated.  Any other call is let in exactly when the list of clients has an entry
  for root access or else for access that admits the address or the name of the client, and no entry with the
  same option before it is one that ends the search (a GSS principal, an IPv6 host or an entry that could not
  be parsed); the first such entry is the one the caller gets.
\<close>

theorem access_check_correct:
  assumes ready: "access_ready env st addr req"
  shows "\<exists>st'. nfs_export_check_access env st addr req e =
     Some (if rq_proc req = 0 then (True, no_entry, st')
           else if rq_prog req = mnt_prog (stats_par env) then (rq_cred req \<noteq> AUTH_NONE, no_entry, st')
           else case entry_of env (host_name env (names st) addr) addr e of
             None \<Rightarrow> (False, no_entry, st')
           | Some c \<Rightarrow> (True, c, st'))"
proof -
  let ?n = "host_name env (names st) addr" and ?ip = "inet_ntop env addr"
  from ready have R: "names_ready (names st)" "\<And>n. ?n = Some n \<Longrightarrow> length n < MAXHOSTNAMELEN" by (auto simp: access_ready_def)
  from ready obtain s1 where c: "count_client env st addr req = Some (st\<lparr>stats := s1\<rparr>)"
    using count_client_total [of env st req addr] by (auto simp: access_ready_def)
  from export_client_match_correct [where env = env and addr = addr and ipstring = ?ip and cs = "clients e" and opt = EXPORT_OPTION_ROOT, OF R] obtain n1 where
    1: "export_client_match env (names st) addr ?ip (clients e) EXPORT_OPTION_ROOT = Some (first_client env ?n addr ?ip (clients e) EXPORT_OPTION_ROOT, n1)"
    "names_ready n1" "host_name env n1 = host_name env (names st)" by blast
  from export_client_match_correct [OF 1(2), of env addr ?ip "clients e" EXPORT_OPTION_ACCESS] R(2) 1(3) obtain n2 where
    2: "export_client_match env n1 addr ?ip (clients e) EXPORT_OPTION_ACCESS = Some (first_client env ?n addr ?ip (clients e) EXPORT_OPTION_ACCESS, n2)" by auto
  show ?thesis
    using c 1(1) 2 unfolding nfs_export_check_access_def entry_of_def Let_def
    by (cases "first_client env ?n addr ?ip (clients e) EXPORT_OPTION_ROOT";
        cases "first_client env ?n addr ?ip (clients e) EXPORT_OPTION_ACCESS") auto
qed

subsection \<open>Root\<close>

lemma first_client_D:
  assumes "first_client env n addr ip cs opt = Some c"
  shows "c \<in> set cs \<and> has_option opt c \<and> admits env n addr ip c"
proof -
  from assms have "c \<in> set (takeWhile (\<lambda>c. \<not> blocks c) (filter (has_option opt) cs))" "admits env n addr ip c"
    by (auto simp: first_client_def find_Some_iff)
  then show ?thesis by (auto dest: set_takeWhileD)
qed

text \<open>
  C40: the file system layer sees the user 0 only for a client that an entry for root access admits, unless the
  export maps root to user 0 itself, whatever credentials the request carries; every other user is passed on
  as it is.  The further groups of a request are passed on even when its user was replaced.
\<close>

theorem root_only_for_root_clients:
  assumes ready: "access_ready env st addr req" and prog: "rq_proc req \<noteq> 0" "rq_prog req \<noteq> mnt_prog (stats_par env)"
  shows "\<exists>ctx st'. nfs4_MakeCred env Some st addr req e = Some (ctx, st')
    \<and> (case ctx of
         None \<Rightarrow> caller req = None \<or> entry_of env (host_name env (names st) addr) addr e = None
       | Some (uid, gid, gids) \<Rightarrow>
           (\<exists>uid0 gid0. caller req = Some (uid0, gid0, gids) \<and> (uid0 \<noteq> 0 \<longrightarrow> uid = uid0 \<and> gid = gid0))
           \<and> (uid = 0 \<longrightarrow> anonymous_uid e = 0 \<or>
                (\<exists>c \<in> set (clients e). options c AND EXPORT_OPTION_ROOT \<noteq> 0
                   \<and> admits env (host_name env (names st) addr) addr (inet_ntop env addr) c)))"
proof -
  let ?n = "host_name env (names st) addr"
  from access_check_correct [OF ready, of e] prog obtain st' where
    a: "nfs_export_check_access env st addr req e = Some (case entry_of env ?n addr e of None \<Rightarrow> (False, no_entry, st') | Some c \<Rightarrow> (True, c, st'))"
    by auto
  show ?thesis
  proof (cases "entry_of env ?n addr e")
    case None
    with a show ?thesis by (simp add: nfs4_MakeCred_def)
  next
    case (Some c)
    then have c: "c \<in> set (clients e)" "admits env ?n addr (inet_ntop env addr) c"
      by (auto simp: entry_of_def split: option.splits dest!: first_client_D)
    have m: "nfs4_MakeCred env Some st addr req e = Some (nfs_build_fsal_context Some req c e, st')"
      using a Some by (simp add: nfs4_MakeCred_def)
    show ?thesis
    proof (cases "caller req")
      case None
      with m show ?thesis by (simp add: nfs_build_fsal_context_def)
    next
      case (Some u)
      obtain uid gid gids where u: "u = (uid, gid, gids)" by (cases u)
      from m Some c u show ?thesis by (auto simp: nfs_build_fsal_context_def fsal_caller_def)
    qed
  qed
qed

text \<open>A request without credentials is a request of root to a client with root access.\<close>

theorem no_credentials_is_root:
  assumes "rq_cred req = AUTH_NONE" and "options c AND EXPORT_OPTION_ROOT \<noteq> 0"
  shows "nfs_build_fsal_context Some req c e = Some (0, 0, [])"
  using assms by (simp add: nfs_build_fsal_context_def caller_def fsal_caller_def)

text \<open>
  \<open>gethostbyaddr\<close> is told that an address has eight bytes.  A name service that answers only for addresses of four
  bytes finds no name, and no netgroup admits any client whose name is not in the cache already.
\<close>

theorem netgroups_admit_nobody:
  assumes "\<And>a n. n \<noteq> 4 \<Longrightarrow> gethostbyaddr env a n = None" and "cached s addr = None" and "client c = NETGROUP_CLIENT g"
  shows "\<not> admits env (host_name env s addr) addr ip c"
  using assms by (simp add: host_name_def admits_def)

subsection \<open>Networks\<close>

text \<open>A dotted address as \<open>inet_network\<close> reads it, and as it comes in a socket address on a little-endian machine.\<close>

definition dotted :: "u8 \<Rightarrow> u8 \<Rightarrow> u8 \<Rightarrow> u8 \<Rightarrow> u32" where
  "dotted a b c d = push_bit 24 (ucast a) OR push_bit 16 (ucast b) OR push_bit 8 (ucast c) OR ucast d"

definition sin_addr :: "u8 \<Rightarrow> u8 \<Rightarrow> u8 \<Rightarrow> u8 \<Rightarrow> u32" where
  "sin_addr a b c d = dotted d c b a"

lemma dotted_eq [simp]: "dotted a b c d = dotted a' b' c' d' \<longleftrightarrow> a = a' \<and> b = b' \<and> c = c' \<and> d = d'"
proof
  assume eq: "dotted a b c d = dotted a' b' c' d'"
  have B: "bit (dotted a b c d) n = (if n < 8 then bit d n else if n < 16 then bit c (n - 8) else if n < 24 then bit b (n - 16)
      else n < 32 \<and> bit a (n - 24))" for a b c d n
    by (auto simp: dotted_def bit_simps dest: bit_imp_le_length)
  have e: "bit (dotted a b c d) n = bit (dotted a' b' c' d') n" for n using eq by simp
  have "bit a n = bit a' n \<and> bit b n = bit b' n \<and> bit c n = bit c' n \<and> bit d n = bit d' n" if "n < 8" for n
    using e [of "n + 24"] e [of "n + 16"] e [of "n + 8"] e [of n] that unfolding B by auto
  then show "a = a' \<and> b = b' \<and> c = c' \<and> d = d'" by (auto intro!: bit_word_eqI)
qed simp

lemma dotted_mask: "0xffffff00 AND dotted a b c d = dotted a b c 0"
proof (rule bit_word_eqI)
  fix n assume "n < LENGTH(32)"
  have "bit (0xffffff00 :: u32) n \<longleftrightarrow> 8 \<le> n \<and> n < 32"
  proof -
    have m: "(0xffffff00 :: u32) = push_bit 8 (mask 24)" by (simp add: mask_eq_decr_exp push_bit_eq_mult)
    show ?thesis unfolding m by (auto simp: bit_simps)
  qed
  then show "bit (0xffffff00 AND dotted a b c d) n = bit (dotted a b c 0) n"
    using \<open>n < LENGTH(32)\<close> by (auto simp: dotted_def bit_simps dest: bit_imp_le_length)
qed

lemma high_bits: "192 \<le> a \<Longrightarrow> bit (a :: u8) 7 \<and> bit a 6"
proof -
  assume "192 \<le> a"
  then have "unat a div 64 = 3" using unsigned_less [of a, where ?'a = nat] by (simp add: word_le_nat_alt)
  then have "drop_bit 6 a = 3" by (simp add: word_unat_eq_iff drop_bit_eq_div unat_div)
  then have "bit (drop_bit 6 a) 0" "bit (drop_bit 6 a) 1" by (simp_all add: bit_simps)
  then show ?thesis by (simp add: bit_simps)
qed

lemma and_neq_0: "bit (x :: u32) 31 \<Longrightarrow> bit m 31 \<Longrightarrow> x AND m \<noteq> 0"
  by (metis bit_and_iff bit_0_eq bot_fun_def bot_bool_def)

lemma class_3:
  assumes "bit (x :: u32) 31" "bit x 30"
  shows "drop_bit 30 (x AND 0xc0000000) = 3"
proof (rule bit_word_eqI)
  fix n :: nat assume "n < LENGTH(32)"
  have m: "(0xc0000000 :: u32) = push_bit 30 (mask 2)" "(3 :: u32) = mask 2"
    by (simp_all add: mask_eq_decr_exp push_bit_eq_mult)
  show "bit (drop_bit 30 (x AND 0xc0000000)) n = bit (3 :: u32) n"
    unfolding m using assms by (cases "n = 0"; cases "n = 1") (auto simp: bit_simps)
qed

lemma low_byte_0: "dotted a b c 0 AND 0xff = 0"
proof (rule bit_word_eqI)
  fix n :: nat assume "n < LENGTH(32)"
  have m: "(0xff :: u32) = mask 8" by (simp add: mask_eq_decr_exp)
  show "bit (dotted a b c 0 AND 0xff) n = bit (0 :: u32) n" unfolding m by (auto simp: dotted_def bit_simps)
qed

text \<open>
  A network in the list of clients is kept in the byte order of the machine, and compared with the address of the
  client in network byte order.  On a little-endian machine the entry of the network a.b.c.0 with a mask of
  24 bits therefore admits exactly the clients x.c.b.a: the clients of the network itself are refused, unless
  its bytes are the same in both orders.
\<close>

theorem network_bytes_reversed:
  assumes net: "inet_network db name = dotted a b c 0" and top: "192 \<le> a"
    and no_host: "nfs_LookupHostAddr db name = None" "name = [] \<or> hd name \<noteq> CHR ''@''"
  shows "admits env n (sin_addr x1 x2 x3 x4) ip (new_client db opt name) \<longleftrightarrow> x4 = a \<and> x3 = b \<and> x2 = c"
proof -
  let ?d = "dotted a b c 0"
  have b: "bit ?d 31" "bit ?d 30" "\<not> bit ?d 0" using high_bits [OF top] by (simp_all add: dotted_def bit_simps)
  have "left_justify ?d = ?d"
    unfolding left_justify_def using and_neq_0 [OF b(1), of "0xffffff00"] and_neq_0 [OF b(1), of "0xffff0000"]
      and_neq_0 [OF b(1), of "0xff000000"] by simp
  moreover have "net_class_mask ?d = 0xffffff00"
  proof -
    have "drop_bit 30 (?d AND 0xc0000000) = 3" using b(1,2) by (rule class_3)
    moreover have "?d AND 0xff = 0" by (rule low_byte_0)
    ultimately show ?thesis by (simp add: net_class_mask_def Let_def)
  qed
  moreover have "?d \<noteq> - 1" using b(3) by (metis bit_minus_1_iff possible_bit_word zero_less_numeral len_num1 len_gt_0)
  ultimately have "nfs_LookupNetworkAddr db name = Some (?d, 0xffffff00)" using net by (simp add: nfs_LookupNetworkAddr_def Let_def)
  then have "client (new_client db opt name) = NETWORK_CLIENT ?d 0xffffff00"
    using no_host by (auto simp: new_client_def)
  then show ?thesis by (simp add: admits_def sin_addr_def dotted_mask)
qed

subsection \<open>Witnesses\<close>

text \<open>A host with root access and a host with access.\<close>

definition demo_export :: exportlist where
  "demo_export = \<lparr>clients = [\<lparr>client = HOSTIF_CLIENT (sin_addr 10 0 0 1), options = EXPORT_OPTION_ROOT\<rparr>,
     \<lparr>client = HOSTIF_CLIENT (sin_addr 10 0 0 2), options = EXPORT_OPTION_ACCESS\<rparr>], exp_options = 20, anonymous_uid = 65534\<rparr>"

definition demo_access_env :: access_env where
  "demo_access_env = \<lparr>gethostbyaddr = (\<lambda>_ n. if n = 4 then Some ''host'' else None), innetgr = (\<lambda>_ _. False), fnmatch = (=),
     inet_ntop = (\<lambda>_. ''10.0.0.2''), clock = 0, junk = [],
     stats_par = \<lparr>dump_stats_per_client = True, nb_ip_stats_prealloc = 4, nfs_prog = 100003, mnt_prog = 100005\<rparr>\<rparr>"

definition demo_req :: svc_req where
  "demo_req = \<lparr>rq_prog = 100003, rq_vers = 4, rq_proc = 1, rq_cred = AUTH_UNIX 0 0 [0, 5]\<rparr>"

lemma demo_access: "\<exists>st. access_ready demo_access_env st addr demo_req \<and> host_name demo_access_env (names st) addr = None"
proof -
  have par: "params_ok (ip_par 3 4)" "key_eq (ip_par 3 4) = (=)" by (rule ip_par_ok; simp)+
  have nb: "0 < nb_node_prealloc (ip_par 3 4)" by (simp add: ip_par_def)
  have "no_fail demo_mem" by (simp add: no_fail_def demo_mem_def)
  from HashTable_Init_succeeds [OF this nb] obtain ht :: "(u64, nat) hash_table" and m where
    i: "HashTable_Init demo_mem True (\<lambda>_. True) (ip_par 3 4) = (Some ht, m)" "no_fail m" by blast
  from HashTable_Init_correct [OF i(1) par(1)] have h: "ht_inv m ht" "parameter ht = ip_par 3 4" "ht_lookup ht = (\<lambda>_. None)" by auto
  let ?n = "\<lparr>nmem = m, ht_ip_name = ht, nheap = (\<lambda>_. \<lparr>ipaddr = 0, hostname = [], in_timestamp = 0\<rparr>)\<rparr>"
  let ?s = "\<lparr>imem = m, ht_ip_stats = ht, iheap = (\<lambda>_. new_stats), ip_stats_pool = [3]\<rparr>"
  have n: "names_ready ?n" using h i(2) nb par(2) by (simp add: names_ready_def names_inv_def hs_inv_def)
  have s: "stats_ready p ?s" for p
    using h par(2) by (simp add: stats_ready_def stats_inv_def hs_inv_def stats_ok_def new_stats_def)
  have c: "host_name demo_access_env ?n addr = None" using h(3) by (simp add: host_name_def cached_def demo_access_env_def)
  have p: "proc_ok (stats_par demo_access_env) (rq_prog demo_req) (rq_vers demo_req) (rq_proc demo_req)"
    by (simp add: proc_ok_def demo_access_env_def demo_req_def)
  have "access_ready demo_access_env \<lparr>names = ?n, stats = ?s\<rparr> addr demo_req" using n s c p by (simp add: access_ready_def)
  with c show ?thesis by (intro exI [of _ "\<lparr>names = ?n, stats = ?s\<rparr>"]) simp
qed

lemma demo_entry: "entry_of demo_access_env None (sin_addr 10 0 0 2) demo_export
    = Some \<lparr>client = HOSTIF_CLIENT (sin_addr 10 0 0 2), options = EXPORT_OPTION_ACCESS\<rparr>"
  by (simp add: entry_of_def first_client_def demo_export_def has_option_def EXPORT_OPTION_ROOT_def EXPORT_OPTION_ACCESS_def
      blocks_def admits_def sin_addr_def)

theorem access_check_correct_witness:
  "\<exists>st st'. nfs_export_check_access demo_access_env st (sin_addr 10 0 0 2) demo_req demo_export
     = Some (True, \<lparr>client = HOSTIF_CLIENT (sin_addr 10 0 0 2), options = EXPORT_OPTION_ACCESS\<rparr>, st')"
proof -
  from demo_access obtain st where st: "access_ready demo_access_env st (sin_addr 10 0 0 2) demo_req"
    "host_name demo_access_env (names st) (sin_addr 10 0 0 2) = None" by blast
  from access_check_correct [OF st(1), of demo_export] st(2) demo_entry show ?thesis
    by (auto simp: demo_req_def demo_access_env_def)
qed

text \<open>The user 0 of a client without root access.\<close>

theorem root_only_for_root_clients_witness:
  "\<exists>st ctx st'. nfs4_MakeCred demo_access_env Some st (sin_addr 10 0 0 2) demo_req demo_export = Some (ctx, st')
    \<and> (case ctx of None \<Rightarrow> False | Some (uid, gid, gids) \<Rightarrow> uid \<noteq> 0)"
proof -
  from demo_access obtain st where st: "access_ready demo_access_env st (sin_addr 10 0 0 2) demo_req"
    "host_name demo_access_env (names st) (sin_addr 10 0 0 2) = None" by blast
  have p: "rq_proc demo_req \<noteq> 0" "rq_prog demo_req \<noteq> mnt_prog (stats_par demo_access_env)"
    by (simp_all add: demo_req_def demo_access_env_def)
  have no: "\<not> (\<exists>c \<in> set (clients demo_export). options c AND EXPORT_OPTION_ROOT \<noteq> 0
      \<and> admits demo_access_env None (sin_addr 10 0 0 2) (inet_ntop demo_access_env (sin_addr 10 0 0 2)) c)"
    by (simp add: demo_export_def admits_def sin_addr_def EXPORT_OPTION_ROOT_def EXPORT_OPTION_ACCESS_def)
  have "caller demo_req \<noteq> None" "anonymous_uid demo_export \<noteq> 0" by (simp_all add: caller_def demo_req_def demo_export_def)
  with root_only_for_root_clients [OF st(1) p, of demo_export] st(2) no demo_entry show ?thesis
    by (fastforce split: option.splits)
qed

text \<open>The network 192.168.1.0.\<close>

definition demo_netdb :: netdb where
  "demo_netdb = \<lparr>inet_network = (\<lambda>_. dotted 192 168 1 0), gethostbyname = (\<lambda>_. None), getnetbyname = (\<lambda>_. None),
     inet_addr = (\<lambda>_. 0), host_by_addr = (\<lambda>_ _. None)\<rparr>"

theorem network_bytes_reversed_witness:
  "\<not> admits demo_access_env None (sin_addr 192 168 1 7) '''' (new_client demo_netdb 16 ''192.168.1.0'')
    \<and> admits demo_access_env None (sin_addr 7 1 168 192) '''' (new_client demo_netdb 16 ''192.168.1.0'')"
proof -
  have "admits demo_access_env None (sin_addr x1 x2 x3 x4) '''' (new_client demo_netdb 16 ''192.168.1.0'')
      \<longleftrightarrow> x4 = 192 \<and> x3 = 168 \<and> x2 = 1" for x1 x2 x3 x4
    by (rule network_bytes_reversed) (simp_all add: demo_netdb_def nfs_LookupHostAddr_def)
  then show ?thesis by simp
qed

end
