(* ===== verification/Buddy_Alloc.thy ===== *)
theory Buddy_Alloc
  imports Stuff_Alloc
begin

text \<open>
  The buddy allocator (\<^verbatim>\<open>BuddyMalloc/BuddyMalloc.c\<close>) of the default build: several threads, no labels of
  blocks.  Every thread has a context with its pages, a list of free blocks per size and a list of
  blocks that other threads released.

  A block is its header with the two words behind it, at its address.  The words are the links of a free block; the link
  of the list of released blocks lies on the first of them.  \<open>areas\<close> are the areas that the system's \<open>malloc\<close> gave out and
  \<open>free\<close> did not take back; \<open>answers\<close> are the addresses that \<open>malloc\<close> will return.  An access to a block that does not lie
  in an area, a shift of an \<open>int\<close> out of its range and a \<open>free\<close> of another address are \<open>None\<close>.
\<close>

type_synonym tid = nat

datatype block_status = FREE_BLOCK | RESERVED_BLOCK | OTHER_STATUS

datatype block_info = StdInfo nat nat | ExtraInfo nat

record buddy_header =
  Base_ptr :: "addr option"
  MagicNumber :: u32
  OwnerThread :: tid
  OwnerThreadContext :: addr
  BlockInfo :: block_info
  status :: block_status

record buddy_block =
  Header :: buddy_header
  NextBlock :: "addr option"
  PrevBlock :: "addr option"

record buddy_parameter =
  memory_area_size :: nat
  on_demand_alloc :: bool
  extra_alloc :: bool
  free_areas :: bool
  keep_factor :: u32
  keep_minimum :: u32

record buddy_stats =
  TotalMemSpace :: u64
  WM_TotalMemSpace :: u64
  StdMemSpace :: u64
  WM_StdMemSpace :: u64
  StdUsedSpace :: u64
  WM_StdUsedSpace :: u64
  StdPageSize :: u64
  NbStdPages :: u32
  NbStdUsed :: u32
  WM_NbStdUsed :: u32
  ExtraMemSpace :: u64
  WM_ExtraMemSpace :: u64
  MinExtraPageSize :: u64
  MaxExtraPageSize :: u64
  NbExtraPages :: u32
  WM_NbExtraPages :: u32

record buddy_context =
  initialized :: bool
  Config :: buddy_parameter
  Stats :: buddy_stats
  page_kSize :: nat
  MemDesc :: "nat \<Rightarrow> addr option"
  Errno :: nat
  ToBeFreed_list :: "addr option"
  destroy_pending :: bool

record buddy_mem =
  heap :: "addr \<Rightarrow> buddy_block"
  areas :: "(addr \<times> nat) list"
  answers :: "nat \<Rightarrow> addr option"
  ncalls :: nat
  bytes :: "addr \<Rightarrow> u8"

text \<open>The memory as the owner of one context sees it.\<close>

record buddy_state = buddy_mem +
  ctx :: buddy_context

definition MAGIC_NUMBER_FREE :: u32 where "MAGIC_NUMBER_FREE = 0xF4EEB10C"
definition MAGIC_NUMBER_USED :: u32 where "MAGIC_NUMBER_USED = 0x1D0BE1AE"

definition BUDDY_SUCCESS :: nat where "BUDDY_SUCCESS = 0"
definition BUDDY_ERR_MALLOC :: nat where "BUDDY_ERR_MALLOC = 12"
definition BUDDY_ERR_EFAULT :: nat where "BUDDY_ERR_EFAULT = 14"
definition BUDDY_ERR_INUSE :: nat where "BUDDY_ERR_INUSE = 16"
definition BUDDY_ERR_EINVAL :: nat where "BUDDY_ERR_EINVAL = 22"
definition BUDDY_ERR_OUTOFMEM :: nat where "BUDDY_ERR_OUTOFMEM = 10001"
definition BUDDY_ERR_NOTINIT :: nat where "BUDDY_ERR_NOTINIT = 20000"
definition BUDDY_ERR_ALREADYINIT :: nat where "BUDDY_ERR_ALREADYINIT = 20001"

text \<open>The sizes of a header (already a multiple of eight), of the links and of both.\<close>

definition header_size :: nat where "header_size = 48"
definition MIN_ALLOC_SIZE :: nat where "MIN_ALLOC_SIZE = 16"
definition block_size :: nat where "block_size = 64"

definition default_buddy_parameter :: buddy_parameter where
  "default_buddy_parameter = \<lparr>memory_area_size = 1048576, on_demand_alloc = True, extra_alloc = True,
     free_areas = True, keep_factor = 3, keep_minimum = 5\<rparr>"

subsection \<open>Memory\<close>

text \<open>\<open>1 << k\<close> of type \<open>int\<close>.\<close>

definition shl1 :: "nat \<Rightarrow> nat option" where
  "shl1 k = (if k < 31 then Some (2 ^ k) else None)"

definition valid_block :: "(addr \<times> nat) list \<Rightarrow> addr \<Rightarrow> bool" where
  "valid_block as a \<longleftrightarrow> list_ex (\<lambda>(b, n). b \<le> a \<and> a + block_size \<le> b + n) as"

definition load :: "'a buddy_mem_scheme \<Rightarrow> addr \<Rightarrow> buddy_block option" where
  "load s a = (if valid_block (areas s) a then Some (heap s a) else None)"

definition upd :: "'a buddy_mem_scheme \<Rightarrow> addr \<Rightarrow> (buddy_block \<Rightarrow> buddy_block) \<Rightarrow> 'a buddy_mem_scheme option" where
  "upd s a f = (if valid_block (areas s) a then Some (s\<lparr>heap := (heap s)(a := f (heap s a))\<rparr>) else None)"

definition malloc :: "'a buddy_mem_scheme \<Rightarrow> nat \<Rightarrow> addr option \<times> 'a buddy_mem_scheme" where
  "malloc s n =
     (case answers s (ncalls s) of
        None \<Rightarrow> (None, s\<lparr>ncalls := Suc (ncalls s)\<rparr>)
      | Some a \<Rightarrow> (Some a, s\<lparr>ncalls := Suc (ncalls s), areas := (a, n) # areas s\<rparr>))"

definition sys_free :: "'a buddy_mem_scheme \<Rightarrow> addr \<Rightarrow> 'a buddy_mem_scheme option" where
  "sys_free s a = (if a \<in> fst ` set (areas s) then Some (s\<lparr>areas := filter (\<lambda>(b, n). b \<noteq> a) (areas s)\<rparr>) else None)"

definition std_info :: "buddy_block \<Rightarrow> (nat \<times> nat) option" where
  "std_info b = (case BlockInfo (Header b) of StdInfo bk k \<Rightarrow> Some (bk, k) | ExtraInfo _ \<Rightarrow> None)"

definition set_k_size :: "nat \<Rightarrow> buddy_block \<Rightarrow> buddy_block" where
  "set_k_size k b = b\<lparr>Header := (Header b)\<lparr>BlockInfo := (case BlockInfo (Header b) of
     StdInfo bk _ \<Rightarrow> StdInfo bk k | ExtraInfo n \<Rightarrow> ExtraInfo n)\<rparr>\<rparr>"

definition set_desc :: "nat \<Rightarrow> addr option \<Rightarrow> buddy_state \<Rightarrow> buddy_state" where
  "set_desc k p s = s\<lparr>ctx := (ctx s)\<lparr>MemDesc := (MemDesc (ctx s))(k := p)\<rparr>\<rparr>"

definition set_errno :: "nat \<Rightarrow> buddy_state \<Rightarrow> buddy_state" where
  "set_errno e s = s\<lparr>ctx := (ctx s)\<lparr>Errno := e\<rparr>\<rparr>"

definition upd_stats :: "(buddy_stats \<Rightarrow> buddy_stats) \<Rightarrow> buddy_state \<Rightarrow> buddy_state" where
  "upd_stats f s = s\<lparr>ctx := (ctx s)\<lparr>Stats := f (Stats (ctx s))\<rparr>\<rparr>"

subsection \<open>Lists of free blocks\<close>

definition Insert_FreeBlock :: "buddy_state \<Rightarrow> addr \<Rightarrow> buddy_state option" where
  "Insert_FreeBlock s p_buddyblock = do {
     b \<leftarrow> load s p_buddyblock;
     (_, k) \<leftarrow> std_info b;
     if k \<ge> BUDDY_MAX_LOG2_SIZE then None
     else case MemDesc (ctx s) k of
       Some next \<Rightarrow> do {
         s1 \<leftarrow> upd (set_desc k (Some p_buddyblock) s) p_buddyblock (\<lambda>b. b\<lparr>NextBlock := Some next, PrevBlock := None\<rparr>);
         upd s1 next (\<lambda>b. b\<lparr>PrevBlock := Some p_buddyblock\<rparr>) }
     | None \<Rightarrow>
         upd (set_desc k (Some p_buddyblock) s) p_buddyblock (\<lambda>b. b\<lparr>NextBlock := None, PrevBlock := None\<rparr>) }"

definition Remove_FreeBlock :: "buddy_state \<Rightarrow> addr \<Rightarrow> buddy_state option" where
  "Remove_FreeBlock s p_buddyblock = do {
     b \<leftarrow> load s p_buddyblock;
     s1 \<leftarrow> (case PrevBlock b of
              Some prev \<Rightarrow> upd s prev (\<lambda>x. x\<lparr>NextBlock := NextBlock b\<rparr>)
            | None \<Rightarrow> do {
                (_, k) \<leftarrow> std_info b;
                if k \<ge> BUDDY_MAX_LOG2_SIZE then None else Some (set_desc k (NextBlock b) s) });
     s2 \<leftarrow> (case NextBlock b of
              Some next \<Rightarrow> upd s1 next (\<lambda>x. x\<lparr>PrevBlock := PrevBlock b\<rparr>)
            | None \<Rightarrow> Some s1);
     upd s2 p_buddyblock (\<lambda>x. x\<lparr>PrevBlock := None, NextBlock := None\<rparr>) }"

definition Get_BuddyBlock :: "buddy_state \<Rightarrow> addr \<Rightarrow> addr option" where
  "Get_BuddyBlock s p_buddyblock = do {
     b \<leftarrow> load s p_buddyblock;
     BaseAddr \<leftarrow> Base_ptr (Header b);
     (_, k) \<leftarrow> std_info b;
     bit \<leftarrow> shl1 k;
     if p_buddyblock < BaseAddr then None
     else Some (BaseAddr + ((p_buddyblock - BaseAddr) XOR bit)) }"

subsection \<open>Statistics\<close>

definition UpdateStats_InsertStdPage :: "buddy_stats \<Rightarrow> buddy_stats" where
  "UpdateStats_InsertStdPage st =
     (let t = TotalMemSpace st + StdPageSize st; m = StdMemSpace st + StdPageSize st
      in st\<lparr>TotalMemSpace := t, WM_TotalMemSpace := max t (WM_TotalMemSpace st),
            StdMemSpace := m, WM_StdMemSpace := max m (WM_StdMemSpace st), NbStdPages := NbStdPages st + 1\<rparr>)"

definition UpdateStats_RemoveStdPage :: "buddy_stats \<Rightarrow> buddy_stats" where
  "UpdateStats_RemoveStdPage st = st\<lparr>TotalMemSpace := TotalMemSpace st - StdPageSize st,
     StdMemSpace := StdMemSpace st - StdPageSize st, NbStdPages := NbStdPages st - 1\<rparr>"

definition UpdateStats_UseStdPage :: "buddy_stats \<Rightarrow> buddy_stats" where
  "UpdateStats_UseStdPage st =
     (let n = NbStdUsed st + 1 in st\<lparr>NbStdUsed := n, WM_NbStdUsed := max n (WM_NbStdUsed st)\<rparr>)"

definition UpdateStats_FreeStdPage :: "buddy_stats \<Rightarrow> buddy_stats" where
  "UpdateStats_FreeStdPage st = st\<lparr>NbStdUsed := NbStdUsed st - 1\<rparr>"

definition UpdateStats_UseStdMemSpace :: "u64 \<Rightarrow> buddy_stats \<Rightarrow> buddy_stats" where
  "UpdateStats_UseStdMemSpace amount st =
     (let n = StdUsedSpace st + amount in st\<lparr>StdUsedSpace := n, WM_StdUsedSpace := max n (WM_StdUsedSpace st)\<rparr>)"

definition UpdateStats_FreeStdMemSpace :: "u64 \<Rightarrow> buddy_stats \<Rightarrow> buddy_stats" where
  "UpdateStats_FreeStdMemSpace amount st = st\<lparr>StdUsedSpace := StdUsedSpace st - amount\<rparr>"

definition UpdateStats_AddExtraPage :: "u64 \<Rightarrow> buddy_stats \<Rightarrow> buddy_stats" where
  "UpdateStats_AddExtraPage alloc_size st =
     (let t = TotalMemSpace st + alloc_size; e = ExtraMemSpace st + alloc_size; n = NbExtraPages st + 1
      in st\<lparr>TotalMemSpace := t, WM_TotalMemSpace := max t (WM_TotalMemSpace st),
            ExtraMemSpace := e, WM_ExtraMemSpace := max e (WM_ExtraMemSpace st),
            MinExtraPageSize := (if MinExtraPageSize st > alloc_size \<or> MinExtraPageSize st = 0 then alloc_size else MinExtraPageSize st),
            MaxExtraPageSize := max alloc_size (MaxExtraPageSize st),
            NbExtraPages := n, WM_NbExtraPages := max n (WM_NbExtraPages st)\<rparr>)"

definition UpdateStats_RemoveExtraPage :: "u64 \<Rightarrow> buddy_stats \<Rightarrow> buddy_stats" where
  "UpdateStats_RemoveExtraPage alloc_size st = st\<lparr>TotalMemSpace := TotalMemSpace st - alloc_size,
     ExtraMemSpace := ExtraMemSpace st - alloc_size, NbExtraPages := NbExtraPages st - 1\<rparr>"

subsection \<open>Pages and large blocks\<close>

definition NewStdPage :: "buddy_state \<Rightarrow> (addr option \<times> buddy_state) option" where
  "NewStdPage s = do {
     let k = page_kSize (ctx s);
     allocation \<leftarrow> shl1 k;
     case malloc s allocation of
       (None, s1) \<Rightarrow> Some (None, s1)
     | (Some p_block, s1) \<Rightarrow> do {
         s2 \<leftarrow> upd s1 p_block (\<lambda>b. b\<lparr>Header := (Header b)\<lparr>Base_ptr := Some p_block, BlockInfo := StdInfo k k,
                status := FREE_BLOCK, MagicNumber := MAGIC_NUMBER_FREE\<rparr>\<rparr>);
         s3 \<leftarrow> Insert_FreeBlock s2 p_block;
         Some (Some p_block, upd_stats UpdateStats_InsertStdPage s3) } }"

definition Garbage_StdPages :: "buddy_state \<Rightarrow> addr \<Rightarrow> buddy_state option" where
  "Garbage_StdPages s p_last_free_block =
     (if \<not> free_areas (Config (ctx s)) then Some s
      else if NbStdPages (Stats (ctx s)) \<le> keep_minimum (Config (ctx s)) then Some s
      else if NbStdPages (Stats (ctx s)) \<le> keep_factor (Config (ctx s)) * NbStdUsed (Stats (ctx s)) then Some s
      else do {
        s1 \<leftarrow> Remove_FreeBlock s p_last_free_block;
        s2 \<leftarrow> sys_free s1 p_last_free_block;
        Some (upd_stats UpdateStats_RemoveStdPage s2) })"

text \<open>\<open>self\<close> is the calling thread and \<open>c\<close> the address of its context.\<close>

definition AllocLargeBlock :: "tid \<Rightarrow> addr \<Rightarrow> buddy_state \<Rightarrow> nat \<Rightarrow> (addr option \<times> buddy_state) option" where
  "AllocLargeBlock self c s Size =
     (let total_size = (Size + header_size) mod 2 ^ 64
      in if \<not> extra_alloc (Config (ctx s)) then Some (None, set_errno BUDDY_ERR_EINVAL s)
         else case malloc s total_size of
           (None, s1) \<Rightarrow> Some (None, set_errno BUDDY_ERR_MALLOC s1)
         | (Some p_block, s1) \<Rightarrow> do {
             s2 \<leftarrow> upd s1 p_block (\<lambda>b. b\<lparr>Header := \<lparr>Base_ptr = None, MagicNumber = MAGIC_NUMBER_USED, OwnerThread = self,
                    OwnerThreadContext = c, BlockInfo = ExtraInfo total_size, status = RESERVED_BLOCK\<rparr>\<rparr>);
             Some (Some (p_block + header_size), upd_stats (UpdateStats_AddExtraPage (of_nat total_size)) s2) })"

definition FreeLargeBlock :: "buddy_state \<Rightarrow> addr \<Rightarrow> buddy_state option" where
  "FreeLargeBlock s p_block = do {
     b \<leftarrow> load s p_block;
     if Base_ptr (Header b) \<noteq> None then Some s
     else case BlockInfo (Header b) of
       StdInfo _ _ \<Rightarrow> None
     | ExtraInfo page_size \<Rightarrow> do {
         s1 \<leftarrow> sys_free s p_block;
         Some (upd_stats (UpdateStats_RemoveExtraPage (of_nat page_size)) s1) } }"

subsection \<open>Release of a block\<close>

text \<open>The loop that merges a block with its free buddies.\<close>

partial_function (option) merge :: "buddy_state \<Rightarrow> addr \<Rightarrow> (addr \<times> buddy_state) option" where
  "merge s p_block_tmp = do {
     b \<leftarrow> load s p_block_tmp;
     (bk, k) \<leftarrow> std_info b;
     if k < bk then do {
       p_buddy \<leftarrow> Get_BuddyBlock s p_block_tmp;
       c \<leftarrow> load s p_buddy;
       if status (Header c) = RESERVED_BLOCK then Some (p_block_tmp, s)
       else do {
         (_, kc) \<leftarrow> std_info c;
         if kc \<noteq> k then Some (p_block_tmp, s)
         else do {
           s1 \<leftarrow> Remove_FreeBlock s p_buddy;
           let p' = (if p_buddy < p_block_tmp then p_buddy else p_block_tmp);
           s2 \<leftarrow> upd s1 p' (\<lambda>x. set_k_size (Suc k) x);
           merge s2 p' } } }
     else Some (p_block_tmp, s) }"

definition is_page :: "buddy_block \<Rightarrow> addr \<Rightarrow> bool" where
  "is_page b p \<longleftrightarrow> Base_ptr (Header b) = Some p \<and> (case BlockInfo (Header b) of StdInfo bk k \<Rightarrow> bk = k | ExtraInfo _ \<Rightarrow> False)"

definition buddy_free :: "buddy_state \<Rightarrow> addr \<Rightarrow> buddy_state option" where
  "buddy_free s p_block = do {
     b \<leftarrow> load s p_block;
     case Base_ptr (Header b) of
       None \<Rightarrow> FreeLargeBlock s p_block
     | Some base \<Rightarrow> do {
         (bk, k) \<leftarrow> std_info b;
         page \<leftarrow> shl1 bk;
         if p_block < base \<or> p_block > base + page then Some (set_errno BUDDY_ERR_EINVAL s)
         else do {
           s1 \<leftarrow> upd s p_block (\<lambda>x. x\<lparr>Header := (Header x)\<lparr>status := FREE_BLOCK, MagicNumber := MAGIC_NUMBER_FREE\<rparr>\<rparr>);
           amount \<leftarrow> shl1 k;
           (p_block_tmp, s2) \<leftarrow> merge (upd_stats (UpdateStats_FreeStdMemSpace (of_nat amount)) s1) p_block;
           s3 \<leftarrow> Insert_FreeBlock s2 p_block_tmp;
           t \<leftarrow> load s3 p_block_tmp;
           if is_page t p_block_tmp
           then let s4 = upd_stats UpdateStats_FreeStdPage s3
                in if free_areas (Config (ctx s4)) then Garbage_StdPages s4 p_block_tmp else Some s4
           else Some s3 } } }"

partial_function (option) CheckBlocksToBeFreed :: "buddy_state \<Rightarrow> buddy_state option" where
  "CheckBlocksToBeFreed s =
     (case ToBeFreed_list (ctx s) of
        None \<Rightarrow> Some s
      | Some p_block_to_free \<Rightarrow> do {
          b \<leftarrow> load s p_block_to_free;
          s1 \<leftarrow> buddy_free (s\<lparr>ctx := (ctx s)\<lparr>ToBeFreed_list := NextBlock b\<rparr>\<rparr>) p_block_to_free;
          CheckBlocksToBeFreed s1 })"

text \<open>The loop of \<open>TryContextCleanup\<close> that gives the free pages back.\<close>

partial_function (option) release_pages :: "buddy_state \<Rightarrow> (nat \<times> buddy_state) option" where
  "release_pages s =
     (case MemDesc (ctx s) (page_kSize (ctx s)) of
        None \<Rightarrow> Some (BUDDY_SUCCESS, s)
      | Some p_block \<Rightarrow> do {
          b \<leftarrow> load s p_block;
          if \<not> is_page b p_block then Some (BUDDY_ERR_EFAULT, s)
          else do {
            s1 \<leftarrow> Remove_FreeBlock s p_block;
            s2 \<leftarrow> sys_free s1 p_block;
            release_pages (upd_stats UpdateStats_RemoveStdPage s2) } })"

definition TryContextCleanup :: "buddy_state \<Rightarrow> (nat \<times> buddy_state) option" where
  "TryContextCleanup s = do {
     s1 \<leftarrow> CheckBlocksToBeFreed s;
     (rc, s2) \<leftarrow> release_pages s1;
     if rc \<noteq> BUDDY_SUCCESS then Some (rc, s2)
     else if list_ex (\<lambda>i. MemDesc (ctx s2) i \<noteq> None) [0..<BUDDY_MAX_LOG2_SIZE]
     then Some (BUDDY_ERR_INUSE, s2\<lparr>ctx := (ctx s2)\<lparr>destroy_pending := True\<rparr>\<rparr>)
     else Some (BUDDY_SUCCESS, s2) }"

subsection \<open>Allocation\<close>

text \<open>The search for the smallest size with a free block.\<close>

function find_desc :: "(nat \<Rightarrow> addr option) \<Rightarrow> nat \<Rightarrow> nat" where
  "find_desc d i = (if i < BUDDY_MAX_LOG2_SIZE \<and> d i = None then find_desc d (Suc i) else i)"
  by pat_completeness auto
termination
  by (relation "measure (\<lambda>(d, i). BUDDY_MAX_LOG2_SIZE - i)") auto

declare find_desc.simps [simp del]

text \<open>The loop that splits a block down to the wanted size.\<close>

partial_function (option) split :: "buddy_state \<Rightarrow> addr \<Rightarrow> nat \<Rightarrow> buddy_state option" where
  "split s p_block sizelog2 = do {
     b \<leftarrow> load s p_block;
     (bk, k) \<leftarrow> std_info b;
     if k > sizelog2 then do {
       s1 \<leftarrow> upd s p_block (set_k_size (k - 1));
       p_buddy \<leftarrow> Get_BuddyBlock s1 p_block;
       s2 \<leftarrow> upd s1 p_buddy (\<lambda>x. x\<lparr>Header := (Header x)\<lparr>Base_ptr := Base_ptr (Header b), BlockInfo := StdInfo bk (k - 1),
               status := FREE_BLOCK, MagicNumber := MAGIC_NUMBER_FREE\<rparr>\<rparr>);
       s3 \<leftarrow> Insert_FreeBlock s2 p_buddy;
       split s3 p_block sizelog2 }
     else Some s }"

datatype malloc_result = Exited | Returned "addr option"

definition size_log2 :: "nat \<Rightarrow> nat" where
  "size_log2 Size = (if Size < MIN_ALLOC_SIZE then Log2Ceil (MIN_ALLOC_SIZE + header_size)
     else Log2Ceil ((Size + header_size) mod 2 ^ 64))"

text \<open>\<open>reserve\<close> takes the free block that was found, \<open>find_block\<close> finds it or adds a page.\<close>

definition reserve :: "tid \<Rightarrow> addr \<Rightarrow> buddy_state \<Rightarrow> addr \<Rightarrow> nat \<Rightarrow> nat \<Rightarrow> buddy_state option" where
  "reserve self c s p_block sizelog2 allocation = do {
     s1 \<leftarrow> Remove_FreeBlock s p_block;
     b \<leftarrow> load s1 p_block;
     s2 \<leftarrow> split (if is_page b p_block then upd_stats UpdateStats_UseStdPage s1 else s1) p_block sizelog2;
     s3 \<leftarrow> upd s2 p_block (\<lambda>x. x\<lparr>Header := (Header x)\<lparr>status := RESERVED_BLOCK, MagicNumber := MAGIC_NUMBER_USED,
             OwnerThread := self, OwnerThreadContext := c\<rparr>\<rparr>);
     Some (upd_stats (UpdateStats_UseStdMemSpace (of_nat allocation)) s3) }"

definition find_block :: "bool \<Rightarrow> buddy_state \<Rightarrow> nat \<Rightarrow> ((malloc_result + addr) \<times> buddy_state) option" where
  "find_block do_exit_on_error s sizelog2 =
     (let i = find_desc (MemDesc (ctx s)) sizelog2
      in if i < BUDDY_MAX_LOG2_SIZE
         then (case MemDesc (ctx s) i of None \<Rightarrow> None | Some p_block \<Rightarrow> Some (Inr p_block, s))
         else if on_demand_alloc (Config (ctx s))
         then do {
           (r, s1) \<leftarrow> NewStdPage s;
           case r of
             Some p_block \<Rightarrow> Some (Inr p_block, s1)
           | None \<Rightarrow> Some (Inl (if do_exit_on_error then Exited else Returned None), set_errno BUDDY_ERR_MALLOC s1) }
         else if do_exit_on_error then Some (Inl Exited, s)
         else Some (Inl (Returned None), set_errno BUDDY_ERR_OUTOFMEM s))"

definition buddy_malloc :: "tid \<Rightarrow> addr \<Rightarrow> buddy_state \<Rightarrow> nat \<Rightarrow> bool \<Rightarrow> (malloc_result \<times> buddy_state) option" where
  "buddy_malloc self c s Size do_exit_on_error =
     (if \<not> initialized (ctx s) then Some (Returned None, set_errno BUDDY_ERR_NOTINIT s)
      else do {
        s \<leftarrow> CheckBlocksToBeFreed s;
        if Size = 0 then Some (Returned None, s)
        else do {
          let sizelog2 = size_log2 Size;
          allocation \<leftarrow> shl1 sizelog2;
          if allocation > 2 ^ page_kSize (ctx s)
          then if extra_alloc (Config (ctx s))
               then do { (r, s1) \<leftarrow> AllocLargeBlock self c s Size; Some (Returned r, s1) }
               else Some (if do_exit_on_error then Exited else Returned None, set_errno BUDDY_ERR_OUTOFMEM s)
          else do {
            (r, s1) \<leftarrow> find_block do_exit_on_error s sizelog2;
            case r of
              Inl e \<Rightarrow> Some (e, s1)
            | Inr p_block \<Rightarrow> do {
                s2 \<leftarrow> reserve self c s1 p_block sizelog2 allocation;
                Some (Returned (Some (p_block + header_size)), s2) } } } })"

subsection \<open>Threads\<close>

text \<open>\<open>contexts\<close> are the contexts that were allocated and not freed, \<open>thread_key\<close> the pointer that each thread holds.\<close>

record buddy_world = buddy_mem +
  contexts :: "addr \<Rightarrow> buddy_context option"
  thread_key :: "tid \<Rightarrow> addr option"

definition focus :: "buddy_world \<Rightarrow> buddy_context \<Rightarrow> buddy_state" where
  "focus w x = \<lparr>heap = heap w, areas = areas w, answers = answers w, ncalls = ncalls w, bytes = bytes w, ctx = x\<rparr>"

definition unfocus :: "buddy_world \<Rightarrow> addr \<Rightarrow> buddy_state \<Rightarrow> buddy_world" where
  "unfocus w c s = w\<lparr>heap := heap s, areas := areas s, answers := answers s, ncalls := ncalls s, bytes := bytes s,
     contexts := (contexts w)(c \<mapsto> ctx s)\<rparr>"

definition zero_stats :: buddy_stats where
  "zero_stats = \<lparr>TotalMemSpace = 0, WM_TotalMemSpace = 0, StdMemSpace = 0, WM_StdMemSpace = 0, StdUsedSpace = 0,
     WM_StdUsedSpace = 0, StdPageSize = 0, NbStdPages = 0, NbStdUsed = 0, WM_NbStdUsed = 0, ExtraMemSpace = 0,
     WM_ExtraMemSpace = 0, MinExtraPageSize = 0, MaxExtraPageSize = 0, NbExtraPages = 0, WM_NbExtraPages = 0\<rparr>"

definition zero_context :: buddy_context where
  "zero_context = \<lparr>initialized = False,
     Config = \<lparr>memory_area_size = 0, on_demand_alloc = False, extra_alloc = False, free_areas = False, keep_factor = 0, keep_minimum = 0\<rparr>,
     Stats = zero_stats, page_kSize = 0, MemDesc = (\<lambda>_. None), Errno = 0, ToBeFreed_list = None, destroy_pending = False\<rparr>"

definition sizeof_context :: nat where "sizeof_context = 992"

text \<open>The result is the address of the context; a pointer to a context that was freed is followed by the callers.\<close>

definition GetThreadContext :: "buddy_world \<Rightarrow> tid \<Rightarrow> addr option \<times> buddy_world" where
  "GetThreadContext w self =
     (case thread_key w self of
        Some c \<Rightarrow> (Some c, w)
      | None \<Rightarrow>
          (case malloc w sizeof_context of
             (None, w1) \<Rightarrow> (None, w1)
           | (Some c, w1) \<Rightarrow> (Some c, w1\<lparr>contexts := (contexts w1)(c \<mapsto> zero_context), thread_key := (thread_key w1)(self \<mapsto> c)\<rparr>)))"

text \<open>An operation of \<open>self\<close> on its context; \<open>d\<close> is its result without a context.\<close>

definition on_context :: "buddy_world \<Rightarrow> tid \<Rightarrow> 'r \<Rightarrow> (addr \<Rightarrow> buddy_state \<Rightarrow> ('r \<times> buddy_state) option) \<Rightarrow> ('r \<times> buddy_world) option" where
  "on_context w self d f =
     (case GetThreadContext w self of
        (None, w1) \<Rightarrow> Some (d, w1)
      | (Some c, w1) \<Rightarrow> do {
          x \<leftarrow> contexts w1 c;
          (r, s) \<leftarrow> f c (focus w1 x);
          Some (r, unfocus w1 c s) })"

definition init_context :: "buddy_parameter option \<Rightarrow> bool \<Rightarrow> buddy_state \<Rightarrow> (nat \<times> buddy_state) option" where
  "init_context p_buddy_init_info mutex_ok s =
     (if initialized (ctx s) then Some (BUDDY_ERR_ALREADYINIT, s)
      else
        let config = (case p_buddy_init_info of Some p \<Rightarrow> p | None \<Rightarrow> default_buddy_parameter);
            s1 = s\<lparr>ctx := (ctx s)\<lparr>Config := config\<rparr>\<rparr>;
            m = Log2Ceil (memory_area_size config)
        in if memory_area_size config \<le> header_size + MIN_ALLOC_SIZE then Some (BUDDY_ERR_EINVAL, s1)
           else if m = 0 then Some (BUDDY_ERR_EINVAL, s1)
           else do {
             page \<leftarrow> shl1 m;
             let c2 = (ctx s1)\<lparr>page_kSize := m, Errno := 0,
                   MemDesc := (\<lambda>i. if i < BUDDY_MAX_LOG2_SIZE then None else MemDesc (ctx s1) i),
                   Stats := zero_stats\<lparr>StdPageSize := of_nat page\<rparr>\<rparr>;
             if \<not> mutex_ok then Some (BUDDY_ERR_EINVAL, s1\<lparr>ctx := c2\<rparr>)
             else do {
               (r, s3) \<leftarrow> NewStdPage (s1\<lparr>ctx := c2\<lparr>ToBeFreed_list := None, destroy_pending := False, initialized := True\<rparr>\<rparr>);
               Some (if r = None then BUDDY_ERR_MALLOC else BUDDY_SUCCESS, s3) } })"

definition BuddyInit :: "buddy_world \<Rightarrow> tid \<Rightarrow> buddy_parameter option \<Rightarrow> bool \<Rightarrow> (nat \<times> buddy_world) option" where
  "BuddyInit w self p_buddy_init_info mutex_ok =
     on_context w self BUDDY_ERR_MALLOC (\<lambda>c. init_context p_buddy_init_info mutex_ok)"

definition BuddyMalloc :: "buddy_world \<Rightarrow> tid \<Rightarrow> nat \<Rightarrow> (malloc_result \<times> buddy_world) option" where
  "BuddyMalloc w self Size = on_context w self (Returned None) (\<lambda>c s. buddy_malloc self c s Size False)"

definition BuddyMallocExit :: "buddy_world \<Rightarrow> tid \<Rightarrow> nat \<Rightarrow> (malloc_result \<times> buddy_world) option" where
  "BuddyMallocExit w self Size = on_context w self (Returned None) (\<lambda>c s. buddy_malloc self c s Size True)"

text \<open>The checks of \<open>BuddyFree\<close> and \<open>BuddyCheck\<close> on the header of a block that is not free.\<close>

definition header_ok :: "buddy_header \<Rightarrow> bool" where
  "header_ok h = (case status h of
     FREE_BLOCK \<Rightarrow> False
   | RESERVED_BLOCK \<Rightarrow> MagicNumber h = MAGIC_NUMBER_USED
   | OTHER_STATUS \<Rightarrow> False)"

text \<open>A block of another thread goes to the list of its owner, whose context is cleaned up when it waits for that.\<close>

definition free_foreign :: "buddy_world \<Rightarrow> addr \<Rightarrow> buddy_header \<Rightarrow> buddy_world option" where
  "free_foreign w p_block h = do {
     let oc = OwnerThreadContext h;
     x \<leftarrow> contexts w oc;
     w1 \<leftarrow> upd w p_block (\<lambda>b. b\<lparr>NextBlock := ToBeFreed_list x\<rparr>);
     let x1 = x\<lparr>ToBeFreed_list := Some p_block\<rparr>;
     if destroy_pending x1 then do {
       (rc, s) \<leftarrow> TryContextCleanup (focus w1 x1);
       let w2 = unfocus w1 oc s;
       if rc = BUDDY_SUCCESS then do {
         w3 \<leftarrow> sys_free w2 oc;
         Some (w3\<lparr>contexts := (contexts w3)(oc := None)\<rparr>) }
       else Some w2 }
     else Some (w1\<lparr>contexts := (contexts w1)(oc \<mapsto> x1)\<rparr>) }"

definition BuddyFree :: "buddy_world \<Rightarrow> tid \<Rightarrow> addr option \<Rightarrow> buddy_world option" where
  "BuddyFree w self ptr =
     (case ptr of
        None \<Rightarrow> Some w
      | Some p \<Rightarrow>
          (case GetThreadContext w self of
             (None, w1) \<Rightarrow> Some w1
           | (Some c, w1) \<Rightarrow> do {
               x \<leftarrow> contexts w1 c;
               if \<not> initialized x then Some (unfocus w1 c (set_errno BUDDY_ERR_NOTINIT (focus w1 x)))
               else do {
                 let p_block = p - header_size;
                 b \<leftarrow> load w1 p_block;
                 if \<not> header_ok (Header b) then Some w1
                 else if OwnerThread (Header b) \<noteq> self then free_foreign w1 p_block (Header b)
                 else do {
                   s \<leftarrow> buddy_free (focus w1 x) p_block;
                   Some (unfocus w1 c s) } } }))"

text \<open>\<open>user_space\<close> is the size of a block without its header; copies beyond it are \<open>None\<close>.\<close>

definition user_space :: "buddy_block \<Rightarrow> nat option" where
  "user_space b =
     (if Base_ptr (Header b) = None
      then (case BlockInfo (Header b) of ExtraInfo n \<Rightarrow> Some (n - header_size) | StdInfo _ _ \<Rightarrow> None)
      else do { (_, k) \<leftarrow> std_info b; total \<leftarrow> shl1 k; Some (total - header_size) })"

definition in_user_space :: "'a buddy_mem_scheme \<Rightarrow> addr \<Rightarrow> nat \<Rightarrow> bool" where
  "in_user_space w p n = (case Option.bind (load w (p - header_size)) user_space of None \<Rightarrow> False | Some u \<Rightarrow> n \<le> u)"

definition memcpy :: "'a buddy_mem_scheme \<Rightarrow> addr \<Rightarrow> addr \<Rightarrow> nat \<Rightarrow> 'a buddy_mem_scheme option" where
  "memcpy w dst src n =
     (if in_user_space w dst n \<and> in_user_space w src n
      then Some (w\<lparr>bytes := (\<lambda>a. if dst \<le> a \<and> a < dst + n then bytes w (src + (a - dst)) else bytes w a)\<rparr>)
      else None)"

definition memset0 :: "'a buddy_mem_scheme \<Rightarrow> addr \<Rightarrow> nat \<Rightarrow> 'a buddy_mem_scheme option" where
  "memset0 w dst n =
     (if in_user_space w dst n
      then Some (w\<lparr>bytes := (\<lambda>a. if dst \<le> a \<and> a < dst + n then 0 else bytes w a)\<rparr>)
      else None)"

definition BuddyRealloc :: "buddy_world \<Rightarrow> tid \<Rightarrow> addr option \<Rightarrow> nat \<Rightarrow> (addr option \<times> buddy_world) option" where
  "BuddyRealloc w self ptr Size =
     (case ptr of
        None \<Rightarrow> do { (r, w1) \<leftarrow> BuddyMalloc w self Size; case r of Exited \<Rightarrow> None | Returned q \<Rightarrow> Some (q, w1) }
      | Some p \<Rightarrow>
          if Size = 0 then do { w1 \<leftarrow> BuddyFree w self ptr; Some (None, w1) }
          else case GetThreadContext w self of
            (None, w1) \<Rightarrow> Some (None, w1)
          | (Some c, w1) \<Rightarrow> do {
              x \<leftarrow> contexts w1 c;
              if \<not> initialized x then Some (None, unfocus w1 c (set_errno BUDDY_ERR_NOTINIT (focus w1 x)))
              else do {
                b \<leftarrow> load w1 (p - header_size);
                if status (Header b) \<noteq> RESERVED_BLOCK
                then Some (None, unfocus w1 c (set_errno BUDDY_ERR_EINVAL (focus w1 x)))
                else do {
                  (r, w2) \<leftarrow> BuddyMalloc w1 self Size;
                  case r of
                    Exited \<Rightarrow> None
                  | Returned None \<Rightarrow> Some (None, w2)
                  | Returned (Some new_ptr) \<Rightarrow> do {
                      b2 \<leftarrow> load w2 (p - header_size);
                      n \<leftarrow> user_space b2;
                      w3 \<leftarrow> memcpy w2 new_ptr p n;
                      w4 \<leftarrow> BuddyFree w3 self ptr;
                      Some (Some new_ptr, w4) } } } })"

definition BuddyCalloc :: "buddy_world \<Rightarrow> tid \<Rightarrow> nat \<Rightarrow> nat \<Rightarrow> (addr option \<times> buddy_world) option" where
  "BuddyCalloc w self NumberOfElements ElementSize = do {
     let n = (NumberOfElements * ElementSize) mod 2 ^ 64;
     (r, w1) \<leftarrow> BuddyMalloc w self n;
     case r of
       Exited \<Rightarrow> None
     | Returned None \<Rightarrow> Some (None, w1)
     | Returned (Some ptr) \<Rightarrow> do { w2 \<leftarrow> memset0 w1 ptr n; Some (Some ptr, w2) } }"

text \<open>The pointer of the thread to its context is kept when the context is freed.\<close>

definition BuddyDestroy :: "buddy_world \<Rightarrow> tid \<Rightarrow> (nat \<times> buddy_world) option" where
  "BuddyDestroy w self =
     (case GetThreadContext w self of
        (None, w1) \<Rightarrow> Some (BUDDY_ERR_EINVAL, w1)
      | (Some c, w1) \<Rightarrow> do {
          x \<leftarrow> contexts w1 c;
          if \<not> initialized x then Some (BUDDY_ERR_NOTINIT, w1)
          else do {
            (rc, s) \<leftarrow> TryContextCleanup (focus w1 x);
            let w2 = unfocus w1 c s;
            if rc \<noteq> BUDDY_SUCCESS then Some (rc, w2)
            else do {
              w3 \<leftarrow> sys_free w2 c;
              Some (BUDDY_SUCCESS, w3\<lparr>contexts := (contexts w3)(c := None)\<rparr>) } } })"

definition BuddyGetStats :: "buddy_world \<Rightarrow> tid \<Rightarrow> (buddy_stats option \<times> buddy_world) option" where
  "BuddyGetStats w self = on_context w self None (\<lambda>c s. Some (Some (Stats (ctx s)), s))"

definition BuddyCheck :: "buddy_world \<Rightarrow> tid \<Rightarrow> addr option \<Rightarrow> (bool \<times> buddy_world) option" where
  "BuddyCheck w self ptr =
     (case ptr of
        None \<Rightarrow> Some (False, w)
      | Some p \<Rightarrow> on_context w self False (\<lambda>c s.
          if \<not> initialized (ctx s) then Some (False, set_errno BUDDY_ERR_NOTINIT s)
          else do {
            let p_block = p - header_size;
            b \<leftarrow> load s p_block;
            if \<not> header_ok (Header b) then Some (False, s)
            else if OwnerThread (Header b) \<noteq> self then Some (False, s)
            else case Base_ptr (Header b) of
              None \<Rightarrow> Some (True, s)
            | Some base \<Rightarrow> do {
                (bk, _) \<leftarrow> std_info b;
                page \<leftarrow> shl1 bk;
                if p_block < base \<or> p_block > base + page then Some (False, set_errno BUDDY_ERR_EINVAL s)
                else Some (True, s) } }))"

end
