(* ===== verification/Buddy_Inv.thy ===== *)
theory Buddy_Inv
  imports Buddy_Alloc
begin

text \<open>
  Correctness of the buddy allocator.  The blocks of a context tile its pages: the free blocks \<open>F k\<close> of each size, the used
  blocks \<open>R\<close> and, inside an operation, blocks \<open>L\<close> that are in no list.  \<open>buddy_inv\<close> says that these blocks lie in the pages \<open>P\<close>,
  aligned to their size, do not overlap and leave no gap, that the headers and the linked lists agree with
  them, and that no two free blocks are buddies.
\<close>

subsection \<open>Addresses of buddies\<close>

lemma xor_pow2:
  fixes off :: nat
  assumes "2 ^ k dvd off"
  shows "off XOR 2 ^ k = (if 2 ^ Suc k dvd off then off + 2 ^ k else off - 2 ^ k)"
proof -
  obtain m where m: "off = 2 ^ k * m" using assms by (auto elim: dvdE)
  have off: "off = push_bit k m" by (simp add: m push_bit_eq_mult mult.commute)
  have "push_bit k m XOR push_bit k 1 = push_bit k (m XOR 1)" by (simp only: push_bit_xor)
  then have "off XOR 2 ^ k = push_bit k (m XOR 1)" by (simp only: off push_bit_of_1 push_bit_eq_mult mult_1)
  also have "m XOR 1 = (if even m then m + 1 else m - 1)" by (simp add: xor_Suc_0_eq)
  also have "push_bit k (if even m then m + 1 else m - 1) = (if even m then off + 2 ^ k else off - 2 ^ k)"
    by (simp add: m push_bit_eq_mult algebra_simps)
  also have "even m \<longleftrightarrow> 2 ^ Suc k dvd off" by (simp add: m mult.commute [of 2])
  finally show ?thesis .
qed

definition buddy_of :: "addr \<Rightarrow> nat \<Rightarrow> addr \<Rightarrow> addr" where
  "buddy_of b k a = b + ((a - b) XOR 2 ^ k)"

definition in_page :: "nat \<Rightarrow> addr \<Rightarrow> addr \<times> nat \<Rightarrow> bool" where
  "in_page K b x \<longleftrightarrow> b \<le> fst x \<and> fst x + 2 ^ snd x \<le> b + 2 ^ K \<and> 2 ^ snd x dvd fst x - b \<and> 6 \<le> snd x \<and> snd x \<le> K"

definition span :: "addr \<times> nat \<Rightarrow> nat set" where
  "span x = {fst x ..< fst x + 2 ^ snd x}"

lemma fst_in_span [simp]: "a \<in> span (a, k)" by (simp add: span_def)

lemma in_page_span: "in_page K b x \<Longrightarrow> span x \<subseteq> {b ..< b + 2 ^ K}" by (auto simp: in_page_def span_def)

lemma buddy_cases:
  assumes "in_page K b (p, k)" and "k < K"
  obtains (left) "2 ^ Suc k dvd p - b" "buddy_of b k p = p + 2 ^ k" "p + 2 ^ Suc k \<le> b + 2 ^ K"
  | (right) "2 ^ Suc k dvd p - 2 ^ k - b" "buddy_of b k p = p - 2 ^ k" "b + 2 ^ k \<le> p"
proof -
  have le: "b \<le> p" and fit: "p + 2 ^ k \<le> b + 2 ^ K" and dv: "2 ^ k dvd p - b" using assms(1) by (auto simp: in_page_def)
  obtain m where m: "p - b = 2 ^ k * m" using dv by (auto elim: dvdE)
  have K: "(2 :: nat) ^ K = 2 ^ k * (2 * 2 ^ (K - Suc k))"
    using assms(2) by (simp flip: power_Suc power_add)
  show thesis
  proof (cases "even m")
    case True
    have "2 ^ k * (m + 1) \<le> 2 ^ k * (2 * 2 ^ (K - Suc k))" using fit le m K by (simp add: algebra_simps)
    then have "m + 1 \<le> 2 * 2 ^ (K - Suc k)" by (simp only: mult_le_cancel1) simp
    then have "m + 2 \<le> 2 * 2 ^ (K - Suc k)" using True by presburger
    then have "2 ^ k * (m + 2) \<le> 2 ^ K" unfolding K by (rule mult_le_mono2)
    then have "p + 2 ^ Suc k \<le> b + 2 ^ K" using m le by (simp add: algebra_simps)
    moreover have "2 ^ Suc k dvd p - b" using True by (simp add: m mult.commute [of 2])
    moreover from this have "buddy_of b k p = p + 2 ^ k" using xor_pow2 [OF dv] le by (simp add: buddy_of_def)
    ultimately show thesis by (rule left [rotated -1])
  next
    case False
    then obtain n where n: "m = 2 * n + 1" by (auto elim: oddE)
    have pb: "p - b = 2 ^ Suc k * n + 2 ^ k" using m n by (simp add: algebra_simps)
    then have ge: "b + 2 ^ k \<le> p" using le by linarith
    have "2 ^ Suc k dvd p - 2 ^ k - b" using pb by (metis add_diff_cancel_right' diff_right_commute dvd_triv_left)
    moreover have "\<not> 2 ^ Suc k dvd p - b" using False by (simp add: m mult.commute [of 2])
    then have "buddy_of b k p = p - 2 ^ k" using xor_pow2 [OF dv] ge by (simp add: buddy_of_def)
    ultimately show thesis using ge by (rule right)
  qed
qed

lemma dvd_add_pow2: "(2 :: nat) ^ k dvd a \<Longrightarrow> 2 ^ k dvd a + 2 ^ k" by simp

lemma pow2_Suc_dvd: "(2 :: nat) ^ Suc k dvd a \<Longrightarrow> 2 ^ k dvd a" by (simp add: dvd_mult_right)

lemma buddy_pair:
  assumes "in_page K b (p, k)" and "k < K"
  defines "q \<equiv> buddy_of b k p"
  shows "in_page K b (q, k)" "in_page K b (min p q, Suc k)" "span (min p q, Suc k) = span (p, k) \<union> span (q, k)"
    "span (p, k) \<inter> span (q, k) = {}" "q \<noteq> p" "buddy_of b k q = p"
proof -
  have ip: "b \<le> p" "p + 2 ^ k \<le> b + 2 ^ K" "2 ^ k dvd p - b" "6 \<le> k" using assms(1) by (auto simp: in_page_def)
  have "in_page K b (q, k) \<and> in_page K b (min p q, Suc k) \<and> span (min p q, Suc k) = span (p, k) \<union> span (q, k)
    \<and> span (p, k) \<inter> span (q, k) = {} \<and> q \<noteq> p \<and> buddy_of b k q = p"
    using assms(1,2)
  proof (cases rule: buddy_cases)
    case left
    have qb: "q - b = p - b + 2 ^ k" using left(2) ip(1) by (simp add: q_def)
    have "in_page K b (q, k)" using left ip assms(2) dvd_add_pow2 [OF ip(3)] unfolding in_page_def fst_conv snd_conv qb by (simp add: q_def)
    moreover have "in_page K b (min p q, Suc k)" using left ip assms(2) by (simp add: in_page_def q_def)
    moreover have "buddy_of b k q = p"
    proof -
      have "\<not> 2 ^ Suc k dvd p - b + 2 ^ k" using left(1) by (auto dest: dvd_imp_le simp: dvd_add_right_iff)
      then show ?thesis using ip(1) xor_pow2 [OF dvd_add_pow2 [OF ip(3)]] unfolding buddy_of_def qb by simp
    qed
    ultimately show ?thesis using left by (auto simp: span_def q_def)
  next
    case right
    have ge: "2 ^ k \<le> p" using right(3) by simp
    have "2 ^ k dvd p - 2 ^ k - b" using right(1) by (rule pow2_Suc_dvd)
    then have "in_page K b (q, k)" using right ip assms(2) by (simp add: in_page_def q_def)
    moreover have mn: "min p q = p - 2 ^ k" using right(2) by (simp add: q_def)
    have "in_page K b (min p q, Suc k)" unfolding mn using right ip assms(2) by (simp add: in_page_def)
    moreover have "buddy_of b k q = p"
      using right ip xor_pow2 [OF \<open>2 ^ k dvd p - 2 ^ k - b\<close>] by (simp add: buddy_of_def q_def)
    moreover have "p - 2 ^ k \<noteq> p" using ge zero_less_power [of "2 :: nat" k] by linarith
    ultimately show ?thesis using right(2) ge unfolding mn by (auto simp: span_def q_def)
  qed
  then show "in_page K b (q, k)" "in_page K b (min p q, Suc k)" "span (min p q, Suc k) = span (p, k) \<union> span (q, k)"
    "span (p, k) \<inter> span (q, k) = {}" "q \<noteq> p" "buddy_of b k q = p" by simp_all
qed

subsection \<open>Tilings\<close>

definition tiling :: "nat \<Rightarrow> addr set \<Rightarrow> (addr \<times> nat) set \<Rightarrow> bool" where
  "tiling K P B \<longleftrightarrow> (\<forall>x\<in>B. \<exists>b\<in>P. in_page K b x) \<and> (\<forall>x\<in>B. \<forall>y\<in>B. x \<noteq> y \<longrightarrow> span x \<inter> span y = {})
     \<and> \<Union> (span ` B) = (\<Union>b\<in>P. {b ..< b + 2 ^ K})
     \<and> (\<forall>b\<in>P. \<forall>c\<in>P. b \<noteq> c \<longrightarrow> {b ..< b + 2 ^ K} \<inter> {c ..< c + 2 ^ K} = {})"

lemma tiling_unique: "tiling K P B \<Longrightarrow> x \<in> B \<Longrightarrow> y \<in> B \<Longrightarrow> a \<in> span x \<Longrightarrow> a \<in> span y \<Longrightarrow> x = y"
  unfolding tiling_def by (metis IntI emptyE)

lemma tiling_disjoint: "tiling K P B \<Longrightarrow> x \<in> B \<Longrightarrow> y \<in> B \<Longrightarrow> x \<noteq> y \<Longrightarrow> span x \<inter> span y = {}"
  unfolding tiling_def by (elim conjE) simp

lemma tiling_in_page: "tiling K P B \<Longrightarrow> x \<in> B \<Longrightarrow> \<exists>b\<in>P. in_page K b x"
  unfolding tiling_def by (elim conjE) simp

lemma tiling_pages: "tiling K P B \<Longrightarrow> b \<in> P \<Longrightarrow> c \<in> P \<Longrightarrow> b \<noteq> c \<Longrightarrow> {b ..< b + 2 ^ K} \<inter> {c ..< c + 2 ^ K} = {}"
  unfolding tiling_def by (elim conjE) simp

lemma tiling_same_start: "tiling K P B \<Longrightarrow> (a, k) \<in> B \<Longrightarrow> (a, j) \<in> B \<Longrightarrow> k = j"
  using tiling_unique [of K P B "(a, k)" "(a, j)" a] by simp

lemma tiling_replace:
  assumes t: "tiling K P B" and A: "A \<subseteq> B" and C: "\<forall>x\<in>C. \<exists>b\<in>P. in_page K b x"
    and s: "\<Union> (span ` C) = \<Union> (span ` A)" and d: "\<forall>x\<in>C. \<forall>y\<in>C. x \<noteq> y \<longrightarrow> span x \<inter> span y = {}"
  shows "tiling K P (B - A \<union> C)"
proof -
  have Bd: "span x \<inter> span y = {}" if "x \<in> B" "y \<in> B" "x \<noteq> y" for x y using t that by (auto simp: tiling_def)
  have cross: "span x \<inter> span y = {}" if "x \<in> C" "y \<in> B - A" for x y
  proof -
    have "span y \<inter> \<Union> (span ` A) = {}" using Bd [of y] that A by blast
    moreover have "span x \<subseteq> \<Union> (span ` A)" using that s by blast
    ultimately show ?thesis by blast
  qed
  have "\<Union> (span ` (B - A \<union> C)) = \<Union> (span ` B)" using s A by blast
  moreover have "span x \<inter> span y = {}" if "x \<in> B - A \<union> C" "y \<in> B - A \<union> C" "x \<noteq> y" for x y
    using that cross [of x y] cross [of y x] d Bd [of x y] by blast
  moreover have "\<exists>b\<in>P. in_page K b x" if "x \<in> B - A \<union> C" for x using that t C by (auto simp: tiling_def)
  ultimately show ?thesis using t unfolding tiling_def by (intro conjI ballI impI) simp_all
qed

lemma tiling_join:
  assumes "tiling K P B" and "(p, k) \<in> B" and "(q, k) \<in> B" and "b \<in> P" and "in_page K b (p, k)" and "k < K"
    and "q = buddy_of b k p"
  shows "tiling K P (B - {(p, k), (q, k)} \<union> {(min p q, Suc k)})"
  using assms buddy_pair [OF assms(5,6)] by (intro tiling_replace) auto

lemma tiling_cut:
  assumes "tiling K P B" and "(p, Suc k) \<in> B" and "b \<in> P" and "in_page K b (p, k)" and "in_page K b (p, Suc k)"
  shows "tiling K P (B - {(p, Suc k)} \<union> {(p, k), (buddy_of b k p, k)}) \<and> buddy_of b k p = p + 2 ^ k"
proof -
  have k: "k < K" using assms(5) by (simp add: in_page_def)
  have "2 ^ Suc k dvd p - b" using assms(5) by (simp add: in_page_def)
  then have q: "buddy_of b k p = p + 2 ^ k" using xor_pow2 [of k "p - b"] assms(4) by (simp add: buddy_of_def in_page_def)
  then have m: "min p (buddy_of b k p) = p" by simp
  note B = buddy_pair [OF assms(4) k, unfolded m]
  have "\<Union> (span ` {(p, k), (buddy_of b k p, k)}) = \<Union> (span ` {(p, Suc k)})" using B(3) by simp
  then have "tiling K P (B - {(p, Suc k)} \<union> {(p, k), (buddy_of b k p, k)})"
    using assms B(1,4) by (intro tiling_replace) auto
  then show ?thesis using q by simp
qed

text \<open>Two blocks of a page that meet are nested.\<close>

lemma laminar:
  assumes "in_page K b x" and "in_page K b y" and "snd x \<le> snd y" and "a \<in> span x" and "a \<in> span y"
  shows "span x \<subseteq> span y"
proof -
  let ?i = "snd x" let ?e = "(2 :: nat) ^ (snd y - snd x)"
  have ge: "b \<le> fst x" "b \<le> fst y" using assms(1,2) by (auto simp: in_page_def)
  have pw: "(2 :: nat) ^ snd y = 2 ^ ?i * ?e" using assms(3) by (simp flip: power_add)
  obtain m where m: "fst x - b = 2 ^ ?i * m" using assms(1) by (auto simp: in_page_def elim: dvdE)
  have "2 ^ ?i dvd fst y - b" using assms(2,3) by (auto simp: in_page_def intro: dvd_trans le_imp_power_dvd)
  then obtain n where n: "fst y - b = 2 ^ ?i * n" by (auto elim: dvdE)
  have x: "fst x = b + 2 ^ ?i * m" and y: "fst y = b + 2 ^ ?i * n" using m n ge by auto
  have "2 ^ ?i * m < 2 ^ ?i * (n + ?e)" "2 ^ ?i * n < 2 ^ ?i * (m + 1)"
    using assms(4,5) unfolding span_def x y pw by (auto simp: algebra_simps)
  then have "m < n + ?e" "n < m + 1" by (simp_all only: mult_less_cancel1)
  then have "n \<le> m" "m + 1 \<le> n + ?e" by simp_all
  then have "2 ^ ?i * n \<le> 2 ^ ?i * m" "2 ^ ?i * (m + 1) \<le> 2 ^ ?i * (n + ?e)" by (simp_all only: mult_le_mono2)
  then show ?thesis unfolding span_def x y pw by (auto simp: algebra_simps)
qed

text \<open>The buddy of a block is a block or the first of the blocks that it is split into.\<close>

lemma buddy_is_block:
  assumes t: "tiling K P B" and p: "(p, k) \<in> B" and b: "b \<in> P" "in_page K b (p, k)" and k: "k < K"
  obtains j where "(buddy_of b k p, j) \<in> B" "j \<le> k" "in_page K b (buddy_of b k p, j)"
proof -
  let ?q = "buddy_of b k p"
  note pair = buddy_pair [OF b(2) k]
  have "?q \<in> (\<Union>b\<in>P. {b ..< b + 2 ^ K})"
    using in_page_span [OF pair(1)] b(1) by force
  then have "?q \<in> \<Union> (span ` B)" using t by (simp add: tiling_def)
  then obtain c j where cj: "(c, j) \<in> B" "?q \<in> span (c, j)" by auto
  obtain b' where b': "b' \<in> P" "in_page K b' (c, j)" using t cj(1) by (auto simp: tiling_def)
  have "b' = b"
  proof (rule ccontr)
    assume "b' \<noteq> b"
    then have "{b' ..< b' + 2 ^ K} \<inter> {b ..< b + 2 ^ K} = {}" using t b(1) b'(1) by (auto simp: tiling_def)
    moreover have "?q \<in> {b' ..< b' + 2 ^ K}" using in_page_span [OF b'(2)] cj(2) by blast
    moreover have "?q \<in> {b ..< b + 2 ^ K}" using in_page_span [OF pair(1)] by force
    ultimately show False by blast
  qed
  note b' = b' [unfolded this]
  have jk: "j \<le> k"
  proof (rule ccontr)
    assume "\<not> j \<le> k"
    then have "span (min p ?q, Suc k) \<subseteq> span (c, j)"
      using cj(2) pair(3) by (intro laminar [OF pair(2) b'(2), of ?q]) auto
    then have "p \<in> span (c, j)" using pair(3) by auto
    then have "(p, k) = (c, j)" using tiling_unique [OF t p cj(1), of p] by simp
    then show False using \<open>\<not> j \<le> k\<close> by simp
  qed
  then have "span (c, j) \<subseteq> span (?q, k)" using cj(2) by (intro laminar [OF b'(2) pair(1), of ?q]) auto
  then have "c = ?q" using cj(2) fst_in_span [of c j] by (auto simp: span_def)
  then show thesis using that cj(1) jk b'(2) by simp
qed

subsection \<open>Linked lists of free blocks\<close>

definition lfirst :: "addr list \<Rightarrow> addr option \<Rightarrow> addr option" where
  "lfirst xs d = (case xs of [] \<Rightarrow> d | a # _ \<Rightarrow> Some a)"

definition lfinal :: "addr list \<Rightarrow> addr option \<Rightarrow> addr option" where
  "lfinal xs d = (if xs = [] then d else Some (last xs))"

lemma lfirst_simps [simp]: "lfirst [] d = d" "lfirst (a # xs) d = Some a" "lfinal [] d = d" "lfinal (a # xs) d = lfinal xs (Some a)"
  by (auto simp: lfirst_def lfinal_def)

fun fseg :: "(addr \<Rightarrow> buddy_block) \<Rightarrow> addr option \<Rightarrow> addr list \<Rightarrow> addr option \<Rightarrow> bool" where
  "fseg h pr [] nx = True"
| "fseg h pr (a # xs) nx = (PrevBlock (h a) = pr \<and> NextBlock (h a) = lfirst xs nx \<and> fseg h (Some a) xs nx)"

lemma fseg_append: "fseg h pr (xs @ ys) nx \<longleftrightarrow> fseg h pr xs (lfirst ys nx) \<and> fseg h (lfinal xs pr) ys nx"
  by (induction xs arbitrary: pr) (auto simp: lfirst_def split: list.splits)

lemma fseg_cong:
  "\<forall>a\<in>set xs. PrevBlock (h' a) = PrevBlock (h a) \<and> NextBlock (h' a) = NextBlock (h a) \<Longrightarrow> fseg h' pr xs nx = fseg h pr xs nx"
  by (induction xs arbitrary: pr) auto

lemma fseg_new_next:
  assumes "fseg h pr xs nx" and "distinct xs"
    and "\<forall>a\<in>set xs. PrevBlock (h' a) = PrevBlock (h a) \<and> NextBlock (h' a) = (if a = last xs then nx' else NextBlock (h a))"
  shows "fseg h' pr xs nx'"
  using assms
proof (induction xs arbitrary: pr)
  case (Cons a xs)
  show ?case
  proof (cases "xs = []")
    case True
    then show ?thesis using Cons.prems by simp
  next
    case False
    then have "a \<noteq> last xs" using Cons.prems(2) by auto
    moreover have "lfirst xs nx' = lfirst xs nx" using False by (simp add: lfirst_def split: list.splits)
    moreover have "fseg h' (Some a) xs nx'" using Cons False by simp
    ultimately show ?thesis using Cons.prems False by simp
  qed
qed simp

lemma fseg_new_prev:
  assumes "fseg h pr xs nx" and "distinct xs"
    and "\<forall>a\<in>set xs. NextBlock (h' a) = NextBlock (h a) \<and> PrevBlock (h' a) = (if a = hd xs then pr' else PrevBlock (h a))"
  shows "fseg h' pr' xs nx"
proof (cases xs)
  case (Cons a ys)
  then have "fseg h' (Some a) ys nx = fseg h (Some a) ys nx" using assms by (intro fseg_cong) auto
  then show ?thesis using Cons assms by simp
qed simp

definition flist :: "(addr \<Rightarrow> buddy_block) \<Rightarrow> addr option \<Rightarrow> addr list \<Rightarrow> bool" where
  "flist h d xs \<longleftrightarrow> d = lfirst xs None \<and> distinct xs \<and> fseg h None xs None"

text \<open>The heap after the two neighbours of a block are linked with each other, and after a block is put in front of a list.\<close>

definition unlink :: "(addr \<Rightarrow> buddy_block) \<Rightarrow> addr \<Rightarrow> addr \<Rightarrow> buddy_block" where
  "unlink h p =
     (let h1 = (case PrevBlock (h p) of None \<Rightarrow> h | Some a \<Rightarrow> h(a := (h a)\<lparr>NextBlock := NextBlock (h p)\<rparr>));
          h2 = (case NextBlock (h p) of None \<Rightarrow> h1 | Some n \<Rightarrow> h1(n := (h1 n)\<lparr>PrevBlock := PrevBlock (h p)\<rparr>))
      in h2(p := (h2 p)\<lparr>PrevBlock := None, NextBlock := None\<rparr>))"

definition link :: "(addr \<Rightarrow> buddy_block) \<Rightarrow> addr \<Rightarrow> addr option \<Rightarrow> addr \<Rightarrow> buddy_block" where
  "link h p d =
     (let h1 = h(p := (h p)\<lparr>NextBlock := d, PrevBlock := None\<rparr>)
      in case d of None \<Rightarrow> h1 | Some n \<Rightarrow> h1(n := (h1 n)\<lparr>PrevBlock := Some p\<rparr>))"

lemma unlink_fields:
  "Header (unlink h p a) = Header (h a)"
  "a \<noteq> p \<Longrightarrow> NextBlock (unlink h p a) = (if PrevBlock (h p) = Some a then NextBlock (h p) else NextBlock (h a))"
  "a \<noteq> p \<Longrightarrow> PrevBlock (unlink h p a) = (if NextBlock (h p) = Some a then PrevBlock (h p) else PrevBlock (h a))"
  by (auto simp: unlink_def Let_def split: option.splits)

lemma link_fields:
  "Header (link h p d a) = Header (h a)"
  "d \<noteq> Some p \<Longrightarrow> NextBlock (link h p d a) = (if a = p then d else NextBlock (h a))"
  "d \<noteq> Some p \<Longrightarrow> PrevBlock (link h p d a) = (if a = p then None else if d = Some a then Some p else PrevBlock (h a))"
  by (auto simp: link_def Let_def split: option.splits)

lemma unlink_other: "a \<noteq> p \<Longrightarrow> PrevBlock (h p) \<noteq> Some a \<Longrightarrow> NextBlock (h p) \<noteq> Some a \<Longrightarrow> unlink h p a = h a"
  by (auto simp: unlink_def Let_def split: option.splits)

lemma link_other: "a \<noteq> p \<Longrightarrow> d \<noteq> Some a \<Longrightarrow> link h p d a = h a"
  by (auto simp: link_def Let_def split: option.splits)

lemma lfirst_Some_in: "lfirst xs None = Some a \<Longrightarrow> a \<in> set xs" by (cases xs) auto

lemma lfinal_Some_in: "lfinal xs None = Some a \<Longrightarrow> a \<in> set xs" by (auto simp: lfinal_def split: if_splits)

lemma flist_links:
  assumes "flist h d (ys @ p # zs)"
  shows "PrevBlock (h p) = lfinal ys None" "NextBlock (h p) = lfirst zs None"
  using assms by (auto simp: flist_def fseg_append)

lemma flist_unlink:
  assumes "flist h d (ys @ p # zs)"
  shows "flist (unlink h p) (if ys = [] then lfirst zs None else d) (ys @ zs)"
proof -
  have d: "distinct (ys @ p # zs)" "fseg h None ys (Some p)" "fseg h (Some p) zs None" "d = lfirst (ys @ p # zs) None"
    using assms by (auto simp: flist_def fseg_append)
  note L = flist_links [OF assms]
  have "fseg (unlink h p) None ys (lfirst zs None)"
  proof (rule fseg_new_next [OF d(2)])
    show "\<forall>a\<in>set ys. PrevBlock (unlink h p a) = PrevBlock (h a) \<and> NextBlock (unlink h p a) = (if a = last ys then lfirst zs None else NextBlock (h a))"
    proof
      fix a assume a: "a \<in> set ys"
      then have "a \<noteq> p" "a \<notin> set zs" "ys \<noteq> []" using d(1) by auto
      then show "PrevBlock (unlink h p a) = PrevBlock (h a) \<and> NextBlock (unlink h p a) = (if a = last ys then lfirst zs None else NextBlock (h a))"
        using lfirst_Some_in [of zs a] L by (auto simp: unlink_fields lfinal_def)
    qed
  qed (use d(1) in simp)
  moreover have "fseg (unlink h p) (lfinal ys None) zs None"
  proof (rule fseg_new_prev [OF d(3)])
    show "\<forall>a\<in>set zs. NextBlock (unlink h p a) = NextBlock (h a) \<and> PrevBlock (unlink h p a) = (if a = hd zs then lfinal ys None else PrevBlock (h a))"
    proof
      fix a assume a: "a \<in> set zs"
      then have "a \<noteq> p" "a \<notin> set ys" "zs \<noteq> []" using d(1) by auto
      then show "NextBlock (unlink h p a) = NextBlock (h a) \<and> PrevBlock (unlink h p a) = (if a = hd zs then lfinal ys None else PrevBlock (h a))"
        using lfinal_Some_in [of ys a] L by (cases zs) (auto simp: unlink_fields)
    qed
  qed (use d(1) in simp)
  moreover have "(if ys = [] then lfirst zs None else d) = lfirst (ys @ zs) None" using d(4) by (cases ys) simp_all
  ultimately show ?thesis using d(1) by (simp add: flist_def fseg_append)
qed

lemma flist_link:
  assumes "flist h d xs" and "p \<notin> set xs"
  shows "flist (link h p d) (Some p) (p # xs)"
proof -
  have d: "d = lfirst xs None" "distinct xs" "fseg h None xs None" using assms(1) by (auto simp: flist_def)
  then have np: "d \<noteq> Some p" using assms(2) lfirst_Some_in [of xs p] by auto
  have "fseg (link h p d) (Some p) xs None"
  proof (rule fseg_new_prev [OF d(3,2)])
    show "\<forall>a\<in>set xs. NextBlock (link h p d a) = NextBlock (h a) \<and> PrevBlock (link h p d a) = (if a = hd xs then Some p else PrevBlock (h a))"
      using assms(2) d(1) by (cases xs) (auto simp: link_fields)
  qed
  then show ?thesis using assms(2) d np by (simp add: flist_def link_fields)
qed

subsection \<open>The invariant\<close>

definition fblocks :: "(nat \<Rightarrow> addr list) \<Rightarrow> (addr \<times> nat) set" where
  "fblocks F = {(a, k). a \<in> set (F k)}"

definition areas_ok :: "(addr \<times> nat) list \<Rightarrow> bool" where
  "areas_ok as \<longleftrightarrow> distinct (map fst as)
     \<and> (\<forall>x\<in>set as. \<forall>y\<in>set as. x \<noteq> y \<longrightarrow> {fst x ..< fst x + snd x} \<inter> {fst y ..< fst y + snd y} = {})"

definition no_buddies :: "nat \<Rightarrow> addr set \<Rightarrow> (nat \<Rightarrow> addr list) \<Rightarrow> bool" where
  "no_buddies K P F \<longleftrightarrow> (\<forall>a k b. a \<in> set (F k) \<longrightarrow> k < K \<longrightarrow> b \<in> P \<longrightarrow> in_page K b (a, k) \<longrightarrow> buddy_of b k a \<notin> set (F k))"

definition layout :: "nat \<Rightarrow> addr set \<Rightarrow> (nat \<Rightarrow> addr list) \<Rightarrow> (addr \<times> nat) set \<Rightarrow> (addr \<times> nat) set \<Rightarrow> bool" where
  "layout K P F R L \<longleftrightarrow> tiling K P (fblocks F \<union> R \<union> L) \<and> fblocks F \<inter> (R \<union> L) = {} \<and> R \<inter> L = {} \<and> no_buddies K P F"

definition std_header :: "(addr \<Rightarrow> buddy_block) \<Rightarrow> nat \<Rightarrow> addr set \<Rightarrow> addr \<times> nat \<Rightarrow> bool" where
  "std_header h K P x \<longleftrightarrow> (\<exists>b\<in>P. in_page K b x \<and> Base_ptr (Header (h (fst x))) = Some b
     \<and> BlockInfo (Header (h (fst x))) = StdInfo K (snd x))"

definition free_header :: "buddy_header \<Rightarrow> bool" where
  "free_header x \<longleftrightarrow> status x = FREE_BLOCK \<and> MagicNumber x = MAGIC_NUMBER_FREE"

definition used_header :: "buddy_header \<Rightarrow> bool" where
  "used_header x \<longleftrightarrow> status x = RESERVED_BLOCK \<and> MagicNumber x = MAGIC_NUMBER_USED"

definition headers_ok :: "(addr \<Rightarrow> buddy_block) \<Rightarrow> nat \<Rightarrow> addr set \<Rightarrow> (nat \<Rightarrow> addr list) \<Rightarrow> (addr \<times> nat) set \<Rightarrow> (addr \<times> nat) set \<Rightarrow> bool" where
  "headers_ok h K P F R L \<longleftrightarrow> (\<forall>x \<in> fblocks F \<union> R \<union> L. std_header h K P x)
     \<and> (\<forall>x \<in> fblocks F. free_header (Header (h (fst x)))) \<and> (\<forall>x \<in> R. used_header (Header (h (fst x))))"

definition lists_ok :: "(addr \<Rightarrow> buddy_block) \<Rightarrow> (nat \<Rightarrow> addr option) \<Rightarrow> (nat \<Rightarrow> addr list) \<Rightarrow> bool" where
  "lists_ok h d F \<longleftrightarrow> (\<forall>k < BUDDY_MAX_LOG2_SIZE. flist h (d k) (F k))"

definition buddy_inv :: "buddy_state \<Rightarrow> addr set \<Rightarrow> (nat \<Rightarrow> addr list) \<Rightarrow> (addr \<times> nat) set \<Rightarrow> (addr \<times> nat) set \<Rightarrow> bool" where
  "buddy_inv s P F R L \<longleftrightarrow> 6 < page_kSize (ctx s) \<and> page_kSize (ctx s) < 31 \<and> areas_ok (areas s)
     \<and> (\<forall>b\<in>P. (b, 2 ^ page_kSize (ctx s)) \<in> set (areas s))
     \<and> layout (page_kSize (ctx s)) P F R L \<and> headers_ok (heap s) (page_kSize (ctx s)) P F R L
     \<and> lists_ok (heap s) (MemDesc (ctx s)) F"

definition free_space :: "(nat \<Rightarrow> addr list) \<Rightarrow> (addr \<times> nat) set \<Rightarrow> addr set" where
  "free_space F L = \<Union> (span ` (fblocks F \<union> L))"

text \<open>What the operations on lists and headers of free blocks leave alone.\<close>

definition frame :: "buddy_state \<Rightarrow> buddy_state \<Rightarrow> addr set \<Rightarrow> bool" where
  "frame s s' A \<longleftrightarrow> (\<forall>a. a \<notin> A \<longrightarrow> heap s' a = heap s a) \<and> areas s' = areas s \<and> answers s' = answers s \<and> ncalls s' = ncalls s
     \<and> bytes s' = bytes s \<and> ctx s' = (ctx s)\<lparr>MemDesc := MemDesc (ctx s')\<rparr>"

lemma frame_refl [simp]: "frame s s A" by (simp add: frame_def)

lemma frame_trans: "frame s1 s2 A \<Longrightarrow> frame s2 s3 A \<Longrightarrow> frame s1 s3 A"
  by (auto simp: frame_def) (metis buddy_context.surjective buddy_context.update_convs(5))

lemma frame_ctx:
  assumes "frame s s' A"
  shows "page_kSize (ctx s') = page_kSize (ctx s)" "Stats (ctx s') = Stats (ctx s)" "Config (ctx s') = Config (ctx s)"
    "initialized (ctx s') = initialized (ctx s)" "ToBeFreed_list (ctx s') = ToBeFreed_list (ctx s)"
    "destroy_pending (ctx s') = destroy_pending (ctx s)" "Errno (ctx s') = Errno (ctx s)" "areas s' = areas s"
proof -
  have c: "ctx s' = (ctx s)\<lparr>MemDesc := MemDesc (ctx s')\<rparr>" using assms by (simp add: frame_def)
  show "page_kSize (ctx s') = page_kSize (ctx s)" "Stats (ctx s') = Stats (ctx s)" "Config (ctx s') = Config (ctx s)"
    "initialized (ctx s') = initialized (ctx s)" "ToBeFreed_list (ctx s') = ToBeFreed_list (ctx s)"
    "destroy_pending (ctx s') = destroy_pending (ctx s)" "Errno (ctx s') = Errno (ctx s)" by (subst c, simp)+
  show "areas s' = areas s" using assms by (simp add: frame_def)
qed

lemma in_page_valid:
  assumes "in_page K b (a, k)" and "(b, 2 ^ K) \<in> set as"
  shows "valid_block as a"
proof -
  have "(2 :: nat) ^ 6 \<le> 2 ^ k" using assms(1) by (intro power_increasing) (auto simp: in_page_def)
  then have "b \<le> a \<and> a + block_size \<le> b + 2 ^ K" using assms(1) by (simp add: in_page_def block_size_def)
  then show ?thesis using assms(2) by (force simp: valid_block_def list_ex_iff)
qed

lemma buddy_inv_block:
  assumes "buddy_inv s P F R L" and "(a, k) \<in> fblocks F \<union> R \<union> L"
  obtains b where "b \<in> P" "in_page (page_kSize (ctx s)) b (a, k)" "Base_ptr (Header (heap s a)) = Some b"
    "BlockInfo (Header (heap s a)) = StdInfo (page_kSize (ctx s)) k" "valid_block (areas s) a"
    "load s a = Some (heap s a)" "std_info (heap s a) = Some (page_kSize (ctx s), k)" "k < 31"
proof -
  have "std_header (heap s) (page_kSize (ctx s)) P (a, k)" using assms by (auto simp: buddy_inv_def headers_ok_def)
  then obtain b where b: "b \<in> P" "in_page (page_kSize (ctx s)) b (a, k)" "Base_ptr (Header (heap s a)) = Some b"
    "BlockInfo (Header (heap s a)) = StdInfo (page_kSize (ctx s)) k" by (auto simp: std_header_def)
  then have v: "valid_block (areas s) a" using in_page_valid [OF b(2)] assms(1) by (auto simp: buddy_inv_def)
  have "k < 31" using b(2) assms(1) by (auto simp: buddy_inv_def in_page_def)
  then show thesis using that [OF b v] b v by (simp add: load_def std_info_def)
qed

lemma Remove_FreeBlock_eq:
  assumes "load s p = Some (heap s p)" and "std_info (heap s p) = Some (K, k)" and "k < BUDDY_MAX_LOG2_SIZE"
    and "\<forall>a. PrevBlock (heap s p) = Some a \<longrightarrow> valid_block (areas s) a" and "\<forall>a. NextBlock (heap s p) = Some a \<longrightarrow> valid_block (areas s) a"
  shows "Remove_FreeBlock s p = Some (s\<lparr>heap := unlink (heap s) p, ctx := (ctx s)\<lparr>MemDesc :=
     (if PrevBlock (heap s p) = None then (MemDesc (ctx s))(k := NextBlock (heap s p)) else MemDesc (ctx s))\<rparr>\<rparr>)"
proof -
  have v: "valid_block (areas s) p" using assms(1) by (simp add: load_def split: if_splits)
  show ?thesis
  proof (cases "PrevBlock (heap s p)")
    case None
    then show ?thesis using assms v
      by (cases "NextBlock (heap s p)") (simp_all add: Remove_FreeBlock_def upd_def set_desc_def unlink_def Let_def)
  next
    case (Some a)
    then show ?thesis using assms v
      by (cases "NextBlock (heap s p)") (simp_all add: Remove_FreeBlock_def upd_def set_desc_def unlink_def Let_def)
  qed
qed

lemma Insert_FreeBlock_eq:
  assumes "load s p = Some (heap s p)" and "std_info (heap s p) = Some (K, k)" and "k < BUDDY_MAX_LOG2_SIZE"
    and "\<forall>a. MemDesc (ctx s) k = Some a \<longrightarrow> valid_block (areas s) a"
  shows "Insert_FreeBlock s p = Some (s\<lparr>heap := link (heap s) p (MemDesc (ctx s) k),
     ctx := (ctx s)\<lparr>MemDesc := (MemDesc (ctx s))(k := Some p)\<rparr>\<rparr>)"
proof -
  have v: "valid_block (areas s) p" using assms(1) by (simp add: load_def split: if_splits)
  show ?thesis using assms v
    by (cases "MemDesc (ctx s) k") (simp_all add: Insert_FreeBlock_def upd_def set_desc_def link_def Let_def)
qed

lemma fblocks_upd: "fblocks (F(k := xs)) = {x \<in> fblocks F. snd x \<noteq> k} \<union> (\<lambda>a. (a, k)) ` set xs"
  by (auto simp: fblocks_def)

lemma lists_ok_upd:
  assumes "lists_ok h d F" and "k < BUDDY_MAX_LOG2_SIZE" and "flist h' (d' k) xs"
    and "\<forall>j. j \<noteq> k \<longrightarrow> d' j = d j"
    and "\<forall>j a. j \<noteq> k \<longrightarrow> a \<in> set (F j) \<longrightarrow> PrevBlock (h' a) = PrevBlock (h a) \<and> NextBlock (h' a) = NextBlock (h a)"
  shows "lists_ok h' d' (F(k := xs))"
  unfolding lists_ok_def
proof (intro allI impI)
  fix j assume j: "j < BUDDY_MAX_LOG2_SIZE"
  show "flist h' (d' j) ((F(k := xs)) j)"
  proof (cases "j = k")
    case False
    then have "fseg h' None (F j) None = fseg h None (F j) None" using assms(5) by (intro fseg_cong) auto
    then show ?thesis using False assms(1,4) j by (simp add: lists_ok_def flist_def)
  qed (use assms(3) in simp)
qed

lemma headers_ok_same:
  "\<forall>a. Header (h' a) = Header (h a) \<Longrightarrow> headers_ok h' K P F R L = headers_ok h K P F R L"
  by (simp add: headers_ok_def std_header_def)

lemma same_block_size:
  assumes "buddy_inv s P F R L" and "(a, k) \<in> fblocks F \<union> R \<union> L" and "(a, j) \<in> fblocks F \<union> R \<union> L"
  shows "j = k"
  using assms tiling_same_start [of "page_kSize (ctx s)" P "fblocks F \<union> R \<union> L" a j k] by (simp add: buddy_inv_def layout_def)

lemma Remove_FreeBlock_spec:
  assumes inv: "buddy_inv s P F R L" and p: "p \<in> set (F k)"
  obtains s' where "Remove_FreeBlock s p = Some s'" "buddy_inv s' P (F(k := remove1 p (F k))) R (insert (p, k) L)"
    "frame s s' (free_space F L)" "\<forall>a. Header (heap s' a) = Header (heap s a)"
proof -
  have pF: "(p, k) \<in> fblocks F" using p by (simp add: fblocks_def)
  then have pB: "(p, k) \<in> fblocks F \<union> R \<union> L" by simp
  from inv pB obtain b where b: "b \<in> P" "in_page (page_kSize (ctx s)) b (p, k)"
    "load s p = Some (heap s p)" "std_info (heap s p) = Some (page_kSize (ctx s), k)" "k < 31" by (rule buddy_inv_block)
  have k: "k < BUDDY_MAX_LOG2_SIZE" using b(5) by (simp add: BUDDY_MAX_LOG2_SIZE_def)
  have fl: "flist (heap s) (MemDesc (ctx s) k) (F k)" using inv k by (simp add: buddy_inv_def lists_ok_def)
  obtain ys zs where F: "F k = ys @ p # zs" using p by (auto dest: split_list)
  note links = flist_links [OF fl [unfolded F]]
  have dist: "distinct (ys @ p # zs)" using fl F by (simp add: flist_def)
  have valid: "valid_block (areas s) a" if "a \<in> set (F k)" for a
  proof -
    have "(a, k) \<in> fblocks F \<union> R \<union> L" using that by (simp add: fblocks_def)
    then show ?thesis by (rule buddy_inv_block [OF inv])
  qed
  have nb: "PrevBlock (heap s p) = Some a \<or> NextBlock (heap s p) = Some a \<Longrightarrow> a \<in> set (F k)" for a
    using lfinal_Some_in [of ys a] lfirst_Some_in [of zs a] by (auto simp: links F)
  define d where "d = (if PrevBlock (heap s p) = None then (MemDesc (ctx s))(k := NextBlock (heap s p)) else MemDesc (ctx s))"
  define s' where "s' = s\<lparr>heap := unlink (heap s) p, ctx := (ctx s)\<lparr>MemDesc := d\<rparr>\<rparr>"
  have "Remove_FreeBlock s p = Some s'" unfolding s'_def d_def
    using b(3,4) k nb valid by (intro Remove_FreeBlock_eq) auto
  moreover have "lists_ok (heap s') (MemDesc (ctx s')) (F(k := remove1 p (F k)))"
  proof (rule lists_ok_upd)
    show "lists_ok (heap s) (MemDesc (ctx s)) F" using inv by (simp add: buddy_inv_def)
    have "d k = (if ys = [] then lfirst zs None else MemDesc (ctx s) k)" by (simp add: d_def links lfinal_def)
    moreover have "remove1 p (F k) = ys @ zs" using dist by (simp add: F remove1_append)
    ultimately show "flist (heap s') (MemDesc (ctx s') k) (remove1 p (F k))"
      using flist_unlink [OF fl [unfolded F]] by (simp add: s'_def)
    show "\<forall>j. j \<noteq> k \<longrightarrow> MemDesc (ctx s') j = MemDesc (ctx s) j" by (simp add: s'_def d_def)
    show "\<forall>j a. j \<noteq> k \<longrightarrow> a \<in> set (F j) \<longrightarrow> PrevBlock (heap s' a) = PrevBlock (heap s a) \<and> NextBlock (heap s' a) = NextBlock (heap s a)"
    proof (intro allI impI)
      fix j a assume j: "j \<noteq> k" and a: "a \<in> set (F j)"
      have "a \<notin> set (F k)" using same_block_size [OF inv, of a j k] a j by (auto simp: fblocks_def)
      then have "a \<noteq> p" "PrevBlock (heap s p) \<noteq> Some a" "NextBlock (heap s p) \<noteq> Some a" using p nb by auto
      then show "PrevBlock (heap s' a) = PrevBlock (heap s a) \<and> NextBlock (heap s' a) = NextBlock (heap s a)"
        by (simp add: s'_def unlink_other)
    qed
  qed (rule k)
  moreover have un: "fblocks (F(k := remove1 p (F k))) \<union> R \<union> insert (p, k) L = fblocks F \<union> R \<union> L"
    "fblocks (F(k := remove1 p (F k))) = fblocks F - {(p, k)}"
    using pF dist F by (auto simp: fblocks_def split: if_splits)
  have "headers_ok (heap s) (page_kSize (ctx s)) P F R L" using inv by (simp add: buddy_inv_def)
  then have "headers_ok (heap s) (page_kSize (ctx s)) P (F(k := remove1 p (F k))) R (insert (p, k) L)"
    unfolding headers_ok_def un(1) by (simp add: un(2))
  then have "headers_ok (heap s') (page_kSize (ctx s)) P (F(k := remove1 p (F k))) R (insert (p, k) L)"
    by (subst headers_ok_same [of _ "heap s"]) (simp_all add: s'_def unlink_fields)
  moreover have "layout (page_kSize (ctx s)) P (F(k := remove1 p (F k))) R (insert (p, k) L)"
  proof -
    have "layout (page_kSize (ctx s)) P F R L" using inv by (simp add: buddy_inv_def)
    moreover have "no_buddies (page_kSize (ctx s)) P (F(k := remove1 p (F k)))" if "no_buddies (page_kSize (ctx s)) P F"
      using that by (auto simp: no_buddies_def dest: notin_set_remove1 set_remove1_subset [THEN subsetD])
    ultimately show ?thesis unfolding layout_def un(1) using pF by (auto simp: un(2))
  qed
  moreover have "heap s' a = heap s a" if "a \<notin> free_space F L" for a
  proof -
    have "x \<in> set (F k) \<Longrightarrow> x \<in> free_space F L" for x by (force simp: free_space_def fblocks_def)
    then have "a \<notin> set (F k)" using that by blast
    then have "a \<noteq> p" "PrevBlock (heap s p) \<noteq> Some a" "NextBlock (heap s p) \<noteq> Some a" using p nb [of a] by blast+
    then show ?thesis by (simp add: s'_def unlink_other)
  qed
  then have "frame s s' (free_space F L)" by (simp add: frame_def s'_def)
  moreover have "\<forall>a. Header (heap s' a) = Header (heap s a)" by (simp add: s'_def unlink_fields)
  ultimately show thesis using inv that by (simp add: buddy_inv_def s'_def)
qed

lemma Insert_FreeBlock_spec:
  assumes inv: "buddy_inv s P F R L" and p: "(p, k) \<in> L" and fh: "free_header (Header (heap s p))"
    and nob: "\<forall>b\<in>P. in_page (page_kSize (ctx s)) b (p, k) \<longrightarrow> k < page_kSize (ctx s) \<longrightarrow> buddy_of b k p \<notin> set (F k)"
  obtains s' where "Insert_FreeBlock s p = Some s'" "buddy_inv s' P (F(k := p # F k)) R (L - {(p, k)})"
    "frame s s' (free_space F L)" "\<forall>a. Header (heap s' a) = Header (heap s a)"
proof -
  let ?K = "page_kSize (ctx s)"
  have pB: "(p, k) \<in> fblocks F \<union> R \<union> L" using p by simp
  from inv pB obtain b where b: "b \<in> P" "in_page ?K b (p, k)"
    "load s p = Some (heap s p)" "std_info (heap s p) = Some (?K, k)" "k < 31" by (rule buddy_inv_block)
  have k: "k < BUDDY_MAX_LOG2_SIZE" using b(5) by (simp add: BUDDY_MAX_LOG2_SIZE_def)
  have fl: "flist (heap s) (MemDesc (ctx s) k) (F k)" using inv k by (simp add: buddy_inv_def lists_ok_def)
  have pF: "(p, j) \<notin> fblocks F" for j
  proof
    assume j: "(p, j) \<in> fblocks F"
    then have "j = k" using same_block_size [OF inv pB, of j] by simp
    then show False using j p inv by (auto simp: buddy_inv_def layout_def)
  qed
  then have pk: "p \<notin> set (F j)" for j by (simp add: fblocks_def)
  have hd_in: "MemDesc (ctx s) k = Some a \<Longrightarrow> a \<in> set (F k)" for a using fl lfirst_Some_in [of "F k" a] by (simp add: flist_def)
  have valid: "valid_block (areas s) a" if "a \<in> set (F k)" for a
  proof -
    have "(a, k) \<in> fblocks F \<union> R \<union> L" using that by (simp add: fblocks_def)
    then show ?thesis by (rule buddy_inv_block [OF inv])
  qed
  define s' where "s' = s\<lparr>heap := link (heap s) p (MemDesc (ctx s) k), ctx := (ctx s)\<lparr>MemDesc := (MemDesc (ctx s))(k := Some p)\<rparr>\<rparr>"
  have "Insert_FreeBlock s p = Some s'" unfolding s'_def
    using b(3,4) k hd_in valid by (intro Insert_FreeBlock_eq) auto
  moreover have "lists_ok (heap s') (MemDesc (ctx s')) (F(k := p # F k))"
  proof (rule lists_ok_upd)
    show "lists_ok (heap s) (MemDesc (ctx s)) F" using inv by (simp add: buddy_inv_def)
    show "flist (heap s') (MemDesc (ctx s') k) (p # F k)" using flist_link [OF fl pk] by (simp add: s'_def)
    show "\<forall>j. j \<noteq> k \<longrightarrow> MemDesc (ctx s') j = MemDesc (ctx s) j" by (simp add: s'_def)
    show "\<forall>j a. j \<noteq> k \<longrightarrow> a \<in> set (F j) \<longrightarrow> PrevBlock (heap s' a) = PrevBlock (heap s a) \<and> NextBlock (heap s' a) = NextBlock (heap s a)"
    proof (intro allI impI)
      fix j a assume j: "j \<noteq> k" and a: "a \<in> set (F j)"
      have "a \<notin> set (F k)" using same_block_size [OF inv, of a j k] a j by (auto simp: fblocks_def)
      then have "a \<noteq> p" "MemDesc (ctx s) k \<noteq> Some a" using a pk hd_in by auto
      then show "PrevBlock (heap s' a) = PrevBlock (heap s a) \<and> NextBlock (heap s' a) = NextBlock (heap s a)"
        by (simp add: s'_def link_other)
    qed
  qed (rule k)
  moreover have un: "fblocks (F(k := p # F k)) \<union> R \<union> (L - {(p, k)}) = fblocks F \<union> R \<union> L"
    "fblocks (F(k := p # F k)) = insert (p, k) (fblocks F)"
    using p by (auto simp: fblocks_def split: if_splits)
  have "headers_ok (heap s) ?K P F R L" using inv by (simp add: buddy_inv_def)
  then have "headers_ok (heap s) ?K P (F(k := p # F k)) R (L - {(p, k)})"
    unfolding headers_ok_def un(1) using fh by (simp add: un(2))
  then have "headers_ok (heap s') ?K P (F(k := p # F k)) R (L - {(p, k)})"
    by (subst headers_ok_same [of _ "heap s"]) (simp_all add: s'_def link_fields)
  moreover have "layout ?K P (F(k := p # F k)) R (L - {(p, k)})"
  proof -
    have lo: "layout ?K P F R L" using inv by (simp add: buddy_inv_def)
    have "no_buddies ?K P (F(k := p # F k))" unfolding no_buddies_def
    proof (intro allI impI)
      fix a j c assume a: "a \<in> set ((F(k := p # F k)) j)" and j: "j < ?K" and c: "c \<in> P" "in_page ?K c (a, j)"
      note pr = buddy_pair [OF c(2) j]
      show "buddy_of c j a \<notin> set ((F(k := p # F k)) j)"
      proof (cases "a = p \<and> j = k")
        case True
        then show ?thesis using nob c j pr(5) by auto
      next
        case False
        then have aF: "a \<in> set (F j)" using a by (auto split: if_splits)
        then have "buddy_of c j a \<notin> set (F j)" using lo j c by (simp add: layout_def no_buddies_def)
        moreover have "buddy_of c j a \<noteq> p" if "j = k"
        proof
          assume e: "buddy_of c j a = p"
          then have "buddy_of c k p = a" "in_page ?K c (p, k)" using pr(1,6) that by simp_all
          then show False using nob c(1) j that aF by auto
        qed
        ultimately show ?thesis by auto
      qed
    qed
    then show ?thesis using lo p unfolding layout_def un(1) by (auto simp: un(2))
  qed
  moreover have "heap s' a = heap s a" if "a \<notin> free_space F L" for a
  proof -
    have "x \<in> set (F k) \<Longrightarrow> x \<in> free_space F L" for x by (force simp: free_space_def fblocks_def)
    moreover have "p \<in> free_space F L" using p by (force simp: free_space_def)
    ultimately have na: "a \<notin> set (F k)" "a \<noteq> p" using that by blast+
    moreover have "MemDesc (ctx s) k \<noteq> Some a" using na(1) hd_in [of a] by blast
    ultimately show ?thesis by (simp add: s'_def link_other)
  qed
  then have "frame s s' (free_space F L)" by (simp add: frame_def s'_def)
  moreover have "\<forall>a. Header (heap s' a) = Header (heap s a)" by (simp add: s'_def link_fields)
  ultimately show thesis using inv that by (simp add: buddy_inv_def s'_def)
qed

subsection \<open>Merging and splitting\<close>

lemma limbo_change:
  assumes inv: "buddy_inv s P F R L" and lo: "layout (page_kSize (ctx s)) P F R L'"
    and same: "\<forall>x \<in> fblocks F \<union> R. h' (fst x) = heap s (fst x)" and L': "\<forall>x\<in>L'. std_header h' (page_kSize (ctx s)) P x"
  shows "buddy_inv (s\<lparr>heap := h'\<rparr>) P F R L'"
proof -
  have same': "h' a = heap s a" if "(a, k) \<in> fblocks F \<union> R" for a k using same that by (metis fst_conv)
  have "flist h' (MemDesc (ctx s) k) (F k)" if "k < BUDDY_MAX_LOG2_SIZE" for k
  proof -
    have "fseg h' None (F k) None = fseg (heap s) None (F k) None"
      using same' [of _ k] by (intro fseg_cong) (simp add: fblocks_def)
    then show ?thesis using inv that by (simp add: buddy_inv_def lists_ok_def flist_def)
  qed
  moreover have "headers_ok h' (page_kSize (ctx s)) P F R L'"
    using inv L' same unfolding buddy_inv_def headers_ok_def std_header_def by (simp add: ball_Un)
  ultimately show ?thesis using inv lo by (simp add: buddy_inv_def lists_ok_def)
qed

lemma free_space_eq:
  assumes "buddy_inv s P F R L"
  shows "free_space F L = (\<Union>b\<in>P. {b ..< b + 2 ^ page_kSize (ctx s)}) - \<Union> (span ` R)"
proof -
  have lo: "tiling (page_kSize (ctx s)) P (fblocks F \<union> R \<union> L)" "fblocks F \<inter> (R \<union> L) = {}" "R \<inter> L = {}"
    using assms by (auto simp: buddy_inv_def layout_def)
  have "span x \<inter> span y = {}" if "x \<in> fblocks F \<union> L" "y \<in> R" for x y
    using tiling_unique [OF lo(1), of x y] that lo(2,3) by blast
  then have "\<Union> (span ` (fblocks F \<union> L)) \<inter> \<Union> (span ` R) = {}" by blast
  moreover have "\<Union> (span ` (fblocks F \<union> L)) \<union> \<Union> (span ` R) = (\<Union>b\<in>P. {b ..< b + 2 ^ page_kSize (ctx s)})"
    using lo(1) unfolding tiling_def by (simp add: image_Un Un_ac)
  ultimately show ?thesis unfolding free_space_def by auto
qed

lemma free_space_same:
  "buddy_inv s P F R L \<Longrightarrow> buddy_inv s' P F' R L' \<Longrightarrow> page_kSize (ctx s') = page_kSize (ctx s) \<Longrightarrow> free_space F' L' = free_space F L"
  by (simp add: free_space_eq)

lemma limbo_apart:
  assumes "buddy_inv s P F R L" and "(p, k) \<in> L" and "x \<in> fblocks F \<union> R"
  shows "fst x \<notin> span (p, k)"
proof
  assume "fst x \<in> span (p, k)"
  moreover have "fst x \<in> span x" by (simp add: span_def)
  moreover have "tiling (page_kSize (ctx s)) P (fblocks F \<union> R \<union> L)" using assms(1) by (simp add: buddy_inv_def layout_def)
  ultimately have "x = (p, k)" using assms(2,3) by (intro tiling_unique [of _ P "fblocks F \<union> R \<union> L"]) auto
  then show False using assms by (auto simp: buddy_inv_def layout_def)
qed

lemma Get_BuddyBlock_eq:
  assumes "load s p = Some x" and "Base_ptr (Header x) = Some b" and "std_info x = Some (K, k)" and "k < 31" and "b \<le> p"
  shows "Get_BuddyBlock s p = Some (buddy_of b k p)"
  using assms by (simp add: Get_BuddyBlock_def shl1_def buddy_of_def)

lemma join_spec:
  assumes inv: "buddy_inv s P F R {(p, k), (q, k)}" and b: "b \<in> P" "in_page (page_kSize (ctx s)) b (p, k)"
    and k: "k < page_kSize (ctx s)" and q: "q = buddy_of b k p"
    and Lb: "Base_ptr (Header (heap s p)) = Some b" "Base_ptr (Header (heap s q)) = Some b"
  defines "m \<equiv> min p q"
  obtains s' where "upd s m (set_k_size (Suc k)) = Some s'" "buddy_inv s' P F R {(m, Suc k)}"
    "frame s s' (free_space F {(p, k), (q, k)})" "status (Header (heap s' m)) = status (Header (heap s m))"
    "MagicNumber (Header (heap s' m)) = MagicNumber (Header (heap s m))"
proof -
  let ?K = "page_kSize (ctx s)" let ?L = "{(p, k), (q, k)}"
  note pr = buddy_pair [OF b(2) k, folded q]
  have mL: "(m, k) \<in> fblocks F \<union> R \<union> ?L" by (auto simp: m_def min_def)
  from inv mL have mb: "valid_block (areas s) m" "BlockInfo (Header (heap s m)) = StdInfo ?K k" by (rule buddy_inv_block, simp)+
  have Bm: "Base_ptr (Header (heap s m)) = Some b" using Lb by (simp add: m_def min_def)
  define h' where "h' = (heap s)(m := set_k_size (Suc k) (heap s m))"
  have lo: "layout ?K P F R ?L" using inv by (simp add: buddy_inv_def)
  have "tiling ?K P (fblocks F \<union> R \<union> ?L - ?L \<union> {(m, Suc k)})"
    unfolding m_def using lo b k q by (intro tiling_join [of _ _ _ p k q b]) (auto simp: layout_def)
  moreover have "fblocks F \<union> R \<union> ?L - ?L = fblocks F \<union> R" using lo by (auto simp: layout_def)
  ultimately have t: "tiling ?K P (fblocks F \<union> R \<union> {(m, Suc k)})" by simp
  have "fst x \<noteq> m" if "x \<in> fblocks F \<union> R" for x
    using limbo_apart [OF inv _ that, of p k] limbo_apart [OF inv _ that, of q k] by (auto simp: m_def min_def)
  then have apart: "fst x \<noteq> m" "x \<noteq> (m, Suc k)" if "x \<in> fblocks F \<union> R" for x using that by (metis fst_conv)+
  have "buddy_inv (s\<lparr>heap := h'\<rparr>) P F R {(m, Suc k)}"
  proof (rule limbo_change [OF inv])
    show "layout ?K P F R {(m, Suc k)}" using lo t apart unfolding layout_def by blast
    show "\<forall>x\<in>fblocks F \<union> R. h' (fst x) = heap s (fst x)" using apart by (simp add: h'_def)
    show "\<forall>x\<in>{(m, Suc k)}. std_header h' ?K P x"
      using b(1) pr(2) mb Bm by (auto simp: std_header_def h'_def set_k_size_def m_def)
  qed
  moreover have "m \<in> free_space F ?L" by (auto simp: m_def min_def free_space_def)
  then have "frame s (s\<lparr>heap := h'\<rparr>) (free_space F ?L)" by (auto simp: frame_def h'_def)
  ultimately show thesis using mb(1) that [of "s\<lparr>heap := h'\<rparr>"] by (simp add: upd_def h'_def set_k_size_def)
qed

lemma page_unique:
  assumes "tiling K P B" and "b \<in> P" and "c \<in> P" and "in_page K b x" and "in_page K c x"
  shows "b = c"
proof (rule ccontr)
  assume "b \<noteq> c"
  then have "{b ..< b + 2 ^ K} \<inter> {c ..< c + 2 ^ K} = {}" using assms(1-3) unfolding tiling_def by blast
  moreover have "fst x \<in> span x" by (simp add: span_def)
  ultimately show False using in_page_span [OF assms(4)] in_page_span [OF assms(5)] by blast
qed

lemma merge_stop:
  assumes "load s p = Some x" and "std_info x = Some (K, k)" and "\<not> k < K"
  shows "merge s p = Some (p, s)"
  using assms by (simp add: merge.simps)

text \<open>One round of the loop: the buddy is merged when it is a free block of the same size.\<close>

lemma merge_round:
  assumes inv: "buddy_inv s P F R {(p, k)}" and fh: "free_header (Header (heap s p))" and k: "k < page_kSize (ctx s)"
    and b: "b \<in> P" "in_page (page_kSize (ctx s)) b (p, k)" and q: "q = buddy_of b k p"
  shows "q \<notin> set (F k) \<Longrightarrow> merge s p = Some (p, s)"
    and "q \<in> set (F k) \<Longrightarrow> \<exists>s'. merge s p = merge s' (min p q) \<and> buddy_inv s' P (F(k := remove1 q (F k))) R {(min p q, Suc k)}
       \<and> free_header (Header (heap s' (min p q))) \<and> frame s s' (free_space F {(p, k)})"
proof -
  let ?K = "page_kSize (ctx s)" let ?B = "fblocks F \<union> R \<union> {(p, k)}"
  have t: "tiling ?K P ?B" and dj: "fblocks F \<inter> R = {}" using inv by (auto simp: buddy_inv_def layout_def)
  have pB: "(p, k) \<in> ?B" by simp
  from inv pB obtain b' where b': "b' \<in> P" "in_page ?K b' (p, k)" "Base_ptr (Header (heap s p)) = Some b'"
    "load s p = Some (heap s p)" "std_info (heap s p) = Some (?K, k)" "k < 31" by (rule buddy_inv_block)
  then have bb: "b' = b" using page_unique [OF t _ b(1) _ b(2)] by simp
  have G: "Get_BuddyBlock s p = Some q" unfolding q using b' bb b(2) by (intro Get_BuddyBlock_eq) (auto simp: in_page_def)
  obtain j where j: "(q, j) \<in> ?B" "j \<le> k" "in_page ?K b (q, j)" unfolding q by (rule buddy_is_block [OF t pB b k])
  from inv j(1) obtain c where c: "c \<in> P" "in_page ?K c (q, j)" "Base_ptr (Header (heap s q)) = Some c"
    "load s q = Some (heap s q)" "std_info (heap s q) = Some (?K, j)" by (rule buddy_inv_block)
  have cb: "c = b" using page_unique [OF t c(1) b(1) c(2) j(3)] .
  have qp: "q \<noteq> p" using buddy_pair(5) [OF b(2) k] by (simp add: q)
  have hs: "headers_ok (heap s) ?K P F R {(p, k)}" using inv by (simp add: buddy_inv_def)
  show "merge s p = Some (p, s)" if nF: "q \<notin> set (F k)"
  proof (cases "(q, j) \<in> R")
    case True
    then have "status (Header (heap s q)) = RESERVED_BLOCK" using hs by (auto simp: headers_ok_def used_header_def)
    then show ?thesis by (subst merge.simps) (simp add: b' k G c)
  next
    case False
    then have "j \<noteq> k" using nF j(1) qp by (auto simp: fblocks_def)
    then show ?thesis by (subst merge.simps) (simp add: b' k G c)
  qed
  assume qF: "q \<in> set (F k)"
  then have qk: "(q, k) \<in> fblocks F" by (simp add: fblocks_def)
  then have jk: "j = k" using same_block_size [OF inv, of q k j] j(1) by simp
  have fq: "free_header (Header (heap s q))" using hs qk by (auto simp: headers_ok_def)
  obtain s1 where s1: "Remove_FreeBlock s q = Some s1" "buddy_inv s1 P (F(k := remove1 q (F k))) R (insert (q, k) {(p, k)})"
    "frame s s1 (free_space F {(p, k)})" "\<forall>a. Header (heap s1 a) = Header (heap s a)"
    by (rule Remove_FreeBlock_spec [OF inv qF])
  let ?F1 = "F(k := remove1 q (F k))"
  have K1: "page_kSize (ctx s1) = ?K" using frame_ctx(1) [OF s1(3)] .
  have i1: "buddy_inv s1 P ?F1 R {(p, k), (q, k)}" using s1(2) by (simp add: insert_commute)
  obtain s2 where s2: "upd s1 (min p q) (set_k_size (Suc k)) = Some s2" "buddy_inv s2 P ?F1 R {(min p q, Suc k)}"
    "frame s1 s2 (free_space ?F1 {(p, k), (q, k)})" "status (Header (heap s2 (min p q))) = status (Header (heap s1 (min p q)))"
    "MagicNumber (Header (heap s2 (min p q))) = MagicNumber (Header (heap s1 (min p q)))"
    by (rule join_spec [OF i1 b(1) _ _ q]) (use K1 b(2) k b'(3) bb c(3) cb s1(4) in simp_all)
  have "merge s p = merge s2 (if q < p then q else p)"
    using fq s1(1) s2(1) by (subst merge.simps) (simp add: b' k G c jk free_header_def min_def split: if_splits)
  moreover have "(if q < p then q else p) = min p q" by (simp add: min_def)
  moreover have "free_header (Header (heap s2 (min p q)))"
    using s2(4,5) s1(4) fh fq by (simp add: free_header_def min_def)
  moreover have "frame s s2 (free_space F {(p, k)})"
    using frame_trans [OF s1(3)] s2(3) free_space_same [OF inv i1 K1] by simp
  ultimately show "\<exists>s'. merge s p = merge s' (min p q) \<and> buddy_inv s' P ?F1 R {(min p q, Suc k)}
       \<and> free_header (Header (heap s' (min p q))) \<and> frame s s' (free_space F {(p, k)})" using s2(2) by auto
qed

definition merged :: "buddy_state \<Rightarrow> addr set \<Rightarrow> (nat \<Rightarrow> addr list) \<Rightarrow> addr \<Rightarrow> nat \<Rightarrow> bool" where
  "merged s P F p k \<longleftrightarrow> (\<forall>b\<in>P. in_page (page_kSize (ctx s)) b (p, k) \<longrightarrow> k < page_kSize (ctx s) \<longrightarrow> buddy_of b k p \<notin> set (F k))"

lemma merge_spec:
  assumes "buddy_inv s P F R {(p, k)}" and "free_header (Header (heap s p))"
  shows "\<exists>p' k' F' s'. merge s p = Some (p', s') \<and> buddy_inv s' P F' R {(p', k')} \<and> free_header (Header (heap s' p'))
     \<and> merged s' P F' p' k' \<and> frame s s' (free_space F {(p, k)}) \<and> F' (page_kSize (ctx s)) = F (page_kSize (ctx s))"
  using assms
proof (induction "page_kSize (ctx s) - k" arbitrary: s p k F rule: less_induct)
  case less
  let ?K = "page_kSize (ctx s)"
  note inv = less.prems(1)
  have pB: "(p, k) \<in> fblocks F \<union> R \<union> {(p, k)}" by simp
  from inv pB obtain b where b: "b \<in> P" "in_page ?K b (p, k)" "load s p = Some (heap s p)"
    "std_info (heap s p) = Some (?K, k)" by (rule buddy_inv_block)
  have t: "tiling ?K P (fblocks F \<union> R \<union> {(p, k)})" using inv by (simp add: buddy_inv_def layout_def)
  show ?case
  proof (cases "k < ?K")
    case False
    have "merge s p = Some (p, s)" using merge_stop [OF b(3,4) False] .
    moreover have "merged s P F p k" using False by (simp add: merged_def)
    ultimately show ?thesis using less.prems by (intro exI [of _ p] exI [of _ k] exI [of _ F] exI [of _ s]) simp
  next
    case True
    let ?q = "buddy_of b k p"
    show ?thesis
    proof (cases "?q \<in> set (F k)")
      case False
      then have "merge s p = Some (p, s)" using merge_round(1) [OF less.prems True b(1,2) refl] by simp
      moreover have "merged s P F p k" unfolding merged_def using page_unique [OF t b(1) _ b(2)] False by blast
      ultimately show ?thesis using less.prems by (intro exI [of _ p] exI [of _ k] exI [of _ F] exI [of _ s]) simp
    next
      case q: True
      let ?m = "min p ?q" let ?F1 = "F(k := remove1 ?q (F k))"
      obtain s1 where s1: "merge s p = merge s1 ?m" "buddy_inv s1 P ?F1 R {(?m, Suc k)}" "free_header (Header (heap s1 ?m))"
        "frame s s1 (free_space F {(p, k)})" using merge_round(2) [OF less.prems True b(1,2) refl q] by blast
      have K1: "page_kSize (ctx s1) = ?K" using frame_ctx(1) [OF s1(4)] .
      have "page_kSize (ctx s1) - Suc k < ?K - k" using True K1 by simp
      from less.hyps [OF this s1(2,3)] obtain p' k' F' s' where r: "merge s1 ?m = Some (p', s')" "buddy_inv s' P F' R {(p', k')}"
        "free_header (Header (heap s' p'))" "merged s' P F' p' k'" "frame s1 s' (free_space ?F1 {(?m, Suc k)})" "F' ?K = ?F1 ?K"
        using K1 by auto
      have "frame s s' (free_space F {(p, k)})" using frame_trans [OF s1(4)] r(5) free_space_same [OF inv s1(2) K1] by simp
      then show ?thesis using s1(1) r True by (intro exI [of _ p'] exI [of _ k'] exI [of _ F'] exI [of _ s']) simp
    qed
  qed
qed

lemma cut_spec:
  assumes inv: "buddy_inv s P F R {(p, Suc k)}" and k: "6 \<le> k"
  obtains b s1 s2 s3 where "load s p = Some (heap s p)" "std_info (heap s p) = Some (page_kSize (ctx s), Suc k)"
    "upd s p (set_k_size k) = Some s1" "Get_BuddyBlock s1 p = Some (p + 2 ^ k)"
    "upd s1 (p + 2 ^ k) (\<lambda>x. x\<lparr>Header := (Header x)\<lparr>Base_ptr := Base_ptr (Header (heap s p)), BlockInfo := StdInfo (page_kSize (ctx s)) k,
               status := FREE_BLOCK, MagicNumber := MAGIC_NUMBER_FREE\<rparr>\<rparr>) = Some s2"
    "Insert_FreeBlock s2 (p + 2 ^ k) = Some s3" "buddy_inv s3 P (F(k := (p + 2 ^ k) # F k)) R {(p, k)}"
    "frame s s3 (free_space F {(p, Suc k)})"
proof -
  let ?K = "page_kSize (ctx s)" let ?q = "p + 2 ^ k"
  have pB: "(p, Suc k) \<in> fblocks F \<union> R \<union> {(p, Suc k)}" by simp
  from inv pB obtain b where b: "b \<in> P" "in_page ?K b (p, Suc k)" "Base_ptr (Header (heap s p)) = Some b"
    "BlockInfo (Header (heap s p)) = StdInfo ?K (Suc k)" "valid_block (areas s) p"
    "load s p = Some (heap s p)" "std_info (heap s p) = Some (?K, Suc k)" "Suc k < 31" by (rule buddy_inv_block)
  have ip: "in_page ?K b (p, k)" using b(2) k by (auto simp: in_page_def dvd_mult_right)
  have kK: "k < ?K" using b(2) by (simp add: in_page_def)
  have lo: "layout ?K P F R {(p, Suc k)}" using inv by (simp add: buddy_inv_def)
  then have t0: "tiling ?K P (fblocks F \<union> R \<union> {(p, Suc k)})" by (simp add: layout_def)
  note cut = tiling_cut [OF t0 pB b(1) ip b(2)]
  have q: "buddy_of b k p = ?q" using cut by simp
  note pr = buddy_pair [OF ip kK, unfolded q]
  have "fblocks F \<union> R \<union> {(p, Suc k)} - {(p, Suc k)} = fblocks F \<union> R" using lo by (auto simp: layout_def)
  then have t: "tiling ?K P (fblocks F \<union> R \<union> {(p, k), (?q, k)})" using cut by (simp add: q)
  have sp: "p \<in> span (p, Suc k)" "?q \<in> span (p, Suc k)" by (simp_all add: span_def)
  have apart: "fst x \<noteq> p" "fst x \<noteq> ?q" if "x \<in> fblocks F \<union> R" for x
    using limbo_apart [OF inv _ that, of p "Suc k"] sp by auto
  have vq: "valid_block (areas s) ?q" using in_page_valid [OF pr(1)] inv b(1) by (auto simp: buddy_inv_def)
  define s1 where "s1 = s\<lparr>heap := (heap s)(p := set_k_size k (heap s p))\<rparr>"
  let ?f = "\<lambda>x. x\<lparr>Header := (Header x)\<lparr>Base_ptr := Base_ptr (Header (heap s p)), BlockInfo := StdInfo ?K k,
               status := FREE_BLOCK, MagicNumber := MAGIC_NUMBER_FREE\<rparr>\<rparr>"
  define h2 where "h2 = (heap s1)(?q := ?f (heap s1 ?q))"
  define s2 where "s2 = s\<lparr>heap := h2\<rparr>"
  have qp: "?q \<noteq> p" using pr(5) .
  have u1: "upd s p (set_k_size k) = Some s1" using b(5) by (simp add: upd_def s1_def)
  have G: "Get_BuddyBlock s1 p = Some ?q" unfolding q [symmetric]
    using b(3-5,8) ip by (intro Get_BuddyBlock_eq [where x = "set_k_size k (heap s p)" and K = ?K])
      (simp_all add: s1_def load_def set_k_size_def std_info_def in_page_def)
  have u2: "upd s1 ?q ?f = Some s2" using vq by (simp add: upd_def s1_def s2_def h2_def)
  have i2: "buddy_inv s2 P F R {(p, k), (?q, k)}" unfolding s2_def
  proof (rule limbo_change [OF inv])
    show "layout ?K P F R {(p, k), (?q, k)}" using lo t apart unfolding layout_def by fastforce
    show "\<forall>x\<in>fblocks F \<union> R. h2 (fst x) = heap s (fst x)" using apart by (simp add: h2_def s1_def)
    have "std_header h2 ?K P (p, k)" using b ip qp by (auto simp: std_header_def h2_def s1_def set_k_size_def)
    moreover have "std_header h2 ?K P (?q, k)" using b(1,3) pr(1) by (auto simp: std_header_def h2_def s1_def)
    ultimately show "\<forall>x\<in>{(p, k), (?q, k)}. std_header h2 ?K P x" by simp
  qed
  have K2: "page_kSize (ctx s2) = ?K" by (simp add: s2_def)
  have qL: "(?q, k) \<in> {(p, k), (?q, k)}" by simp
  have fq: "free_header (Header (heap s2 ?q))" by (simp add: free_header_def s2_def h2_def)
  have nob: "\<forall>c\<in>P. in_page (page_kSize (ctx s2)) c (?q, k) \<longrightarrow> k < page_kSize (ctx s2) \<longrightarrow> buddy_of c k ?q \<notin> set (F k)"
  proof (intro ballI impI)
    fix c assume c: "c \<in> P" "in_page (page_kSize (ctx s2)) c (?q, k)"
    then have "c = b" using page_unique [OF t0 c(1) b(1) _ pr(1)] K2 by simp
    then show "buddy_of c k ?q \<notin> set (F k)" using pr(6) apart(1) [of "(p, k)"] by (auto simp: fblocks_def)
  qed
  obtain s3 where s3: "Insert_FreeBlock s2 ?q = Some s3" "buddy_inv s3 P (F(k := ?q # F k)) R ({(p, k), (?q, k)} - {(?q, k)})"
    "frame s2 s3 (free_space F {(p, k), (?q, k)})" by (rule Insert_FreeBlock_spec [OF i2 qL fq nob])
  have fs: "free_space F {(p, k), (?q, k)} = free_space F {(p, Suc k)}" by (rule free_space_same [OF inv i2 K2])
  have "p \<in> free_space F {(p, Suc k)}" "?q \<in> free_space F {(p, Suc k)}" using sp by (auto simp: free_space_def)
  then have "frame s s2 (free_space F {(p, Suc k)})" by (auto simp: frame_def s2_def h2_def s1_def)
  then have "frame s s3 (free_space F {(p, Suc k)})" using s3(3) fs frame_trans by simp
  moreover have "{(p, k), (?q, k)} - {(?q, k)} = {(p, k)}" using qp by auto
  ultimately show thesis using that b(6,7) u1 G u2 s3(1,2) by simp
qed

lemma split_spec:
  assumes "buddy_inv s P F R {(p, j)}" and "m \<le> j" and "6 \<le> m"
  shows "\<exists>s'. split s p m = Some s' \<and> buddy_inv s' P (\<lambda>k. if m \<le> k \<and> k < j then (p + 2 ^ k) # F k else F k) R {(p, m)}
     \<and> frame s s' (free_space F {(p, j)})"
  using assms
proof (induction "j - m" arbitrary: s F j)
  case 0
  then have jm: "j = m" by simp
  have pB: "(p, m) \<in> fblocks F \<union> R \<union> {(p, m)}" by simp
  from "0.prems"(1) [unfolded jm] pB obtain b where "load s p = Some (heap s p)" "std_info (heap s p) = Some (page_kSize (ctx s), m)"
    by (rule buddy_inv_block)
  then have "split s p m = Some s" by (simp add: split.simps)
  moreover have "(\<lambda>k. if m \<le> k \<and> k < j then (p + 2 ^ k) # F k else F k) = F" using jm by auto
  ultimately show ?case using "0.prems"(1) jm by simp
next
  case (Suc n)
  then obtain i where i: "j = Suc i" "n = i - m" "m \<le> i" by (cases j) auto
  have i6: "6 \<le> i" using i(3) Suc.prems(3) by simp
  let ?F1 = "F(i := (p + 2 ^ i) # F i)"
  obtain s1 s2 s3 where c: "load s p = Some (heap s p)" "std_info (heap s p) = Some (page_kSize (ctx s), Suc i)"
    "upd s p (set_k_size i) = Some s1" "Get_BuddyBlock s1 p = Some (p + 2 ^ i)"
    "upd s1 (p + 2 ^ i) (\<lambda>x. x\<lparr>Header := (Header x)\<lparr>Base_ptr := Base_ptr (Header (heap s p)), BlockInfo := StdInfo (page_kSize (ctx s)) i,
               status := FREE_BLOCK, MagicNumber := MAGIC_NUMBER_FREE\<rparr>\<rparr>) = Some s2"
    "Insert_FreeBlock s2 (p + 2 ^ i) = Some s3" "buddy_inv s3 P ?F1 R {(p, i)}" "frame s s3 (free_space F {(p, Suc i)})"
    by (rule cut_spec [OF Suc.prems(1) [unfolded i(1)] i6])
  have "split s p m = split s3 p m" by (subst split.simps) (simp add: c i(3) less_Suc_eq_le)
  moreover obtain s' where s': "split s3 p m = Some s'"
    "buddy_inv s' P (\<lambda>k. if m \<le> k \<and> k < i then (p + 2 ^ k) # ?F1 k else ?F1 k) R {(p, m)}" "frame s3 s' (free_space ?F1 {(p, i)})"
    using Suc.hyps(1) [OF i(2) c(7) i(3) Suc.prems(3)] by auto
  moreover have "(\<lambda>k. if m \<le> k \<and> k < i then (p + 2 ^ k) # ?F1 k else ?F1 k) = (\<lambda>k. if m \<le> k \<and> k < j then (p + 2 ^ k) # F k else F k)"
    using i by (auto simp: less_Suc_eq)
  moreover have "frame s s' (free_space F {(p, j)})"
    using frame_trans [OF c(8)] s'(3) free_space_same [OF Suc.prems(1) [unfolded i(1)] c(7) frame_ctx(1) [OF c(8)]] i(1) by simp
  ultimately show ?case by simp
qed

subsection \<open>Pages\<close>

lemma buddy_inv_cong:
  "heap s' = heap s \<Longrightarrow> areas s' = areas s \<Longrightarrow> page_kSize (ctx s') = page_kSize (ctx s) \<Longrightarrow> MemDesc (ctx s') = MemDesc (ctx s)
     \<Longrightarrow> buddy_inv s' P F R L = buddy_inv s P F R L"
  by (simp add: buddy_inv_def)

lemma whole_page: "in_page K b (p, K) \<Longrightarrow> p = b" by (simp add: in_page_def)

lemma tiling_drop_page:
  assumes t: "tiling K P B" and b: "b \<in> P" "(b, K) \<in> B"
  shows "tiling K (P - {b}) (B - {(b, K)})"
proof -
  have sp: "span (b, K) = {b ..< b + 2 ^ K}" by (simp add: span_def)
  have pd: "{c ..< c + 2 ^ K} \<inter> {d ..< d + 2 ^ K} = {}" if "c \<in> P" "d \<in> P" "c \<noteq> d" for c d
    using tiling_pages [OF t that] .
  have un: "\<Union> (span ` B) = (\<Union>b\<in>P. {b ..< b + 2 ^ K})" using t by (simp add: tiling_def)
  have apart: "span x \<inter> {b ..< b + 2 ^ K} = {}" if "x \<in> B - {(b, K)}" for x
    using tiling_disjoint [OF t, of x "(b, K)"] b that by (simp add: sp)
  have pages: "\<exists>c\<in>P - {b}. in_page K c x" if x: "x \<in> B - {(b, K)}" for x
  proof -
    obtain c where c: "c \<in> P" "in_page K c x" using tiling_in_page [OF t, of x] x by auto
    have "c \<noteq> b"
    proof
      assume "c = b"
      then have "span x \<subseteq> {b ..< b + 2 ^ K}" using in_page_span [OF c(2)] by simp
      moreover have "fst x \<in> span x" by (simp add: span_def)
      ultimately show False using apart [OF x] by blast
    qed
    then show ?thesis using c by blast
  qed
  have "\<Union> (span ` (B - {(b, K)})) = \<Union> (span ` B) - {b ..< b + 2 ^ K}"
  proof -
    have "\<Union> (span ` B) = span (b, K) \<union> \<Union> (span ` (B - {(b, K)}))" using b(2) by blast
    moreover have "\<Union> (span ` (B - {(b, K)})) \<inter> {b ..< b + 2 ^ K} = {}" using apart by blast
    ultimately show ?thesis unfolding sp by blast
  qed
  moreover have "(\<Union>c\<in>P - {b}. {c ..< c + 2 ^ K}) = (\<Union>c\<in>P. {c ..< c + 2 ^ K}) - {b ..< b + 2 ^ K}"
  proof -
    have "(\<Union>c\<in>P - {b}. {c ..< c + 2 ^ K}) \<inter> {b ..< b + 2 ^ K} = {}" using pd b(1) by blast
    moreover have "(\<Union>c\<in>P. {c ..< c + 2 ^ K}) = {b ..< b + 2 ^ K} \<union> (\<Union>c\<in>P - {b}. {c ..< c + 2 ^ K})" using b(1) by blast
    ultimately show ?thesis by blast
  qed
  ultimately show ?thesis using t pages un unfolding tiling_def by (intro conjI ballI impI) auto
qed

lemma tiling_new_page:
  assumes t: "tiling K P B" and new: "\<forall>c\<in>P. {c ..< c + 2 ^ K} \<inter> {b ..< b + 2 ^ K} = {}" and K: "6 \<le> K"
  shows "tiling K (insert b P) (insert (b, K) B)" "b \<notin> P" "x \<in> B \<Longrightarrow> fst x \<notin> {b ..< b + 2 ^ K}"
proof -
  have sp: "span (b, K) = {b ..< b + 2 ^ K}" by (simp add: span_def)
  have un: "\<Union> (span ` B) = (\<Union>b\<in>P. {b ..< b + 2 ^ K})" using t by (simp add: tiling_def)
  then have "\<Union> (span ` B) \<inter> {b ..< b + 2 ^ K} = {}" using new by blast
  then have apart: "span x \<inter> span (b, K) = {}" if "x \<in> B" for x using that unfolding sp by blast
  have "in_page K b (b, K)" using K by (simp add: in_page_def)
  then have ip: "\<exists>c\<in>insert b P. in_page K c x" if "x \<in> insert (b, K) B" for x
    using that tiling_in_page [OF t, of x] by auto
  have ds: "span x \<inter> span y = {}" if "x \<in> insert (b, K) B" "y \<in> insert (b, K) B" "x \<noteq> y" for x y
    using that apart [of x] apart [of y] tiling_disjoint [OF t, of x y] by auto
  have pd: "{c ..< c + 2 ^ K} \<inter> {d ..< d + 2 ^ K} = {}" if "c \<in> insert b P" "d \<in> insert b P" "c \<noteq> d" for c d
    using that new tiling_pages [OF t, of c d] by auto
  have "\<Union> (span ` insert (b, K) B) = (\<Union>b\<in>insert b P. {b ..< b + 2 ^ K})" using un sp by simp
  then show "tiling K (insert b P) (insert (b, K) B)" using ip ds pd unfolding tiling_def by (intro conjI ballI impI) auto
  show "b \<notin> P" using new by auto
  show "fst x \<notin> {b ..< b + 2 ^ K}" if "x \<in> B"
  proof -
    have "fst x \<in> span x" by (simp add: span_def)
    then show ?thesis using apart [OF that] unfolding sp by blast
  qed
qed

lemma areas_ok_filter: "areas_ok as \<Longrightarrow> areas_ok (filter Q as)"
  by (auto simp: areas_ok_def distinct_map_filter)

lemma page_free_spec:
  assumes inv: "buddy_inv s P F R {(b, page_kSize (ctx s))}"
  shows "sys_free s b = Some (s\<lparr>areas := filter (\<lambda>(c, n). c \<noteq> b) (areas s)\<rparr>)"
    and "buddy_inv (s\<lparr>areas := filter (\<lambda>(c, n). c \<noteq> b) (areas s)\<rparr>) (P - {b}) F R {}" and "b \<in> P"
proof -
  let ?K = "page_kSize (ctx s)" let ?B = "fblocks F \<union> R \<union> {(b, ?K)}"
  have t: "tiling ?K P ?B" using inv by (simp add: buddy_inv_def layout_def)
  have bB: "(b, ?K) \<in> ?B" by simp
  obtain c where "c \<in> P" "in_page ?K c (b, ?K)" using tiling_in_page [OF t bB] by auto
  then show bP: "b \<in> P" using whole_page [of ?K c b] by simp
  then have ar: "(b, 2 ^ ?K) \<in> set (areas s)" using inv by (simp add: buddy_inv_def)
  then show "sys_free s b = Some (s\<lparr>areas := filter (\<lambda>(c, n). c \<noteq> b) (areas s)\<rparr>)" by (force simp: sys_free_def)
  have nb: "(b, ?K) \<notin> fblocks F \<union> R" using inv by (auto simp: buddy_inv_def layout_def)
  then have "?B - {(b, ?K)} = fblocks F \<union> R" by auto
  then have t': "tiling ?K (P - {b}) (fblocks F \<union> R)" using tiling_drop_page [OF t bP bB] by simp
  have lo: "layout ?K (P - {b}) F R {}" using t' inv by (auto simp: buddy_inv_def layout_def no_buddies_def)
  have "std_header (heap s) ?K (P - {b}) x" if x: "x \<in> fblocks F \<union> R" for x
  proof -
    have "std_header (heap s) ?K P x" using inv x by (auto simp: buddy_inv_def headers_ok_def)
    then obtain c where c: "c \<in> P" "in_page ?K c x" "Base_ptr (Header (heap s (fst x))) = Some c"
      "BlockInfo (Header (heap s (fst x))) = StdInfo ?K (snd x)" by (auto simp: std_header_def)
    obtain d where d: "d \<in> P - {b}" "in_page ?K d x" using tiling_in_page [OF t' x] by auto
    then have "c = d" using page_unique [OF t c(1) _ c(2)] by simp
    then show ?thesis using c d by (auto simp: std_header_def)
  qed
  then have "headers_ok (heap s) ?K (P - {b}) F R {}" using inv by (auto simp: buddy_inv_def headers_ok_def)
  then show "buddy_inv (s\<lparr>areas := filter (\<lambda>(c, n). c \<noteq> b) (areas s)\<rparr>) (P - {b}) F R {}"
    using inv lo by (auto simp: buddy_inv_def intro: areas_ok_filter)
qed

text \<open>What is known of the answers of \<open>malloc\<close>: the new area does not meet the areas in use.\<close>

definition fresh_area :: "(addr \<times> nat) list \<Rightarrow> addr \<Rightarrow> nat \<Rightarrow> bool" where
  "fresh_area as a n \<longleftrightarrow> 0 < n \<and> (\<forall>x\<in>set as. a \<noteq> fst x \<and> {fst x ..< fst x + snd x} \<inter> {a ..< a + n} = {})"

definition malloc_fresh :: "buddy_state \<Rightarrow> nat \<Rightarrow> bool" where
  "malloc_fresh s n \<longleftrightarrow> (\<forall>a. answers s (ncalls s) = Some a \<longrightarrow> fresh_area (areas s) a n)"

lemma areas_ok_cons:
  assumes "areas_ok as" and "fresh_area as a n"
  shows "areas_ok ((a, n) # as)"
proof -
  have "fst ` set as \<inter> {a} = {}" using assms(2) by (auto simp: fresh_area_def)
  moreover have "{fst x ..< fst x + snd x} \<inter> {fst y ..< fst y + snd y} = {}"
    if xy: "x \<in> set ((a, n) # as)" "y \<in> set ((a, n) # as)" "x \<noteq> y" for x y
  proof -
    have f: "\<forall>z\<in>set as. {fst z ..< fst z + snd z} \<inter> {a ..< a + n} = {}" using assms(2) unfolding fresh_area_def by (elim conjE) blast
    have o: "x \<in> set as \<Longrightarrow> y \<in> set as \<Longrightarrow> {fst x ..< fst x + snd x} \<inter> {fst y ..< fst y + snd y} = {}"
      using assms(1) xy(3) unfolding areas_ok_def by (elim conjE) simp
    consider "x \<in> set as" "y \<in> set as" | "x = (a, n)" "y \<in> set as" | "x \<in> set as" "y = (a, n)" using xy by auto
    then show ?thesis
    proof cases
      case 1
      then show ?thesis by (rule o)
    next
      case 2
      then show ?thesis using f [rule_format, of y] by (simp only: fst_conv snd_conv Int_commute)
    next
      case 3
      then show ?thesis using f [rule_format, of x] by (simp only: fst_conv snd_conv)
    qed
  qed
  ultimately show ?thesis using assms(1) unfolding areas_ok_def by (intro conjI ballI impI) auto
qed

lemma NewStdPage_spec:
  assumes inv: "buddy_inv s P F R {}" and fr: "malloc_fresh s (2 ^ page_kSize (ctx s))"
  shows "answers s (ncalls s) = None \<Longrightarrow> NewStdPage s = Some (None, s\<lparr>ncalls := Suc (ncalls s)\<rparr>)"
    and "answers s (ncalls s) = Some b \<Longrightarrow> \<exists>s'. NewStdPage s = Some (Some b, upd_stats UpdateStats_InsertStdPage s')
       \<and> b \<notin> P \<and> buddy_inv s' (insert b P) (F(page_kSize (ctx s) := b # F (page_kSize (ctx s)))) R {}
       \<and> (\<forall>a. a \<notin> free_space F {} \<union> {b ..< b + 2 ^ page_kSize (ctx s)} \<longrightarrow> heap s' a = heap s a)
       \<and> areas s' = (b, 2 ^ page_kSize (ctx s)) # areas s \<and> bytes s' = bytes s \<and> answers s' = answers s \<and> ncalls s' = Suc (ncalls s)
       \<and> ctx s' = (ctx s)\<lparr>MemDesc := MemDesc (ctx s')\<rparr>"
proof -
  let ?K = "page_kSize (ctx s)"
  have K: "6 < ?K" "?K < 31" using inv by (simp_all add: buddy_inv_def)
  show "answers s (ncalls s) = None \<Longrightarrow> NewStdPage s = Some (None, s\<lparr>ncalls := Suc (ncalls s)\<rparr>)"
    using K by (simp add: NewStdPage_def malloc_def shl1_def)
  assume b: "answers s (ncalls s) = Some b"
  have fb: "fresh_area (areas s) b (2 ^ ?K)" using fr b by (simp add: malloc_fresh_def)
  define s1 where "s1 = s\<lparr>ncalls := Suc (ncalls s), areas := (b, 2 ^ ?K) # areas s\<rparr>"
  let ?f = "\<lambda>x. x\<lparr>Header := (Header x)\<lparr>Base_ptr := Some b, BlockInfo := StdInfo ?K ?K, status := FREE_BLOCK, MagicNumber := MAGIC_NUMBER_FREE\<rparr>\<rparr>"
  define s2 where "s2 = s1\<lparr>heap := (heap s1)(b := ?f (heap s1 b))\<rparr>"
  have "(2 :: nat) ^ 6 \<le> 2 ^ ?K" using K by (intro power_increasing) simp_all
  then have v: "valid_block (areas s1) b" by (simp add: s1_def valid_block_def block_size_def)
  have t: "tiling ?K P (fblocks F \<union> R)" using inv by (simp add: buddy_inv_def layout_def)
  have new: "\<forall>c\<in>P. {c ..< c + 2 ^ ?K} \<inter> {b ..< b + 2 ^ ?K} = {}"
  proof
    fix c assume "c \<in> P"
    then have "(c, 2 ^ ?K) \<in> set (areas s)" using inv by (simp add: buddy_inv_def)
    then show "{c ..< c + 2 ^ ?K} \<inter> {b ..< b + 2 ^ ?K} = {}" using fb by (force simp: fresh_area_def)
  qed
  note T = tiling_new_page [OF t new less_imp_le [OF K(1)]]
  have apart: "fst x \<noteq> b" if "x \<in> fblocks F \<union> R" for x using T(3) [OF that] by auto
  have lo: "layout ?K (insert b P) F R {(b, ?K)}"
  proof -
    have "no_buddies ?K (insert b P) F" unfolding no_buddies_def
    proof (intro allI impI)
      fix a k c assume a: "a \<in> set (F k)" and k: "k < ?K" and c: "c \<in> insert b P" "in_page ?K c (a, k)"
      have "a \<notin> {b ..< b + 2 ^ ?K}" using T(3) [of "(a, k)"] a by (simp add: fblocks_def)
      then have "c \<noteq> b" using in_page_span [OF c(2)] fst_in_span [of a k] by blast
      then show "buddy_of c k a \<notin> set (F k)" using inv a k c by (auto simp: buddy_inv_def layout_def no_buddies_def)
    qed
    moreover have "(b, ?K) \<notin> fblocks F \<union> R" using apart by force
    ultimately show ?thesis using T(1) inv by (auto simp: buddy_inv_def layout_def)
  qed
  have hd: "headers_ok (heap s2) ?K (insert b P) F R {(b, ?K)}"
  proof -
    have "headers_ok (heap s) ?K P F R {}" using inv by (simp add: buddy_inv_def)
    moreover have "heap s2 (fst x) = heap s (fst x)" if "x \<in> fblocks F \<union> R" for x using apart [OF that] by (simp add: s2_def s1_def)
    moreover have "std_header (heap s2) ?K (insert b P) (b, ?K)" using K by (simp add: std_header_def s2_def in_page_def)
    ultimately show ?thesis by (auto simp: headers_ok_def std_header_def)
  qed
  have li: "lists_ok (heap s2) (MemDesc (ctx s2)) F"
  proof -
    have "fseg (heap s2) None (F k) None = fseg (heap s) None (F k) None" for k
      by (rule fseg_cong) (simp add: s2_def s1_def)
    then show ?thesis using inv by (simp add: buddy_inv_def lists_ok_def flist_def s2_def s1_def)
  qed
  have ao: "areas_ok (areas s2)" using inv areas_ok_cons [OF _ fb] by (simp add: buddy_inv_def s2_def s1_def)
  have i2: "buddy_inv s2 (insert b P) F R {(b, ?K)}"
    using inv ao lo hd li by (simp add: buddy_inv_def s2_def s1_def)
  have K2: "page_kSize (ctx s2) = ?K" by (simp add: s2_def s1_def)
  have fh: "free_header (Header (heap s2 b))" by (simp add: free_header_def s2_def)
  obtain s3 where s3: "Insert_FreeBlock s2 b = Some s3" "buddy_inv s3 (insert b P) (F(?K := b # F ?K)) R ({(b, ?K)} - {(b, ?K)})"
    "frame s2 s3 (free_space F {(b, ?K)})"
    by (rule Insert_FreeBlock_spec [OF i2 _ fh, of ?K]) (simp_all add: K2)
  have N: "NewStdPage s = Some (Some b, upd_stats UpdateStats_InsertStdPage s3)"
  proof -
    have "malloc s (2 ^ ?K) = (Some b, s1)" using b by (simp add: malloc_def s1_def)
    moreover have "upd s1 b ?f = Some s2" using v by (simp add: upd_def s2_def)
    ultimately show ?thesis using K s3(1) by (simp add: NewStdPage_def shl1_def Let_def)
  qed
  have fs: "free_space F {(b, ?K)} = free_space F {} \<union> {b ..< b + 2 ^ ?K}" by (auto simp: free_space_def span_def)
  have hp: "\<forall>a. a \<notin> free_space F {} \<union> {b ..< b + 2 ^ ?K} \<longrightarrow> heap s3 a = heap s a"
    using s3(3) by (auto simp: frame_def fs s2_def s1_def)
  show "\<exists>s'. NewStdPage s = Some (Some b, upd_stats UpdateStats_InsertStdPage s')
       \<and> b \<notin> P \<and> buddy_inv s' (insert b P) (F(?K := b # F ?K)) R {}
       \<and> (\<forall>a. a \<notin> free_space F {} \<union> {b ..< b + 2 ^ ?K} \<longrightarrow> heap s' a = heap s a)
       \<and> areas s' = (b, 2 ^ ?K) # areas s \<and> bytes s' = bytes s \<and> answers s' = answers s \<and> ncalls s' = Suc (ncalls s) \<and> ctx s' = (ctx s)\<lparr>MemDesc := MemDesc (ctx s')\<rparr>"
    using N T(2) s3(2) hp s3(3) by (intro exI [of _ s3]) (simp add: frame_def s2_def s1_def)
qed

end
