(* ===== verification/Buddy_Correct.thy ===== *)
theory Buddy_Correct
  imports Buddy_Inv
begin

text \<open>
  What the operations of the buddy allocator do to the blocks of a context: allocation and release of blocks, the list of
  blocks that other threads release, the statistics, and the functions of the interface.
\<close>

subsection \<open>Statistics\<close>

text \<open>\<open>n\<close> is the number of pages that are free as a whole, \<open>X\<close> the large blocks with their sizes.\<close>

definition stats_ok :: "buddy_stats \<Rightarrow> nat \<Rightarrow> addr set \<Rightarrow> nat \<Rightarrow> (addr \<times> nat) set \<Rightarrow> (addr \<times> nat) set \<Rightarrow> bool" where
  "stats_ok st K P n R X \<longleftrightarrow> finite P \<and> finite R \<and> finite X \<and> StdPageSize st = 2 ^ K \<and> NbStdPages st = of_nat (card P)
     \<and> NbStdUsed st + of_nat n = of_nat (card P) \<and> StdUsedSpace st = (\<Sum>x\<in>R. 2 ^ snd x)
     \<and> StdMemSpace st = of_nat (card P) * 2 ^ K \<and> ExtraMemSpace st = (\<Sum>x\<in>X. of_nat (snd x))
     \<and> NbExtraPages st = of_nat (card X) \<and> TotalMemSpace st = StdMemSpace st + ExtraMemSpace st"

lemma stats_use: "stats_ok st K P n R X \<Longrightarrow> x \<notin> R \<Longrightarrow> stats_ok (UpdateStats_UseStdMemSpace (2 ^ snd x) st) K P n (insert x R) X"
  by (simp add: stats_ok_def UpdateStats_UseStdMemSpace_def Let_def add.commute)

lemma stats_free: "stats_ok st K P n R X \<Longrightarrow> x \<in> R \<Longrightarrow> stats_ok (UpdateStats_FreeStdMemSpace (2 ^ snd x) st) K P n (R - {x}) X"
  by (simp add: stats_ok_def UpdateStats_FreeStdMemSpace_def sum_diff1)

lemma stats_free_page: "stats_ok st K P n R X \<Longrightarrow> stats_ok (UpdateStats_FreeStdPage st) K P (Suc n) R X"
  by (simp add: stats_ok_def UpdateStats_FreeStdPage_def)

lemma stats_use_page: "stats_ok st K P (Suc n) R X \<Longrightarrow> stats_ok (UpdateStats_UseStdPage st) K P n R X"
  by (simp add: stats_ok_def UpdateStats_UseStdPage_def Let_def add.commute add.left_commute)

lemma stats_insert_page: "stats_ok st K P n R X \<Longrightarrow> b \<notin> P \<Longrightarrow> stats_ok (UpdateStats_InsertStdPage st) K (insert b P) (Suc n) R X"
  by (simp add: stats_ok_def UpdateStats_InsertStdPage_def Let_def) (simp add: distrib_right add.assoc add.commute add.left_commute)

lemma stats_remove_page:
  assumes "stats_ok st K P (Suc n) R X" and "b \<in> P"
  shows "stats_ok (UpdateStats_RemoveStdPage st) K (P - {b}) n R X"
proof -
  have c: "card P = Suc (card (P - {b}))" using assms by (intro card.remove) (simp_all add: stats_ok_def)
  show ?thesis using assms(1) unfolding stats_ok_def UpdateStats_RemoveStdPage_def c by (simp add: distrib_right)
qed

lemma stats_add_extra:
  "stats_ok st K P n R X \<Longrightarrow> x \<notin> X \<Longrightarrow> stats_ok (UpdateStats_AddExtraPage (of_nat (snd x)) st) K P n R (insert x X)"
  by (simp add: stats_ok_def UpdateStats_AddExtraPage_def Let_def ac_simps)

lemma stats_remove_extra:
  assumes "stats_ok st K P n R X" and "x \<in> X"
  shows "stats_ok (UpdateStats_RemoveExtraPage (of_nat (snd x)) st) K P n R (X - {x})"
proof -
  have "card X = Suc (card (X - {x}))" using assms by (intro card.remove) (simp_all add: stats_ok_def)
  then show ?thesis using assms by (simp add: stats_ok_def UpdateStats_RemoveExtraPage_def sum_diff1 add_diff_eq)
qed

subsection \<open>The state of a context\<close>

definition extra_header :: "(addr \<Rightarrow> buddy_block) \<Rightarrow> addr \<times> nat \<Rightarrow> bool" where
  "extra_header h x \<longleftrightarrow> used_header (Header (h (fst x))) \<and> Base_ptr (Header (h (fst x))) = None
     \<and> BlockInfo (Header (h (fst x))) = ExtraInfo (snd x)"

definition extra_ok :: "buddy_state \<Rightarrow> addr set \<Rightarrow> (addr \<times> nat) set \<Rightarrow> bool" where
  "extra_ok s P X \<longleftrightarrow> X \<subseteq> set (areas s) \<and> (\<forall>x\<in>X. fst x \<notin> P \<and> block_size \<le> snd x \<and> extra_header (heap s) x)"

definition buddy_ok :: "buddy_state \<Rightarrow> addr set \<Rightarrow> (nat \<Rightarrow> addr list) \<Rightarrow> (addr \<times> nat) set \<Rightarrow> (addr \<times> nat) set \<Rightarrow> bool" where
  "buddy_ok s P F R X \<longleftrightarrow> buddy_inv s P F R {} \<and> extra_ok s P X
     \<and> stats_ok (Stats (ctx s)) (page_kSize (ctx s)) P (length (F (page_kSize (ctx s)))) R X"

text \<open>\<open>touches\<close> says which parts of the memory and of the context an operation may change.\<close>

definition touches :: "buddy_state \<Rightarrow> buddy_state \<Rightarrow> addr set \<Rightarrow> bool" where
  "touches s s' A \<longleftrightarrow> (\<forall>a. a \<notin> A \<longrightarrow> heap s' a = heap s a) \<and> answers s' = answers s \<and> bytes s' = bytes s
     \<and> ctx s' = (ctx s)\<lparr>MemDesc := MemDesc (ctx s'), Stats := Stats (ctx s')\<rparr>"

lemma frame_touches: "frame s s' A \<Longrightarrow> touches s s' A"
proof -
  assume f: "frame s s' A"
  then have c: "ctx s' = (ctx s)\<lparr>MemDesc := MemDesc (ctx s')\<rparr>" by (simp add: frame_def)
  have "ctx s' = (ctx s)\<lparr>MemDesc := MemDesc (ctx s'), Stats := Stats (ctx s')\<rparr>" by (subst (1 3) c) (subst c, simp)
  then show ?thesis using f by (simp add: frame_def touches_def)
qed

lemma touches_trans:
  assumes "touches s1 s2 A" and "touches s2 s3 B"
  shows "touches s1 s3 (A \<union> B)"
proof -
  have c: "ctx s2 = (ctx s1)\<lparr>MemDesc := MemDesc (ctx s2), Stats := Stats (ctx s2)\<rparr>"
    "ctx s3 = (ctx s2)\<lparr>MemDesc := MemDesc (ctx s3), Stats := Stats (ctx s3)\<rparr>" using assms by (simp_all add: touches_def)
  have "ctx s3 = (ctx s1)\<lparr>MemDesc := MemDesc (ctx s3), Stats := Stats (ctx s3)\<rparr>"
    by (subst c(2), subst c(1)) simp
  then show ?thesis using assms by (simp add: touches_def)
qed

lemma touches_mono: "touches s s' A \<Longrightarrow> A \<subseteq> B \<Longrightarrow> touches s s' B"
  by (auto simp: touches_def)

lemma touches_seq: "touches s1 s2 A \<Longrightarrow> touches s2 s3 B \<Longrightarrow> A \<subseteq> C \<Longrightarrow> B \<subseteq> C \<Longrightarrow> touches s1 s3 C"
  by (rule touches_mono [OF touches_trans [of s1 s2 A s3 B]]) auto

lemma touches_stats [simp]: "touches s (upd_stats f s) A"
  by (simp add: touches_def upd_stats_def)

lemma touches_ctx:
  assumes "touches s s' A"
  shows "page_kSize (ctx s') = page_kSize (ctx s)" "Config (ctx s') = Config (ctx s)" "initialized (ctx s') = initialized (ctx s)"
    "ToBeFreed_list (ctx s') = ToBeFreed_list (ctx s)" "destroy_pending (ctx s') = destroy_pending (ctx s)" "Errno (ctx s') = Errno (ctx s)"
proof -
  have c: "ctx s' = (ctx s)\<lparr>MemDesc := MemDesc (ctx s'), Stats := Stats (ctx s')\<rparr>" using assms by (simp add: touches_def)
  show "page_kSize (ctx s') = page_kSize (ctx s)" "Config (ctx s') = Config (ctx s)" "initialized (ctx s') = initialized (ctx s)"
    "ToBeFreed_list (ctx s') = ToBeFreed_list (ctx s)" "destroy_pending (ctx s') = destroy_pending (ctx s)" "Errno (ctx s') = Errno (ctx s)"
    by (subst c, simp)+
qed

text \<open>Large blocks lie outside the pages, and used blocks outside the free space.\<close>

lemma extra_apart:
  assumes inv: "buddy_inv s P F R L" and ex: "extra_ok s P X" and x: "x \<in> X" and b: "b \<in> P"
  shows "{fst x ..< fst x + snd x} \<inter> {b ..< b + 2 ^ page_kSize (ctx s)} = {}" "fst x \<notin> {b ..< b + 2 ^ page_kSize (ctx s)}"
proof -
  let ?e = "\<lambda>z. {fst z ..< fst z + snd z} :: nat set"
  have "areas_ok (areas s)" "x \<in> set (areas s)" "(b, 2 ^ page_kSize (ctx s)) \<in> set (areas s)" "x \<noteq> (b, 2 ^ page_kSize (ctx s))" "block_size \<le> snd x"
    using inv ex x b by (auto simp: buddy_inv_def extra_ok_def)
  then have "?e x \<inter> ?e (b, 2 ^ page_kSize (ctx s)) = {}" unfolding areas_ok_def by (elim conjE) blast
  then show *: "?e x \<inter> {b ..< b + 2 ^ page_kSize (ctx s)} = {}" by (simp only: fst_conv snd_conv)
  have "fst x \<in> ?e x" using \<open>block_size \<le> snd x\<close> by (simp add: block_size_def)
  then show "fst x \<notin> {b ..< b + 2 ^ page_kSize (ctx s)}" using * by blast
qed

definition page_space :: "buddy_state \<Rightarrow> addr set \<Rightarrow> addr set" where
  "page_space s P = (\<Union>b\<in>P. {b ..< b + 2 ^ page_kSize (ctx s)})"

lemma extra_not_in_pages: "buddy_inv s P F R L \<Longrightarrow> extra_ok s P X \<Longrightarrow> x \<in> X \<Longrightarrow> fst x \<notin> page_space s P"
  unfolding page_space_def using extra_apart(2) by blast

lemma free_space_subset: "buddy_inv s P F R L \<Longrightarrow> free_space F L \<subseteq> page_space s P"
  by (simp add: free_space_eq page_space_def)

lemma used_subset:
  assumes "buddy_inv s P F R L" and "x \<in> R"
  shows "span x \<subseteq> page_space s P"
proof -
  have t: "tiling (page_kSize (ctx s)) P (fblocks F \<union> R \<union> L)" using assms(1) by (simp add: buddy_inv_def layout_def)
  obtain b where "b \<in> P" "in_page (page_kSize (ctx s)) b x" using tiling_in_page [OF t, of x] assms(2) by auto
  then show ?thesis unfolding page_space_def using in_page_span [of "page_kSize (ctx s)" b x] by blast
qed

lemma used_not_free: "buddy_inv s P F R L \<Longrightarrow> x \<in> R \<Longrightarrow> fst x \<notin> free_space F L"
  by (simp add: free_space_eq) (force simp: span_def)

lemma extra_ok_touched:
  assumes "extra_ok s P X" and "buddy_inv s P F R L" and "touches s s' A" and "A \<subseteq> page_space s P" and "X \<subseteq> set (areas s')" and "P' \<subseteq> P"
  shows "extra_ok s' P' X"
proof -
  have "heap s' (fst x) = heap s (fst x)" if "x \<in> X" for x
    using extra_not_in_pages [OF assms(2,1) that] assms(3,4) by (auto simp: touches_def)
  then show ?thesis using assms by (auto simp: extra_ok_def extra_header_def)
qed

subsection \<open>Release of a block\<close>

lemma upd_stats_fields [simp]:
  "heap (upd_stats f s) = heap s" "areas (upd_stats f s) = areas s" "page_kSize (ctx (upd_stats f s)) = page_kSize (ctx s)"
  "MemDesc (ctx (upd_stats f s)) = MemDesc (ctx s)" "Stats (ctx (upd_stats f s)) = f (Stats (ctx s))" "ncalls (upd_stats f s) = ncalls s"
  "Config (ctx (upd_stats f s)) = Config (ctx s)"
  by (simp_all add: upd_stats_def)

lemma buddy_inv_upd_stats [simp]: "buddy_inv (upd_stats f s) P F R L = buddy_inv s P F R L"
  by (rule buddy_inv_cong) simp_all

lemma extra_ok_upd_stats [simp]: "extra_ok (upd_stats f s) P X = extra_ok s P X"
  by (simp add: extra_ok_def)

lemma used_to_limbo:
  assumes "buddy_inv s P F R {}" and "x \<in> R"
  shows "buddy_inv s P F (R - {x}) {x}"
proof -
  have "fblocks F \<union> (R - {x}) \<union> {x} = fblocks F \<union> R \<union> {}" using assms(2) by blast
  then show ?thesis using assms unfolding buddy_inv_def layout_def headers_ok_def by auto
qed

lemma limbo_header:
  assumes inv: "buddy_inv s P F R {(p, k)}" and "Base_ptr (g (Header (heap s p))) = Base_ptr (Header (heap s p))"
    and "BlockInfo (g (Header (heap s p))) = BlockInfo (Header (heap s p))"
  shows "buddy_inv (s\<lparr>heap := (heap s)(p := (heap s p)\<lparr>Header := g (Header (heap s p))\<rparr>)\<rparr>) P F R {(p, k)}"
proof (rule limbo_change [OF inv])
  show "layout (page_kSize (ctx s)) P F R {(p, k)}" using inv by (simp add: buddy_inv_def)
  have "fst x \<noteq> p" if "x \<in> fblocks F \<union> R" for x using limbo_apart [OF inv _ that, of p k] by auto
  then show "\<forall>x\<in>fblocks F \<union> R. ((heap s)(p := (heap s p)\<lparr>Header := g (Header (heap s p))\<rparr>)) (fst x) = heap s (fst x)" by auto
  have "std_header (heap s) (page_kSize (ctx s)) P (p, k)" using inv by (simp add: buddy_inv_def headers_ok_def)
  then show "\<forall>x\<in>{(p, k)}. std_header ((heap s)(p := (heap s p)\<lparr>Header := g (Header (heap s p))\<rparr>)) (page_kSize (ctx s)) P x"
    using assms(2,3) by (simp add: std_header_def)
qed

lemma length_remove1_Suc: "x \<in> set xs \<Longrightarrow> length xs = Suc (length (remove1 x xs))"
  by (induction xs) auto

text \<open>A free page is kept or given back to the system.\<close>

lemma release_page:
  assumes ok: "buddy_ok s P F R X" and b: "b \<in> set (F (page_kSize (ctx s)))"
  shows "\<exists>s1 s2. Remove_FreeBlock s b = Some s1 \<and> sys_free s1 b = Some s2
     \<and> buddy_ok (upd_stats UpdateStats_RemoveStdPage s2) (P - {b}) (F(page_kSize (ctx s) := remove1 b (F (page_kSize (ctx s))))) R X
     \<and> b \<in> P \<and> touches s s2 (free_space F {}) \<and> areas s2 = filter (\<lambda>(c, n). c \<noteq> b) (areas s) \<and> ncalls s2 = ncalls s"
proof -
  let ?K = "page_kSize (ctx s)" let ?F = "F(?K := remove1 b (F ?K))"
  have inv: "buddy_inv s P F R {}" and ex: "extra_ok s P X" and st: "stats_ok (Stats (ctx s)) ?K P (length (F ?K)) R X"
    using ok by (simp_all add: buddy_ok_def)
  obtain s1 where s1: "Remove_FreeBlock s b = Some s1" "buddy_inv s1 P ?F R (insert (b, ?K) {})"
    "frame s s1 (free_space F {})" "\<forall>a. Header (heap s1 a) = Header (heap s a)" by (rule Remove_FreeBlock_spec [OF inv b])
  have K1: "page_kSize (ctx s1) = ?K" using frame_ctx(1) [OF s1(3)] .
  define s2 where "s2 = s1\<lparr>areas := filter (\<lambda>(c, n). c \<noteq> b) (areas s1)\<rparr>"
  have i1: "buddy_inv s1 P ?F R {(b, page_kSize (ctx s1))}" using s1(2) K1 by simp
  note pf = page_free_spec [OF i1, folded s2_def]
  have t2: "touches s s2 (free_space F {})" using frame_touches [OF s1(3)] by (simp add: s2_def touches_def)
  have "x \<in> set (areas s2)" if "x \<in> X" for x
    using that ex pf(3) frame_ctx(8) [OF s1(3)] by (auto simp: s2_def extra_ok_def)
  then have "extra_ok s2 (P - {b}) X"
    using extra_ok_touched [OF ex inv t2 free_space_subset [OF inv]] by blast
  moreover have "stats_ok (UpdateStats_RemoveStdPage (Stats (ctx s2))) ?K (P - {b}) (length (?F ?K)) R X"
    using st pf(3) length_remove1_Suc [OF b] frame_ctx(2) [OF s1(3)] by (simp add: s2_def stats_remove_page)
  ultimately show ?thesis using s1(1) pf t2 K1 frame_ctx(8) [OF s1(3)] s1(3)
    by (intro exI [of _ s1] exI [of _ s2]) (simp add: buddy_ok_def s2_def frame_def)
qed

definition given_back :: "buddy_state \<Rightarrow> buddy_state \<Rightarrow> addr set \<Rightarrow> addr set \<Rightarrow> bool" where
  "given_back s s' P P' \<longleftrightarrow> P' \<subseteq> P \<and> areas s' = filter (\<lambda>(c, n). c \<notin> P - P') (areas s) \<and> ncalls s' = ncalls s"

lemma given_back_refl: "areas s' = areas s \<Longrightarrow> ncalls s' = ncalls s \<Longrightarrow> given_back s s' P P"
  by (simp add: given_back_def case_prod_unfold)

lemma given_back_trans: "given_back s1 s2 P1 P2 \<Longrightarrow> given_back s2 s3 P2 P3 \<Longrightarrow> given_back s1 s3 P1 P3"
  by (auto simp: given_back_def case_prod_unfold intro!: filter_cong)

lemma Garbage_spec:
  assumes ok: "buddy_ok s P F R X" and b: "b \<in> set (F (page_kSize (ctx s)))"
  shows "\<exists>s' P' F'. Garbage_StdPages s b = Some s' \<and> buddy_ok s' P' F' R X \<and> touches s s' (free_space F {}) \<and> given_back s s' P P'"
proof (cases "Garbage_StdPages s b = Some s")
  case True
  then show ?thesis using ok by (intro exI [of _ s] exI [of _ P] exI [of _ F]) (simp add: touches_def given_back_refl)
next
  case False
  obtain s1 s2 where r: "Remove_FreeBlock s b = Some s1" "sys_free s1 b = Some s2"
    "buddy_ok (upd_stats UpdateStats_RemoveStdPage s2) (P - {b}) (F(page_kSize (ctx s) := remove1 b (F (page_kSize (ctx s))))) R X"
    "b \<in> P" "touches s s2 (free_space F {})" "areas s2 = filter (\<lambda>(c, n). c \<noteq> b) (areas s)" "ncalls s2 = ncalls s"
    using release_page [OF ok b] by blast
  have "Garbage_StdPages s b = Some (upd_stats UpdateStats_RemoveStdPage s2)"
    using False r(1,2) by (simp add: Garbage_StdPages_def split: if_splits)
  moreover have "given_back s (upd_stats UpdateStats_RemoveStdPage s2) P (P - {b})"
    using r(4,6,7) by (simp add: given_back_def double_diff)
  moreover have "touches s (upd_stats UpdateStats_RemoveStdPage s2) (free_space F {})"
    using touches_trans [OF r(5) touches_stats, of UpdateStats_RemoveStdPage "free_space F {}"] by simp
  ultimately show ?thesis using r(3) by blast
qed

lemma is_page_iff:
  assumes "buddy_inv s P F R L" and "(p, k) \<in> fblocks F \<union> R \<union> L"
  shows "is_page (heap s p) p \<longleftrightarrow> k = page_kSize (ctx s)"
proof -
  from assms obtain b where b: "in_page (page_kSize (ctx s)) b (p, k)" "Base_ptr (Header (heap s p)) = Some b"
    "BlockInfo (Header (heap s p)) = StdInfo (page_kSize (ctx s)) k" by (rule buddy_inv_block)
  then show ?thesis using whole_page [of "page_kSize (ctx s)" b p] by (auto simp: is_page_def)
qed

lemma free_and_merge:
  assumes inv: "buddy_inv s P F R {}" and p: "(p, k) \<in> R"
  obtains s1 p' k' F' s2 s3 where
    "upd s p (\<lambda>x. x\<lparr>Header := (Header x)\<lparr>status := FREE_BLOCK, MagicNumber := MAGIC_NUMBER_FREE\<rparr>\<rparr>) = Some s1"
    "merge (upd_stats f s1) p = Some (p', s2)" "Insert_FreeBlock s2 p' = Some s3"
    "buddy_inv s3 P (F'(k' := p' # F' k')) (R - {(p, k)}) {}" "F' (page_kSize (ctx s)) = F (page_kSize (ctx s))"
    "touches s s3 (free_space F {} \<union> span (p, k))" "Stats (ctx s3) = f (Stats (ctx s))" "areas s3 = areas s" "ncalls s3 = ncalls s"
proof -
  let ?K = "page_kSize (ctx s)" let ?R = "R - {(p, k)}"
  define g where "g = (\<lambda>x :: buddy_header. x\<lparr>status := FREE_BLOCK, MagicNumber := MAGIC_NUMBER_FREE\<rparr>)"
  define s1 where "s1 = s\<lparr>heap := (heap s)(p := (heap s p)\<lparr>Header := g (Header (heap s p))\<rparr>)\<rparr>"
  have il: "buddy_inv s P F ?R {(p, k)}" by (rule used_to_limbo [OF inv p])
  have i1: "buddy_inv (upd_stats f s1) P F ?R {(p, k)}" unfolding s1_def buddy_inv_upd_stats
    by (rule limbo_header [OF il]) (simp_all add: g_def)
  have pB: "(p, k) \<in> fblocks F \<union> R \<union> {}" using p by simp
  from inv pB have v: "valid_block (areas s) p" by (rule buddy_inv_block)
  have u: "upd s p (\<lambda>x. x\<lparr>Header := g (Header x)\<rparr>) = Some s1" using v by (simp add: upd_def s1_def)
  have fh: "free_header (Header (heap (upd_stats f s1) p))" by (simp add: s1_def g_def free_header_def)
  obtain p' k' F' s2 where m: "merge (upd_stats f s1) p = Some (p', s2)" "buddy_inv s2 P F' ?R {(p', k')}" "free_header (Header (heap s2 p'))"
    "merged s2 P F' p' k'" "frame (upd_stats f s1) s2 (free_space F {(p, k)})" "F' (page_kSize (ctx (upd_stats f s1))) = F (page_kSize (ctx (upd_stats f s1)))"
    using merge_spec [OF i1 fh] by blast
  have K1: "page_kSize (ctx (upd_stats f s1)) = ?K" by (simp add: s1_def)
  obtain s3 where s3: "Insert_FreeBlock s2 p' = Some s3" "buddy_inv s3 P (F'(k' := p' # F' k')) ?R ({(p', k')} - {(p', k')})"
    "frame s2 s3 (free_space F' {(p', k')})"
    by (rule Insert_FreeBlock_spec [OF m(2) _ m(3), of k']) (use m(4) in \<open>simp_all add: merged_def\<close>)
  have "free_space F' {(p', k')} = free_space F {(p, k)}"
    using free_space_same [OF i1 m(2) frame_ctx(1) [OF m(5)]] .
  then have fr: "frame (upd_stats f s1) s3 (free_space F {(p, k)})" using frame_trans [OF m(5)] s3(3) by simp
  have fs: "free_space F {(p, k)} = free_space F {} \<union> span (p, k)" by (auto simp: free_space_def)
  have "touches s (upd_stats f s1) (span (p, k))" by (auto simp: touches_def s1_def upd_stats_def)
  then have "touches s s3 (free_space F {} \<union> span (p, k))"
    by (rule touches_seq [OF _ frame_touches [OF fr]]) (simp_all add: fs)
  moreover have "Stats (ctx s3) = f (Stats (ctx s))" using frame_ctx(2) [OF fr] by (simp add: s1_def)
  moreover have "areas s3 = areas s" "ncalls s3 = ncalls s" using fr by (simp_all add: frame_def s1_def)
  ultimately show thesis using that [of s1 p' s2 s3 F' k'] u m(1) s3(1,2) m(6) K1 by (simp add: g_def)
qed

lemma buddy_free_std:
  assumes ok: "buddy_ok s P F R X" and p: "(p, k) \<in> R"
  shows "\<exists>s' P' F'. buddy_free s p = Some s' \<and> buddy_ok s' P' F' (R - {(p, k)}) X
     \<and> touches s s' (free_space F {} \<union> span (p, k)) \<and> given_back s s' P P'"
proof -
  let ?K = "page_kSize (ctx s)" let ?R = "R - {(p, k)}" let ?f = "UpdateStats_FreeStdMemSpace (2 ^ k)"
  have inv: "buddy_inv s P F R {}" and ex: "extra_ok s P X" and st: "stats_ok (Stats (ctx s)) ?K P (length (F ?K)) R X"
    using ok by (simp_all add: buddy_ok_def)
  have K: "?K < 31" using inv by (simp add: buddy_inv_def)
  have pB: "(p, k) \<in> fblocks F \<union> R \<union> {}" using p by simp
  from inv pB obtain b where b: "b \<in> P" "in_page ?K b (p, k)" "Base_ptr (Header (heap s p)) = Some b"
    "load s p = Some (heap s p)" "std_info (heap s p) = Some (?K, k)" "k < 31" by (rule buddy_inv_block)
  obtain s1 p' k' F' s2 s3 where r:
    "upd s p (\<lambda>x. x\<lparr>Header := (Header x)\<lparr>status := FREE_BLOCK, MagicNumber := MAGIC_NUMBER_FREE\<rparr>\<rparr>) = Some s1"
    "merge (upd_stats ?f s1) p = Some (p', s2)" "Insert_FreeBlock s2 p' = Some s3"
    "buddy_inv s3 P (F'(k' := p' # F' k')) ?R {}" "F' ?K = F ?K"
    "touches s s3 (free_space F {} \<union> span (p, k))" "Stats (ctx s3) = ?f (Stats (ctx s))" "areas s3 = areas s" "ncalls s3 = ncalls s"
    by (rule free_and_merge [OF inv p])
  let ?F = "F'(k' := p' # F' k')"
  have pB': "(p', k') \<in> fblocks ?F \<union> ?R \<union> {}" by (simp add: fblocks_def)
  from r(4) pB' have l3: "load s3 p' = Some (heap s3 p')" by (rule buddy_inv_block)
  have K3: "page_kSize (ctx s3) = ?K" using touches_ctx(1) [OF r(6)] .
  have sub: "free_space F {} \<union> span (p, k) \<subseteq> page_space s P" using free_space_subset [OF inv] used_subset [OF inv p] by simp
  have ex3: "extra_ok s3 P X" using extra_ok_touched [OF ex inv r(6) sub _ subset_refl] ex r(8) by (simp add: extra_ok_def)
  have st3: "stats_ok (Stats (ctx s3)) ?K P (length (F ?K)) ?R X" using stats_free [OF st p] r(7) by simp
  have eq: "buddy_free s p = (if k' = ?K then (let s4 = upd_stats UpdateStats_FreeStdPage s3
                in if free_areas (Config (ctx s4)) then Garbage_StdPages s4 p' else Some s4) else Some s3)"
    using b K r(1-3) l3 is_page_iff [OF r(4) pB'] K3 by (simp add: buddy_free_def shl1_def in_page_def)
  show ?thesis
  proof (cases "k' = ?K")
    case False
    then have "buddy_ok s3 P ?F ?R X" using r(4,5) ex3 st3 K3 by (simp add: buddy_ok_def)
    then show ?thesis using False eq r(6,8,9) by (intro exI [of _ s3] exI [of _ P] exI [of _ ?F]) (simp add: given_back_refl)
  next
    case True
    define s4 where "s4 = upd_stats UpdateStats_FreeStdPage s3"
    have K4: "page_kSize (ctx s4) = ?K" using K3 by (simp add: s4_def)
    have ok4: "buddy_ok s4 P ?F ?R X" using r(4,5) ex3 stats_free_page [OF st3] K3 True by (simp add: buddy_ok_def s4_def)
    have t4: "touches s s4 (free_space F {} \<union> span (p, k))"
      using touches_trans [OF r(6) touches_stats, of UpdateStats_FreeStdPage "{}"] by (simp add: s4_def)
    have g4: "given_back s s4 P P" using r(8,9) by (simp add: s4_def given_back_refl)
    have "free_space ?F {} = free_space F {(p, k)}"
      using free_space_same [OF used_to_limbo [OF inv p] r(4) K3] .
    then have fs: "free_space ?F {} = free_space F {} \<union> span (p, k)" by (auto simp: free_space_def)
    show ?thesis
    proof (cases "free_areas (Config (ctx s4))")
      case False
      then show ?thesis using True eq ok4 t4 g4 by (intro exI [of _ s4] exI [of _ P] exI [of _ ?F]) (simp add: s4_def)
    next
      case fa: True
      have "p' \<in> set (?F (page_kSize (ctx s4)))" using True K4 by simp
      from Garbage_spec [OF ok4 this] obtain s' P' F'' where g: "Garbage_StdPages s4 p' = Some s'" "buddy_ok s' P' F'' ?R X"
        "touches s4 s' (free_space ?F {})" "given_back s4 s' P P'" by blast
      have "touches s s' (free_space F {} \<union> span (p, k))" by (rule touches_seq [OF t4 g(3)]) (simp_all add: fs)
      then show ?thesis using True fa eq g given_back_trans [OF g4]
        by (intro exI [of _ s'] exI [of _ P'] exI [of _ F'']) (simp add: s4_def)
    qed
  qed
qed

lemma buddy_free_extra:
  assumes ok: "buddy_ok s P F R X" and x: "(a, n) \<in> X"
  shows "\<exists>s'. buddy_free s a = Some s' \<and> buddy_ok s' P F R (X - {(a, n)}) \<and> touches s s' {}
     \<and> areas s' = filter (\<lambda>(c, m). c \<noteq> a) (areas s) \<and> ncalls s' = ncalls s"
proof -
  let ?s1 = "s\<lparr>areas := filter (\<lambda>(c, m). c \<noteq> a) (areas s)\<rparr>"
  let ?s2 = "upd_stats (UpdateStats_RemoveExtraPage (of_nat n)) ?s1"
  have inv: "buddy_inv s P F R {}" and ex: "extra_ok s P X" and st: "stats_ok (Stats (ctx s)) (page_kSize (ctx s)) P (length (F (page_kSize (ctx s)))) R X"
    using ok by (simp_all add: buddy_ok_def)
  have ar: "(a, n) \<in> set (areas s)" "block_size \<le> n" "a \<notin> P" and hd: "extra_header (heap s) (a, n)" using ex x by (auto simp: extra_ok_def)
  have l: "load s a = Some (heap s a)" using ar by (force simp: load_def valid_block_def list_ex_iff)
  have "sys_free s a = Some ?s1" using ar(1) by (force simp: sys_free_def)
  then have "buddy_free s a = Some ?s2" using l hd by (simp add: buddy_free_def FreeLargeBlock_def extra_header_def)
  moreover have "buddy_inv ?s2 P F R {}" using inv ar(3) by (auto simp: buddy_inv_def intro: areas_ok_filter)
  moreover have "fst y \<noteq> a" if "y \<in> X - {(a, n)}" for y
  proof -
    have "y \<in> set (areas s)" "y \<noteq> (a, n)" using that ex by (auto simp: extra_ok_def)
    moreover have "distinct (map fst (areas s))" using inv by (simp add: buddy_inv_def areas_ok_def)
    ultimately show ?thesis using ar(1) by (metis distinct_map fst_conv inj_onD)
  qed
  then have "extra_ok ?s2 P (X - {(a, n)})" using ex by (auto simp: extra_ok_def case_prod_unfold)
  moreover have "stats_ok (Stats (ctx ?s2)) (page_kSize (ctx s)) P (length (F (page_kSize (ctx s)))) R (X - {(a, n)})"
    using stats_remove_extra [OF st x] by simp
  moreover have "touches s ?s2 {}" by (simp add: touches_def upd_stats_def)
  ultimately show ?thesis by (intro exI [of _ ?s2]) (simp add: buddy_ok_def)
qed

subsection \<open>Blocks released by other threads\<close>

fun nchain :: "(addr \<Rightarrow> buddy_block) \<Rightarrow> addr option \<Rightarrow> addr list \<Rightarrow> bool" where
  "nchain h d [] = (d = None)"
| "nchain h d (a # xs) = (d = Some a \<and> nchain h (NextBlock (h a)) xs)"

lemma nchain_cong: "\<forall>a\<in>set xs. NextBlock (h' a) = NextBlock (h a) \<Longrightarrow> nchain h' d xs = nchain h d xs"
  by (induction xs arbitrary: d) auto

definition released :: "buddy_state \<Rightarrow> (addr \<times> nat) set \<Rightarrow> (addr \<times> nat) set \<Rightarrow> addr list \<Rightarrow> bool" where
  "released s R X T \<longleftrightarrow> distinct T \<and> set T \<subseteq> fst ` (R \<union> X) \<and> nchain (heap s) (ToBeFreed_list (ctx s)) T"

definition keep :: "(addr \<times> nat) set \<Rightarrow> addr list \<Rightarrow> (addr \<times> nat) set" where
  "keep A T = {x \<in> A. fst x \<notin> set T}"

lemma keep_Nil [simp]: "keep A [] = A" by (simp add: keep_def)

text \<open>\<open>keeps\<close> says that an operation does not touch the blocks \<open>U\<close>.\<close>

definition keeps :: "buddy_state \<Rightarrow> buddy_state \<Rightarrow> (addr \<times> nat) set \<Rightarrow> bool" where
  "keeps s s' U \<longleftrightarrow> (\<forall>y\<in>U. heap s' (fst y) = heap s (fst y)) \<and> bytes s' = bytes s \<and> answers s' = answers s
     \<and> page_kSize (ctx s') = page_kSize (ctx s) \<and> Config (ctx s') = Config (ctx s) \<and> initialized (ctx s') = initialized (ctx s)
     \<and> destroy_pending (ctx s') = destroy_pending (ctx s)"

lemma keeps_refl [simp]: "keeps s s U" by (simp add: keeps_def)

lemma keeps_trans: "keeps s1 s2 U \<Longrightarrow> keeps s2 s3 V \<Longrightarrow> V \<subseteq> U \<Longrightarrow> keeps s1 s3 V"
  by (auto simp: keeps_def)

lemma keeps_mono: "keeps s s' U \<Longrightarrow> V \<subseteq> U \<Longrightarrow> keeps s s' V"
  by (auto simp: keeps_def)

lemma touches_keeps: "touches s s' A \<Longrightarrow> \<forall>y\<in>U. fst y \<notin> A \<Longrightarrow> keeps s s' U"
  using touches_ctx [of s s' A] by (simp add: keeps_def touches_def)

lemma used_untouched:
  assumes inv: "buddy_inv s P F R {}" and ex: "extra_ok s P X" and p: "x \<in> R" and y: "y \<in> R - {x} \<union> X"
  shows "fst y \<notin> free_space F {} \<union> span x"
proof (cases "y \<in> X")
  case True
  then show ?thesis using extra_not_in_pages [OF inv ex True] free_space_subset [OF inv] used_subset [OF inv p] by blast
next
  case False
  then have y: "y \<in> R" "y \<noteq> x" using y by auto
  have "tiling (page_kSize (ctx s)) P (fblocks F \<union> R \<union> {})" using inv by (simp add: buddy_inv_def layout_def)
  moreover have "fst y \<in> span y" by (simp add: span_def)
  ultimately have "fst y \<notin> span x" using tiling_unique [of _ P "fblocks F \<union> R \<union> {}" y x "fst y"] y p by auto
  then show ?thesis using used_not_free [OF inv y(1)] by simp
qed

definition set_tofree :: "addr option \<Rightarrow> buddy_state \<Rightarrow> buddy_state" where
  "set_tofree d s = s\<lparr>ctx := (ctx s)\<lparr>ToBeFreed_list := d\<rparr>\<rparr>"

lemma set_tofree_fields [simp]:
  "heap (set_tofree d s) = heap s" "ToBeFreed_list (ctx (set_tofree d s)) = d" "areas (set_tofree d s) = areas s"
  "ncalls (set_tofree d s) = ncalls s" "page_kSize (ctx (set_tofree d s)) = page_kSize (ctx s)"
  by (simp_all add: set_tofree_def)

lemma buddy_ok_set_tofree [simp]: "buddy_ok (set_tofree d s) P F R X = buddy_ok s P F R X"
  by (simp add: buddy_ok_def buddy_inv_def extra_ok_def set_tofree_def)

text \<open>The release of one block, large or not, and of the blocks of the list.\<close>

definition shrinks :: "buddy_state \<Rightarrow> buddy_state \<Rightarrow> bool" where
  "shrinks s s' \<longleftrightarrow> set (areas s') \<subseteq> set (areas s) \<and> ncalls s' = ncalls s"

lemma buddy_free_any:
  assumes ok: "buddy_ok s P F R X" and a: "a \<in> fst ` (R \<union> X)"
  shows "\<exists>s' P' F'. buddy_free s a = Some s' \<and> buddy_ok s' P' F' (keep R [a]) (keep X [a]) \<and> P' \<subseteq> P
     \<and> keeps s s' (keep R [a] \<union> keep X [a]) \<and> ToBeFreed_list (ctx s') = ToBeFreed_list (ctx s) \<and> shrinks s s'"
proof -
  have inv: "buddy_inv s P F R {}" and ex: "extra_ok s P X" using ok by (simp_all add: buddy_ok_def)
  have t: "tiling (page_kSize (ctx s)) P (fblocks F \<union> R \<union> {})" using inv by (simp add: buddy_inv_def layout_def)
  have RX: "fst x \<noteq> fst y" if "x \<in> R" "y \<in> X" for x y
    using extra_not_in_pages [OF inv ex that(2)] used_subset [OF inv that(1)] fst_in_span [of "fst x" "snd x"] by auto
  consider k where "(a, k) \<in> R" | n where "(a, n) \<in> X" using a by auto
  then show ?thesis
  proof cases
    case 1
    have "j = k" if "(a, j) \<in> R" for j using tiling_same_start [OF t, of a j k] 1 that by simp
    then have "y \<in> R \<Longrightarrow> fst y = a \<longleftrightarrow> y = (a, k)" for y by (cases y) auto
    then have "keep R [a] = R - {(a, k)}" unfolding keep_def by auto
    moreover have "keep X [a] = X" using RX [OF 1] by (force simp: keep_def)
    ultimately have eq: "keep R [a] = R - {(a, k)}" "keep X [a] = X" .
    obtain s' P' F' where r: "buddy_free s a = Some s'" "buddy_ok s' P' F' (R - {(a, k)}) X"
      "touches s s' (free_space F {} \<union> span (a, k))" "given_back s s' P P'" using buddy_free_std [OF ok 1] by blast
    have "keeps s s' (R - {(a, k)} \<union> X)" using touches_keeps [OF r(3)] used_untouched [OF inv ex 1] by blast
    then show ?thesis using r touches_ctx(4) [OF r(3)] unfolding eq
      by (intro exI [of _ s'] exI [of _ P'] exI [of _ F']) (auto simp: given_back_def shrinks_def)
  next
    case 2
    have dm: "distinct (map fst (areas s))" "X \<subseteq> set (areas s)" using inv ex by (simp_all add: buddy_inv_def areas_ok_def extra_ok_def)
    have "m = n" if "(a, m) \<in> X" for m using that 2 dm eq_key_imp_eq_value [of "areas s" a m n] by blast
    then have "y \<in> X \<Longrightarrow> fst y = a \<longleftrightarrow> y = (a, n)" for y by (cases y) auto
    then have "keep X [a] = X - {(a, n)}" unfolding keep_def by auto
    moreover have "keep R [a] = R" using RX [OF _ 2] by (force simp: keep_def)
    ultimately have eq: "keep X [a] = X - {(a, n)}" "keep R [a] = R" .
    obtain s' where r: "buddy_free s a = Some s'" "buddy_ok s' P F R (X - {(a, n)})" "touches s s' {}"
      "areas s' = filter (\<lambda>(c, m). c \<noteq> a) (areas s)" "ncalls s' = ncalls s" using buddy_free_extra [OF ok 2] by blast
    then show ?thesis using touches_keeps [OF r(3)] touches_ctx(4) [OF r(3)] unfolding eq
      by (intro exI [of _ s'] exI [of _ P] exI [of _ F]) (auto simp: shrinks_def)
  qed
qed

lemma CheckBlocksToBeFreed_spec:
  assumes "buddy_ok s P F R X" and "released s R X T"
  shows "\<exists>s' P' F'. CheckBlocksToBeFreed s = Some s' \<and> buddy_ok s' P' F' (keep R T) (keep X T) \<and> P' \<subseteq> P
     \<and> keeps s s' (keep R T \<union> keep X T) \<and> ToBeFreed_list (ctx s') = None \<and> shrinks s s'"
  using assms
proof (induction T arbitrary: s P F R X)
  case Nil
  then have "CheckBlocksToBeFreed s = Some s" by (simp add: CheckBlocksToBeFreed.simps released_def)
  then show ?case using Nil by (intro exI [of _ s] exI [of _ P] exI [of _ F]) (simp add: released_def shrinks_def)
next
  case (Cons a T)
  note rl = Cons.prems(2)
  have aU: "a \<in> fst ` (R \<union> X)" and aT: "a \<notin> set T" "distinct T" and sT: "set T \<subseteq> fst ` (R \<union> X)"
    and hd: "ToBeFreed_list (ctx s) = Some a" "nchain (heap s) (NextBlock (heap s a)) T" using rl by (auto simp: released_def)
  let ?s0 = "set_tofree (NextBlock (heap s a)) s"
  have ok0: "buddy_ok ?s0 P F R X" using Cons.prems(1) by simp
  obtain s1 P1 F1 where r: "buddy_free ?s0 a = Some s1" "buddy_ok s1 P1 F1 (keep R [a]) (keep X [a])" "P1 \<subseteq> P"
    "keeps ?s0 s1 (keep R [a] \<union> keep X [a])" "ToBeFreed_list (ctx s1) = NextBlock (heap s a)" "shrinks ?s0 s1"
    using buddy_free_any [OF ok0 aU] by auto
  have v: "load s a = Some (heap s a)"
  proof -
    have inv: "buddy_inv s P F R {}" and ex: "extra_ok s P X" using Cons.prems(1) by (simp_all add: buddy_ok_def)
    from aU consider k where "(a, k) \<in> R" | n where "(a, n) \<in> X" by auto
    then show ?thesis
    proof cases
      case 1
      then have "(a, k) \<in> fblocks F \<union> R \<union> {}" by simp
      then show ?thesis by (rule buddy_inv_block [OF inv])
    next
      case 2
      then have "(a, n) \<in> set (areas s)" "block_size \<le> n" using ex by (auto simp: extra_ok_def)
      then show ?thesis by (force simp: load_def valid_block_def list_ex_iff)
    qed
  qed
  have T1: "set T \<subseteq> fst ` (keep R [a] \<union> keep X [a])" using sT aT(1) by (auto simp: keep_def image_iff)
  have "NextBlock (heap s1 t) = NextBlock (heap s t)" if t: "t \<in> set T" for t
  proof -
    obtain y where "y \<in> keep R [a] \<union> keep X [a]" "t = fst y" using T1 t by blast
    then show ?thesis using r(4) by (simp add: keeps_def)
  qed
  then have "nchain (heap s1) (NextBlock (heap s a)) T" using hd(2) nchain_cong [of T "heap s1" "heap s"] by simp
  then have rl1: "released s1 (keep R [a]) (keep X [a]) T" using aT(2) T1 r(5) by (simp add: released_def)
  have kk: "keep (keep A [a]) T = keep A (a # T)" for A by (auto simp: keep_def)
  obtain s' P' F' where r2: "CheckBlocksToBeFreed s1 = Some s'" "buddy_ok s' P' F' (keep R (a # T)) (keep X (a # T))" "P' \<subseteq> P1"
    "keeps s1 s' (keep R (a # T) \<union> keep X (a # T))" "ToBeFreed_list (ctx s') = None" "shrinks s1 s'"
    using Cons.IH [OF r(2) rl1] kk by auto
  have "keeps s ?s0 (keep R [a] \<union> keep X [a])" by (simp add: keeps_def set_tofree_def)
  then have "keeps s s' (keep R (a # T) \<union> keep X (a # T))"
    by (rule keeps_trans [OF keeps_trans [OF _ r(4)] r2(4)]) (auto simp: keep_def)
  moreover have "CheckBlocksToBeFreed s = CheckBlocksToBeFreed s1"
    by (subst CheckBlocksToBeFreed.simps) (simp add: hd v r(1) flip: set_tofree_def)
  ultimately show ?case using r2 r(3,6) by (intro exI [of _ s'] exI [of _ P'] exI [of _ F']) (auto simp: shrinks_def)
qed

subsection \<open>Allocation\<close>

lemma size_log2_spec:
  assumes "Size + header_size \<le> 2 ^ 30"
  shows "max Size MIN_ALLOC_SIZE + header_size \<le> 2 ^ size_log2 Size" "6 \<le> size_log2 Size" "size_log2 Size \<le> 30"
    "size_log2 Size \<le> k \<longleftrightarrow> max Size MIN_ALLOC_SIZE + header_size \<le> 2 ^ k"
proof -
  define n where "n = max Size MIN_ALLOC_SIZE + header_size"
  have n30: "n \<le> 2 ^ 30" using assms by (simp add: n_def MIN_ALLOC_SIZE_def header_size_def)
  then have n63: "n \<le> 2 ^ 63" by simp
  have e: "size_log2 Size = Log2Ceil n"
  proof (cases "Size < MIN_ALLOC_SIZE")
    case False
    have "(Size + header_size) mod 2 ^ 64 = Size + header_size" using assms by simp
    then show ?thesis using False by (simp add: size_log2_def n_def)
  qed (simp add: size_log2_def n_def)
  have ge: "n \<le> 2 ^ size_log2 Size" unfolding e using Log2Ceil_ge [OF n63] .
  then show "max Size MIN_ALLOC_SIZE + header_size \<le> 2 ^ size_log2 Size" by (simp add: n_def)
  have "(2 :: nat) ^ 6 \<le> 2 ^ size_log2 Size" using ge by (simp add: n_def MIN_ALLOC_SIZE_def header_size_def)
  then show "6 \<le> size_log2 Size" using power_le_imp_le_exp [of "2 :: nat" 6 "size_log2 Size"] by simp
  show "size_log2 Size \<le> 30" unfolding e by (rule Log2Ceil_least [OF n63 n30])
  show "size_log2 Size \<le> k \<longleftrightarrow> max Size MIN_ALLOC_SIZE + header_size \<le> 2 ^ k"
  proof
    assume "size_log2 Size \<le> k"
    then have "(2 :: nat) ^ size_log2 Size \<le> 2 ^ k" by (rule power_increasing) simp
    with ge have "n \<le> 2 ^ k" by (rule le_trans)
    then show "max Size MIN_ALLOC_SIZE + header_size \<le> 2 ^ k" by (simp add: n_def)
  qed (unfold e, simp add: Log2Ceil_least [OF n63] n_def [symmetric])
qed

lemma find_desc_spec:
  "m \<le> find_desc d m \<and> (find_desc d m < BUDDY_MAX_LOG2_SIZE \<longrightarrow> d (find_desc d m) \<noteq> None)
     \<and> (\<forall>j. m \<le> j \<longrightarrow> j < find_desc d m \<longrightarrow> d j = None)"
proof (induction d m rule: find_desc.induct)
  case (1 d i)
  show ?case
  proof (cases "i < BUDDY_MAX_LOG2_SIZE \<and> d i = None")
    case True
    then have e: "find_desc d i = find_desc d (Suc i)" by (subst find_desc.simps) simp
    have "d j = None" if "i \<le> j" "j < find_desc d (Suc i)" for j using "1.IH" [OF True] that True by (cases "j = i") auto
    then show ?thesis using "1.IH" [OF True] unfolding e by auto
  next
    case False
    then have "find_desc d i = i" by (subst find_desc.simps) auto
    then show ?thesis using False by auto
  qed
qed

lemma limbo_to_used:
  assumes "buddy_inv s P F R {x}" and "used_header (Header (heap s (fst x)))"
  shows "buddy_inv s P F (insert x R) {}"
proof -
  have "fblocks F \<union> insert x R \<union> {} = fblocks F \<union> R \<union> {x}" by blast
  then show ?thesis using assms unfolding buddy_inv_def layout_def headers_ok_def by auto
qed

lemma reserve_spec:
  assumes ok: "buddy_ok s P F R X" and p: "p \<in> set (F i)" and m: "m \<le> i" "6 \<le> m"
  shows "\<exists>s' F'. reserve self c s p m (2 ^ m) = Some s' \<and> buddy_ok s' P F' (insert (p, m) R) X \<and> (p, m) \<notin> R
     \<and> touches s s' (free_space F {}) \<and> areas s' = areas s \<and> ncalls s' = ncalls s
     \<and> OwnerThread (Header (heap s' p)) = self \<and> OwnerThreadContext (Header (heap s' p)) = c"
proof -
  let ?K = "page_kSize (ctx s)" let ?F1 = "F(i := remove1 p (F i))" let ?F2 = "\<lambda>k. if m \<le> k \<and> k < i then (p + 2 ^ k) # ?F1 k else ?F1 k"
  have inv: "buddy_inv s P F R {}" and ex: "extra_ok s P X" and st: "stats_ok (Stats (ctx s)) ?K P (length (F ?K)) R X"
    using ok by (simp_all add: buddy_ok_def)
  obtain s1 where s1: "Remove_FreeBlock s p = Some s1" "buddy_inv s1 P ?F1 R (insert (p, i) {})"
    "frame s s1 (free_space F {})" "\<forall>a. Header (heap s1 a) = Header (heap s a)" by (rule Remove_FreeBlock_spec [OF inv p])
  have K1: "page_kSize (ctx s1) = ?K" using frame_ctx(1) [OF s1(3)] .
  have pB: "(p, i) \<in> fblocks ?F1 \<union> R \<union> {(p, i)}" by simp
  from s1(2) pB obtain b where l1: "in_page ?K b (p, i)" "load s1 p = Some (heap s1 p)" unfolding K1 [symmetric] by (rule buddy_inv_block)
  then have iK: "i \<le> ?K" by (simp add: in_page_def)
  let ?t = "is_page (heap s1 p) p"
  have pg: "?t \<longleftrightarrow> i = ?K" using is_page_iff [OF s1(2) pB] K1 by simp
  define s1' where "s1' = (if ?t then upd_stats UpdateStats_UseStdPage s1 else s1)"
  have i1: "buddy_inv s1' P ?F1 R {(p, i)}" using s1(2) by (simp add: s1'_def)
  have st1: "stats_ok (Stats (ctx s1')) ?K P (length (?F2 ?K)) R X"
  proof (cases "i = ?K")
    case True
    have "stats_ok (Stats (ctx s1)) ?K P (Suc (length (remove1 p (F ?K)))) R X"
      using st p length_remove1_Suc [of p "F ?K"] True frame_ctx(2) [OF s1(3)] by simp
    then show ?thesis using True pg by (simp add: s1'_def stats_use_page)
  next
    case False
    then show ?thesis using st pg iK frame_ctx(2) [OF s1(3)] by (simp add: s1'_def)
  qed
  obtain s2 where s2: "split s1' p m = Some s2" "buddy_inv s2 P ?F2 R {(p, m)}" "frame s1' s2 (free_space ?F1 {(p, i)})"
    using split_spec [OF i1 m] by blast
  define g where "g = (\<lambda>x :: buddy_header. x\<lparr>status := RESERVED_BLOCK, MagicNumber := MAGIC_NUMBER_USED, OwnerThread := self, OwnerThreadContext := c\<rparr>)"
  define s3 where "s3 = s2\<lparr>heap := (heap s2)(p := (heap s2 p)\<lparr>Header := g (Header (heap s2 p))\<rparr>)\<rparr>"
  have i3: "buddy_inv s3 P ?F2 R {(p, m)}" unfolding s3_def by (rule limbo_header [OF s2(2)]) (simp_all add: g_def)
  then have i4: "buddy_inv s3 P ?F2 (insert (p, m) R) {}"
    by (rule limbo_to_used) (simp add: s3_def g_def used_header_def)
  have nR: "(p, m) \<notin> R" using i3 by (auto simp: buddy_inv_def layout_def)
  have pB2: "(p, m) \<in> fblocks ?F2 \<union> R \<union> {(p, m)}" by simp
  from s2(2) pB2 have v2: "valid_block (areas s2) p" by (rule buddy_inv_block)
  have u: "upd s2 p (\<lambda>x. x\<lparr>Header := g (Header x)\<rparr>) = Some s3" using v2 by (simp add: upd_def s3_def)
  let ?s4 = "upd_stats (UpdateStats_UseStdMemSpace (2 ^ m)) s3"
  have r: "reserve self c s p m (2 ^ m) = Some ?s4"
    using s1(1) l1(2) s2(1) u by (simp add: reserve_def g_def flip: s1'_def)
  have fs: "free_space ?F1 {(p, i)} = free_space F {}" using free_space_same [OF inv s1(2) K1] by simp
  have pf: "p \<in> free_space F {}" using p by (force simp: free_space_def fblocks_def)
  have "touches s s1' (free_space F {})"
    by (rule touches_seq [OF frame_touches [OF s1(3)], of s1' "{}"]) (auto simp: s1'_def touches_def upd_stats_def)
  then have "touches s s2 (free_space F {})" by (rule touches_seq [OF _ frame_touches [OF s2(3)]]) (simp_all add: fs)
  then have t3: "touches s s3 (free_space F {})" using pf by (auto simp: s3_def touches_def)
  have t4: "touches s ?s4 (free_space F {})" by (rule touches_seq [OF t3 touches_stats [where A = "{}"]]) simp_all
  have K3: "page_kSize (ctx s3) = ?K" using touches_ctx(1) [OF t3] .
  have ar: "areas s3 = areas s" "ncalls s3 = ncalls s" "Stats (ctx s3) = Stats (ctx s1')"
    using s2(3) s1(3) frame_ctx(2) [OF s2(3)] by (simp_all add: s3_def frame_def s1'_def)
  have "extra_ok ?s4 P X" using extra_ok_touched [OF ex inv t4 free_space_subset [OF inv] _ subset_refl] ex ar(1) by (simp add: extra_ok_def)
  moreover have "stats_ok (Stats (ctx ?s4)) ?K P (length (?F2 ?K)) (insert (p, m) R) X"
    using stats_use [OF st1 nR] ar(3) by simp
  ultimately have "buddy_ok ?s4 P ?F2 (insert (p, m) R) X"
    using i4 K3 unfolding buddy_ok_def by (simp only: buddy_inv_upd_stats upd_stats_fields simp_thms)
  moreover have "OwnerThread (Header (heap ?s4 p)) = self" "OwnerThreadContext (Header (heap ?s4 p)) = c" by (simp_all add: s3_def g_def)
  ultimately show ?thesis using r nR t4 ar by (intro exI [of _ ?s4] exI [of _ ?F2]) simp
qed

lemma fresh_subset: "fresh_area as a n \<Longrightarrow> set bs \<subseteq> set as \<Longrightarrow> fresh_area bs a n"
  by (auto simp: fresh_area_def)

lemma malloc_fresh_shrinks: "malloc_fresh s n \<Longrightarrow> shrinks s s' \<Longrightarrow> answers s' = answers s \<Longrightarrow> malloc_fresh s' n"
  by (auto simp: malloc_fresh_def shrinks_def intro: fresh_subset)

lemma buddy_ok_set_errno [simp]: "buddy_ok (set_errno e s) P F R X = buddy_ok s P F R X"
  by (simp add: buddy_ok_def buddy_inv_def extra_ok_def set_errno_def)

lemma buddy_ok_ncalls [simp]: "buddy_ok (s\<lparr>ncalls := n\<rparr>) P F R X = buddy_ok s P F R X"
  by (simp add: buddy_ok_def buddy_inv_def extra_ok_def)

lemma keeps_errno [simp]: "keeps s (set_errno e s') U = keeps s s' U"
  by (simp add: keeps_def set_errno_def)

lemma keeps_ncalls [simp]: "keeps s (s'\<lparr>ncalls := n\<rparr>) U = keeps s s' U"
  by (simp add: keeps_def)

lemma set_errno_fields [simp]: "ToBeFreed_list (ctx (set_errno e s)) = ToBeFreed_list (ctx s)" "Errno (ctx (set_errno e s)) = e"
  by (simp_all add: set_errno_def)

lemma NewStdPage_ok:
  assumes ok: "buddy_ok s P F R X" and fr: "malloc_fresh s (2 ^ page_kSize (ctx s))" and b: "answers s (ncalls s) = Some b"
  shows "\<exists>s' F'. NewStdPage s = Some (Some b, s') \<and> buddy_ok s' (insert b P) F' R X \<and> b \<in> set (F' (page_kSize (ctx s)))
     \<and> keeps s s' (R \<union> X) \<and> ToBeFreed_list (ctx s') = ToBeFreed_list (ctx s) \<and> ncalls s' = Suc (ncalls s)"
proof -
  let ?K = "page_kSize (ctx s)" let ?F = "F(?K := b # F ?K)"
  have inv: "buddy_inv s P F R {}" and ex: "extra_ok s P X" and st: "stats_ok (Stats (ctx s)) ?K P (length (F ?K)) R X"
    using ok by (simp_all add: buddy_ok_def)
  obtain s1 where s1: "NewStdPage s = Some (Some b, upd_stats UpdateStats_InsertStdPage s1)" "b \<notin> P" "buddy_inv s1 (insert b P) ?F R {}"
    "\<forall>a. a \<notin> free_space F {} \<union> {b ..< b + 2 ^ ?K} \<longrightarrow> heap s1 a = heap s a" "areas s1 = (b, 2 ^ ?K) # areas s" "bytes s1 = bytes s"
    "answers s1 = answers s" "ncalls s1 = Suc (ncalls s)" "ctx s1 = (ctx s)\<lparr>MemDesc := MemDesc (ctx s1)\<rparr>" using NewStdPage_spec(2) [OF inv fr b] by blast
  have c: "page_kSize (ctx s1) = ?K" "Stats (ctx s1) = Stats (ctx s)" "Config (ctx s1) = Config (ctx s)" "initialized (ctx s1) = initialized (ctx s)"
    "ToBeFreed_list (ctx s1) = ToBeFreed_list (ctx s)" "destroy_pending (ctx s1) = destroy_pending (ctx s)" by (subst s1(9), simp)+
  have fb: "fresh_area (areas s) b (2 ^ ?K)" using fr b by (simp add: malloc_fresh_def)
  have in_area: "fst y \<notin> {b ..< b + 2 ^ ?K}" if y: "y \<in> R \<union> X" for y
  proof (cases "y \<in> X")
    case True
    then have "y \<in> set (areas s)" "block_size \<le> snd y" using ex by (auto simp: extra_ok_def)
    then have "{fst y ..< fst y + snd y} \<inter> {b ..< b + 2 ^ ?K} = {}" "fst y \<in> {fst y ..< fst y + snd y}"
      using fb unfolding fresh_area_def by (blast, simp add: block_size_def)
    then show ?thesis by blast
  next
    case False
    then have "y \<in> R" using y by simp
    then have "fst y \<in> page_space s P" using used_subset [OF inv, of y] fst_in_span [of "fst y" "snd y"] by auto
    then obtain c where c: "c \<in> P" "fst y \<in> {c ..< c + 2 ^ ?K}" unfolding page_space_def by blast
    then have "(c, 2 ^ ?K) \<in> set (areas s)" using inv by (simp add: buddy_inv_def)
    then have "{fst (c, 2 ^ ?K :: nat) ..< fst (c, 2 ^ ?K :: nat) + snd (c, 2 ^ ?K :: nat)} \<inter> {b ..< b + 2 ^ ?K} = {}"
      using fb unfolding fresh_area_def by blast
    then show ?thesis using c(2) unfolding fst_conv snd_conv by blast
  qed
  have nf: "fst y \<notin> free_space F {}" if "y \<in> R \<union> X" for y
    using that used_not_free [OF inv] extra_not_in_pages [OF inv ex] free_space_subset [OF inv] by blast
  have same: "heap s1 (fst y) = heap s (fst y)" if "y \<in> R \<union> X" for y using s1(4) in_area [OF that] nf [OF that] by blast
  have bX: "fst y \<noteq> b" if "y \<in> X" for y using in_area [of y] that by auto
  let ?s2 = "upd_stats UpdateStats_InsertStdPage s1"
  have "extra_ok ?s2 (insert b P) X" using ex s1(5) same bX by (auto simp: extra_ok_def extra_header_def)
  moreover have "stats_ok (Stats (ctx ?s2)) ?K (insert b P) (length (?F ?K)) R X" using stats_insert_page [OF st s1(2)] c(2) by simp
  ultimately have "buddy_ok ?s2 (insert b P) ?F R X" using s1(3) c(1) by (simp add: buddy_ok_def)
  then show ?thesis using s1(1,6,7,8) c same by (intro exI [of _ ?s2] exI [of _ ?F]) (simp add: keeps_def upd_stats_def)
qed

lemma find_block_spec:
  assumes ok: "buddy_ok s P F R X" and fr: "malloc_fresh s (2 ^ page_kSize (ctx s))" and m: "m \<le> page_kSize (ctx s)"
  shows "\<exists>r s' P' F'. find_block do_exit s m = Some (r, s') \<and> buddy_ok s' P' F' R X \<and> keeps s s' (R \<union> X) \<and> P \<subseteq> P'
     \<and> ToBeFreed_list (ctx s') = ToBeFreed_list (ctx s)
     \<and> (case r of Inr p \<Rightarrow> \<exists>i\<ge>m. p \<in> set (F' i)
        | Inl e \<Rightarrow> e = (if do_exit then Exited else Returned None) \<and> (\<forall>i\<ge>m. F i = [])
            \<and> (e \<noteq> Exited \<longrightarrow> Errno (ctx s') = (if on_demand_alloc (Config (ctx s)) then BUDDY_ERR_MALLOC else BUDDY_ERR_OUTOFMEM))
            \<and> (on_demand_alloc (Config (ctx s)) \<longrightarrow> answers s (ncalls s) = None))"
proof -
  let ?K = "page_kSize (ctx s)" let ?i = "find_desc (MemDesc (ctx s)) m"
  note fd = find_desc_spec [of m "MemDesc (ctx s)"]
  have inv: "buddy_inv s P F R {}" using ok by (simp add: buddy_ok_def)
  have fl: "MemDesc (ctx s) j = lfirst (F j) None" if "j < BUDDY_MAX_LOG2_SIZE" for j
    using inv that by (simp add: buddy_inv_def lists_ok_def flist_def)
  show ?thesis
  proof (cases "?i < BUDDY_MAX_LOG2_SIZE")
    case True
    then obtain p where p: "MemDesc (ctx s) ?i = Some p" using fd by auto
    then have "p \<in> set (F ?i)" using fl [OF True] lfirst_Some_in [of "F ?i" p] by simp
    then show ?thesis using True p fd ok
      by (intro exI [of _ "Inr p"] exI [of _ s] exI [of _ P] exI [of _ F]) (auto simp: find_block_def Let_def)
  next
    case False
    have emp: "F i = []" if "m \<le> i" for i
    proof (cases "i < BUDDY_MAX_LOG2_SIZE")
      case True
      then have "MemDesc (ctx s) i = None" using fd that False by auto
      then show ?thesis using fl [OF True] by (cases "F i") auto
    next
      case ge: False
      show ?thesis
      proof (rule ccontr)
        assume "F i \<noteq> []"
        then have "(hd (F i), i) \<in> fblocks F \<union> R \<union> {}" by (simp add: fblocks_def)
        then have "i < 31" by (rule buddy_inv_block [OF inv])
        then show False using ge by (simp add: BUDDY_MAX_LOG2_SIZE_def)
      qed
    qed
    show ?thesis
    proof (cases "on_demand_alloc (Config (ctx s))")
      case nod: False
      then show ?thesis using False ok emp
        by (cases do_exit) (auto simp: find_block_def Let_def)
    next
      case od: True
      show ?thesis
      proof (cases "answers s (ncalls s)")
        case None
        then have "NewStdPage s = Some (None, s\<lparr>ncalls := Suc (ncalls s)\<rparr>)" using NewStdPage_spec(1) [OF inv fr] by simp
        then show ?thesis using False od ok emp None
          by (cases do_exit) (auto simp: find_block_def Let_def)
      next
        case (Some b)
        obtain s' F' where n: "NewStdPage s = Some (Some b, s')" "buddy_ok s' (insert b P) F' R X" "b \<in> set (F' ?K)"
          "keeps s s' (R \<union> X)" "ToBeFreed_list (ctx s') = ToBeFreed_list (ctx s)" using NewStdPage_ok [OF ok fr Some] by blast
        then show ?thesis using False od m
          by (intro exI [of _ "Inr b"] exI [of _ s'] exI [of _ "insert b P"] exI [of _ F']) (auto simp: find_block_def Let_def)
      qed
    qed
  qed
qed

lemma AllocLargeBlock_spec:
  assumes ok: "buddy_ok s P F R X" and n: "Size + header_size < 2 ^ 64" "block_size \<le> Size + header_size"
    and fr: "malloc_fresh s (Size + header_size)" and ea: "extra_alloc (Config (ctx s))"
  shows "\<exists>r s'. AllocLargeBlock self c s Size = Some (r, s') \<and> keeps s s' (R \<union> X) \<and> ToBeFreed_list (ctx s') = ToBeFreed_list (ctx s)
     \<and> (case r of None \<Rightarrow> buddy_ok s' P F R X \<and> Errno (ctx s') = BUDDY_ERR_MALLOC \<and> answers s (ncalls s) = None
        | Some q \<Rightarrow> \<exists>a. q = a + header_size \<and> (a, Size + header_size) \<notin> X \<and> buddy_ok s' P F R (insert (a, Size + header_size) X)
             \<and> OwnerThread (Header (heap s' a)) = self \<and> OwnerThreadContext (Header (heap s' a)) = c)"
proof -
  let ?n = "Size + header_size" let ?K = "page_kSize (ctx s)"
  have inv: "buddy_inv s P F R {}" and ex: "extra_ok s P X" and st: "stats_ok (Stats (ctx s)) ?K P (length (F ?K)) R X"
    using ok by (simp_all add: buddy_ok_def)
  have md: "?n mod 2 ^ 64 = ?n" using n(1) by simp
  show ?thesis
  proof (cases "answers s (ncalls s)")
    case None
    then show ?thesis using ok ea md
      by (intro exI [of _ None] exI [of _ "set_errno BUDDY_ERR_MALLOC (s\<lparr>ncalls := Suc (ncalls s)\<rparr>)"]) (simp add: AllocLargeBlock_def Let_def malloc_def)
  next
    case (Some a)
    have fa: "fresh_area (areas s) a ?n" using fr Some by (simp add: malloc_fresh_def)
    define s1 where "s1 = s\<lparr>ncalls := Suc (ncalls s), areas := (a, ?n) # areas s\<rparr>"
    define h where "h = \<lparr>Base_ptr = None, MagicNumber = MAGIC_NUMBER_USED, OwnerThread = self, OwnerThreadContext = c,
       BlockInfo = ExtraInfo ?n, status = RESERVED_BLOCK\<rparr>"
    define s2 where "s2 = s1\<lparr>heap := (heap s1)(a := (heap s1 a)\<lparr>Header := h\<rparr>)\<rparr>"
    let ?s3 = "upd_stats (UpdateStats_AddExtraPage (of_nat ?n)) s2"
    have ml: "malloc s ?n = (Some a, s1)" using Some by (simp add: malloc_def s1_def)
    have v: "valid_block (areas s1) a" using n(2) by (simp add: valid_block_def s1_def)
    then have "upd s1 a (\<lambda>b. b\<lparr>Header := h\<rparr>) = Some s2" by (simp add: upd_def s2_def)
    then have e: "AllocLargeBlock self c s Size = Some (Some (a + header_size), ?s3)"
      using ea md ml by (simp add: AllocLargeBlock_def Let_def h_def)
    have nv: "\<not> valid_block (areas s) a"
    proof
      assume "valid_block (areas s) a"
      then obtain b k where "(b, k) \<in> set (areas s)" "b \<le> a" "a + block_size \<le> b + k" by (auto simp: valid_block_def list_ex_iff)
      then have "{fst (b, k) ..< fst (b, k) + snd (b, k)} \<inter> {a ..< a + ?n} = {}" "a \<in> {b ..< b + k}" "a \<in> {a ..< a + ?n}"
        using fa unfolding fresh_area_def by (blast, simp_all add: block_size_def header_size_def)
      then show False unfolding fst_conv snd_conv by blast
    qed
    have apart: "x \<noteq> a" if "(x, k) \<in> fblocks F \<union> R \<union> {}" for x k
    proof
      assume "x = a"
      then have "(a, k) \<in> fblocks F \<union> R \<union> {}" using that by simp
      then have "valid_block (areas s) a" by (rule buddy_inv_block [OF inv])
      then show False using nv by simp
    qed
    have aX: "x \<noteq> a" if "(x, k) \<in> X" for x k using that ex fa by (force simp: extra_ok_def fresh_area_def)
    have aP: "a \<notin> P" using inv fa by (force simp: buddy_inv_def fresh_area_def)
    have same: "heap s2 x = heap s x" if "x \<noteq> a" for x using that by (simp add: s2_def s1_def)
    have "areas_ok (areas s2)" using inv areas_ok_cons [OF _ fa] by (simp add: buddy_inv_def s2_def s1_def)
    moreover have "headers_ok (heap s2) ?K P F R {}"
    proof -
      have "heap s2 (fst y) = heap s (fst y)" if "y \<in> fblocks F \<union> R" for y using same [OF apart [of "fst y" "snd y"]] that by simp
      then show ?thesis using inv unfolding buddy_inv_def headers_ok_def std_header_def by (simp add: ball_Un)
    qed
    moreover have "lists_ok (heap s2) (MemDesc (ctx s)) F"
    proof -
      have "fseg (heap s2) None (F k) None = fseg (heap s) None (F k) None" for k
        by (rule fseg_cong) (simp add: s2_def s1_def)
      then show ?thesis using inv by (simp add: buddy_inv_def lists_ok_def flist_def)
    qed
    ultimately have "buddy_inv ?s3 P F R {}" using inv by (simp add: buddy_inv_def s2_def s1_def)
    moreover have "extra_ok ?s3 P (insert (a, ?n) X)"
      using ex aP n(2) by (auto simp: extra_ok_def extra_header_def s2_def s1_def h_def used_header_def dest: aX)
    moreover have nX: "(a, ?n) \<notin> X" using aX by blast
    moreover have "stats_ok (Stats (ctx ?s3)) ?K P (length (F ?K)) R (insert (a, ?n) X)"
      using stats_add_extra [OF st nX] by (simp add: s2_def s1_def)
    moreover have "keeps s ?s3 (R \<union> X)"
    proof -
      have "fst y \<noteq> a" if "y \<in> R \<union> X" for y using that apart [of "fst y" "snd y"] aX [of "fst y" "snd y"] by auto
      then show ?thesis using same by (simp add: keeps_def upd_stats_def s2_def s1_def)
    qed
    ultimately show ?thesis using e
      by (intro exI [of _ "Some (a + header_size)"] exI [of _ ?s3]) (simp add: buddy_ok_def upd_stats_def s2_def s1_def h_def)
  qed
qed

text \<open>A free block that is large enough is found without a call of the system.\<close>

lemma buddy_malloc_from_free:
  assumes ok: "buddy_ok s P F R X" and tf: "ToBeFreed_list (ctx s) = None" and ini: "initialized (ctx s)"
    and Size: "0 < Size" "Size + header_size \<le> 2 ^ 30" and i: "size_log2 Size \<le> i" "F i \<noteq> []"
  obtains p s' F' where "buddy_malloc self c s Size do_exit = Some (Returned (Some (p + header_size)), s')"
    "buddy_ok s' P F' (insert (p, size_log2 Size) R) X" "(p, size_log2 Size) \<notin> R" "keeps s s' (R \<union> X)" "ToBeFreed_list (ctx s') = None"
    "ncalls s' = ncalls s" "OwnerThread (Header (heap s' p)) = self" "OwnerThreadContext (Header (heap s' p)) = c"
proof -
  let ?m = "size_log2 Size" let ?K = "page_kSize (ctx s)" let ?j = "find_desc (MemDesc (ctx s)) ?m"
  note sz = size_log2_spec [OF Size(2)]
  have inv: "buddy_inv s P F R {}" and ex: "extra_ok s P X" using ok by (simp_all add: buddy_ok_def)
  have fl: "MemDesc (ctx s) k = lfirst (F k) None" if "k < BUDDY_MAX_LOG2_SIZE" for k
    using inv that by (simp add: buddy_inv_def lists_ok_def flist_def)
  have "(hd (F i), i) \<in> fblocks F \<union> R \<union> {}" using i(2) by (simp add: fblocks_def)
  then have iK: "i \<le> ?K" "i < 31" by (rule buddy_inv_block [OF inv], simp add: in_page_def)+
  then have i64: "i < BUDDY_MAX_LOG2_SIZE" by (simp add: BUDDY_MAX_LOG2_SIZE_def)
  have "MemDesc (ctx s) i \<noteq> None" using fl [OF i64] i(2) by (cases "F i") auto
  then have ji: "?j \<le> i" using find_desc_spec [of ?m "MemDesc (ctx s)"] i(1) by (meson not_le_imp_less)
  then have j64: "?j < BUDDY_MAX_LOG2_SIZE" using i64 by simp
  then obtain p where p: "MemDesc (ctx s) ?j = Some p" using find_desc_spec [of ?m "MemDesc (ctx s)"] by auto
  then have pF: "p \<in> set (F ?j)" using fl [OF j64] lfirst_Some_in [of "F ?j" p] by simp
  have mj: "?m \<le> ?j" using find_desc_spec [of ?m "MemDesc (ctx s)"] by simp
  obtain s' F' where r: "reserve self c s p ?m (2 ^ ?m) = Some s'" "buddy_ok s' P F' (insert (p, ?m) R) X" "(p, ?m) \<notin> R"
    "touches s s' (free_space F {})" "ncalls s' = ncalls s" "OwnerThread (Header (heap s' p)) = self" "OwnerThreadContext (Header (heap s' p)) = c"
    using reserve_spec [OF ok pF mj sz(2)] by blast
  have "shl1 ?m = Some (2 ^ ?m)" using sz(3) by (simp add: shl1_def)
  moreover have "(2 :: nat) ^ ?m \<le> 2 ^ ?K" using i(1) iK(1) by (intro power_increasing) simp_all
  moreover have "CheckBlocksToBeFreed s = Some s" using tf by (simp add: CheckBlocksToBeFreed.simps)
  ultimately have "buddy_malloc self c s Size do_exit = Some (Returned (Some (p + header_size)), s')"
    using ini Size(1) j64 p r(1) by (simp add: buddy_malloc_def find_block_def Let_def)
  moreover have "\<forall>y \<in> R \<union> X. fst y \<notin> free_space F {}"
    using used_not_free [OF inv] extra_not_in_pages [OF inv ex] free_space_subset [OF inv] by blast
  then have "keeps s s' (R \<union> X)" by (rule touches_keeps [OF r(4)])
  moreover have "ToBeFreed_list (ctx s') = None" using touches_ctx(4) [OF r(4)] tf by simp
  ultimately show thesis using that r by blast
qed

text \<open>A new used block: it has room for the header and the size, and does not meet the blocks in use.\<close>

definition extent :: "addr \<times> nat \<Rightarrow> addr set" where
  "extent x = {fst x ..< fst x + snd x}"

definition new_block :: "nat \<Rightarrow> addr \<Rightarrow> nat \<Rightarrow> (addr \<times> nat) set \<Rightarrow> (addr \<times> nat) set \<Rightarrow> (addr \<times> nat) set \<Rightarrow> (addr \<times> nat) set \<Rightarrow> bool" where
  "new_block K q Size R X R' X' \<longleftrightarrow> (\<exists>a n. q = a + header_size \<and> Size + header_size \<le> n
     \<and> (\<forall>y\<in>R. span y \<inter> {a ..< a + n} = {}) \<and> (\<forall>y\<in>X. extent y \<inter> {a ..< a + n} = {})
     \<and> (if max Size MIN_ALLOC_SIZE + header_size \<le> 2 ^ K
        then R' = insert (a, size_log2 Size) R \<and> X' = X \<and> n = 2 ^ size_log2 Size
        else R' = R \<and> X' = insert (a, n) X \<and> n = Size + header_size))"

lemma used_disjoint:
  assumes ok: "buddy_ok s P F R X"
  shows "x \<in> R \<Longrightarrow> y \<in> R \<Longrightarrow> x \<noteq> y \<Longrightarrow> span x \<inter> span y = {}" and "x \<in> R \<Longrightarrow> z \<in> X \<Longrightarrow> span x \<inter> extent z = {}"
    and "z \<in> X \<Longrightarrow> z' \<in> X \<Longrightarrow> z \<noteq> z' \<Longrightarrow> extent z \<inter> extent z' = {}"
proof -
  have inv: "buddy_inv s P F R {}" and ex: "extra_ok s P X" using ok by (simp_all add: buddy_ok_def)
  have "tiling (page_kSize (ctx s)) P (fblocks F \<union> R \<union> {})" using inv by (simp add: buddy_inv_def layout_def)
  then show "x \<in> R \<Longrightarrow> y \<in> R \<Longrightarrow> x \<noteq> y \<Longrightarrow> span x \<inter> span y = {}" by (auto dest: tiling_disjoint)
  show "span x \<inter> extent z = {}" if "x \<in> R" "z \<in> X"
  proof -
    have "extent z \<inter> page_space s P = {}" unfolding page_space_def extent_def using extra_apart(1) [OF inv ex that(2)] by blast
    then show ?thesis using used_subset [OF inv that(1)] by blast
  qed
  have "areas_ok (areas s)" "X \<subseteq> set (areas s)" using inv ex by (simp_all add: buddy_inv_def extra_ok_def)
  then show "extent z \<inter> extent z' = {}" if "z \<in> X" "z' \<in> X" "z \<noteq> z'"
    using that unfolding extent_def areas_ok_def by (elim conjE) blast
qed

lemma buddy_malloc_spec:
  assumes ok: "buddy_ok s P F R X" and rl: "released s R X T" and ini: "initialized (ctx s)"
    and Size: "0 < Size" "Size + header_size \<le> 2 ^ 30"
    and fr: "malloc_fresh s (2 ^ page_kSize (ctx s))" "malloc_fresh s (Size + header_size)"
  shows "\<exists>r s' P' F' R' X'. buddy_malloc self c s Size do_exit = Some (r, s') \<and> buddy_ok s' P' F' R' X'
     \<and> ToBeFreed_list (ctx s') = None \<and> keeps s s' (keep R T \<union> keep X T)
     \<and> (case r of
          Returned (Some q) \<Rightarrow> new_block (page_kSize (ctx s)) q Size (keep R T) (keep X T) R' X'
            \<and> OwnerThread (Header (heap s' (q - header_size))) = self \<and> OwnerThreadContext (Header (heap s' (q - header_size))) = c
        | _ \<Rightarrow> R' = keep R T \<and> X' = keep X T \<and> (r = Exited \<longrightarrow> do_exit)
            \<and> (answers s (ncalls s) = None \<or> (if max Size MIN_ALLOC_SIZE + header_size \<le> 2 ^ page_kSize (ctx s)
               then \<not> on_demand_alloc (Config (ctx s)) else \<not> extra_alloc (Config (ctx s)))))"
proof -
  let ?K = "page_kSize (ctx s)" let ?m = "size_log2 Size"
  note sz = size_log2_spec [OF Size(2)]
  obtain s1 P1 F1 where s1: "CheckBlocksToBeFreed s = Some s1" "buddy_ok s1 P1 F1 (keep R T) (keep X T)" "P1 \<subseteq> P"
    "keeps s s1 (keep R T \<union> keep X T)" "ToBeFreed_list (ctx s1) = None" "shrinks s s1"
    using CheckBlocksToBeFreed_spec [OF ok rl] by blast
  have k1: "page_kSize (ctx s1) = ?K" "Config (ctx s1) = Config (ctx s)" "answers s1 = answers s" using s1(4) by (simp_all add: keeps_def)
  have nc: "ncalls s1 = ncalls s" using s1(6) by (simp add: shrinks_def)
  have fr1: "malloc_fresh s1 (2 ^ page_kSize (ctx s1))" "malloc_fresh s1 (Size + header_size)"
    using malloc_fresh_shrinks [OF fr(1) s1(6)] malloc_fresh_shrinks [OF fr(2) s1(6)] k1 by simp_all
  have sh: "shl1 ?m = Some (2 ^ ?m)" using sz(3) by (simp add: shl1_def)
  have big: "(2 :: nat) ^ ?K < 2 ^ ?m \<longleftrightarrow> \<not> ?m \<le> ?K" by auto
  show ?thesis
  proof (cases "?m \<le> ?K")
    case False
    have big': "\<not> max Size MIN_ALLOC_SIZE + header_size \<le> 2 ^ ?K" using sz(4) [of ?K] False by simp
    have "(2 :: nat) ^ 7 \<le> 2 ^ ?K" using ok by (intro power_increasing) (simp_all add: buddy_ok_def buddy_inv_def)
    then have bs: "block_size \<le> Size + header_size"
      using big' by (simp add: block_size_def MIN_ALLOC_SIZE_def header_size_def)
    show ?thesis
    proof (cases "extra_alloc (Config (ctx s))")
      case nea: False
      then have "buddy_malloc self c s Size do_exit = Some (if do_exit then Exited else Returned None, set_errno BUDDY_ERR_OUTOFMEM s1)"
        using False ini s1(1) Size(1) sh k1 by (simp add: buddy_malloc_def)
      then show ?thesis using s1 nea big'
        by (intro exI [of _ "if do_exit then Exited else Returned None"] exI [of _ "set_errno BUDDY_ERR_OUTOFMEM s1"] exI [of _ P1] exI [of _ F1] exI [of _ "keep R T"] exI [of _ "keep X T"]) simp
    next
      case ea: True
      have ea1: "extra_alloc (Config (ctx s1))" using ea k1 by simp
      have n64: "Size + header_size < 2 ^ 64" using Size(2) by simp
      obtain r s' where a: "AllocLargeBlock self c s1 Size = Some (r, s')" "keeps s1 s' (keep R T \<union> keep X T)"
        "ToBeFreed_list (ctx s') = ToBeFreed_list (ctx s1)"
        "case r of None \<Rightarrow> buddy_ok s' P1 F1 (keep R T) (keep X T) \<and> Errno (ctx s') = BUDDY_ERR_MALLOC \<and> answers s1 (ncalls s1) = None
        | Some q \<Rightarrow> \<exists>a. q = a + header_size \<and> (a, Size + header_size) \<notin> keep X T
             \<and> buddy_ok s' P1 F1 (keep R T) (insert (a, Size + header_size) (keep X T))
             \<and> OwnerThread (Header (heap s' a)) = self \<and> OwnerThreadContext (Header (heap s' a)) = c"
        using AllocLargeBlock_spec [OF s1(2) n64 bs fr1(2) ea1] by blast
      have e: "buddy_malloc self c s Size do_exit = Some (Returned r, s')"
        using False ini s1(1) Size(1) sh k1 ea a(1) by (simp add: buddy_malloc_def)
      have kp: "keeps s s' (keep R T \<union> keep X T)" by (rule keeps_trans [OF s1(4) a(2) subset_refl])
      show ?thesis
      proof (cases r)
        case None
        then show ?thesis using e a kp s1(5) k1 nc
          by (intro exI [of _ "Returned r"] exI [of _ s'] exI [of _ P1] exI [of _ F1] exI [of _ "keep R T"] exI [of _ "keep X T"]) simp
      next
        case (Some q)
        obtain b where b: "q = b + header_size" "(b, Size + header_size) \<notin> keep X T"
          "buddy_ok s' P1 F1 (keep R T) (insert (b, Size + header_size) (keep X T))"
          "OwnerThread (Header (heap s' b)) = self" "OwnerThreadContext (Header (heap s' b)) = c" using a(4) Some by auto
        have "span y \<inter> {b ..< b + (Size + header_size)} = {}" if "y \<in> keep R T" for y
          using used_disjoint(2) [OF b(3) that, of "(b, Size + header_size)"] by (simp add: extent_def)
        moreover have "extent y \<inter> {b ..< b + (Size + header_size)} = {}" if y: "y \<in> keep X T" for y
        proof -
          have "y \<noteq> (b, Size + header_size)" using y b(2) by auto
          then have "extent y \<inter> extent (b, Size + header_size) = {}" using used_disjoint(3) [OF b(3)] y by blast
          then show ?thesis by (simp only: extent_def fst_conv snd_conv)
        qed
        ultimately have "new_block ?K q Size (keep R T) (keep X T) (keep R T) (insert (b, Size + header_size) (keep X T))"
          unfolding new_block_def using b(1) big' by (intro exI [of _ b] exI [of _ "Size + header_size"]) simp
        then show ?thesis using e Some a(3) kp s1(5) b
          by (intro exI [of _ "Returned r"] exI [of _ s'] exI [of _ P1] exI [of _ F1] exI [of _ "keep R T"] exI [of _ "insert (b, Size + header_size) (keep X T)"]) simp
      qed
    qed
  next
    case True
    have small: "max Size MIN_ALLOC_SIZE + header_size \<le> 2 ^ ?K" using sz(4) [of ?K] True by simp
    have m1: "?m \<le> page_kSize (ctx s1)" using True k1 by simp
    obtain r s2 P2 F2 where f: "find_block do_exit s1 ?m = Some (r, s2)" "buddy_ok s2 P2 F2 (keep R T) (keep X T)"
      "keeps s1 s2 (keep R T \<union> keep X T)" "ToBeFreed_list (ctx s2) = ToBeFreed_list (ctx s1)"
      "case r of Inr p \<Rightarrow> \<exists>i\<ge>?m. p \<in> set (F2 i)
        | Inl e \<Rightarrow> e = (if do_exit then Exited else Returned None) \<and> (\<forall>i\<ge>?m. F1 i = [])
            \<and> (e \<noteq> Exited \<longrightarrow> Errno (ctx s2) = (if on_demand_alloc (Config (ctx s1)) then BUDDY_ERR_MALLOC else BUDDY_ERR_OUTOFMEM))
            \<and> (on_demand_alloc (Config (ctx s1)) \<longrightarrow> answers s1 (ncalls s1) = None)"
      using find_block_spec [OF s1(2) fr1(1) m1] by blast
    have kp2: "keeps s s2 (keep R T \<union> keep X T)" by (rule keeps_trans [OF s1(4) f(3) subset_refl])
    have e0: "buddy_malloc self c s Size do_exit = (case r of Inl e \<Rightarrow> Some (e, s2)
        | Inr p \<Rightarrow> do { s3 \<leftarrow> reserve self c s2 p ?m (2 ^ ?m); Some (Returned (Some (p + header_size)), s3) })"
      using ini s1(1) Size(1) sh k1 f(1) True by (simp add: buddy_malloc_def not_less Let_def)
    show ?thesis
    proof (cases r)
      case (Inl e)
      then have e: "e = (if do_exit then Exited else Returned None)" "on_demand_alloc (Config (ctx s)) \<longrightarrow> answers s (ncalls s) = None"
        using f(5) k1 nc by simp_all
      then show ?thesis using e0 Inl f(2,4) kp2 s1(5) small
        by (intro exI [of _ e] exI [of _ s2] exI [of _ P2] exI [of _ F2] exI [of _ "keep R T"] exI [of _ "keep X T"]) auto
    next
      case (Inr p)
      then obtain i where i: "?m \<le> i" "p \<in> set (F2 i)" using f(5) by auto
      obtain s3 F3 where s3: "reserve self c s2 p ?m (2 ^ ?m) = Some s3" "buddy_ok s3 P2 F3 (insert (p, ?m) (keep R T)) (keep X T)"
        "(p, ?m) \<notin> keep R T" "touches s2 s3 (free_space F2 {})" "OwnerThread (Header (heap s3 p)) = self" "OwnerThreadContext (Header (heap s3 p)) = c"
        using reserve_spec [OF f(2) i(2,1) sz(2)] by blast
      have inv2: "buddy_inv s2 P2 F2 (keep R T) {}" "extra_ok s2 P2 (keep X T)" using f(2) by (simp_all add: buddy_ok_def)
      have "\<forall>y \<in> keep R T \<union> keep X T. fst y \<notin> free_space F2 {}"
        using used_not_free [OF inv2(1)] extra_not_in_pages [OF inv2] free_space_subset [OF inv2(1)] by blast
      then have "keeps s2 s3 (keep R T \<union> keep X T)" by (rule touches_keeps [OF s3(4)])
      then have kp: "keeps s s3 (keep R T \<union> keep X T)" by (rule keeps_trans [OF kp2 _ subset_refl])
      have sp: "span (p, ?m) = {p ..< p + 2 ^ ?m}" by (simp add: span_def)
      have "span y \<inter> {p ..< p + 2 ^ ?m} = {}" if "y \<in> keep R T" for y
        using used_disjoint(1) [OF s3(2), of y "(p, ?m)"] that s3(3) unfolding sp [symmetric] by auto
      moreover have "extent y \<inter> {p ..< p + 2 ^ ?m} = {}" if "y \<in> keep X T" for y
        using used_disjoint(2) [OF s3(2) _ that, of "(p, ?m)"] unfolding sp [symmetric] by auto
      moreover have "Size + header_size \<le> 2 ^ ?m" using sz(1) by simp
      ultimately have "new_block ?K (p + header_size) Size (keep R T) (keep X T) (insert (p, ?m) (keep R T)) (keep X T)"
        unfolding new_block_def using small by (intro exI [of _ p] exI [of _ "2 ^ ?m"]) simp
      then show ?thesis using e0 Inr s3 kp f(4) s1(5) touches_ctx(4) [OF s3(4)]
        by (intro exI [of _ "Returned (Some (p + header_size))"] exI [of _ s3] exI [of _ P2] exI [of _ F3] exI [of _ "insert (p, ?m) (keep R T)"]
              exI [of _ "keep X T"]) simp
    qed
  qed
qed

subsection \<open>The interface\<close>

text \<open>A thread with an initialised context; \<open>x\<close> is its content.\<close>

definition thread_ok :: "buddy_world \<Rightarrow> tid \<Rightarrow> addr \<Rightarrow> buddy_context \<Rightarrow> bool" where
  "thread_ok w self c x \<longleftrightarrow> thread_key w self = Some c \<and> contexts w c = Some x \<and> initialized x"

lemma focus_fields [simp]:
  "heap (focus w x) = heap w" "areas (focus w x) = areas w" "answers (focus w x) = answers w" "ncalls (focus w x) = ncalls w"
  "bytes (focus w x) = bytes w" "ctx (focus w x) = x"
  by (simp_all add: focus_def)

lemma focus_unfocus [simp]: "focus (unfocus w c s) (ctx s) = s"
  by (simp add: focus_def unfocus_def)

lemma unfocus_fields [simp]:
  "contexts (unfocus w c s) = (contexts w)(c \<mapsto> ctx s)" "thread_key (unfocus w c s) = thread_key w" "heap (unfocus w c s) = heap s"
  "areas (unfocus w c s) = areas s" "bytes (unfocus w c s) = bytes s"
  by (simp_all add: unfocus_def)

lemma GetThreadContext_ok: "thread_ok w self c x \<Longrightarrow> GetThreadContext w self = (Some c, w)"
  by (simp add: thread_ok_def GetThreadContext_def)

lemma on_context_ok: "thread_ok w self c x \<Longrightarrow> on_context w self d f = do { (r, s) \<leftarrow> f c (focus w x); Some (r, unfocus w c s) }"
  by (simp add: on_context_def GetThreadContext_ok) (simp add: thread_ok_def)

lemma BuddyMalloc_spec:
  assumes th: "thread_ok w self c x" and ok: "buddy_ok (focus w x) P F R X" and rl: "released (focus w x) R X T"
    and Size: "0 < Size" "Size + header_size \<le> 2 ^ 30"
    and fr: "malloc_fresh (focus w x) (2 ^ page_kSize x)" "malloc_fresh (focus w x) (Size + header_size)"
  obtains v s' P' F' R' X' where "BuddyMalloc w self Size = Some (Returned v, unfocus w c s')" "thread_ok (unfocus w c s') self c (ctx s')"
    "buddy_ok s' P' F' R' X'" "ToBeFreed_list (ctx s') = None" "keeps (focus w x) s' (keep R T \<union> keep X T)"
    "case v of
       Some q \<Rightarrow> new_block (page_kSize x) q Size (keep R T) (keep X T) R' X'
         \<and> OwnerThread (Header (heap s' (q - header_size))) = self \<and> OwnerThreadContext (Header (heap s' (q - header_size))) = c
     | None \<Rightarrow> R' = keep R T \<and> X' = keep X T
         \<and> (answers w (ncalls w) = None \<or> (if max Size MIN_ALLOC_SIZE + header_size \<le> 2 ^ page_kSize x
            then \<not> on_demand_alloc (Config x) else \<not> extra_alloc (Config x)))"
proof -
  let ?s = "focus w x"
  have ini: "thread_key w self = Some c" "contexts w c = Some x" "initialized (ctx ?s)" using th by (simp_all add: thread_ok_def)
  obtain r s' P' F' R' X' where m: "buddy_malloc self c ?s Size False = Some (r, s')" "buddy_ok s' P' F' R' X'"
    "ToBeFreed_list (ctx s') = None" "keeps ?s s' (keep R T \<union> keep X T)"
    "case r of
          Returned (Some q) \<Rightarrow> new_block (page_kSize (ctx ?s)) q Size (keep R T) (keep X T) R' X'
            \<and> OwnerThread (Header (heap s' (q - header_size))) = self \<and> OwnerThreadContext (Header (heap s' (q - header_size))) = c
        | _ \<Rightarrow> R' = keep R T \<and> X' = keep X T \<and> (r = Exited \<longrightarrow> False)
            \<and> (answers ?s (ncalls ?s) = None \<or> (if max Size MIN_ALLOC_SIZE + header_size \<le> 2 ^ page_kSize (ctx ?s)
               then \<not> on_demand_alloc (Config (ctx ?s)) else \<not> extra_alloc (Config (ctx ?s))))"
    using buddy_malloc_spec [OF ok rl ini(3) Size, of self c False] fr by auto
  obtain v where v: "r = Returned v" using m(5) by (cases r) auto
  have "BuddyMalloc w self Size = Some (Returned v, unfocus w c s')" using m(1) v by (simp add: BuddyMalloc_def on_context_ok [OF th])
  moreover have "thread_ok (unfocus w c s') self c (ctx s')" using ini m(4) by (simp add: thread_ok_def keeps_def)
  moreover note m(2-4)
  moreover have "case v of
       Some q \<Rightarrow> new_block (page_kSize x) q Size (keep R T) (keep X T) R' X'
         \<and> OwnerThread (Header (heap s' (q - header_size))) = self \<and> OwnerThreadContext (Header (heap s' (q - header_size))) = c
     | None \<Rightarrow> R' = keep R T \<and> X' = keep X T
         \<and> (answers w (ncalls w) = None \<or> (if max Size MIN_ALLOC_SIZE + header_size \<le> 2 ^ page_kSize x
            then \<not> on_demand_alloc (Config x) else \<not> extra_alloc (Config x)))"
    using m(5) [unfolded focus_fields] v by (cases v) simp_all
  ultimately show thesis by (rule that)
qed

lemma used_header_of:
  assumes "buddy_ok s P F R X" and "a \<in> fst ` (R \<union> X)"
  shows "load s a = Some (heap s a)" "header_ok (Header (heap s a))"
proof -
  have inv: "buddy_inv s P F R {}" and ex: "extra_ok s P X" using assms(1) by (simp_all add: buddy_ok_def)
  from assms(2) consider k where "(a, k) \<in> R" | n where "(a, n) \<in> X" by auto
  then have "load s a = Some (heap s a) \<and> used_header (Header (heap s a))"
  proof cases
    case 1
    then have aB: "(a, k) \<in> fblocks F \<union> R \<union> {}" by simp
    from inv aB have "load s a = Some (heap s a)" by (rule buddy_inv_block)
    then show ?thesis using inv 1 by (auto simp: buddy_inv_def headers_ok_def)
  next
    case 2
    then have "(a, n) \<in> set (areas s)" "block_size \<le> n" "used_header (Header (heap s a))"
      using ex by (auto simp: extra_ok_def extra_header_def)
    then show ?thesis by (force simp: load_def valid_block_def list_ex_iff)
  qed
  then show "load s a = Some (heap s a)" "header_ok (Header (heap s a))" by (simp_all add: header_ok_def used_header_def)
qed

end
