(* ===== verification/Buddy_Api.thy ===== *)
theory Buddy_Api
  imports Buddy_Correct
begin

text \<open>
  The interface of the buddy allocator as its threads use it: initialisation, blocks released by another thread, double
  release, reallocation and the destruction of a context.
\<close>

subsection \<open>Initialisation\<close>

definition init_lists :: "nat \<Rightarrow> addr \<Rightarrow> nat \<Rightarrow> addr list" where
  "init_lists K b k = (if k = K then [b] else [])"

lemma empty_inv:
  assumes "6 < page_kSize (ctx s)" and "page_kSize (ctx s) < 31" and "areas_ok (areas s)"
    and "\<forall>i < BUDDY_MAX_LOG2_SIZE. MemDesc (ctx s) i = None"
  shows "buddy_inv s {} (\<lambda>_. []) {} {}"
  using assms by (simp add: buddy_inv_def layout_def tiling_def headers_ok_def lists_ok_def flist_def no_buddies_def fblocks_def)

lemma init_context_spec:
  assumes ni: "\<not> initialized (ctx s)" and ar: "areas_ok (areas s)"
    and pr: "header_size + MIN_ALLOC_SIZE < memory_area_size pa" "memory_area_size pa \<le> 2 ^ 30"
    and b: "answers s (ncalls s) = Some b" and fr: "fresh_area (areas s) b (2 ^ Log2Ceil (memory_area_size pa))"
  shows "\<exists>s' F. init_context (Some pa) True s = Some (BUDDY_SUCCESS, s') \<and> buddy_ok s' {b} F {} {} \<and> released s' {} {} []
     \<and> initialized (ctx s') \<and> page_kSize (ctx s') = Log2Ceil (memory_area_size pa) \<and> Config (ctx s') = pa
     \<and> \<not> destroy_pending (ctx s') \<and> F (page_kSize (ctx s')) \<noteq> [] \<and> answers s' = answers s \<and> ncalls s' = Suc (ncalls s)"
proof -
  let ?m = "Log2Ceil (memory_area_size pa)"
  have m63: "memory_area_size pa \<le> 2 ^ 63" using pr(2) by simp
  have ge: "memory_area_size pa \<le> 2 ^ ?m" by (rule Log2Ceil_ge [OF m63])
  have m30: "?m \<le> 30" by (rule Log2Ceil_least [OF m63 pr(2)])
  have "(2 :: nat) ^ 6 < 2 ^ ?m" using ge pr(1) by (simp add: header_size_def MIN_ALLOC_SIZE_def)
  then have m6: "6 < ?m" using power_less_imp_less_exp [of "2 :: nat" 6 ?m] by simp
  define x where "x = (ctx s)\<lparr>Config := pa, page_kSize := ?m, Errno := 0,
     MemDesc := (\<lambda>i. if i < BUDDY_MAX_LOG2_SIZE then None else MemDesc (ctx s) i),
     Stats := zero_stats\<lparr>StdPageSize := of_nat (2 ^ ?m)\<rparr>, ToBeFreed_list := None, destroy_pending := False, initialized := True\<rparr>"
  let ?s = "s\<lparr>ctx := x\<rparr>"
  have inv: "buddy_inv ?s {} (\<lambda>_. []) {} {}" using m6 m30 ar by (intro empty_inv) (simp_all add: x_def)
  have "stats_ok (Stats (ctx ?s)) (page_kSize (ctx ?s)) {} 0 {} {}" by (simp add: stats_ok_def x_def zero_stats_def)
  then have ok: "buddy_ok ?s {} (\<lambda>_. []) {} {}" using inv by (simp add: buddy_ok_def extra_ok_def)
  have mf: "malloc_fresh ?s (2 ^ page_kSize (ctx ?s))" using b fr by (simp add: malloc_fresh_def x_def)
  have b': "answers ?s (ncalls ?s) = Some b" using b by simp
  obtain s' F where n: "NewStdPage ?s = Some (Some b, s')" "buddy_ok s' {b} F {} {}" "b \<in> set (F (page_kSize (ctx ?s)))"
    "keeps ?s s' ({} \<union> {})" "ToBeFreed_list (ctx s') = ToBeFreed_list (ctx ?s)" "ncalls s' = Suc (ncalls ?s)" using NewStdPage_ok [OF ok mf b'] by blast
  have sh: "shl1 ?m = Some (2 ^ ?m)" using m30 by (simp add: shl1_def)
  have "init_context (Some pa) True s = Some (BUDDY_SUCCESS, s')"
    using ni pr(1) m6 sh n(1) by (simp add: init_context_def Let_def x_def cong: if_cong)
  then show ?thesis using n by (intro exI [of _ s'] exI [of _ F]) (auto simp: released_def keeps_def x_def)
qed

subsection \<open>Allocation and release\<close>

text \<open>
  C5: allocation.  When the blocks of a context are in order, the system gives out areas that are not in use and the
  request is below a gigabyte, BuddyMalloc returns without an access outside its areas.  The blocks
  that other threads released are free, the other used blocks are not touched.  A pointer that is returned points behind the header of a
  new block with room for the request, which meets no block in use: the smallest power of two for a request that fits a
  page, an area of its own for a larger one.  NULL is returned only when the system has no memory or the
  configuration forbids a new page or a large block, and then no block changes.
\<close>

theorem buddy_malloc_correct:
  assumes "thread_ok w self c x" and "buddy_ok (focus w x) P F R X" and "released (focus w x) R X T"
    and "0 < Size" and "Size + header_size \<le> 2 ^ 30"
    and "malloc_fresh (focus w x) (2 ^ page_kSize x)" and "malloc_fresh (focus w x) (Size + header_size)"
  shows "\<exists>r w' x' P' F' R' X'. BuddyMalloc w self Size = Some (Returned r, w') \<and> thread_ok w' self c x'
     \<and> buddy_ok (focus w' x') P' F' R' X' \<and> released (focus w' x') R' X' []
     \<and> (\<forall>y \<in> keep R T \<union> keep X T. heap w' (fst y) = heap w (fst y)) \<and> bytes w' = bytes w
     \<and> (case r of
          Some q \<Rightarrow> new_block (page_kSize x) q Size (keep R T) (keep X T) R' X' \<and> OwnerThread (Header (heap w' (q - header_size))) = self
        | None \<Rightarrow> R' = keep R T \<and> X' = keep X T
            \<and> (answers w (ncalls w) = None \<or> (if max Size MIN_ALLOC_SIZE + header_size \<le> 2 ^ page_kSize x
               then \<not> on_demand_alloc (Config x) else \<not> extra_alloc (Config x))))"
proof -
  obtain v s' P' F' R' X' where m: "BuddyMalloc w self Size = Some (Returned v, unfocus w c s')" "thread_ok (unfocus w c s') self c (ctx s')"
    "buddy_ok s' P' F' R' X'" "ToBeFreed_list (ctx s') = None" "keeps (focus w x) s' (keep R T \<union> keep X T)"
    "case v of
       Some q \<Rightarrow> new_block (page_kSize x) q Size (keep R T) (keep X T) R' X'
         \<and> OwnerThread (Header (heap s' (q - header_size))) = self \<and> OwnerThreadContext (Header (heap s' (q - header_size))) = c
     | None \<Rightarrow> R' = keep R T \<and> X' = keep X T
         \<and> (answers w (ncalls w) = None \<or> (if max Size MIN_ALLOC_SIZE + header_size \<le> 2 ^ page_kSize x
            then \<not> on_demand_alloc (Config x) else \<not> extra_alloc (Config x)))"
    by (rule BuddyMalloc_spec [OF assms])
  let ?w = "unfocus w c s'"
  have ok: "buddy_ok (focus ?w (ctx s')) P' F' R' X'" using m(3) by simp
  have rl: "released (focus ?w (ctx s')) R' X' []" using m(4) by (simp add: released_def)
  have kp: "\<forall>y \<in> keep R T \<union> keep X T. heap ?w (fst y) = heap w (fst y)" and bt: "bytes ?w = bytes w" using m(5) by (simp_all add: keeps_def)
  have res: "case v of
          Some q \<Rightarrow> new_block (page_kSize x) q Size (keep R T) (keep X T) R' X' \<and> OwnerThread (Header (heap ?w (q - header_size))) = self
        | None \<Rightarrow> R' = keep R T \<and> X' = keep X T
            \<and> (answers w (ncalls w) = None \<or> (if max Size MIN_ALLOC_SIZE + header_size \<le> 2 ^ page_kSize x
               then \<not> on_demand_alloc (Config x) else \<not> extra_alloc (Config x)))"
    using m(6) by (cases v) simp_all
  show ?thesis by (intro exI conjI) (rule m(1), rule m(2), rule ok, rule rl, rule kp, rule bt, rule res)
qed

text \<open>
  C6: release by the owner.  BuddyFree of a used block of the calling thread returns without an access outside its
  areas.  Exactly that block is no longer used; the free blocks are merged again, so that no two buddies are both free,
  and the lists, the headers and the statistics agree with the blocks.
\<close>

theorem buddy_free_correct:
  assumes th: "thread_ok w self c x" and ok: "buddy_ok (focus w x) P F R X" and rl: "released (focus w x) R X T"
    and a: "a \<in> fst ` (R \<union> X)" "a \<notin> set T" and own: "OwnerThread (Header (heap w a)) = self"
  shows "\<exists>w' x' P' F'. BuddyFree w self (Some (a + header_size)) = Some w' \<and> thread_ok w' self c x' \<and> P' \<subseteq> P
     \<and> buddy_ok (focus w' x') P' F' (keep R [a]) (keep X [a]) \<and> no_buddies (page_kSize x') P' F'
     \<and> released (focus w' x') (keep R [a]) (keep X [a]) T
     \<and> (\<forall>y \<in> keep R [a] \<union> keep X [a]. heap w' (fst y) = heap w (fst y))"
proof -
  let ?s = "focus w x"
  obtain s' P' F' where f: "buddy_free ?s a = Some s'" "buddy_ok s' P' F' (keep R [a]) (keep X [a])" "P' \<subseteq> P"
    "keeps ?s s' (keep R [a] \<union> keep X [a])" "ToBeFreed_list (ctx s') = ToBeFreed_list (ctx ?s)"
    using buddy_free_any [OF ok a(1)] by blast
  note u = used_header_of [OF ok a(1)]
  have l: "load w a = Some (heap w a)" using u(1) by (simp add: load_def split: if_splits)
  have e: "BuddyFree w self (Some (a + header_size)) = Some (unfocus w c s')"
    using th u(2) own l f(1) by (simp add: BuddyFree_def GetThreadContext_ok [OF th] thread_ok_def)
  have T1: "set T \<subseteq> fst ` (keep R [a] \<union> keep X [a])" using rl a(2) by (auto simp: released_def keep_def image_iff)
  have "NextBlock (heap s' t) = NextBlock (heap ?s t)" if t: "t \<in> set T" for t
  proof -
    obtain y where "y \<in> keep R [a] \<union> keep X [a]" "t = fst y" using T1 t by blast
    then show ?thesis using f(4) by (simp add: keeps_def)
  qed
  then have "nchain (heap s') (ToBeFreed_list (ctx ?s)) T" using rl nchain_cong [of T "heap s'" "heap ?s"] by (simp add: released_def)
  then have "released s' (keep R [a]) (keep X [a]) T" using rl T1 f(5) by (simp add: released_def)
  moreover have "no_buddies (page_kSize (ctx s')) P' F'" using f(2) by (simp add: buddy_ok_def buddy_inv_def layout_def)
  moreover have "thread_ok (unfocus w c s') self c (ctx s')" using th f(4) by (simp add: thread_ok_def keeps_def)
  ultimately show ?thesis using e f
    by (intro exI [of _ "unfocus w c s'"] exI [of _ "ctx s'"] exI [of _ P'] exI [of _ F']) (simp add: keeps_def)
qed

subsection \<open>Blocks of other threads\<close>


subsection \<open>Double release, reallocation, destruction\<close>

text \<open>The release of a block that is already free changes nothing.\<close>

theorem double_free_ignored:
  assumes th: "thread_ok w self c x" and ok: "buddy_ok (focus w x) P F R X" and a: "a \<in> set (F k)"
  shows "BuddyFree w self (Some (a + header_size)) = Some w"
proof -
  have inv: "buddy_inv (focus w x) P F R {}" using ok by (simp add: buddy_ok_def)
  have aF: "(a, k) \<in> fblocks F" using a by (simp add: fblocks_def)
  then have aB: "(a, k) \<in> fblocks F \<union> R \<union> {}" by simp
  from inv aB have "load (focus w x) a = Some (heap w a)" by (rule buddy_inv_block) simp
  then have "load w a = Some (heap w a)" by (simp add: load_def split: if_splits)
  moreover have "free_header (Header (heap w a))" using inv aF by (auto simp: buddy_inv_def headers_ok_def)
  ultimately show ?thesis using th
    by (simp add: BuddyFree_def GetThreadContext_ok [OF th] thread_ok_def header_ok_def free_header_def)
qed

lemma used_block_space:
  assumes "buddy_ok s P F R X" and "(a, k) \<in> R"
  shows "load s a = Some (heap s a)" "user_space (heap s a) = Some (2 ^ k - header_size)" "header_size < 2 ^ k"
proof -
  have inv: "buddy_inv s P F R {}" using assms(1) by (simp add: buddy_ok_def)
  have aB: "(a, k) \<in> fblocks F \<union> R \<union> {}" using assms(2) by simp
  from inv aB obtain b where b: "Base_ptr (Header (heap s a)) = Some b" "load s a = Some (heap s a)"
    "std_info (heap s a) = Some (page_kSize (ctx s), k)" "k < 31" "in_page (page_kSize (ctx s)) b (a, k)" by (rule buddy_inv_block)
  then show "load s a = Some (heap s a)" "user_space (heap s a) = Some (2 ^ k - header_size)"
    by (simp_all add: user_space_def shl1_def)
  have "(2 :: nat) ^ 6 \<le> 2 ^ k" using b(5) by (intro power_increasing) (simp_all add: in_page_def)
  then show "header_size < 2 ^ k" by (simp add: header_size_def)
qed

text \<open>
  Reallocation to a smaller size copies the whole old block into the new one: when the new block has a smaller power of
  two, the copy goes beyond its end.
\<close>

theorem shrinking_realloc_overflows:
  assumes th: "thread_ok w self c x" and ok: "buddy_ok (focus w x) P F R X" and tf: "ToBeFreed_list x = None"
    and a: "(a, k) \<in> R" and Size: "0 < Size" "Size + header_size \<le> 2 ^ 30" "size_log2 Size < k"
    and i: "size_log2 Size \<le> i" "F i \<noteq> []"
  shows "BuddyRealloc w self (Some (a + header_size)) Size = None"
proof -
  let ?s = "focus w x" let ?m = "size_log2 Size"
  have th': "contexts w c = Some x" "initialized x" using th by (simp_all add: thread_ok_def)
  have aU: "a \<in> fst ` (R \<union> X)" using a by force
  have tf': "ToBeFreed_list (ctx ?s) = None" "initialized (ctx ?s)" using tf th' by simp_all
  obtain p s' F' where m: "buddy_malloc self c ?s Size False = Some (Returned (Some (p + header_size)), s')"
    "buddy_ok s' P F' (insert (p, ?m) R) X" "(p, ?m) \<notin> R"
    by (rule buddy_malloc_from_free [OF ok tf' Size(1,2) i])
  let ?w = "unfocus w c s'"
  have e: "BuddyMalloc w self Size = Some (Returned (Some (p + header_size)), ?w)"
    using m(1) by (simp add: BuddyMalloc_def on_context_ok [OF th])
  have pn: "(p, ?m) \<in> insert (p, ?m) R" and an: "(a, k) \<in> insert (p, ?m) R" using a by simp_all
  note sp = used_block_space [OF m(2) pn] and sa = used_block_space [OF m(2) an]
  have lw: "load ?w p = Some (heap s' p)" "load ?w a = Some (heap s' a)" using sp(1) sa(1) by (simp_all add: load_def split: if_splits)
  have "(2 :: nat) ^ ?m < 2 ^ k" using Size(3) by simp
  then have "2 ^ ?m - header_size < 2 ^ k - header_size" using sp(3) by (intro diff_less_mono) simp_all
  then have "memcpy ?w (p + header_size) (a + header_size) (2 ^ k - header_size) = None"
    using lw sp(2) by (simp add: memcpy_def in_user_space_def)
  moreover have "load w a = Some (heap w a)" "header_ok (Header (heap w a))"
    using used_header_of [OF ok aU] by (simp_all add: load_def split: if_splits)
  ultimately show ?thesis using e Size(1) th' lw sa(2)
    by (simp add: BuddyRealloc_def GetThreadContext_ok [OF th] header_ok_def split: block_status.splits)
qed

text \<open>
  A context is destroyed although a whole page is used: the blocks in use are looked for in the lists of smaller free blocks.
  The pointers to the context stay behind, in the header of the block and with the thread, and the next
  use of one of them follows it to freed memory.
\<close>

theorem destroy_with_used_page:
  assumes th: "thread_ok w self c x" and ok: "buddy_ok (focus w x) P (\<lambda>_. []) R X" and tf: "ToBeFreed_list x = None"
    and c: "c \<in> fst ` set (areas w)"
  shows "\<exists>w'. BuddyDestroy w self = Some (BUDDY_SUCCESS, w') \<and> contexts w' c = None \<and> BuddyInit w' self pa mutex_ok = None"
proof -
  let ?s = "focus w x"
  have inv: "buddy_inv ?s P (\<lambda>_. []) R {}" using ok by (simp add: buddy_ok_def)
  have md: "MemDesc x i = None" if "i < BUDDY_MAX_LOG2_SIZE" for i using inv that by (simp add: buddy_inv_def lists_ok_def flist_def)
  have K: "page_kSize x < BUDDY_MAX_LOG2_SIZE" using inv by (simp add: buddy_inv_def BUDDY_MAX_LOG2_SIZE_def)
  have "CheckBlocksToBeFreed ?s = Some ?s" using tf by (simp add: CheckBlocksToBeFreed.simps)
  moreover have "release_pages ?s = Some (BUDDY_SUCCESS, ?s)" using md [OF K] by (simp add: release_pages.simps)
  moreover have "\<not> list_ex (\<lambda>i. MemDesc (ctx ?s) i \<noteq> None) [0..<BUDDY_MAX_LOG2_SIZE]" using md by (auto simp: list_ex_iff)
  ultimately have t: "TryContextCleanup ?s = Some (BUDDY_SUCCESS, ?s)" by (simp add: TryContextCleanup_def del: upt_conv_Cons)
  obtain w3 where w3: "sys_free (unfocus w c ?s) c = Some w3" "thread_key w3 = thread_key w"
    using c by (auto simp: sys_free_def image_iff)
  let ?w = "w3\<lparr>contexts := (contexts w3)(c := None)\<rparr>"
  have "BuddyDestroy w self = Some (BUDDY_SUCCESS, ?w)"
    using th t w3(1) by (simp add: BuddyDestroy_def GetThreadContext_ok [OF th] thread_ok_def)
  moreover have "BuddyInit ?w self pa mutex_ok = None"
    using th w3(2) by (simp add: BuddyInit_def on_context_def GetThreadContext_def thread_ok_def)
  ultimately show ?thesis by (intro exI [of _ ?w]) simp
qed

text \<open>A size close to the largest one wraps around when the header is added, and gets the smallest block.\<close>

theorem huge_sizes_wrap:
  assumes "2 ^ 64 - header_size \<le> Size" and "Size < 2 ^ 64"
  shows "size_log2 Size \<le> 6"
proof -
  have "Size + header_size = 2 ^ 64 + (Size + header_size - 2 ^ 64)" using assms(1) by (simp add: header_size_def)
  moreover have lt: "Size + header_size - 2 ^ 64 < header_size" using assms(2) by (simp add: header_size_def)
  ultimately have "(Size + header_size) mod 2 ^ 64 = Size + header_size - 2 ^ 64" by (simp add: header_size_def mod_if)
  then have "(Size + header_size) mod 2 ^ 64 \<le> 2 ^ 6" using lt by (simp add: header_size_def)
  then have "Log2Ceil ((Size + header_size) mod 2 ^ 64) \<le> 6" by (intro Log2Ceil_least) simp_all
  moreover have "Log2Ceil (MIN_ALLOC_SIZE + header_size) \<le> 6" by (intro Log2Ceil_least) (simp_all add: MIN_ALLOC_SIZE_def header_size_def)
  ultimately show ?thesis by (simp add: size_log2_def)
qed

subsection \<open>A world with two threads\<close>

definition demo_header :: buddy_header where
  "demo_header = \<lparr>Base_ptr = None, MagicNumber = 0, OwnerThread = 0, OwnerThreadContext = 0, BlockInfo = StdInfo 0 0, status = OTHER_STATUS\<rparr>"

definition demo_start :: buddy_world where
  "demo_start = \<lparr>heap = (\<lambda>_. \<lparr>Header = demo_header, NextBlock = None, PrevBlock = None\<rparr>), areas = [(1000, 992), (2000, 992)],
     answers = (\<lambda>n. if n = 0 then Some 4096 else None), ncalls = 0, bytes = (\<lambda>_. 0),
     contexts = [1000 \<mapsto> zero_context, 2000 \<mapsto> zero_context\<lparr>initialized := True\<rparr>], thread_key = [1 \<mapsto> 1000, 2 \<mapsto> 2000]\<rparr>"

definition demo_parameter :: buddy_parameter where
  "demo_parameter = \<lparr>memory_area_size = 100, on_demand_alloc = True, extra_alloc = True, free_areas = True, keep_factor = 3, keep_minimum = 5\<rparr>"

lemma demo_log2: "Log2Ceil 100 = 7"
proof -
  have "Log2Ceil 100 \<le> 7" by (rule Log2Ceil_least) simp_all
  moreover have "(100 :: nat) \<le> 2 ^ Log2Ceil 100" by (rule Log2Ceil_ge) simp
  then have "\<not> Log2Ceil 100 \<le> 6" using power_increasing [of "Log2Ceil 100" 6 "2 :: nat"] by auto
  ultimately show ?thesis by simp
qed

lemma demo_init:
  obtains w x F where "BuddyInit demo_start 1 (Some demo_parameter) True = Some (BUDDY_SUCCESS, w)" "thread_ok w 1 1000 x"
    "thread_ok w 2 2000 (zero_context\<lparr>initialized := True\<rparr>)" "\<not> destroy_pending x" "page_kSize x = 7"
    "buddy_ok (focus w x) {4096} F {} {}" "released (focus w x) {} {} []" "F 7 \<noteq> []" "answers w = answers demo_start" "ncalls w = 1"
proof -
  let ?s = "focus demo_start zero_context"
  have ar: "areas_ok (areas ?s)" by (auto simp: areas_ok_def demo_start_def)
  have fr: "fresh_area (areas ?s) 4096 (2 ^ Log2Ceil (memory_area_size demo_parameter))"
    by (simp add: fresh_area_def demo_start_def demo_parameter_def demo_log2)
  obtain s' F where i: "init_context (Some demo_parameter) True ?s = Some (BUDDY_SUCCESS, s')" "buddy_ok s' {4096} F {} {}" "released s' {} {} []"
    "initialized (ctx s')" "page_kSize (ctx s') = 7" "\<not> destroy_pending (ctx s')" "F 7 \<noteq> []" "answers s' = answers demo_start" "ncalls s' = 1"
    using init_context_spec [OF _ ar _ _ _ fr]
    by (auto simp: zero_context_def demo_parameter_def header_size_def MIN_ALLOC_SIZE_def demo_start_def demo_log2)
  let ?w = "unfocus demo_start 1000 s'"
  have "BuddyInit demo_start 1 (Some demo_parameter) True = Some (BUDDY_SUCCESS, ?w)"
    using i(1) by (simp add: BuddyInit_def on_context_def GetThreadContext_def demo_start_def)
  moreover have "thread_ok ?w 1 1000 (ctx s')" using i(4) by (simp add: thread_ok_def demo_start_def)
  moreover have "thread_ok ?w 2 2000 (zero_context\<lparr>initialized := True\<rparr>)" by (simp add: thread_ok_def demo_start_def)
  moreover have "answers ?w = answers demo_start" "ncalls ?w = 1" using i(8,9) by (simp_all add: unfocus_def)
  ultimately show thesis using that i(2,3,5-7) by simp
qed

lemma demo_fresh: "answers w = answers demo_start \<Longrightarrow> ncalls w = 1 \<Longrightarrow> malloc_fresh (focus w x) n"
  by (simp add: malloc_fresh_def demo_start_def)

lemma demo_used:
  obtains w x p F where "thread_ok w 1 1000 x" "thread_ok w 2 2000 (zero_context\<lparr>initialized := True\<rparr>)" "\<not> destroy_pending x"
    "buddy_ok (focus w x) {4096} F {(p, 6)} {}" "released (focus w x) {(p, 6)} {} []" "page_kSize x = 7"
    "OwnerThread (Header (heap w p)) = 1" "OwnerThreadContext (Header (heap w p)) = 1000" "answers w = answers demo_start" "ncalls w = 1"
proof -
  obtain w x F where i: "thread_ok w 1 1000 x" "thread_ok w 2 2000 (zero_context\<lparr>initialized := True\<rparr>)" "\<not> destroy_pending x" "page_kSize x = 7"
    "buddy_ok (focus w x) {4096} F {} {}" "released (focus w x) {} {} []" "F 7 \<noteq> []" "answers w = answers demo_start" "ncalls w = 1"
    by (rule demo_init)
  have s10: "(10 :: nat) + header_size \<le> 2 ^ 30" by (simp add: header_size_def)
  have m: "size_log2 10 = 6"
    using size_log2_spec(2) [OF s10] size_log2_spec(4) [OF s10, of 6] by (simp add: MIN_ALLOC_SIZE_def header_size_def)
  have tf: "ToBeFreed_list (ctx (focus w x)) = None" "initialized (ctx (focus w x))" using i(1,6) by (simp_all add: released_def thread_ok_def)
  obtain p s' F' where r: "buddy_malloc 1 1000 (focus w x) 10 False = Some (Returned (Some (p + header_size)), s')"
    "buddy_ok s' {4096} F' (insert (p, size_log2 10) {}) {}" "keeps (focus w x) s' ({} \<union> {})" "ToBeFreed_list (ctx s') = None"
    "ncalls s' = ncalls (focus w x)" "OwnerThread (Header (heap s' p)) = 1" "OwnerThreadContext (Header (heap s' p)) = 1000"
    by (rule buddy_malloc_from_free [OF i(5) tf _ s10 _ i(7), of 1 1000 False]) (simp_all add: m)
  let ?w = "unfocus w 1000 s'"
  have k: "page_kSize (ctx s') = 7" "\<not> destroy_pending (ctx s')" "initialized (ctx s')" "answers s' = answers w"
    using r(3) i(3,4) tf(2) by (simp_all add: keeps_def)
  have "thread_ok ?w 1 1000 (ctx s')" "thread_ok ?w 2 2000 (zero_context\<lparr>initialized := True\<rparr>)"
    using i(1,2) k(3) by (simp_all add: thread_ok_def)
  moreover have "released (focus ?w (ctx s')) {(p, 6)} {} []" using r(4) by (simp add: released_def)
  moreover have "answers ?w = answers demo_start" "ncalls ?w = 1" using r(5) k(4) i(8,9) by (simp_all add: unfocus_def)
  ultimately show thesis using that [of ?w "ctx s'" F' p] r k m by simp
qed

text \<open>\<open>outcome\<close> is the last part of the statement of the allocation, for the witness.\<close>

theorem buddy_malloc_correct_witness:
  "\<exists>w0 x r w x' P' F' R' X'. BuddyInit demo_start 1 (Some demo_parameter) True = Some (BUDDY_SUCCESS, w0) \<and> thread_ok w0 1 1000 x
     \<and> BuddyMalloc w0 1 10 = Some (Returned r, w) \<and> buddy_ok (focus w x') P' F' R' X'
     \<and> (case r of Some q \<Rightarrow> new_block 7 q 10 {} {} R' X' | None \<Rightarrow> R' = {} \<and> X' = {})"
proof -
  obtain w0 x F where i: "BuddyInit demo_start 1 (Some demo_parameter) True = Some (BUDDY_SUCCESS, w0)" "thread_ok w0 1 1000 x" "page_kSize x = 7"
    "buddy_ok (focus w0 x) {4096} F {} {}" "released (focus w0 x) {} {} []" "answers w0 = answers demo_start" "ncalls w0 = 1"
    by (rule demo_init)
  have s10: "(10 :: nat) + header_size \<le> 2 ^ 30" by (simp add: header_size_def)
  obtain r w x' P' F' R' X' where m: "BuddyMalloc w0 1 10 = Some (Returned r, w)" "buddy_ok (focus w x') P' F' R' X'"
    "case r of Some q \<Rightarrow> new_block (page_kSize x) q 10 (keep {} []) (keep {} []) R' X' \<and> OwnerThread (Header (heap w (q - header_size))) = 1
     | None \<Rightarrow> R' = keep {} [] \<and> X' = keep {} []
            \<and> (answers w0 (ncalls w0) = None \<or> (if max 10 MIN_ALLOC_SIZE + header_size \<le> 2 ^ page_kSize x
               then \<not> on_demand_alloc (Config x) else \<not> extra_alloc (Config x)))"
    using buddy_malloc_correct [OF i(2,4,5) zero_less_numeral s10 demo_fresh [OF i(6,7)] demo_fresh [OF i(6,7)]] by blast
  have "case r of Some q \<Rightarrow> new_block 7 q 10 {} {} R' X' | None \<Rightarrow> R' = {} \<and> X' = {}" using m(3) i(3) by (cases r) simp_all
  then show ?thesis using i(1,2) m(1,2) by blast
qed

theorem buddy_free_correct_witness:
  "\<exists>w x p w' x' P' F'. thread_ok w 1 1000 x \<and> OwnerThread (Header (heap w p)) = 1 \<and> BuddyFree w 1 (Some (p + header_size)) = Some w'
     \<and> buddy_ok (focus w' x') P' F' {} {}"
proof -
  obtain w x p F where u: "thread_ok w 1 1000 x" "buddy_ok (focus w x) {4096} F {(p, 6)} {}" "released (focus w x) {(p, 6)} {} []"
    "OwnerThread (Header (heap w p)) = 1" by (rule demo_used)
  have "\<exists>w' x' P' F'. BuddyFree w 1 (Some (p + header_size)) = Some w' \<and> thread_ok w' 1 1000 x' \<and> P' \<subseteq> {4096}
     \<and> buddy_ok (focus w' x') P' F' (keep {(p, 6)} [p]) (keep {} [p]) \<and> no_buddies (page_kSize x') P' F'
     \<and> released (focus w' x') (keep {(p, 6)} [p]) (keep {} [p]) []
     \<and> (\<forall>y \<in> keep {(p, 6)} [p] \<union> keep {} [p]. heap w' (fst y) = heap w (fst y))"
    by (rule buddy_free_correct [OF u(1-3) _ _ u(4)]) simp_all
  moreover have "keep {(p, 6)} [p] = {}" "keep {} [p] = {}" by (auto simp: keep_def)
  ultimately show ?thesis using u(1,4) by metis
qed


end
