(* ===== verification/Dir_Cache.thy ===== *)
theory Dir_Cache
  imports State_Id LRU_List
begin

text \<open>
  The directories of the metadata cache (\<^verbatim>\<open>include/cache_inode.h\<close>, \<^verbatim>\<open>Cache_inode/cache_inode_readdir.c\<close>,
  with the functions of \<^verbatim>\<open>cache_inode_misc.c\<close>, \<^verbatim>\<open>cache_inode_remove.c\<close>, \<^verbatim>\<open>cache_inode_rename.c\<close> and
  \<^verbatim>\<open>cache_inode_gc.c\<close> on them).  A cached directory is a chain of segments: a DIR\_BEGINNING and its DIR\_CONTINUEs,
  each with an array of sixteen directory entries.  Every cached object has a list of the places in such arrays
  that point to it.

  The union of \<open>cache_entry_t\<close> is one record here; the fields that \<open>dir_begin\<close> and \<open>dir_cont\<close> share are one field,
  and so are the handles (a DIR\_CONTINUE has none, and its field is not read).  \<open>key_at\<close> is the address of the key that the
  table stores for an entry.  The array behind \<open>pdir_data\<close> is part of the segment that owns it.  \<open>None\<close> is an
  access through NULL, outside an array, or to the directory fields of an entry that is no directory.  The state has the pools and
  the LRU list of one client.  The callers hold the locks.  The counters of calls and errors are left out.  The build is
  the default one, without MFSL, proxy and pNFS.
\<close>

datatype validity = VALID | INVALID
datatype endofdir = TO_BE_CONTINUED | END_OF_DIR | UNASSIGNED_EOD
datatype inode_flag = CACHE_INODE_YES | CACHE_INODE_NO | CACHE_INODE_RENEW_NEEDED
datatype dirent_op = CACHE_INODE_DIRENT_OP_LOOKUP | CACHE_INODE_DIRENT_OP_REMOVE | CACHE_INODE_DIRENT_OP_RENAME

record fsal_name =
  fname :: "u8 list"
  flen :: u32

record dir_entry =
  active :: validity
  dpentry :: "addr option"
  dname :: fsal_name

record cache_entry =
  etype :: file_type
  validst :: validity
  read_time :: int
  mod_time :: int
  refresh_time :: int
  alloc_time :: int
  ehandle :: "u8 list"
  gc_lru_entry :: "addr option"
  parent_list :: "addr option"
  end_of_dir :: endofdir
  pdir_cont :: "addr option"
  nbactive :: u32
  pdir_data :: addr
  dir_entries :: "dir_entry list"
  pdir_last :: "addr option"
  nbdircont :: u32
  has_been_readdir :: inode_flag
  pdir_begin :: addr
  pdir_prev :: "addr option"
  dir_cont_pos :: u32

record parent_entry =
  subdirpos :: u32
  parent :: "addr option"
  next_parent :: "addr option"

record icache =
  imem :: mem
  ht_inode :: "(u8 list \<times> u32, addr) hash_table"
  ientries :: "addr \<Rightarrow> cache_entry"
  iparents :: "addr \<Rightarrow> parent_entry"
  pool_entry :: "addr list"
  pool_dir_data :: "addr list"
  pool_parent :: "addr list"
  pool_key :: "addr list"
  key_at :: "u8 list \<times> u32 \<Rightarrow> addr"
  ilheap :: "addr lru_heap"
  lru_gc :: lru_list
  call_since_last_gc :: u32

definition CHILDREN_ARRAY_SIZE :: nat where "CHILDREN_ARRAY_SIZE = 16"

definition FSAL_MAX_NAME_LEN :: nat where "FSAL_MAX_NAME_LEN = 255"

subsection \<open>Names (fsal\_strings.c)\<close>

text \<open>\<open>FSAL_namecmp\<close> is only compared with zero: \<open>FSAL_namecmp a b\<close> holds when the code's function gives 0.\<close>

definition FSAL_namecmp :: "fsal_name \<Rightarrow> fsal_name \<Rightarrow> bool" where
  "FSAL_namecmp p_name1 p_name2 \<longleftrightarrow> strncmp_eq (fname p_name1) (fname p_name2) FSAL_MAX_NAME_LEN"

definition FSAL_namecpy :: "fsal_name \<Rightarrow> fsal_name option \<Rightarrow> fsal_error \<times> fsal_name" where
  "FSAL_namecpy p_tgt_name p_src_name =
     (case p_src_name of
        None \<Rightarrow> (ERR_FSAL_FAULT, p_tgt_name)
      | Some src \<Rightarrow> (ERR_FSAL_NO_ERROR, \<lparr>fname = strncpy (fname src) FSAL_MAX_NAME_LEN, flen = flen src\<rparr>))"

subsection \<open>Access to entries\<close>

definition is_dir_entry :: "cache_entry \<Rightarrow> bool" where
  "is_dir_entry e \<longleftrightarrow> etype e = DIR_BEGINNING \<or> etype e = DIR_CONTINUE"

definition dir_at :: "icache \<Rightarrow> addr option \<Rightarrow> (addr \<times> cache_entry) option" where
  "dir_at s p = do { a \<leftarrow> p; if is_dir_entry (ientries s a) then Some (a, ientries s a) else None }"

definition cont_at :: "icache \<Rightarrow> addr option \<Rightarrow> (addr \<times> cache_entry) option" where
  "cont_at s p = do { a \<leftarrow> p; if etype (ientries s a) = DIR_CONTINUE then Some (a, ientries s a) else None }"

definition upd_entry :: "icache \<Rightarrow> addr \<Rightarrow> (cache_entry \<Rightarrow> cache_entry) \<Rightarrow> icache" where
  "upd_entry s a f = s\<lparr>ientries := (ientries s)(a := f (ientries s a))\<rparr>"

definition set_dirent :: "nat \<Rightarrow> (dir_entry \<Rightarrow> dir_entry) \<Rightarrow> cache_entry \<Rightarrow> cache_entry" where
  "set_dirent i f e = e\<lparr>dir_entries := (dir_entries e)[i := f (dir_entries e ! i)]\<rparr>"

text \<open>The loop over an array that stops at the first element with a property; the test may fail.\<close>

fun scan :: "('a \<Rightarrow> bool option) \<Rightarrow> nat \<Rightarrow> 'a list \<Rightarrow> nat option option" where
  "scan P i [] = Some None"
| "scan P i (x # xs) = do { b \<leftarrow> P x; if b then Some (Some i) else scan P (Suc i) xs }"

subsection \<open>Lookup, renaming and removal in the cached entries\<close>

definition dirent_hit :: "icache \<Rightarrow> fsal_name \<Rightarrow> dir_entry \<Rightarrow> bool option" where
  "dirent_hit s pname d =
     (if active d = VALID
      then do { e \<leftarrow> dpentry d; Some (validst (ientries s e) = VALID \<and> FSAL_namecmp pname (dname d)) }
      else Some False)"

partial_function (option) locate_dirent :: "icache \<Rightarrow> fsal_name \<Rightarrow> addr option \<Rightarrow> (addr \<times> nat option) option" where
  "locate_dirent s pname p = do {
     (pdir_chain, e) \<leftarrow> dir_at s p;
     hit \<leftarrow> scan (dirent_hit s pname) 0 (dir_entries e);
     case hit of
       Some i \<Rightarrow> Some (pdir_chain, Some i)
     | None \<Rightarrow> if end_of_dir e = END_OF_DIR then Some (pdir_chain, None) else locate_dirent s pname (pdir_cont e) }"

definition cache_inode_operate_cached_dirent :: "icache \<Rightarrow> addr \<Rightarrow> fsal_name \<Rightarrow> fsal_name option \<Rightarrow> dirent_op
    \<Rightarrow> (addr option \<times> cache_inode_status \<times> icache) option" where
  "cache_inode_operate_cached_dirent s pentry_parent pname newname dirent_op =
     (if \<not> is_dir_entry (ientries s pentry_parent) then Some (None, CACHE_INODE_BAD_TYPE, s)
      else do {
        (pdir_chain, hit) \<leftarrow> locate_dirent s pname (Some pentry_parent);
        case hit of
          None \<Rightarrow> Some (None, CACHE_INODE_NOT_FOUND, s)
        | Some i \<Rightarrow>
            let d = dir_entries (ientries s pdir_chain) ! i
            in Some (case dirent_op of
                 CACHE_INODE_DIRENT_OP_REMOVE \<Rightarrow>
                   (dpentry d, CACHE_INODE_SUCCESS,
                    upd_entry s pdir_chain (\<lambda>e. set_dirent i (\<lambda>x. x\<lparr>active := INVALID\<rparr>) (e\<lparr>nbactive := nbactive e - 1\<rparr>)))
               | CACHE_INODE_DIRENT_OP_RENAME \<Rightarrow>
                   (let (fsal_status, nm) = FSAL_namecpy (dname d) newname
                    in (dpentry d, cache_inode_error_convert fsal_status,
                        upd_entry s pdir_chain (set_dirent i (\<lambda>x. x\<lparr>dname := nm\<rparr>))))
               | CACHE_INODE_DIRENT_OP_LOOKUP \<Rightarrow> (dpentry d, CACHE_INODE_INVALID_ARGUMENT, s)) })"

definition cache_inode_rename_cached_dirent :: "icache \<Rightarrow> addr \<Rightarrow> fsal_name \<Rightarrow> fsal_name option \<Rightarrow> (cache_inode_status \<times> icache) option" where
  "cache_inode_rename_cached_dirent s pentry_parent oldname newname =
     (if \<not> is_dir_entry (ientries s pentry_parent) then Some (CACHE_INODE_BAD_TYPE, s)
      else do {
        (_, status, s') \<leftarrow> cache_inode_operate_cached_dirent s pentry_parent oldname newname CACHE_INODE_DIRENT_OP_RENAME;
        Some (status, s') })"

text \<open>
  The link from the removed object back to the directory: the first one into any segment of the directory.  The
  result is the link before it and the link itself.
\<close>

definition segment_of :: "icache \<Rightarrow> addr \<Rightarrow> addr \<Rightarrow> bool" where
  "segment_of s pentry_parent d \<longleftrightarrow> d = pentry_parent \<or> etype (ientries s d) = DIR_CONTINUE \<and> pdir_begin (ientries s d) = pentry_parent"

partial_function (option) find_parent :: "icache \<Rightarrow> addr \<Rightarrow> addr option \<Rightarrow> addr option \<Rightarrow> (addr option \<times> addr option) option" where
  "find_parent s pentry_parent previous_iter parent_iter =
     (if parent_iter = None \<or> parent (iparents s (the parent_iter)) = None then Some (previous_iter, None)
      else if segment_of s pentry_parent (the (parent (iparents s (the parent_iter)))) then Some (previous_iter, parent_iter)
      else find_parent s pentry_parent parent_iter (next_parent (iparents s (the parent_iter))))"

definition unlink_parent :: "icache \<Rightarrow> addr \<Rightarrow> addr option \<Rightarrow> addr \<Rightarrow> icache" where
  "unlink_parent s removed_pentry previous_iter parent_iter =
     (let s1 = (case previous_iter of
                  None \<Rightarrow> upd_entry s removed_pentry (\<lambda>e. e\<lparr>parent_list := next_parent (iparents s parent_iter)\<rparr>)
                | Some q \<Rightarrow> s\<lparr>iparents := (iparents s)(q := (iparents s q)\<lparr>next_parent := next_parent (iparents s parent_iter)\<rparr>)\<rparr>)
      in s1\<lparr>pool_parent := RELEASE_PREALLOC parent_iter (pool_parent s)\<rparr>)"

text \<open>The first component is what the function returns, the second what it leaves in \<open>*pstatus\<close>.\<close>

definition cache_inode_remove_cached_dirent :: "icache \<Rightarrow> addr \<Rightarrow> fsal_name \<Rightarrow> (cache_inode_status \<times> cache_inode_status \<times> icache) option" where
  "cache_inode_remove_cached_dirent s pentry_parent pname =
     (if \<not> is_dir_entry (ientries s pentry_parent) then Some (CACHE_INODE_BAD_TYPE, CACHE_INODE_BAD_TYPE, s)
      else do {
        (removed, status, s1) \<leftarrow> cache_inode_operate_cached_dirent s pentry_parent pname None CACHE_INODE_DIRENT_OP_REMOVE;
        case removed of
          None \<Rightarrow> Some (status, status, s1)
        | Some removed_pentry \<Rightarrow> do {
            (previous_iter, found) \<leftarrow> find_parent s1 pentry_parent None (parent_list (ientries s1 removed_pentry));
            case found of
              None \<Rightarrow> Some (CACHE_INODE_SUCCESS, CACHE_INODE_INCONSISTENT_ENTRY, s1)
            | Some parent_iter \<Rightarrow>
                Some (CACHE_INODE_SUCCESS, status, unlink_parent s1 removed_pentry previous_iter parent_iter) } })"

subsection \<open>Invalidation and emptiness\<close>

definition invalidate_seg :: "cache_entry \<Rightarrow> cache_entry" where
  "invalidate_seg e = e\<lparr>dir_entries := map (\<lambda>d. d\<lparr>active := INVALID\<rparr>) (dir_entries e), nbactive := 0\<rparr>"

partial_function (option) invalidate_conts :: "icache \<Rightarrow> addr option \<Rightarrow> icache option" where
  "invalidate_conts s pentry =
     (case pentry of
        None \<Rightarrow> Some s
      | Some _ \<Rightarrow> do {
          (a, e) \<leftarrow> cont_at s pentry;
          invalidate_conts (upd_entry s a invalidate_seg) (pdir_cont e) })"

definition cache_inode_invalidate_all_cached_dirent :: "icache \<Rightarrow> addr \<Rightarrow> (cache_inode_status \<times> icache) option" where
  "cache_inode_invalidate_all_cached_dirent s pentry_dir =
     (if etype (ientries s pentry_dir) \<noteq> DIR_BEGINNING then Some (CACHE_INODE_BAD_TYPE, s)
      else do {
        s1 \<leftarrow> invalidate_conts (upd_entry s pentry_dir invalidate_seg) (pdir_cont (ientries s pentry_dir));
        Some (CACHE_INODE_SUCCESS,
              upd_entry s1 pentry_dir (\<lambda>e. e\<lparr>has_been_readdir := CACHE_INODE_NO, end_of_dir := END_OF_DIR\<rparr>)) })"

partial_function (option) empty_loop :: "icache \<Rightarrow> addr option \<Rightarrow> cache_inode_status option" where
  "empty_loop s pentry_iter =
     (case pentry_iter of
        None \<Rightarrow> Some CACHE_INODE_SUCCESS
      | Some _ \<Rightarrow> do {
          (_, e) \<leftarrow> dir_at s pentry_iter;
          if nbactive e \<noteq> 0 then Some CACHE_INODE_DIR_NOT_EMPTY
          else if end_of_dir e = END_OF_DIR then Some CACHE_INODE_SUCCESS
          else empty_loop s (pdir_cont e) })"

definition cache_inode_is_dir_empty :: "icache \<Rightarrow> addr \<Rightarrow> cache_inode_status option" where
  "cache_inode_is_dir_empty s pentry =
     (if etype (ientries s pentry) \<noteq> DIR_BEGINNING then Some CACHE_INODE_BAD_TYPE else empty_loop s (Some pentry))"

text \<open>
  What the garbage collector does before it drops an object: every place that the object knows of is set invalid.
  The test on the position lets the value 16 through, which is outside the array.
\<close>

definition invalidate_place :: "nat \<Rightarrow> cache_entry \<Rightarrow> cache_entry" where
  "invalidate_place i e =
     (let e1 = set_dirent i (\<lambda>d. d\<lparr>active := INVALID\<rparr>) (e\<lparr>nbactive := nbactive e - 1\<rparr>)
      in if etype e = DIR_BEGINNING then e1\<lparr>has_been_readdir := CACHE_INODE_NO\<rparr> else e1)"

partial_function (option) related_loop :: "icache \<Rightarrow> addr option \<Rightarrow> (bool \<times> icache) option" where
  "related_loop s parent_iter =
     (case parent_iter of
        None \<Rightarrow> Some (True, s)
      | Some q \<Rightarrow>
          if parent (iparents s q) = None then related_loop s (next_parent (iparents s q))
          else if \<not> is_dir_entry (ientries s (the (parent (iparents s q)))) then Some (False, s)
          else if unat (subdirpos (iparents s q)) > CHILDREN_ARRAY_SIZE then Some (False, s)
          else if unat (subdirpos (iparents s q)) = CHILDREN_ARRAY_SIZE then None
          else related_loop
                 (upd_entry s (the (parent (iparents s q))) (invalidate_place (unat (subdirpos (iparents s q)))))
                 (next_parent (iparents s q)))"

definition cache_inode_gc_invalidate_related_dirent :: "icache \<Rightarrow> addr \<Rightarrow> (bool \<times> icache) option" where
  "cache_inode_gc_invalidate_related_dirent s pentry = related_loop s (parent_list (ientries s pentry))"

definition cache_inode_invalidate_related_dirent :: "icache \<Rightarrow> addr \<Rightarrow> icache option" where
  "cache_inode_invalidate_related_dirent s pentry = do { (_, s') \<leftarrow> related_loop s (parent_list (ientries s pentry)); Some s' }"

subsection \<open>Reading a window of the directory\<close>

text \<open>
  The two loops of \<open>cache_inode_readdir\<close>: the first goes to the segment of the cookie and says whether the end was met
  before, the second copies valid entries with their cookies.  \<open>acc\<close> is what has been copied so far.
\<close>

partial_function (option) readdir_locate :: "icache \<Rightarrow> u32 \<Rightarrow> u32 \<Rightarrow> addr \<Rightarrow> (bool \<times> addr) option" where
  "readdir_locate s cookie first_pentry_cookie pentry_to_read =
     (if cookie - first_pentry_cookie \<ge> of_nat CHILDREN_ARRAY_SIZE
      then do {
        (_, e) \<leftarrow> dir_at s (Some pentry_to_read);
        if end_of_dir e = END_OF_DIR then Some (True, pentry_to_read)
        else do {
          (q, e') \<leftarrow> cont_at s (pdir_cont e);
          readdir_locate s cookie (dir_cont_pos e' * of_nat CHILDREN_ARRAY_SIZE) q } }
      else Some (False, pentry_to_read))"

partial_function (option) readdir_fill :: "icache \<Rightarrow> u32 \<Rightarrow> u32 \<Rightarrow> u32 \<Rightarrow> addr option \<Rightarrow> (dir_entry \<times> u32) list
    \<Rightarrow> ((dir_entry \<times> u32) list \<times> u32 \<times> bool \<times> addr option) option" where
  "readdir_fill s nbwanted i cookie_iter p acc =
     (if i < nbwanted
      then do {
        (_, e) \<leftarrow> dir_at s p;
        let d = dir_entries e ! unat (cookie_iter mod of_nat CHILDREN_ARRAY_SIZE);
            acc' = (if active d = VALID then acc @ [(d, cookie_iter)] else acc);
            i' = (if active d = VALID then i + 1 else i);
            cookie_iter' = cookie_iter + 1
        in if cookie_iter' mod of_nat CHILDREN_ARRAY_SIZE = 0
           then (if end_of_dir e = END_OF_DIR then Some (acc', cookie_iter', True, p)
                 else readdir_fill s nbwanted i' cookie_iter' (pdir_cont e) acc')
           else readdir_fill s nbwanted i' cookie_iter' p acc' }
      else Some (acc, cookie_iter, False, p))"

subsection \<open>Validation and allocation of entries (cache\_inode\_misc.c)\<close>

text \<open>
  The numbers of the client's configuration, the sizes of the structures, whether \<open>rw_lock_init\<close> succeeds, and
  what the file system answers to a request for attributes.  The attributes themselves are not in the model.
\<close>

record inode_env =
  nb_prealloc :: u32
  nb_pre_dir_data :: u32
  nb_pre_parent :: u32
  sizeof_cache_entry :: nat
  sizeof_dir_data :: nat
  sizeof_parent_entry :: nat
  sizeof_fsal_data :: nat
  rw_lock_init_ok :: bool
  FSAL_getattrs :: "u8 list \<Rightarrow> fsal_error"

datatype inode_op = CACHE_INODE_OP_GET | CACHE_INODE_OP_SET

definition release_entry :: "icache \<Rightarrow> addr \<Rightarrow> icache" where
  "release_entry s p = s\<lparr>pool_entry := RELEASE_PREALLOC p (pool_entry s)\<rparr>"

text \<open>
  The call on a DIR\_CONTINUE is passed to its DIR\_BEGINNING; a chain of DIR\_CONTINUEs does not return.  No regular
  file has an open descriptor or a file content entry here, so the end of the function for regular files does nothing.
  \<open>lru_inode_clean_entry\<close> returns 0.
\<close>

definition valid_target :: "icache \<Rightarrow> addr \<Rightarrow> addr option" where
  "valid_target s p =
     (if etype (ientries s p) \<noteq> DIR_CONTINUE then Some p
      else if etype (ientries s (pdir_begin (ientries s p))) \<noteq> DIR_CONTINUE then Some (pdir_begin (ientries s p))
      else None)"

definition lru_inode_clean_entry :: "addr \<Rightarrow> unit \<Rightarrow> int \<times> unit" where
  "lru_inode_clean_entry p x = (0, x)"

definition valid_stamp :: "int \<Rightarrow> inode_op \<Rightarrow> addr \<Rightarrow> cache_entry \<Rightarrow> cache_entry" where
  "valid_stamp now opr l e =
     (let e1 = e\<lparr>gc_lru_entry := Some l, validst := VALID\<rparr>
      in case opr of
           CACHE_INODE_OP_GET \<Rightarrow> e1\<lparr>read_time := now\<rparr>
         | CACHE_INODE_OP_SET \<Rightarrow> e1\<lparr>mod_time := now, refresh_time := now\<rparr>)"

definition cache_inode_valid :: "int \<Rightarrow> icache \<Rightarrow> addr option \<Rightarrow> inode_op \<Rightarrow> (cache_inode_status \<times> icache) option" where
  "cache_inode_valid now s pentry opr =
     (case pentry of
        None \<Rightarrow> Some (CACHE_INODE_INVALID_ARGUMENT, s)
      | Some p0 \<Rightarrow> do {
          p \<leftarrow> valid_target s p0;
          let (h, l) = (case gc_lru_entry (ientries s p) of
                          None \<Rightarrow> (ilheap s, lru_gc s)
                        | Some q \<Rightarrow> snd (LRU_invalidate (ilheap s) (lru_gc s) q))
          in case LRU_new_entry (imem s) h l of
               (None, _, m, h1, l1) \<Rightarrow>
                 Some (CACHE_INODE_LRU_ERROR, release_entry (s\<lparr>imem := m, ilheap := h1, lru_gc := l1\<rparr>) p)
             | (Some q, _, m, h1, l1) \<Rightarrow> do {
                 (rc, h2, l2, _) \<leftarrow> LRU_gc_invalid lru_inode_clean_entry (h1(q := (h1 q)\<lparr>buffdata := p\<rparr>)) l1 ();
                 Some (if rc \<noteq> LRU_LIST_SUCCESS then CACHE_INODE_LRU_ERROR else CACHE_INODE_SUCCESS,
                       (upd_entry s p (valid_stamp now opr q))\<lparr>imem := m, ilheap := h2, lru_gc := l2,
                          call_since_last_gc := call_since_last_gc s + 1\<rparr>) } })"

text \<open>An empty place; the bytes of its name after the NUL are written as zero.\<close>

definition empty_dirent :: dir_entry where
  "empty_dirent = \<lparr>active = INVALID, dpentry = None, dname = \<lparr>fname = replicate FSAL_MAX_NAME_LEN 0, flen = 0\<rparr>\<rparr>"

definition init_entry :: "int \<Rightarrow> file_type \<Rightarrow> u8 list \<Rightarrow> cache_entry \<Rightarrow> cache_entry" where
  "init_entry now t h e = e\<lparr>etype := t, validst := VALID, read_time := 0, mod_time := now, refresh_time := now,
     alloc_time := now, gc_lru_entry := None, parent_list := None, ehandle := h\<rparr>"

definition init_begin :: "addr \<Rightarrow> cache_entry \<Rightarrow> cache_entry" where
  "init_begin p e = e\<lparr>has_been_readdir := CACHE_INODE_NO, end_of_dir := END_OF_DIR, pdir_cont := None, pdir_last := Some p,
     nbactive := 0, nbdircont := 0, dir_entries := replicate CHILDREN_ARRAY_SIZE empty_dirent\<rparr>"

definition init_cont :: "addr \<Rightarrow> addr \<Rightarrow> u32 \<Rightarrow> cache_entry \<Rightarrow> cache_entry" where
  "init_cont prev begin_dir pos e = e\<lparr>end_of_dir := END_OF_DIR, pdir_cont := None, pdir_prev := Some prev,
     pdir_begin := begin_dir, dir_cont_pos := pos, nbactive := 0, dir_entries := replicate CHILDREN_ARRAY_SIZE empty_dirent\<rparr>"

text \<open>
  The switch on the type; \<open>Inl\<close> is the status of a refused type.  The copy of the content of a link, which fails only for
  a null pointer, is left out.
\<close>

definition init_object :: "icache \<Rightarrow> file_type \<Rightarrow> addr \<Rightarrow> addr option \<Rightarrow> cache_entry \<Rightarrow> (cache_inode_status + cache_entry) option" where
  "init_object s t p pentry_dir_prev e =
     (case t of
        DIR_BEGINNING \<Rightarrow> Some (Inr (init_begin p e))
      | DIR_CONTINUE \<Rightarrow> do {
          prev \<leftarrow> pentry_dir_prev;
          Some (case etype (ientries s prev) of
                  DIR_BEGINNING \<Rightarrow> Inr (init_cont prev prev 1 e)
                | DIR_CONTINUE \<Rightarrow> Inr (init_cont prev (pdir_begin (ientries s prev)) (dir_cont_pos (ientries s prev) + 1) e)
                | _ \<Rightarrow> Inl CACHE_INODE_NOT_A_DIRECTORY) }
      | REGULAR_FILE \<Rightarrow> Some (Inr e) | SYMBOLIC_LINK \<Rightarrow> Some (Inr e) | SOCKET_FILE \<Rightarrow> Some (Inr e)
      | FIFO_FILE \<Rightarrow> Some (Inr e) | BLOCK_FILE \<Rightarrow> Some (Inr e) | CHARACTER_FILE \<Rightarrow> Some (Inr e)
      | _ \<Rightarrow> Some (Inl CACHE_INODE_INCONSISTENT_ENTRY))"

text \<open>
  The key, the hash table and the LRU list, once the entry is initialised.  When no key can be allocated the caller's
  local key is put into the pool of keys; \<open>None\<close> stands for that.  No regular file has content on the local disk from an
  earlier run, so nothing is recovered into the content cache.
\<close>

definition publish_entry :: "inode_env \<Rightarrow> int \<Rightarrow> icache \<Rightarrow> addr \<Rightarrow> u8 list \<times> u32 \<Rightarrow> (addr option \<times> cache_inode_status \<times> icache) option" where
  "publish_entry env now s p fsdata =
     (case GET_PREALLOC (imem s) (pool_key s) (unat (nb_prealloc env)) (sizeof_fsal_data env) of
        (None, _, _) \<Rightarrow> None
      | (Some key, keys, m) \<Rightarrow> do {
          (rc, m1, t) \<leftarrow> hs_put (m, ht_inode s) fsdata p HASHTABLE_SET_HOW_SET_NO_OVERWRITE;
          let s1 = s\<lparr>imem := m1, pool_key := keys, ht_inode := t\<rparr>
          in if rc \<noteq> HASHTABLE_SUCCESS then Some (None, CACHE_INODE_HASH_SET_ERROR, release_entry s1 p)
             else do {
               (_, s2) \<leftarrow> cache_inode_valid now (s1\<lparr>key_at := (key_at s1)(fsdata := key)\<rparr>) (Some p) CACHE_INODE_OP_GET;
               Some (Some p, CACHE_INODE_SUCCESS, s2) } })"

definition cache_inode_new_entry :: "inode_env \<Rightarrow> int \<Rightarrow> icache \<Rightarrow> u8 list \<times> u32 \<Rightarrow> bool \<Rightarrow> file_type \<Rightarrow> addr option
    \<Rightarrow> (addr option \<times> cache_inode_status \<times> icache) option" where
  "cache_inode_new_entry env now s fsdata attr_given t pentry_dir_prev = do {
     (rc, v, m0, t0) \<leftarrow> hs_get (imem s, ht_inode s) fsdata;
     let s0 = s\<lparr>imem := m0, ht_inode := t0\<rparr>
     in if rc = HASHTABLE_SUCCESS then Some (v, CACHE_INODE_ENTRY_EXISTS, s0)
        else case GET_PREALLOC m0 (pool_entry s) (unat (nb_prealloc env)) (sizeof_cache_entry env) of
          (None, pool, m) \<Rightarrow> Some (None, CACHE_INODE_MALLOC_ERROR, s0\<lparr>imem := m, pool_entry := pool\<rparr>)
        | (Some p, pool, m) \<Rightarrow>
            let s1 = s0\<lparr>imem := m, pool_entry := pool\<rparr>;
                (data, s2) = (if t = DIR_BEGINNING \<or> t = DIR_CONTINUE
                   then (case GET_PREALLOC m (pool_dir_data s) (unat (nb_pre_dir_data env)) (sizeof_dir_data env) of
                           (None, dpool, m') \<Rightarrow> (None, s1\<lparr>imem := m', pool_dir_data := dpool\<rparr>)
                         | (Some q, dpool, m') \<Rightarrow> (Some q, s1\<lparr>imem := m', pool_dir_data := dpool\<rparr>))
                   else (Some (pdir_data (ientries s p)), s1))
            in case data of
                 None \<Rightarrow> Some (None, CACHE_INODE_MALLOC_ERROR, s2)
               | Some q \<Rightarrow>
                   if \<not> rw_lock_init_ok env then Some (None, CACHE_INODE_INIT_ENTRY_FAILED, release_entry s2 p)
                   else if \<not> attr_given \<and> t \<noteq> DIR_CONTINUE \<and> FSAL_getattrs env (fst fsdata) \<noteq> ERR_FSAL_NO_ERROR
                   then (if FSAL_getattrs env (fst fsdata) = ERR_FSAL_STALE then None
                         else Some (None, cache_inode_error_convert (FSAL_getattrs env (fst fsdata)), release_entry s2 p))
                   else do {
                     obj \<leftarrow> init_object s2 t p pentry_dir_prev (init_entry now t (fst fsdata) (ientries s2 p\<lparr>pdir_data := q\<rparr>));
                     case obj of
                       Inl status \<Rightarrow> Some (None, status, release_entry s2 p)
                     | Inr e \<Rightarrow> publish_entry env now (upd_entry s2 p (\<lambda>_. e)) p fsdata } }"

subsection \<open>Adding an entry to a directory\<close>

datatype seek = Slot addr nat | Full addr | Not_a_dir

definition free_dirent :: "dir_entry \<Rightarrow> bool" where
  "free_dirent d \<longleftrightarrow> active d = INVALID \<or> dpentry d = None"

text \<open>The search loop: a free place, or the last segment of the chain when there is none.\<close>

definition seek_seg :: "cache_entry \<Rightarrow> nat option" where
  "seek_seg e = (if nbactive e \<noteq> of_nat CHILDREN_ARRAY_SIZE
     then the (scan (\<lambda>d. Some (free_dirent d)) 0 (dir_entries e)) else None)"

partial_function (option) seek_slot :: "icache \<Rightarrow> addr option \<Rightarrow> seek option" where
  "seek_slot s p =
     (if p = None then None
      else if \<not> is_dir_entry (ientries s (the p)) then Some Not_a_dir
      else if seek_seg (ientries s (the p)) \<noteq> None then Some (Slot (the p) (the (seek_seg (ientries s (the p)))))
      else if end_of_dir (ientries s (the p)) = END_OF_DIR then Some (Full (the p))
      else seek_slot s (pdir_cont (ientries s (the p))))"

text \<open>
  The segment after the last one: an old one that is still linked, or a new DIR\_CONTINUE.  The result is
  the segment, or the status of the failure.
\<close>

definition next_segment :: "inode_env \<Rightarrow> int \<Rightarrow> icache \<Rightarrow> addr \<Rightarrow> ((cache_inode_status + addr) \<times> icache) option" where
  "next_segment env now s pdir_chain =
     (let e = ientries s pdir_chain;
          fsdata = (if etype e = DIR_BEGINNING then (ehandle e, 1)
                    else (ehandle (ientries s (pdir_begin e)), dir_cont_pos e + 1))
      in case pdir_cont e of
           Some p \<Rightarrow> Some (Inr p, s)
         | None \<Rightarrow> do {
             (r, status, s1) \<leftarrow> cache_inode_new_entry env now s fsdata False DIR_CONTINUE (Some pdir_chain);
             Some (case r of None \<Rightarrow> (Inl status, s1) | Some p \<Rightarrow> (Inr p, s1)) })"

definition chain_segment :: "icache \<Rightarrow> addr \<Rightarrow> addr \<Rightarrow> icache" where
  "chain_segment s pdir_chain pentry =
     (let a = (if etype (ientries s pdir_chain) = DIR_BEGINNING then pdir_chain else pdir_begin (ientries s pdir_chain));
          s1 = upd_entry s pdir_chain (\<lambda>e. e\<lparr>pdir_cont := Some pentry, end_of_dir := TO_BE_CONTINUED\<rparr>)
      in upd_entry s1 a (\<lambda>e. e\<lparr>pdir_last := Some pentry, nbdircont := nbdircont e + 1\<rparr>))"

text \<open>From the allocation of the link on: the place, then the link at the head of the list of the added object.\<close>

definition fill_slot :: "inode_env \<Rightarrow> icache \<Rightarrow> addr \<Rightarrow> nat \<Rightarrow> fsal_name option \<Rightarrow> addr \<Rightarrow> (cache_inode_status \<times> addr option \<times> icache)" where
  "fill_slot env s pentry slot_index pname pentry_added =
     (case GET_PREALLOC (imem s) (pool_parent s) (unat (nb_pre_parent env)) (sizeof_parent_entry env) of
        (None, pool, m) \<Rightarrow> (CACHE_INODE_MALLOC_ERROR, None, s\<lparr>imem := m, pool_parent := pool\<rparr>)
      | (Some q, pool, m) \<Rightarrow>
          let s1 = (s\<lparr>imem := m, pool_parent := pool, iparents := (iparents s)(q := \<lparr>subdirpos = 0, parent = None, next_parent = None\<rparr>)\<rparr>);
              (fsal_status, nm) = FSAL_namecpy (dname (dir_entries (ientries s pentry) ! slot_index)) pname;
              s2 = upd_entry s1 pentry (\<lambda>e. set_dirent slot_index (\<lambda>d. d\<lparr>active := VALID, dpentry := Some pentry_added, dname := nm\<rparr>)
                     (e\<lparr>nbactive := nbactive e + 1\<rparr>))
          in if fsal_status \<noteq> ERR_FSAL_NO_ERROR
             then (CACHE_INODE_FSAL_ERROR, None, upd_entry s2 pentry (\<lambda>e. e\<lparr>nbactive := nbactive e - 1\<rparr>))
             else let s3 = s2\<lparr>iparents := (iparents s2)(q := \<lparr>subdirpos = of_nat slot_index, parent = Some pentry,
                                next_parent = parent_list (ientries s2 pentry_added)\<rparr>)\<rparr>
                  in (CACHE_INODE_SUCCESS, Some pentry, upd_entry s3 pentry_added (\<lambda>e. e\<lparr>parent_list := Some q\<rparr>)))"

definition cache_inode_add_cached_dirent :: "inode_env \<Rightarrow> int \<Rightarrow> icache \<Rightarrow> addr option \<Rightarrow> fsal_name option \<Rightarrow> addr
    \<Rightarrow> (cache_inode_status \<times> addr option \<times> icache) option" where
  "cache_inode_add_cached_dirent env now s parent_dir pname pentry_added = do {
     pentry_parent \<leftarrow> parent_dir;
     if \<not> is_dir_entry (ientries s pentry_parent) then Some (CACHE_INODE_BAD_TYPE, None, s)
     else do {
       r \<leftarrow> seek_slot s (Some pentry_parent);
       case r of
         Not_a_dir \<Rightarrow> Some (CACHE_INODE_BAD_TYPE, None, s)
       | Slot pentry i \<Rightarrow> Some (fill_slot env s pentry i pname pentry_added)
       | Full pdir_chain \<Rightarrow> do {
           (sg, s1) \<leftarrow> next_segment env now s pdir_chain;
           Some (case sg of
                   Inl status \<Rightarrow> (status, None, s1)
                 | Inr pentry \<Rightarrow> fill_slot env (chain_segment s1 pdir_chain pentry) pentry 0 pname pentry_added) } } }"

subsection \<open>Dropping an entry (cache\_inode\_misc.c)\<close>

definition cache_inode_get_fsal_handle :: "icache \<Rightarrow> addr option \<Rightarrow> (u8 list) option \<times> cache_inode_status" where
  "cache_inode_get_fsal_handle s pentry =
     (case pentry of
        None \<Rightarrow> (None, CACHE_INODE_INVALID_ARGUMENT)
      | Some p \<Rightarrow>
          (case etype (ientries s p) of
             DIR_CONTINUE \<Rightarrow> (Some (ehandle (ientries s (pdir_begin (ientries s p)))), CACHE_INODE_SUCCESS)
           | UNASSIGNED \<Rightarrow> (None, CACHE_INODE_BAD_TYPE) | FS_JUNCTION \<Rightarrow> (None, CACHE_INODE_BAD_TYPE) | RECYCLED \<Rightarrow> (None, CACHE_INODE_BAD_TYPE)
           | _ \<Rightarrow> (Some (ehandle (ientries s p)), CACHE_INODE_SUCCESS)))"

partial_function (option) release_parents :: "icache \<Rightarrow> addr option \<Rightarrow> icache option" where
  "release_parents s parent_iter =
     (if parent_iter = None then Some s
      else release_parents (s\<lparr>pool_parent := RELEASE_PREALLOC (the parent_iter) (pool_parent s)\<rparr>) (next_parent (iparents s (the parent_iter))))"

definition lru_drop :: "icache \<Rightarrow> addr \<Rightarrow> icache" where
  "lru_drop s p = (case gc_lru_entry (ientries s p) of
      None \<Rightarrow> s
    | Some q \<Rightarrow> (case LRU_invalidate (ilheap s) (lru_gc s) q of (_, h, l) \<Rightarrow> s\<lparr>ilheap := h, lru_gc := l\<rparr>))"

definition entry_cookie :: "icache \<Rightarrow> addr \<Rightarrow> u32" where
  "entry_cookie s p = (if etype (ientries s p) = DIR_CONTINUE then dir_cont_pos (ientries s p) else 0)"

text \<open>
  \<open>cache_inode_kill_entry\<close> without the loop over the DIR\_CONTINUEs, which comes between the two halves.  When no key can be
  allocated an uninitialised key is released; \<open>None\<close> stands for that.  The result is \<open>Inl\<close> the status of an early return.
\<close>

definition kill_key :: "inode_env \<Rightarrow> icache \<Rightarrow> addr \<Rightarrow> (cache_inode_status + (u8 list \<times> u32) \<times> addr \<times> icache) option" where
  "kill_key env s p =
     (case cache_inode_get_fsal_handle s (Some p) of
        (None, status) \<Rightarrow> Some (Inl status)
      | (Some h, _) \<Rightarrow>
          let s1 = lru_drop s p
          in case GET_PREALLOC (imem s1) (pool_key s1) (unat (nb_prealloc env)) (sizeof_fsal_data env) of
               (None, _, _) \<Rightarrow> None
             | (Some key, keys, m) \<Rightarrow> Some (Inr ((h, entry_cookie s p), key, s1\<lparr>imem := m, pool_key := keys\<rparr>)))"

definition clear_dirents :: "cache_entry \<Rightarrow> cache_entry" where
  "clear_dirents e = e\<lparr>dir_entries := map (\<lambda>d. d\<lparr>active := INVALID, dpentry := None\<rparr>) (dir_entries e)\<rparr>"

definition kill_rest :: "icache \<Rightarrow> addr \<Rightarrow> (u8 list \<times> u32) \<Rightarrow> addr \<Rightarrow> (cache_inode_status \<times> icache) option" where
  "kill_rest s p fsaldata key = do {
     s1 \<leftarrow> cache_inode_invalidate_related_dirent s p;
     (rc, _, m, t) \<leftarrow> hs_del (imem s1, ht_inode s1) fsaldata;
     let s2 = s1\<lparr>imem := m, ht_inode := t\<rparr>
     in if rc \<noteq> HASHTABLE_SUCCESS
        then Some (CACHE_INODE_NOT_FOUND, s2\<lparr>pool_key := RELEASE_PREALLOC key (pool_key s2)\<rparr>)
        else do {
          s3 \<leftarrow> release_parents (s2\<lparr>pool_key := RELEASE_PREALLOC key (RELEASE_PREALLOC (key_at s2 fsaldata) (pool_key s2))\<rparr>)
                  (parent_list (ientries s2 p));
          let s4 = (if is_dir_entry (ientries s3 p)
                    then (upd_entry s3 p clear_dirents)\<lparr>pool_dir_data := RELEASE_PREALLOC (pdir_data (ientries s3 p)) (pool_dir_data s3)\<rparr>
                    else s3)
          in Some (CACHE_INODE_SUCCESS, release_entry s4 p) } }"

text \<open>The call on a DIR\_CONTINUE; then the loop over them; then the whole function.\<close>

definition kill_cont :: "inode_env \<Rightarrow> icache \<Rightarrow> addr \<Rightarrow> icache option" where
  "kill_cont env s p = do {
     r \<leftarrow> kill_key env s p;
     case r of
       Inl _ \<Rightarrow> Some s
     | Inr (fsaldata, key, s1) \<Rightarrow> do { (_, s2) \<leftarrow> kill_rest s1 p fsaldata key; Some s2 } }"

partial_function (option) kill_conts :: "inode_env \<Rightarrow> icache \<Rightarrow> addr option \<Rightarrow> icache option" where
  "kill_conts env s pentry_iter =
     (if pentry_iter = None then Some s
      else do {
        (a, e) \<leftarrow> cont_at s pentry_iter;
        s1 \<leftarrow> kill_cont env s a;
        kill_conts env s1 (pdir_cont e) })"

definition cache_inode_kill_entry :: "inode_env \<Rightarrow> icache \<Rightarrow> addr option \<Rightarrow> (cache_inode_status \<times> icache) option" where
  "cache_inode_kill_entry env s pentry =
     (case pentry of
        None \<Rightarrow> Some (CACHE_INODE_INVALID_ARGUMENT, s)
      | Some p \<Rightarrow> do {
          r \<leftarrow> kill_key env s p;
          case r of
            Inl status \<Rightarrow> Some (status, s)
          | Inr (fsaldata, key, s1) \<Rightarrow> do {
              s2 \<leftarrow> (if etype (ientries s1 p) = DIR_BEGINNING then kill_conts env s1 (pdir_cont (ientries s1 p)) else Some s1);
              kill_rest s2 p fsaldata key } })"

subsection \<open>Filling a directory from the file system\<close>

datatype fsal_nodetype =
    FSAL_TYPE_FIFO | FSAL_TYPE_CHR | FSAL_TYPE_DIR | FSAL_TYPE_BLK | FSAL_TYPE_FILE | FSAL_TYPE_LNK
  | FSAL_TYPE_SOCK | FSAL_TYPE_XATTR | FSAL_TYPE_JUNCTION

definition cache_inode_fsal_type_convert :: "fsal_nodetype \<Rightarrow> file_type" where
  "cache_inode_fsal_type_convert t =
     (case t of
        FSAL_TYPE_DIR \<Rightarrow> DIR_BEGINNING | FSAL_TYPE_FILE \<Rightarrow> REGULAR_FILE | FSAL_TYPE_LNK \<Rightarrow> SYMBOLIC_LINK
      | FSAL_TYPE_BLK \<Rightarrow> BLOCK_FILE | FSAL_TYPE_FIFO \<Rightarrow> FIFO_FILE | FSAL_TYPE_CHR \<Rightarrow> CHARACTER_FILE
      | FSAL_TYPE_SOCK \<Rightarrow> SOCKET_FILE | _ \<Rightarrow> UNASSIGNED)"

record fsal_dirent =
  de_name :: fsal_name
  de_handle :: "u8 list"
  de_type :: fsal_nodetype

text \<open>
  The file system: what it answers when a directory is opened, read from a cookie (a status, the entries found, the next
  cookie, the end of the directory) and closed, and when a link is read.
\<close>

record 'c fsal_dir =
  FSAL_opendir :: "u8 list \<Rightarrow> fsal_error"
  FSAL_readdir :: "u8 list \<Rightarrow> 'c \<Rightarrow> fsal_error \<times> fsal_dirent list \<times> 'c \<times> bool"
  FSAL_closedir :: fsal_error
  FSAL_readlink :: "u8 list \<Rightarrow> fsal_error"
  FSAL_COOKIE_BEGINNING :: 'c

definition FSAL_DOT :: fsal_name where "FSAL_DOT = \<lparr>fname = [46], flen = 1\<rparr>"
definition FSAL_DOT_DOT :: fsal_name where "FSAL_DOT_DOT = \<lparr>fname = [46, 46], flen = 2\<rparr>"

definition stale_kill :: "inode_env \<Rightarrow> icache \<Rightarrow> addr \<Rightarrow> fsal_error \<Rightarrow> (cache_inode_status \<times> icache) option" where
  "stale_kill env s pentry_dir major =
     (if major = ERR_FSAL_STALE
      then do { (_, s1) \<leftarrow> cache_inode_kill_entry env s (Some pentry_dir); Some (CACHE_INODE_FSAL_ESTALE, s1) }
      else Some (cache_inode_error_convert major, s))"

text \<open>
  The loop over what one call found.  \<open>next_pentry_parent\<close> is the segment that got the last entry.  \<open>Inl\<close> is an early return.
\<close>

fun populate_chunk :: "'c fsal_dir \<Rightarrow> inode_env \<Rightarrow> int \<Rightarrow> addr \<Rightarrow> addr option \<Rightarrow> addr option \<Rightarrow> icache \<Rightarrow> fsal_dirent list
    \<Rightarrow> (cache_inode_status \<times> icache + addr option \<times> icache) option" where
  "populate_chunk fs env now pentry_dir pentry_parent next_pentry_parent s [] = Some (Inr (next_pentry_parent, s))"
| "populate_chunk fs env now pentry_dir pentry_parent next_pentry_parent s (d # ds) =
     (if FSAL_namecmp (de_name d) FSAL_DOT \<or> FSAL_namecmp (de_name d) FSAL_DOT_DOT
      then populate_chunk fs env now pentry_dir pentry_parent next_pentry_parent s ds
      else if cache_inode_fsal_type_convert (de_type d) = SYMBOLIC_LINK \<and> FSAL_readlink fs (de_handle d) \<noteq> ERR_FSAL_NO_ERROR
      then do { r \<leftarrow> stale_kill env s pentry_dir (FSAL_readlink fs (de_handle d)); Some (Inl r) }
      else do {
        (r, status, s1) \<leftarrow> cache_inode_new_entry env now s (de_handle d, 0) True (cache_inode_fsal_type_convert (de_type d)) None;
        case r of
          None \<Rightarrow> Some (Inl (status, s1))
        | Some pentry \<Rightarrow> do {
            (cache_status, nxt, s2) \<leftarrow> cache_inode_add_cached_dirent env now s1 pentry_parent (Some (de_name d)) pentry;
            if cache_status \<noteq> CACHE_INODE_SUCCESS \<and> cache_status \<noteq> CACHE_INODE_ENTRY_EXISTS
            then Some (Inl (cache_status, s2))
            else populate_chunk fs env now pentry_dir pentry_parent (if nxt = None then next_pentry_parent else nxt) s2 ds } })"

partial_function (option) populate_loop :: "'c fsal_dir \<Rightarrow> inode_env \<Rightarrow> int \<Rightarrow> addr \<Rightarrow> addr option \<Rightarrow> addr option \<Rightarrow> 'c \<Rightarrow> icache
    \<Rightarrow> (cache_inode_status \<times> icache + icache) option" where
  "populate_loop fs env now pentry_dir pentry_parent next_pentry_parent begin_cookie s =
     (let fr = FSAL_readdir fs (ehandle (ientries s pentry_dir)) begin_cookie
      in if fst fr \<noteq> ERR_FSAL_NO_ERROR then Some (Inl (cache_inode_error_convert (fst fr), s))
         else do {
           r \<leftarrow> populate_chunk fs env now pentry_dir pentry_parent next_pentry_parent s (fst (snd fr));
           if isl r then Some (Inl (projl r))
           else if snd (snd (snd fr)) then Some (Inr (snd (projr r)))
           else populate_loop fs env now pentry_dir (fst (projr r)) (fst (projr r)) (fst (snd (snd fr))) (snd (projr r)) })"

definition cache_inode_readdir_populate :: "'c fsal_dir \<Rightarrow> inode_env \<Rightarrow> int \<Rightarrow> icache \<Rightarrow> addr \<Rightarrow> (cache_inode_status \<times> icache) option" where
  "cache_inode_readdir_populate fs env now s pentry_dir =
     (if etype (ientries s pentry_dir) \<noteq> DIR_BEGINNING then Some (CACHE_INODE_BAD_TYPE, s)
      else if has_been_readdir (ientries s pentry_dir) = CACHE_INODE_YES then Some (CACHE_INODE_SUCCESS, s)
      else do {
        (status, s1) \<leftarrow> cache_inode_invalidate_all_cached_dirent s pentry_dir;
        if status \<noteq> CACHE_INODE_SUCCESS then Some (status, s1)
        else if FSAL_opendir fs (ehandle (ientries s1 pentry_dir)) \<noteq> ERR_FSAL_NO_ERROR
        then stale_kill env s1 pentry_dir (FSAL_opendir fs (ehandle (ientries s1 pentry_dir)))
        else do {
          r \<leftarrow> populate_loop fs env now pentry_dir (Some pentry_dir) None (FSAL_COOKIE_BEGINNING fs) s1;
          Some (case r of
                  Inl err \<Rightarrow> err
                | Inr s2 \<Rightarrow>
                    if FSAL_closedir fs \<noteq> ERR_FSAL_NO_ERROR then (cache_inode_error_convert (FSAL_closedir fs), s2)
                    else (CACHE_INODE_SUCCESS, upd_entry s2 pentry_dir (\<lambda>e. e\<lparr>has_been_readdir := CACHE_INODE_YES\<rparr>))) } })"

subsection \<open>Reading a directory\<close>

text \<open>
  \<open>cache_inode_readdir\<close> after the renewal of the attributes and the access check: the directory is filled from the file system
  when that has not been done, then a window of it is read.  The result has the entries with their cookies,
  the cookie to go on with and the flag for the end.
\<close>

definition readdir_status :: "int \<Rightarrow> icache \<Rightarrow> addr option \<Rightarrow> (cache_inode_status \<times> icache) option" where
  "readdir_status now s pentry_to_read = do {
     (p, e) \<leftarrow> dir_at s pentry_to_read;
     if etype e = DIR_BEGINNING then cache_inode_valid now s (Some p) CACHE_INODE_OP_GET else Some (CACHE_INODE_SUCCESS, s) }"

definition readdir_window :: "int \<Rightarrow> icache \<Rightarrow> addr \<Rightarrow> u32 \<Rightarrow> u32 \<Rightarrow> u32
    \<Rightarrow> (cache_inode_status \<times> (dir_entry \<times> u32) list \<times> u32 \<times> endofdir \<times> icache) option" where
  "readdir_window now s dir_pentry first_pentry_cookie cookie nbwanted = do {
     (beyond, p) \<leftarrow> readdir_locate s cookie first_pentry_cookie dir_pentry;
     if beyond then do { (status, s1) \<leftarrow> readdir_status now s (Some p); Some (status, [], cookie, END_OF_DIR, s1) }
     else do {
       (ds, end_cookie, eod, q) \<leftarrow> readdir_fill s nbwanted 0 cookie (Some p) [];
       if eod then Some (CACHE_INODE_SUCCESS, ds, end_cookie, END_OF_DIR, s)
       else do { (status, s1) \<leftarrow> readdir_status now s q; Some (status, ds, end_cookie, TO_BE_CONTINUED, s1) } } }"

definition cache_inode_readdir :: "'c fsal_dir \<Rightarrow> inode_env \<Rightarrow> int \<Rightarrow> icache \<Rightarrow> addr \<Rightarrow> u32 \<Rightarrow> u32
    \<Rightarrow> (cache_inode_status \<times> (dir_entry \<times> u32) list \<times> u32 \<times> endofdir \<times> icache) option" where
  "cache_inode_readdir fs env now s dir_pentry cookie nbwanted =
     (if nbwanted = 0 then Some (CACHE_INODE_SUCCESS, [], cookie, TO_BE_CONTINUED, s)
      else if \<not> is_dir_entry (ientries s dir_pentry) then Some (CACHE_INODE_BAD_TYPE, [], cookie, TO_BE_CONTINUED, s)
      else do {
        let dir_begin = (if etype (ientries s dir_pentry) = DIR_BEGINNING then dir_pentry else pdir_begin (ientries s dir_pentry));
        (status, s1) \<leftarrow> (if has_been_readdir (ientries s dir_begin) \<noteq> CACHE_INODE_YES
                           then cache_inode_readdir_populate fs env now s dir_begin else Some (CACHE_INODE_SUCCESS, s));
        if status \<noteq> CACHE_INODE_SUCCESS then Some (status, [], cookie, TO_BE_CONTINUED, s1)
        else readdir_window now s1 dir_pentry
               (if etype (ientries s dir_pentry) = DIR_BEGINNING then 0 else dir_cont_pos (ientries s1 dir_pentry) * of_nat CHILDREN_ARRAY_SIZE)
               cookie nbwanted })"

end
