(* ===== verification/Dir_Chain.thy ===== *)
theory Dir_Chain
  imports Dir_Cache
begin

text \<open>
  The invariant of a cached directory and what the operations on its entries do.  The segments of a directory are
  read as one flat array, \<open>slots\<close>: sixteen places per segment in the order of the chain.
\<close>

subsection \<open>The first element with a property\<close>

fun index_of :: "('a \<Rightarrow> bool) \<Rightarrow> 'a list \<Rightarrow> nat option" where
  "index_of P [] = None"
| "index_of P (x # xs) = (if P x then Some 0 else map_option Suc (index_of P xs))"

lemma index_of_None: "index_of P xs = None \<longleftrightarrow> (\<forall>x \<in> set xs. \<not> P x)"
  by (induction xs) auto

lemma index_of_Some:
  "index_of P xs = Some n \<Longrightarrow> n < length xs \<and> P (xs ! n) \<and> (\<forall>j < n. \<not> P (xs ! j))"
proof (induction xs arbitrary: n)
  case (Cons x xs)
  then show ?case by (cases n) (auto split: if_splits simp: less_Suc_eq_0_disj)
qed simp

lemma index_of_append:
  "index_of P (xs @ ys) = (case index_of P xs of Some n \<Rightarrow> Some n | None \<Rightarrow> map_option (\<lambda>n. length xs + n) (index_of P ys))"
  by (cases "index_of P ys"; induction xs) (auto split: option.splits)

lemma index_of_cong: "(\<And>x. x \<in> set xs \<Longrightarrow> P x = Q x) \<Longrightarrow> index_of P xs = index_of Q xs"
  by (induction xs) auto

lemma scan_index:
  "(\<And>x. x \<in> set xs \<Longrightarrow> Q x = Some (P x)) \<Longrightarrow> scan Q i xs = Some (map_option (\<lambda>n. i + n) (index_of P xs))"
proof (induction xs arbitrary: i)
  case (Cons x xs)
  then show ?case by (cases "index_of P xs") auto
qed simp

subsection \<open>Segments and chains\<close>

definition act :: "dir_entry \<Rightarrow> bool" where
  "act d \<longleftrightarrow> active d = VALID"

lemma active_cases: "active d = INVALID \<longleftrightarrow> \<not> act d"
  by (cases "active d") (auto simp: act_def)

definition count_act :: "dir_entry list \<Rightarrow> nat" where
  "count_act ds = length (filter act ds)"

definition seg_ok :: "cache_entry \<Rightarrow> bool" where
  "seg_ok e \<longleftrightarrow> length (dir_entries e) = CHILDREN_ARRAY_SIZE \<and> nbactive e = of_nat (count_act (dir_entries e))
     \<and> (\<forall>d \<in> set (dir_entries e). act d \<longrightarrow> dpentry d \<noteq> None)"

lemma count_act_full: "count_act ds = length ds \<longleftrightarrow> (\<forall>d \<in> set ds. act d)"
proof (induction ds)
  case (Cons d ds)
  then show ?case using length_filter_le [of act ds] by (auto simp: count_act_def simp del: length_filter_le)
qed (simp add: count_act_def)

lemma seg_ok_D:
  assumes "seg_ok e"
  shows "length (dir_entries e) = 16" "nbactive e = of_nat (count_act (dir_entries e))" "count_act (dir_entries e) \<le> 16"
    "d \<in> set (dir_entries e) \<Longrightarrow> act d \<Longrightarrow> \<exists>p. dpentry d = Some p"
proof -
  show l: "length (dir_entries e) = 16" using assms by (simp add: seg_ok_def CHILDREN_ARRAY_SIZE_def)
  show "nbactive e = of_nat (count_act (dir_entries e))" using assms by (simp add: seg_ok_def)
  show "count_act (dir_entries e) \<le> 16" using l length_filter_le [of act "dir_entries e"] by (simp add: count_act_def)
  show "d \<in> set (dir_entries e) \<Longrightarrow> act d \<Longrightarrow> \<exists>p. dpentry d = Some p" using assms by (auto simp: seg_ok_def)
qed

lemma nbactive_unat: "seg_ok e \<Longrightarrow> unat (nbactive e) = count_act (dir_entries e)"
  using seg_ok_D(2,3) [of e] by (simp add: unat_of_nat_small32)

lemma nbactive_zero: "seg_ok e \<Longrightarrow> nbactive e = 0 \<longleftrightarrow> (\<forall>d \<in> set (dir_entries e). \<not> act d)"
  using nbactive_unat [of e] by (auto simp: unat_eq_zero count_act_def filter_empty_conv)

lemma nbactive_full: "seg_ok e \<Longrightarrow> nbactive e = 16 \<longleftrightarrow> (\<forall>d \<in> set (dir_entries e). act d)"
proof -
  assume ok: "seg_ok e"
  have "nbactive e = 16 \<longleftrightarrow> unat (nbactive e) = unat (16 :: u32)" by (simp add: word_unat_eq_iff)
  also have "\<dots> \<longleftrightarrow> count_act (dir_entries e) = length (dir_entries e)"
    using nbactive_unat [OF ok] seg_ok_D(1) [OF ok] by simp
  finally show ?thesis by (simp add: count_act_full)
qed

text \<open>The part of a directory that the loops go through: up to the first segment marked as the end.\<close>

fun lchain :: "(addr \<Rightarrow> cache_entry) \<Rightarrow> addr list \<Rightarrow> bool" where
  "lchain h [] = False"
| "lchain h (a # xs) \<longleftrightarrow> is_dir_entry (h a)
     \<and> (if xs = [] then end_of_dir (h a) = END_OF_DIR
        else end_of_dir (h a) \<noteq> END_OF_DIR \<and> pdir_cont (h a) = Some (hd xs) \<and> lchain h xs)"

fun linked :: "(addr \<Rightarrow> cache_entry) \<Rightarrow> addr list \<Rightarrow> bool" where
  "linked h [] = True"
| "linked h (a # xs) \<longleftrightarrow> pdir_cont (h a) = hd_opt xs None \<and> linked h xs"

definition slots :: "(addr \<Rightarrow> cache_entry) \<Rightarrow> addr list \<Rightarrow> dir_entry list" where
  "slots h ps = concat (map (\<lambda>p. dir_entries (h p)) ps)"

lemma slots_simps [simp]:
  "slots h [] = []" "slots h (a # ps) = dir_entries (h a) @ slots h ps" "slots h (ps @ qs) = slots h ps @ slots h qs"
  by (simp_all add: slots_def)

lemma slots_cong: "(\<And>p. p \<in> set ps \<Longrightarrow> dir_entries (h p) = dir_entries (h' p)) \<Longrightarrow> slots h ps = slots h' ps"
  unfolding slots_def by (rule arg_cong [where f = concat], rule map_cong) auto

text \<open>
  A directory: its first segment, the segments linked after it, their positions and their ends.  When the first
  segment is marked as the end, the segments after it are left from an earlier content and hold nothing.
\<close>

definition cont_ok :: "(addr \<Rightarrow> cache_entry) \<Rightarrow> addr \<Rightarrow> nat \<Rightarrow> nat \<Rightarrow> addr \<Rightarrow> bool" where
  "cont_ok h a n i c \<longleftrightarrow> etype (h c) = DIR_CONTINUE \<and> pdir_begin (h c) = a \<and> dir_cont_pos (h c) = of_nat (Suc i)
     \<and> end_of_dir (h c) = (if Suc i = n then END_OF_DIR else TO_BE_CONTINUED)"

definition dir_inv :: "icache \<Rightarrow> addr \<Rightarrow> addr list \<Rightarrow> bool" where
  "dir_inv s a cs \<longleftrightarrow> distinct (a # cs) \<and> etype (ientries s a) = DIR_BEGINNING
     \<and> linked (ientries s) (a # cs) \<and> (\<forall>p \<in> set (a # cs). seg_ok (ientries s p))
     \<and> (\<forall>i < length cs. cont_ok (ientries s) a (length cs) i (cs ! i))
     \<and> (end_of_dir (ientries s a) = END_OF_DIR \<and> (\<forall>d \<in> set (slots (ientries s) cs). \<not> act d)
        \<or> end_of_dir (ientries s a) = TO_BE_CONTINUED \<and> cs \<noteq> [])"

definition live :: "icache \<Rightarrow> addr \<Rightarrow> addr list \<Rightarrow> addr list" where
  "live s a cs = (if end_of_dir (ientries s a) = END_OF_DIR then [a] else a # cs)"

definition contents :: "icache \<Rightarrow> addr \<Rightarrow> addr list \<Rightarrow> dir_entry list" where
  "contents s a cs = filter act (slots (ientries s) (a # cs))"

lemma lchain_conts:
  assumes "linked h cs" and "\<forall>i < length cs. etype (h (cs ! i)) = DIR_CONTINUE
      \<and> (end_of_dir (h (cs ! i)) = END_OF_DIR \<longleftrightarrow> Suc i = length cs)" and "cs \<noteq> []"
  shows "lchain h cs"
  using assms
proof (induction cs)
  case (Cons c cs)
  from Cons.prems(2) [rule_format, of 0] have c: "etype (h c) = DIR_CONTINUE" "end_of_dir (h c) = END_OF_DIR \<longleftrightarrow> cs = []" by auto
  have "\<forall>i < length cs. etype (h (cs ! i)) = DIR_CONTINUE \<and> (end_of_dir (h (cs ! i)) = END_OF_DIR \<longleftrightarrow> Suc i = length cs)"
    using Cons.prems(2) [rule_format, of "Suc i" for i] by simp
  with Cons c show ?case by (auto simp: is_dir_entry_def hd_opt_def split: list.splits)
qed simp

lemma dir_inv_live:
  assumes "dir_inv s a cs"
  shows "lchain (ientries s) (live s a cs)" "\<forall>p \<in> set (live s a cs). seg_ok (ientries s p)" "distinct (live s a cs)"
    "hd (live s a cs) = a" "live s a cs \<noteq> []"
proof -
  show "\<forall>p \<in> set (live s a cs). seg_ok (ientries s p)" "distinct (live s a cs)"
    "hd (live s a cs) = a" "live s a cs \<noteq> []" using assms by (auto simp: dir_inv_def live_def)
  show "lchain (ientries s) (live s a cs)"
  proof (cases "end_of_dir (ientries s a) = END_OF_DIR")
    case True
    then show ?thesis using assms by (simp add: live_def dir_inv_def is_dir_entry_def)
  next
    case False
    with assms have ne: "cs \<noteq> []" and l: "linked (ientries s) cs" by (auto simp: dir_inv_def)
    have "lchain (ientries s) cs"
      using l _ ne by (rule lchain_conts) (use assms in \<open>auto simp: dir_inv_def cont_ok_def split: if_splits\<close>)
    then show ?thesis using False ne assms by (cases cs) (auto simp: live_def dir_inv_def is_dir_entry_def)
  qed
qed

lemma length_slots: "\<forall>p \<in> set ps. seg_ok (h p) \<Longrightarrow> length (slots h ps) = 16 * length ps"
  by (induction ps) (auto simp: seg_ok_D(1))

lemma index_of_live:
  assumes inv: "dir_inv s a cs" and "\<And>d. P d \<Longrightarrow> act d"
  shows "index_of P (slots (ientries s) (live s a cs)) = index_of P (slots (ientries s) (a # cs))"
proof (cases "end_of_dir (ientries s a) = END_OF_DIR")
  case True
  with inv have "\<forall>d \<in> set (slots (ientries s) cs). \<not> act d" by (auto simp: dir_inv_def)
  with assms(2) have "index_of P (slots (ientries s) cs) = None" by (auto simp: index_of_None)
  with True show ?thesis by (simp add: live_def index_of_append split: option.splits)
qed (simp add: live_def)

subsection \<open>Finding an entry\<close>

definition matches :: "icache \<Rightarrow> fsal_name \<Rightarrow> dir_entry \<Rightarrow> bool" where
  "matches s nm d \<longleftrightarrow> act d \<and> validst (ientries s (the (dpentry d))) = VALID \<and> FSAL_namecmp nm (dname d)"

lemma dirent_hit_matches: "act d \<longrightarrow> dpentry d \<noteq> None \<Longrightarrow> dirent_hit s nm d = Some (matches s nm d)"
  by (auto simp: dirent_hit_def matches_def act_def)

lemma scan_seg:
  "seg_ok e \<Longrightarrow> scan (dirent_hit s nm) 0 (dir_entries e) = Some (index_of (matches s nm) (dir_entries e))"
  using scan_index [of "dir_entries e" "dirent_hit s nm" "matches s nm" 0] dirent_hit_matches
  by (force simp: seg_ok_def option.map_ident)

text \<open>The place of the flat index \<open>n\<close> in the chain.\<close>

lemma locate_dirent_correct:
  assumes "lchain (ientries s) ps" and "\<forall>p \<in> set ps. seg_ok (ientries s p)"
  shows "locate_dirent s nm (Some (hd ps)) = Some (case index_of (matches s nm) (slots (ientries s) ps) of
      None \<Rightarrow> (last ps, None) | Some n \<Rightarrow> (ps ! (n div 16), Some (n mod 16)))"
  using assms
proof (induction ps)
  case (Cons a ps)
  let ?e = "ientries s a"
  from Cons.prems have ok: "seg_ok ?e" and d: "dir_at s (Some a) = Some (a, ?e)" by (auto simp: dir_at_def)
  note len = seg_ok_D(1) [OF ok]
  show ?case
  proof (cases "index_of (matches s nm) (dir_entries ?e)")
    case (Some n)
    then have "n < 16" using index_of_Some [OF Some] len by simp
    with Some d ok show ?thesis by (subst locate_dirent.simps) (simp add: scan_seg index_of_append)
  next
    case None
    show ?thesis
    proof (cases "ps = []")
      case True
      with Cons.prems(1) None d ok show ?thesis by (subst locate_dirent.simps) (simp add: scan_seg)
    next
      case False
      with Cons have IH: "locate_dirent s nm (Some (hd ps)) = Some (case index_of (matches s nm) (slots (ientries s) ps) of
        None \<Rightarrow> (last ps, None) | Some n \<Rightarrow> (ps ! (n div 16), Some (n mod 16)))" by simp
      have "locate_dirent s nm (Some a) = locate_dirent s nm (Some (hd ps))"
        using None d ok False Cons.prems(1) by (subst locate_dirent.simps) (simp add: scan_seg)
      moreover have "(a # ps) ! ((16 + n) div 16) = ps ! (n div 16)" for n :: nat by (simp add: div_add_self1)
      ultimately show ?thesis using IH None False len by (simp add: index_of_append split: option.splits)
    qed
  qed
qed simp

subsection \<open>Changing one place\<close>

lemma nth_slots:
  assumes "\<forall>p \<in> set ps. seg_ok (h p)" and "n < 16 * length ps"
  shows "slots h ps ! n = dir_entries (h (ps ! (n div 16))) ! (n mod 16)"
  using assms
proof (induction ps arbitrary: n)
  case (Cons a ps)
  from Cons.prems(1) have len: "length (dir_entries (h a)) = 16" by (simp add: seg_ok_D(1))
  show ?case
  proof (cases "n < 16")
    case False
    then obtain m where m: "n = 16 + m" using le_Suc_ex [of 16 n] by auto
    with Cons len show ?thesis by (simp add: nth_append div_add_self1)
  qed (use len in \<open>simp add: nth_append\<close>)
qed simp

lemma slots_update:
  assumes "\<forall>p \<in> set ps. seg_ok (h p)" and "distinct ps" and "n < 16 * length ps"
    and "dir_entries e = (dir_entries (h (ps ! (n div 16))))[n mod 16 := d]"
  shows "slots (h(ps ! (n div 16) := e)) ps = (slots h ps)[n := d]"
  using assms
proof (induction ps arbitrary: n)
  case (Cons a ps)
  from Cons.prems(1) have len: "length (dir_entries (h a)) = 16" by (simp add: seg_ok_D(1))
  show ?case
  proof (cases "n < 16")
    case True
    with Cons.prems(2,4) len have "slots (h(a := e)) ps = slots h ps" by (intro slots_cong) auto
    then have "slots (h(a := e)) (a # ps) = dir_entries e @ slots h ps" by (simp only: slots_simps fun_upd_same)
    with True Cons.prems(4) len show ?thesis by (simp del: slots_simps fun_upd_apply) (simp add: list_update_append)
  next
    case False
    then obtain m where m: "n = 16 + m" using le_Suc_ex [of 16 n] by auto
    then have nth: "(a # ps) ! (n div 16) = ps ! (m div 16)" by (simp add: div_add_self1)
    with Cons.prems(2,3) m have "ps ! (m div 16) \<noteq> a" by (auto simp: in_set_conv_nth)
    moreover have "slots (h(ps ! (m div 16) := e)) ps = (slots h ps)[m := d]"
      using Cons.prems m nth by (intro Cons.IH) auto
    ultimately have "slots (h(ps ! (m div 16) := e)) (a # ps) = dir_entries (h a) @ (slots h ps)[m := d]"
      by (simp only: slots_simps fun_upd_other not_False_eq_True)
    then show ?thesis unfolding nth using m len by (simp del: slots_simps fun_upd_apply) (simp add: list_update_append)
  qed
qed simp

lemma count_act_update:
  "i < length ds \<Longrightarrow> count_act (ds[i := d]) + (if act (ds ! i) then 1 else 0) = count_act ds + (if act d then 1 else 0)"
  unfolding count_act_def by (rule length_filter_update)

text \<open>
  A change of one segment keeps the directory when the links, the type and the position stay and the segment is
  still well formed; no entry may appear after the end.
\<close>

definition same_seg :: "cache_entry \<Rightarrow> cache_entry \<Rightarrow> bool" where
  "same_seg e e' \<longleftrightarrow> etype e' = etype e \<and> pdir_cont e' = pdir_cont e \<and> end_of_dir e' = end_of_dir e
     \<and> pdir_begin e' = pdir_begin e \<and> dir_cont_pos e' = dir_cont_pos e"

lemma linked_cong: "(\<And>p. p \<in> set ps \<Longrightarrow> pdir_cont (h' p) = pdir_cont (h p)) \<Longrightarrow> linked h' ps \<longleftrightarrow> linked h ps"
  by (induction ps) auto

lemma dir_inv_same:
  assumes "dir_inv s a cs" and "\<And>p. p \<in> set (a # cs) \<Longrightarrow> same_seg (ientries s p) (ientries s' p)"
    and "\<And>p. p \<in> set (a # cs) \<Longrightarrow> seg_ok (ientries s' p)"
    and "end_of_dir (ientries s a) = END_OF_DIR \<Longrightarrow> \<forall>d \<in> set (slots (ientries s') cs). \<not> act d"
  shows "dir_inv s' a cs"
proof -
  have "linked (ientries s') (a # cs) \<longleftrightarrow> linked (ientries s) (a # cs)"
    by (rule linked_cong) (use assms(2) in \<open>auto simp: same_seg_def\<close>)
  then show ?thesis using assms(1,3,4) assms(2) [of a] assms(2) [of "cs ! i" for i]
    unfolding dir_inv_def by (auto simp: same_seg_def cont_ok_def)
qed

text \<open>The change \<open>f\<close> at the flat index \<open>n\<close>, with the counter of the segment.\<close>

lemma dir_inv_place:
  assumes inv: "dir_inv s a cs" and n: "n < 16 * length (live s a cs)" and p: "p = live s a cs ! (n div 16)"
    and e: "same_seg (ientries s p) e" "dir_entries e = (dir_entries (ientries s p))[n mod 16 := d]"
      "nbactive e + (if act (dir_entries (ientries s p) ! (n mod 16)) then 1 else 0) = nbactive (ientries s p) + (if act d then 1 else 0)"
    and d: "act d \<longrightarrow> dpentry d \<noteq> None"
  shows "dir_inv (s\<lparr>ientries := (ientries s)(p := e)\<rparr>) a cs"
    "slots ((ientries s)(p := e)) (a # cs) = (slots (ientries s) (a # cs))[n := d]"
    "live (s\<lparr>ientries := (ientries s)(p := e)\<rparr>) a cs = live s a cs"
proof -
  let ?h = "ientries s" and ?L = "live s a cs"
  note L = dir_inv_live [OF inv]
  from inv have allok: "\<forall>q \<in> set (a # cs). seg_ok (?h q)" "distinct (a # cs)" by (auto simp: dir_inv_def)
  have pre: "\<exists>zs. a # cs = ?L @ zs" by (auto simp: live_def)
  then obtain zs where zs: "a # cs = ?L @ zs" ..
  from n have k: "n div 16 < length ?L" by simp
  with zs have pcs: "p = (a # cs) ! (n div 16)" and pin: "p \<in> set ?L" using p by (auto simp: nth_append)
  have n2: "n < 16 * length (a # cs)" using n arg_cong [OF zs, of length] by simp
  show sl: "slots (?h(p := e)) (a # cs) = (slots ?h (a # cs))[n := d]"
    unfolding pcs using allok n2 e(2) [unfolded pcs] by (rule slots_update)
  have len: "length (dir_entries (?h p)) = 16" and ok: "seg_ok (?h p)" using L(2) pin seg_ok_D(1) by auto
  have oke: "seg_ok e"
  proof -
    have c: "count_act (dir_entries e) + (if act (dir_entries (?h p) ! (n mod 16)) then 1 else 0) = count_act (dir_entries (?h p)) + (if act d then 1 else 0)"
      unfolding e(2) using len by (intro count_act_update) simp
    have "(of_nat (count_act (dir_entries e)) :: u32) + (if act (dir_entries (?h p) ! (n mod 16)) then 1 else 0) = nbactive (?h p) + (if act d then 1 else 0)"
      using arg_cong [OF c, of "of_nat :: nat \<Rightarrow> u32"] seg_ok_D(2) [OF ok] by (auto split: if_splits simp: algebra_simps)
    with e(3) have "nbactive e = of_nat (count_act (dir_entries e))" by (metis add_right_cancel)
    moreover have "\<forall>x \<in> set (dir_entries e). act x \<longrightarrow> dpentry x \<noteq> None"
      using d ok set_update_subset_insert [of "dir_entries (?h p)" "n mod 16" d] by (auto simp: e(2) seg_ok_def)
    ultimately show ?thesis using len e(2) by (simp add: seg_ok_def CHILDREN_ARRAY_SIZE_def)
  qed
  have end_a: "end_of_dir ((?h(p := e)) a) = end_of_dir (?h a)" using e(1) by (auto simp: same_seg_def)
  then show lv: "live (s\<lparr>ientries := ?h(p := e)\<rparr>) a cs = ?L" by (simp add: live_def)
  show "dir_inv (s\<lparr>ientries := ?h(p := e)\<rparr>) a cs"
    using inv
  proof (rule dir_inv_same)
    show "same_seg (?h q) (ientries (s\<lparr>ientries := ?h(p := e)\<rparr>) q)" for q using e(1) by (simp add: same_seg_def)
    show "q \<in> set (a # cs) \<Longrightarrow> seg_ok (ientries (s\<lparr>ientries := ?h(p := e)\<rparr>) q)" for q using allok(1) oke by auto
    show "\<forall>d \<in> set (slots (ientries (s\<lparr>ientries := ?h(p := e)\<rparr>)) cs). \<not> act d" if "end_of_dir (?h a) = END_OF_DIR"
    proof -
      from that have "?L = [a]" by (simp add: live_def)
      then have "p = a" using pin by simp
      then have "slots (?h(p := e)) cs = slots ?h cs" using allok(2) by (intro slots_cong) auto
      with that inv show ?thesis by (auto simp: dir_inv_def)
    qed
  qed
qed

subsection \<open>Operations on one entry\<close>

lemma act_simps [simp]:
  "act (d\<lparr>active := INVALID\<rparr>) = False" "act (d\<lparr>dname := nm\<rparr>) = act d" "act (d\<lparr>active := VALID\<rparr>) = True"
  by (simp_all add: act_def)

lemma same_seg_refl [simp]: "same_seg e e"
  by (simp add: same_seg_def)

text \<open>The place that the name is found at, if any, as an index into the flat array.\<close>

definition found_at :: "icache \<Rightarrow> addr \<Rightarrow> addr list \<Rightarrow> fsal_name \<Rightarrow> nat option" where
  "found_at s a cs nm = index_of (matches s nm) (slots (ientries s) (a # cs))"

lemma matches_act: "matches s nm d \<Longrightarrow> act d"
  by (simp add: matches_def)

lemma nth_live:
  assumes inv: "dir_inv s a cs" and n: "n < 16 * length (live s a cs)"
  shows "slots (ientries s) (a # cs) ! n = slots (ientries s) (live s a cs) ! n"
    and "slots (ientries s) (a # cs) ! n = dir_entries (ientries s (live s a cs ! (n div 16))) ! (n mod 16)"
proof -
  note L = dir_inv_live [OF inv]
  have "\<exists>zs. a # cs = live s a cs @ zs" by (auto simp: live_def)
  then obtain zs where zs: "a # cs = live s a cs @ zs" ..
  show eq: "slots (ientries s) (a # cs) ! n = slots (ientries s) (live s a cs) ! n"
    unfolding zs using n length_slots [OF L(2)] by (simp add: nth_append)
  show "slots (ientries s) (a # cs) ! n = dir_entries (ientries s (live s a cs ! (n div 16))) ! (n mod 16)"
    unfolding eq using L(2) n by (rule nth_slots)
qed

lemma locate_in_dir:
  assumes inv: "dir_inv s a cs"
  shows "found_at s a cs nm = None \<Longrightarrow> \<exists>p. locate_dirent s nm (Some a) = Some (p, None)"
    and "found_at s a cs nm = Some n \<Longrightarrow> locate_dirent s nm (Some a) = Some (live s a cs ! (n div 16), Some (n mod 16))
       \<and> n < 16 * length (live s a cs) \<and> slots (ientries s) (a # cs) ! n = dir_entries (ientries s (live s a cs ! (n div 16))) ! (n mod 16)
       \<and> matches s nm (slots (ientries s) (a # cs) ! n) \<and> (\<exists>x. dpentry (slots (ientries s) (a # cs) ! n) = Some x)"
proof -
  note L = dir_inv_live [OF inv]
  have loc: "locate_dirent s nm (Some a) = Some (case found_at s a cs nm of
      None \<Rightarrow> (last (live s a cs), None) | Some n \<Rightarrow> (live s a cs ! (n div 16), Some (n mod 16)))"
    using locate_dirent_correct [OF L(1,2), of nm] index_of_live [OF inv, of "matches s nm"]
    by (simp add: L(4) found_at_def matches_act)
  then show "found_at s a cs nm = None \<Longrightarrow> \<exists>p. locate_dirent s nm (Some a) = Some (p, None)" by simp
  assume f: "found_at s a cs nm = Some n"
  with index_of_live [OF inv, of "matches s nm"] have i: "index_of (matches s nm) (slots (ientries s) (live s a cs)) = Some n"
    by (simp add: found_at_def matches_act)
  from index_of_Some [OF this] length_slots [OF L(2)] have n: "n < 16 * length (live s a cs)" by simp
  note eq = nth_live(1) [OF inv n] and nth = nth_live(2) [OF inv n, unfolded nth_live(1) [OF inv n]]
  have m: "matches s nm (slots (ientries s) (live s a cs) ! n)" using index_of_Some [OF i] by simp
  have ok: "seg_ok (ientries s (live s a cs ! (n div 16)))" using L(2) n by simp
  have "\<exists>x. dpentry (slots (ientries s) (live s a cs) ! n) = Some x"
    unfolding nth by (rule seg_ok_D(4) [OF ok]) (use seg_ok_D(1) [OF ok] matches_act [OF m [unfolded nth]] in auto)
  with f loc n eq nth m show "locate_dirent s nm (Some a) = Some (live s a cs ! (n div 16), Some (n mod 16))
       \<and> n < 16 * length (live s a cs) \<and> slots (ientries s) (a # cs) ! n = dir_entries (ientries s (live s a cs ! (n div 16))) ! (n mod 16)
       \<and> matches s nm (slots (ientries s) (a # cs) ! n) \<and> (\<exists>x. dpentry (slots (ientries s) (a # cs) ! n) = Some x)" by simp
qed

lemma dir_inv_type: "dir_inv s a cs \<Longrightarrow> is_dir_entry (ientries s a) \<and> etype (ientries s a) = DIR_BEGINNING"
  by (simp add: dir_inv_def is_dir_entry_def)

lemma operate_not_found:
  assumes "dir_inv s a cs" and "found_at s a cs nm = None"
  shows "cache_inode_operate_cached_dirent s a nm newname opr = Some (None, CACHE_INODE_NOT_FOUND, s)"
  using locate_in_dir(1) [OF assms] dir_inv_type [OF assms(1)] by (auto simp: cache_inode_operate_cached_dirent_def)

text \<open>Removal of the place found: the place becomes invalid, everything else stays.\<close>

lemma operate_remove:
  assumes inv: "dir_inv s a cs" and f: "found_at s a cs nm = Some n"
  defines "p \<equiv> live s a cs ! (n div 16)" and "d \<equiv> slots (ientries s) (a # cs) ! n"
  shows "\<exists>s'. cache_inode_operate_cached_dirent s a nm None CACHE_INODE_DIRENT_OP_REMOVE = Some (dpentry d, CACHE_INODE_SUCCESS, s')
     \<and> s' = upd_entry s p (\<lambda>e. set_dirent (n mod 16) (\<lambda>x. x\<lparr>active := INVALID\<rparr>) (e\<lparr>nbactive := nbactive e - 1\<rparr>))
     \<and> dir_inv s' a cs \<and> slots (ientries s') (a # cs) = (slots (ientries s) (a # cs))[n := d\<lparr>active := INVALID\<rparr>]"
proof -
  from locate_in_dir(2) [OF inv f] have l: "locate_dirent s nm (Some a) = Some (p, Some (n mod 16))"
    and n: "n < 16 * length (live s a cs)" and d: "d = dir_entries (ientries s p) ! (n mod 16)" and m: "matches s nm d"
    by (auto simp: p_def d_def)
  let ?e = "set_dirent (n mod 16) (\<lambda>x. x\<lparr>active := INVALID\<rparr>) (ientries s p\<lparr>nbactive := nbactive (ientries s p) - 1\<rparr>)"
  have "act d" using m by (rule matches_act)
  note place = dir_inv_place [OF inv n p_def [THEN meta_eq_to_obj_eq], of ?e "d\<lparr>active := INVALID\<rparr>"]
  have "same_seg (ientries s p) ?e" "dir_entries ?e = (dir_entries (ientries s p))[n mod 16 := d\<lparr>active := INVALID\<rparr>]"
    "nbactive ?e + (if act (dir_entries (ientries s p) ! (n mod 16)) then 1 else 0)
       = nbactive (ientries s p) + (if act (d\<lparr>active := INVALID\<rparr>) then 1 else 0)"
    using \<open>act d\<close> by (simp_all add: set_dirent_def same_seg_def d)
  from place(1,2) [OF this] show ?thesis
    using l dir_inv_type [OF inv] by (simp add: cache_inode_operate_cached_dirent_def upd_entry_def d)
qed

lemma operate_rename:
  assumes inv: "dir_inv s a cs" and f: "found_at s a cs nm = Some n"
  defines "p \<equiv> live s a cs ! (n div 16)" and "d \<equiv> slots (ientries s) (a # cs) ! n"
  shows "\<exists>s'. cache_inode_operate_cached_dirent s a nm (Some new) CACHE_INODE_DIRENT_OP_RENAME = Some (dpentry d, CACHE_INODE_SUCCESS, s')
     \<and> s' = upd_entry s p (set_dirent (n mod 16) (\<lambda>x. x\<lparr>dname := \<lparr>fname = strncpy (fname new) FSAL_MAX_NAME_LEN, flen = flen new\<rparr>\<rparr>))
     \<and> dir_inv s' a cs
     \<and> slots (ientries s') (a # cs) = (slots (ientries s) (a # cs))[n := d\<lparr>dname := \<lparr>fname = strncpy (fname new) FSAL_MAX_NAME_LEN, flen = flen new\<rparr>\<rparr>]"
proof -
  let ?nm = "\<lparr>fname = strncpy (fname new) FSAL_MAX_NAME_LEN, flen = flen new\<rparr>"
  from locate_in_dir(2) [OF inv f] have l: "locate_dirent s nm (Some a) = Some (p, Some (n mod 16))"
    and n: "n < 16 * length (live s a cs)" and d: "d = dir_entries (ientries s p) ! (n mod 16)" and m: "matches s nm d"
    and pe: "dpentry d \<noteq> None" by (auto simp: p_def d_def)
  let ?e = "set_dirent (n mod 16) (\<lambda>x. x\<lparr>dname := ?nm\<rparr>) (ientries s p)"
  note place = dir_inv_place [OF inv n p_def [THEN meta_eq_to_obj_eq], of ?e "d\<lparr>dname := ?nm\<rparr>"]
  have "same_seg (ientries s p) ?e" "dir_entries ?e = (dir_entries (ientries s p))[n mod 16 := d\<lparr>dname := ?nm\<rparr>]"
    "nbactive ?e + (if act (dir_entries (ientries s p) ! (n mod 16)) then 1 else 0)
       = nbactive (ientries s p) + (if act (d\<lparr>dname := ?nm\<rparr>) then 1 else 0)" "act (d\<lparr>dname := ?nm\<rparr>) \<longrightarrow> dpentry (d\<lparr>dname := ?nm\<rparr>) \<noteq> None"
    using pe by (simp_all add: set_dirent_def same_seg_def d)
  from place(1,2) [OF this] show ?thesis
    using l dir_inv_type [OF inv]
    by (simp add: cache_inode_operate_cached_dirent_def upd_entry_def d FSAL_namecpy_def cache_inode_error_convert_def)
qed

subsection \<open>Emptiness and invalidation\<close>

lemma empty_loop_correct:
  assumes "lchain (ientries s) ps" and "\<forall>p \<in> set ps. seg_ok (ientries s p)"
  shows "empty_loop s (Some (hd ps)) = Some (if \<exists>d \<in> set (slots (ientries s) ps). act d then CACHE_INODE_DIR_NOT_EMPTY else CACHE_INODE_SUCCESS)"
  using assms
proof (induction ps)
  case (Cons a ps)
  then have d: "dir_at s (Some a) = Some (a, ientries s a)" and z: "nbactive (ientries s a) = 0 \<longleftrightarrow> (\<forall>d \<in> set (dir_entries (ientries s a)). \<not> act d)"
    by (simp_all add: dir_at_def nbactive_zero)
  show ?case
  proof (cases "nbactive (ientries s a) = 0 \<and> ps \<noteq> []")
    case True
    then have "empty_loop s (Some a) = empty_loop s (Some (hd ps))"
      using d Cons.prems(1) by (subst empty_loop.simps) simp
    with Cons True z show ?thesis by auto
  next
    case False
    then show ?thesis using d Cons.prems(1) z by (subst list.sel, subst empty_loop.simps) auto
  qed
qed simp

lemma is_dir_empty_correct:
  assumes inv: "dir_inv s a cs"
  shows "cache_inode_is_dir_empty s a = Some (if contents s a cs = [] then CACHE_INODE_SUCCESS else CACHE_INODE_DIR_NOT_EMPTY)"
proof -
  note L = dir_inv_live [OF inv]
  have "(\<exists>d \<in> set (slots (ientries s) (live s a cs)). act d) \<longleftrightarrow> contents s a cs \<noteq> []"
    using index_of_live [OF inv, of act] index_of_None [of act "slots (ientries s) (live s a cs)"] index_of_None [of act "slots (ientries s) (a # cs)"]
    unfolding contents_def filter_empty_conv by metis
  with empty_loop_correct [OF L(1,2)] dir_inv_type [OF inv] show ?thesis by (simp add: cache_inode_is_dir_empty_def L(4))
qed

lemma invalidate_conts_correct:
  assumes "linked (ientries s) cs" and "\<forall>c \<in> set cs. etype (ientries s c) = DIR_CONTINUE" and "distinct cs"
  shows "\<exists>h. invalidate_conts s (hd_opt cs None) = Some (s\<lparr>ientries := h\<rparr>)
     \<and> (\<forall>p. h p = (if p \<in> set cs then invalidate_seg (ientries s p) else ientries s p))"
  using assms
proof (induction cs arbitrary: s)
  case Nil
  then show ?case by (subst invalidate_conts.simps) (auto intro: exI [of _ "ientries s"])
next
  case (Cons c cs)
  let ?s = "upd_entry s c invalidate_seg"
  have l: "linked (ientries ?s) cs" using Cons.prems by (subst linked_cong [of _ _ "ientries s"]) (auto simp: upd_entry_def)
  have "\<forall>x \<in> set cs. etype (ientries ?s x) = DIR_CONTINUE" using Cons.prems by (auto simp: upd_entry_def invalidate_seg_def)
  from Cons.IH [OF l this] Cons.prems(3) obtain h where h: "invalidate_conts ?s (hd_opt cs None) = Some (?s\<lparr>ientries := h\<rparr>)"
    "\<forall>p. h p = (if p \<in> set cs then invalidate_seg (ientries ?s p) else ientries ?s p)" by auto
  have "invalidate_conts s (Some c) = invalidate_conts ?s (hd_opt cs None)"
    using Cons.prems(1,2) by (subst invalidate_conts.simps) (simp add: cont_at_def)
  moreover have "?s\<lparr>ientries := h\<rparr> = s\<lparr>ientries := h\<rparr>" by (simp add: upd_entry_def)
  moreover have "h p = (if p \<in> set (c # cs) then invalidate_seg (ientries s p) else ientries s p)" for p
    using h(2) Cons.prems(3) by (auto simp: upd_entry_def)
  ultimately show ?case using h(1) by auto
qed

lemma seg_ok_invalidate: "seg_ok e \<Longrightarrow> seg_ok (invalidate_seg e)"
  by (auto simp: seg_ok_def invalidate_seg_def count_act_def filter_empty_conv)

lemma invalidate_seg_simps [simp]:
  "pdir_cont (invalidate_seg e) = pdir_cont e" "etype (invalidate_seg e) = etype e" "end_of_dir (invalidate_seg e) = end_of_dir e"
  "pdir_begin (invalidate_seg e) = pdir_begin e" "dir_cont_pos (invalidate_seg e) = dir_cont_pos e"
  "ehandle (invalidate_seg e) = ehandle e" "parent_list (invalidate_seg e) = parent_list e" "validst (invalidate_seg e) = validst e"
  "gc_lru_entry (invalidate_seg e) = gc_lru_entry e"
  by (simp_all add: invalidate_seg_def)

lemma cont_in_dir: "dir_inv s a cs \<Longrightarrow> c \<in> set cs \<Longrightarrow> etype (ientries s c) = DIR_CONTINUE \<and> pdir_begin (ientries s c) = a"
  by (auto simp: dir_inv_def cont_ok_def in_set_conv_nth)

lemma slots_inactive:
  assumes "\<And>p. p \<in> set ps \<Longrightarrow> dir_entries (h p) = map (\<lambda>d. d\<lparr>active := INVALID\<rparr>) (dir_entries (h0 p))"
  shows "\<forall>d \<in> set (slots h ps). \<not> act d"
  using assms by (auto simp: slots_def)

lemma invalidate_all_correct:
  assumes inv: "dir_inv s a cs"
  shows "\<exists>h. cache_inode_invalidate_all_cached_dirent s a = Some (CACHE_INODE_SUCCESS, s\<lparr>ientries := h\<rparr>)
     \<and> dir_inv (s\<lparr>ientries := h\<rparr>) a cs \<and> (\<forall>d \<in> set (slots h (a # cs)). \<not> act d)
     \<and> end_of_dir (h a) = END_OF_DIR \<and> has_been_readdir (h a) = CACHE_INODE_NO \<and> (\<forall>p. p \<notin> set (a # cs) \<longrightarrow> h p = ientries s p)
     \<and> (\<forall>p. ehandle (h p) = ehandle (ientries s p) \<and> parent_list (h p) = parent_list (ientries s p)
          \<and> validst (h p) = validst (ientries s p) \<and> gc_lru_entry (h p) = gc_lru_entry (ientries s p))"
proof -
  let ?s = "upd_entry s a invalidate_seg"
  from inv have d: "distinct (a # cs)" and l: "linked (ientries s) (a # cs)" by (auto simp: dir_inv_def)
  have "linked (ientries ?s) cs" using l d by (subst linked_cong [of _ _ "ientries s"]) (auto simp: upd_entry_def)
  moreover have "\<forall>c \<in> set cs. etype (ientries ?s c) = DIR_CONTINUE" using cont_in_dir [OF inv] d by (auto simp: upd_entry_def)
  ultimately obtain h where h: "invalidate_conts ?s (hd_opt cs None) = Some (?s\<lparr>ientries := h\<rparr>)"
    "\<forall>p. h p = (if p \<in> set cs then invalidate_seg (ientries ?s p) else ientries ?s p)"
    using invalidate_conts_correct [of ?s cs] d by auto
  define g where "g = h(a := (h a)\<lparr>has_been_readdir := CACHE_INODE_NO, end_of_dir := END_OF_DIR\<rparr>)"
  have call: "cache_inode_invalidate_all_cached_dirent s a = Some (CACHE_INODE_SUCCESS, s\<lparr>ientries := g\<rparr>)"
    using h(1) l dir_inv_type [OF inv] by (simp add: cache_inode_invalidate_all_cached_dirent_def g_def upd_entry_def)
  have gc: "g c = invalidate_seg (ientries s c)" if "c \<in> set cs" for c using that h(2) d by (auto simp: g_def upd_entry_def)
  have ga: "g a = invalidate_seg (ientries s a)\<lparr>has_been_readdir := CACHE_INODE_NO, end_of_dir := END_OF_DIR\<rparr>"
    using h(2) d by (simp add: g_def upd_entry_def)
  have go: "g p = ientries s p" if "p \<notin> set (a # cs)" for p using that h(2) by (simp add: g_def upd_entry_def)
  have none: "\<forall>x \<in> set (slots g (a # cs)). \<not> act x"
    by (rule slots_inactive [where ?h0.0 = "ientries s"]) (auto simp: ga gc invalidate_seg_def)
  have "linked g (a # cs) \<longleftrightarrow> linked (ientries s) (a # cs)" by (rule linked_cong) (auto simp: ga gc)
  moreover have "\<forall>p \<in> set (a # cs). seg_ok (g p)"
    using inv seg_ok_invalidate by (auto simp: ga gc dir_inv_def seg_ok_def)
  moreover have "\<forall>i < length cs. cont_ok g a (length cs) i (cs ! i)" using inv by (auto simp: dir_inv_def cont_ok_def gc)
  ultimately have "dir_inv (s\<lparr>ientries := g\<rparr>) a cs" using inv none by (simp add: dir_inv_def ga)
  moreover have "ehandle (g p) = ehandle (ientries s p) \<and> parent_list (g p) = parent_list (ientries s p)
          \<and> validst (g p) = validst (ientries s p) \<and> gc_lru_entry (g p) = gc_lru_entry (ientries s p)" for p
    by (cases "p = a"; cases "p \<in> set cs") (simp_all add: ga gc go)
  ultimately show ?thesis using call none ga go by (intro exI [of _ g]) auto
qed

subsection \<open>The links back to the directories\<close>

fun ppath :: "(addr \<Rightarrow> parent_entry) \<Rightarrow> addr option \<Rightarrow> addr list \<Rightarrow> bool" where
  "ppath g p [] \<longleftrightarrow> p = None"
| "ppath g p (q # qs) \<longleftrightarrow> p = Some q \<and> ppath g (next_parent (g q)) qs"

lemma ppath_frame: "r \<notin> set qs \<Longrightarrow> ppath (g(r := v)) p qs \<longleftrightarrow> ppath g p qs"
  by (induction qs arbitrary: p) auto

text \<open>\<open>links s x ls\<close>: the list of links of the object \<open>x\<close>, the newest first.\<close>

definition links :: "icache \<Rightarrow> addr \<Rightarrow> addr list \<Rightarrow> bool" where
  "links s x ls \<longleftrightarrow> ppath (iparents s) (parent_list (ientries s x)) ls \<and> distinct ls \<and> (\<forall>q \<in> set ls. parent (iparents s q) \<noteq> None)"

definition in_dir :: "icache \<Rightarrow> addr \<Rightarrow> addr \<Rightarrow> bool" where
  "in_dir s a q \<longleftrightarrow> segment_of s a (the (parent (iparents s q)))"

definition place :: "icache \<Rightarrow> addr \<Rightarrow> addr \<times> nat" where
  "place s q = (the (parent (iparents s q)), unat (subdirpos (iparents s q)))"

lemma find_parent_correct:
  assumes "ppath (iparents s) p qs" and "\<forall>q \<in> set qs. parent (iparents s q) \<noteq> None"
  shows "\<exists>r. find_parent s a prev p = Some (case index_of (in_dir s a) qs of None \<Rightarrow> (r, None)
     | Some i \<Rightarrow> (if i = 0 then prev else Some (qs ! (i - 1)), Some (qs ! i)))"
  using assms
proof (induction qs arbitrary: p prev)
  case Nil
  then show ?case by (subst find_parent.simps) auto
next
  case (Cons q qs)
  show ?case
  proof (cases "in_dir s a q")
    case True
    with Cons.prems show ?thesis by (subst find_parent.simps) (auto simp: in_dir_def)
  next
    case False
    with Cons.prems have eq: "find_parent s a prev p = find_parent s a (Some q) (next_parent (iparents s q))"
      by (subst find_parent.simps) (auto simp: in_dir_def)
    from Cons obtain r where "find_parent s a (Some q) (next_parent (iparents s q)) = Some (case index_of (in_dir s a) qs of
        None \<Rightarrow> (r, None) | Some i \<Rightarrow> (if i = 0 then Some q else Some (qs ! (i - 1)), Some (qs ! i)))" by fastforce
    with False eq show ?thesis by (auto split: option.splits simp: nth_Cons')
  qed
qed

lemma ppath_unlink:
  "ppath g p (us @ r # q # vs) \<Longrightarrow> distinct (us @ r # q # vs) \<Longrightarrow> ppath (g(r := (g r)\<lparr>next_parent := next_parent (g q)\<rparr>)) p (us @ r # vs)"
  by (induction us arbitrary: p) (auto simp: ppath_frame)

lemma links_unlink:
  assumes ls: "links s x ls" and i: "i < length ls"
  defines "s' \<equiv> unlink_parent s x (if i = 0 then None else Some (ls ! (i - 1))) (ls ! i)"
  shows "links s' x (take i ls @ drop (Suc i) ls)"
    and "\<And>q. parent (iparents s' q) = parent (iparents s q) \<and> subdirpos (iparents s' q) = subdirpos (iparents s q)"
    and "\<And>p. \<exists>l. ientries s' p = ientries s p\<lparr>parent_list := l\<rparr>" and "pool_parent s' = ls ! i # pool_parent s"
proof -
  have p: "ppath (iparents s) (parent_list (ientries s x)) ls" and d: "distinct ls" and ne: "\<forall>q \<in> set ls. parent (iparents s q) \<noteq> None"
    using ls by (auto simp: links_def)
  show par: "parent (iparents s' q) = parent (iparents s q) \<and> subdirpos (iparents s' q) = subdirpos (iparents s q)" for q
    by (auto simp: s'_def unlink_parent_def upd_entry_def Let_def split: option.splits)
  show "\<exists>l. ientries s' p = ientries s p\<lparr>parent_list := l\<rparr>" for p
  proof (cases "i = 0 \<and> p = x")
    case True
    then show ?thesis by (auto simp: s'_def unlink_parent_def upd_entry_def)
  next
    case False
    then show ?thesis
      by (intro exI [of _ "parent_list (ientries s p)"]) (auto simp: s'_def unlink_parent_def upd_entry_def Let_def split: option.splits)
  qed
  show "pool_parent s' = ls ! i # pool_parent s" by (simp add: s'_def unlink_parent_def RELEASE_PREALLOC_def Let_def)
  have "ppath (iparents s') (parent_list (ientries s' x)) (take i ls @ drop (Suc i) ls)"
  proof (cases i)
    case 0
    with p i show ?thesis by (cases ls) (auto simp: s'_def unlink_parent_def upd_entry_def)
  next
    case (Suc j)
    then have split: "ls = take j ls @ ls ! j # ls ! i # drop (Suc i) ls" using i by (simp add: Cons_nth_drop_Suc id_take_nth_drop [symmetric])
    have "iparents s' = (iparents s)(ls ! j := (iparents s (ls ! j))\<lparr>next_parent := next_parent (iparents s (ls ! i))\<rparr>)"
      using Suc by (simp add: s'_def unlink_parent_def)
    then have "ppath (iparents s') (parent_list (ientries s x)) (take j ls @ ls ! j # drop (Suc i) ls)"
      using ppath_unlink [OF p [unfolded arg_cong [OF split, of "ppath _ _"]] d [unfolded arg_cong [OF split, of distinct]]] by simp
    moreover have "take i ls = take j ls @ [ls ! j]" using Suc i by (simp add: take_Suc_conv_app_nth)
    ultimately show ?thesis using Suc by (simp add: s'_def unlink_parent_def)
  qed
  moreover have "distinct (take i ls @ drop (Suc i) ls)" using d i
    by (metis distinct_append distinct_drop distinct_take set_take_disj_set_drop_if_distinct le_SucI le_refl)
  moreover have "\<forall>q \<in> set (take i ls @ drop (Suc i) ls). parent (iparents s' q) \<noteq> None"
    using ne par in_set_takeD [of _ i ls] in_set_dropD [of _ "Suc i" ls] by auto
  ultimately show "links s' x (take i ls @ drop (Suc i) ls)" by (simp add: links_def)
qed

lemma dir_inv_cong:
  assumes "dir_inv s a cs" and "\<And>p. \<exists>l. ientries s' p = ientries s p\<lparr>parent_list := l\<rparr>"
  shows "dir_inv s' a cs" "slots (ientries s') ps = slots (ientries s) ps" "live s' a cs = live s a cs"
proof -
  have eq: "etype (ientries s' p) = etype (ientries s p)" "pdir_cont (ientries s' p) = pdir_cont (ientries s p)"
    "end_of_dir (ientries s' p) = end_of_dir (ientries s p)" "pdir_begin (ientries s' p) = pdir_begin (ientries s p)"
    "dir_cont_pos (ientries s' p) = dir_cont_pos (ientries s p)" "dir_entries (ientries s' p) = dir_entries (ientries s p)"
    "nbactive (ientries s' p) = nbactive (ientries s p)" for p using assms(2) [of p] by auto
  show sl: "slots (ientries s') ps = slots (ientries s) ps" for ps by (rule slots_cong) (simp add: eq)
  show "live s' a cs = live s a cs" by (simp add: live_def eq)
  show "dir_inv s' a cs" using assms(1)
  proof (rule dir_inv_same)
    show "same_seg (ientries s p) (ientries s' p)" for p by (simp add: same_seg_def eq)
    show "p \<in> set (a # cs) \<Longrightarrow> seg_ok (ientries s' p)" for p using assms(1) by (auto simp: dir_inv_def seg_ok_def eq)
    show "end_of_dir (ientries s a) = END_OF_DIR \<Longrightarrow> \<forall>d \<in> set (slots (ientries s') cs). \<not> act d"
      using assms(1) by (auto simp: dir_inv_def sl)
  qed
qed

lemma remove_dirent_correct:
  assumes inv: "dir_inv s a cs" and f: "found_at s a cs nm = Some n"
    and x: "dpentry (slots (ientries s) (a # cs) ! n) = Some x" and ls: "links s x ls"
  shows "\<exists>s'. cache_inode_remove_cached_dirent s a nm = Some (CACHE_INODE_SUCCESS,
        if index_of (in_dir s a) ls = None then CACHE_INODE_INCONSISTENT_ENTRY else CACHE_INODE_SUCCESS, s')
     \<and> dir_inv s' a cs
     \<and> slots (ientries s') (a # cs) = (slots (ientries s) (a # cs))[n := (slots (ientries s) (a # cs) ! n)\<lparr>active := INVALID\<rparr>]
     \<and> links s' x (case index_of (in_dir s a) ls of None \<Rightarrow> ls | Some i \<Rightarrow> take i ls @ drop (Suc i) ls)
     \<and> place s' = place s \<and> in_dir s' a = in_dir s a"
proof -
  from operate_remove [OF inv f] x obtain s1 where
    op: "cache_inode_operate_cached_dirent s a nm None CACHE_INODE_DIRENT_OP_REMOVE = Some (Some x, CACHE_INODE_SUCCESS, s1)"
    and s1: "s1 = upd_entry s (live s a cs ! (n div 16)) (\<lambda>e. set_dirent (n mod 16) (\<lambda>x. x\<lparr>active := INVALID\<rparr>) (e\<lparr>nbactive := nbactive e - 1\<rparr>))"
    and inv1: "dir_inv s1 a cs"
    and sl: "slots (ientries s1) (a # cs) = (slots (ientries s) (a # cs))[n := (slots (ientries s) (a # cs) ! n)\<lparr>active := INVALID\<rparr>]"
    by auto
  have g1: "iparents s1 = iparents s" and e1: "parent_list (ientries s1 p) = parent_list (ientries s p)" "etype (ientries s1 p) = etype (ientries s p)"
    "pdir_begin (ientries s1 p) = pdir_begin (ientries s p)" for p by (auto simp: s1 upd_entry_def set_dirent_def)
  have ind: "in_dir s1 a = in_dir s a" by (simp add: fun_eq_iff in_dir_def segment_of_def g1 e1)
  have ls1: "links s1 x ls" using ls by (simp add: links_def g1 e1)
  from find_parent_correct [of s1 "parent_list (ientries s1 x)" ls a None] ls1 obtain r where
    fp: "find_parent s1 a None (parent_list (ientries s1 x)) = Some (case index_of (in_dir s a) ls of None \<Rightarrow> (r, None)
      | Some i \<Rightarrow> (if i = 0 then None else Some (ls ! (i - 1)), Some (ls ! i)))" by (auto simp: links_def ind)
  show ?thesis
  proof (cases "index_of (in_dir s a) ls")
    case None
    with op fp dir_inv_type [OF inv] inv1 sl ls1 ind show ?thesis
      by (auto simp: cache_inode_remove_cached_dirent_def place_def g1)
  next
    case (Some i)
    with index_of_Some have i: "i < length ls" by blast
    let ?s = "unlink_parent s1 x (if i = 0 then None else Some (ls ! (i - 1))) (ls ! i)"
    note u = links_unlink [OF ls1 i]
    have "in_dir ?s a = in_dir s a"
    proof
      fix q
      from u(3) [of "the (parent (iparents s q))"] show "in_dir ?s a q = in_dir s a q" using u(2) [of q] ind [THEN fun_cong, of q]
        by (auto simp: in_dir_def segment_of_def g1)
    qed
    moreover have "place ?s = place s" using u(2) by (auto simp: place_def g1)
    moreover have "cache_inode_remove_cached_dirent s a nm = Some (CACHE_INODE_SUCCESS, CACHE_INODE_SUCCESS, ?s)"
      using Some op fp dir_inv_type [OF inv] by (simp add: cache_inode_remove_cached_dirent_def)
    moreover note u(1) dir_inv_cong(1) [OF inv1 u(3)] dir_inv_cong(2) [OF inv1 u(3), of "a # cs", unfolded sl]
    ultimately show ?thesis unfolding Some option.case by (intro exI [of _ ?s] conjI) (auto simp del: slots_simps)
  qed
qed

end
