(* ===== verification/Dir_Add.thy ===== *)
theory Dir_Add
  imports Dir_Chain
begin

text \<open>
  New cache entries and new directory entries.  \<open>cache_ok\<close> is the invariant of what they are made from: the hash
  table, the pools and the LRU list of the client.
\<close>

subsection \<open>The LRU list of the cache\<close>

lemma gc_unlink_prealloc: "nb_entry_prealloc (snd (gc_unlink h l a)) = nb_entry_prealloc l"
  by (auto simp: gc_unlink_def Let_def split: option.splits)

lemma gc_loop_keeps:
  fixes clean :: "'d \<Rightarrow> 'x \<Rightarrow> int \<times> 'x"
  assumes "gc_loop clean h l x p rc = Some y"
  shows "nb_entry_prealloc (fst (snd (snd y))) = nb_entry_prealloc l \<and> ((\<forall>d x. fst (clean d x) = 0) \<longrightarrow> fst y = rc)"
proof -
  let ?P = "\<lambda>clean h l x p rc y. nb_entry_prealloc (fst (snd (snd y))) = nb_entry_prealloc l \<and> ((\<forall>d x. fst (clean d x) = 0) \<longrightarrow> fst y = rc)"
  show ?thesis
  proof (rule gc_loop.raw_induct [where P = ?P and xa = "(((((clean, h), l), x), p), rc)" and y = y, unfolded prod.case])
    fix f :: "('d \<Rightarrow> 'x \<Rightarrow> int \<times> 'x) \<Rightarrow> 'd lru_heap \<Rightarrow> lru_list \<Rightarrow> 'x \<Rightarrow> addr option \<Rightarrow> lru_rc \<Rightarrow> (lru_rc \<times> 'd lru_heap \<times> lru_list \<times> 'x) option"
      and clean h l x p rc y
    assume IH: "\<And>clean h l x p rc y. f clean h l x p rc = Some y \<Longrightarrow> ?P clean h l x p rc y"
      and body: "(if p = lru_MRU l then Some (rc, h, l, x)
      else case p of None \<Rightarrow> None
        | Some a \<Rightarrow>
            if is_invalid h a
            then f clean (fst (gc_unlink h l a)) (snd (gc_unlink h l a)) (snd (clean (buffdata (h a)) x)) (next_entry (h a))
                   (if fst (clean (buffdata (h a)) x) \<noteq> 0 then LRU_LIST_BAD_RELEASE_ENTRY else rc)
            else f clean h l x (next_entry (h a)) rc) = Some y"
    show "?P clean h l x p rc y"
    proof (cases "p = lru_MRU l")
      case False
      with body obtain a where a: "p = Some a" by (cases p) auto
      show ?thesis
      proof (cases "is_invalid h a")
        case True
        from IH [OF body [unfolded a, unfolded if_not_P [OF False [unfolded a]] option.case if_P [OF True]]] show ?thesis by (simp add: gc_unlink_prealloc)
      next
        case F: False
        from IH [OF body [unfolded a, unfolded if_not_P [OF False [unfolded a]] option.case if_not_P [OF F]]] show ?thesis .
      qed
    qed (use body in auto)
  qed (use assms in simp)
qed

lemma LRU_gc_invalid_keeps:
  assumes inv: "lru_inv m h l (zs @ [b])"
  shows "\<exists>rc h' l' x' xs'. LRU_gc_invalid clean h l x = Some (rc, h', l', x') \<and> lru_inv m h' l' xs' \<and> same_data h' h
     \<and> (\<forall>a \<in> set (zs @ [b]). \<not> is_invalid h a \<longrightarrow> a \<in> set xs') \<and> nb_entry_prealloc l' = nb_entry_prealloc l
     \<and> ((\<forall>d x. fst (clean d x) = 0) \<longrightarrow> rc = LRU_LIST_SUCCESS)"
proof -
  from inv have M: "lru_MRU l = Some b" "lru_LRU l = hd_opt (zs @ [b]) None" by (auto simp: lru_inv_def chain_def)
  show ?thesis
  proof (cases "nb_invalid l = 0 \<or> prev_entry (h b) = None \<or> nb_call_gc l < nb_call_gc_invalid l")
    case True
    with M inv show ?thesis by (auto simp: LRU_gc_invalid_def same_data_def)
  next
    case False
    from gc_loop_correct [of m h l "[]" zs b clean x LRU_LIST_SUCCESS] inv obtain rc h' l' where
      g: "gc_loop clean h l x (hd_opt (zs @ [b]) None) LRU_LIST_SUCCESS = Some (rc, h', l', clean_all clean h (filter (is_invalid h) zs) x)"
      and r: "lru_inv m h' l' (filter (\<lambda>a. \<not> is_invalid h a) zs @ [b])" "same_data h' h" by auto
    from gc_loop_keeps [OF g] g r False M show ?thesis by (auto simp: LRU_gc_invalid_def)
  qed
qed

subsection \<open>The invariant of the client\<close>

definition env_ok :: "inode_env \<Rightarrow> bool" where
  "env_ok env \<longleftrightarrow> 0 < nb_prealloc env \<and> 0 < nb_pre_dir_data env \<and> 0 < nb_pre_parent env \<and> rw_lock_init_ok env"

text \<open>\<open>L\<close> are the entries in use, \<open>P\<close> the links in use, \<open>xs\<close> the LRU list.  No allocation fails.\<close>

definition cache_ok :: "icache \<Rightarrow> addr set \<Rightarrow> addr set \<Rightarrow> addr list \<Rightarrow> bool" where
  "cache_ok s L P xs \<longleftrightarrow> hs_inv (parameter (ht_inode s)) (imem s, ht_inode s) \<and> key_eq (parameter (ht_inode s)) = (=)
     \<and> 0 < nb_node_prealloc (parameter (ht_inode s)) \<and> 0 < nb_entry_prealloc (lru_gc s) \<and> no_fail (imem s)
     \<and> pool_inv (imem s) L (pool_entry s) \<and> pool_inv (imem s) P (pool_parent s)
     \<and> lru_inv (imem s) (ilheap s) (lru_gc s) xs
     \<and> (\<forall>p \<in> L. \<forall>q. gc_lru_entry (ientries s p) = Some q \<longrightarrow> q \<in> set xs \<and> \<not> is_invalid (ilheap s) q \<and> buffdata (ilheap s q) = p)"

lemma cache_ok_grows:
  assumes "cache_ok s L P xs" and "mem_grows (imem s) m" and "no_fail m"
  shows "cache_ok (s\<lparr>imem := m\<rparr>) L P xs"
  using assms by (auto simp: cache_ok_def lru_inv_def intro: hs_inv_grows pool_inv_grows)

lemma unat_pos: "0 < (w :: u32) \<Longrightarrow> 0 < unat w"
  by (simp add: unat_gt_0 word_greater_zero_iff)

lemma get_no_fail:
  assumes "no_fail m" and "0 < (nb :: u32)"
  obtains q pool m' where "GET_PREALLOC m p (unat nb) sz = (Some q, pool, m')" "no_fail m'" "mem_grows m m'"
proof -
  obtain r pool m' where g: "GET_PREALLOC m p (unat nb) sz = (r, pool, m')" by (cases "GET_PREALLOC m p (unat nb) sz")
  from GET_PREALLOC_no_fail [OF assms(1) unat_pos [OF assms(2)] g] stuff.get_grows [OF g] g show ?thesis using that by blast
qed

lemma cache_inode_valid_ok:
  assumes ok: "cache_ok s L P xs" and p: "p \<in> L" and t: "valid_target s p0 = Some p"
  shows "\<exists>s' q xs'. cache_inode_valid now s (Some p0) opr = Some (CACHE_INODE_SUCCESS, s') \<and> cache_ok s' L P xs'
     \<and> ientries s' = (ientries s)(p := valid_stamp now opr q (ientries s p)) \<and> iparents s' = iparents s
     \<and> ht_inode s' = ht_inode s"
proof -
  let ?hl = "case gc_lru_entry (ientries s p) of None \<Rightarrow> (ilheap s, lru_gc s) | Some q \<Rightarrow> snd (LRU_invalidate (ilheap s) (lru_gc s) q)"
  obtain h l where hl: "?hl = (h, l)" by (cases ?hl)
  from ok have inv: "lru_inv (imem s) (ilheap s) (lru_gc s) xs" and nf: "no_fail (imem s)" and nb: "0 < nb_entry_prealloc (lru_gc s)"
    and anch: "\<And>x q. x \<in> L \<Longrightarrow> gc_lru_entry (ientries s x) = Some q \<Longrightarrow> q \<in> set xs \<and> \<not> is_invalid (ilheap s) q \<and> buffdata (ilheap s q) = x"
    by (auto simp: cache_ok_def)
  have hl1: "lru_inv (imem s) h l xs" "nb_entry_prealloc l = nb_entry_prealloc (lru_gc s)"
    "\<And>x q. x \<in> L \<Longrightarrow> x \<noteq> p \<Longrightarrow> gc_lru_entry (ientries s x) = Some q \<Longrightarrow> q \<in> set xs \<and> \<not> is_invalid h q \<and> buffdata (h q) = x"
  proof -
    have "lru_inv (imem s) h l xs \<and> nb_entry_prealloc l = nb_entry_prealloc (lru_gc s)
       \<and> (\<forall>x \<in> L. \<forall>q. x \<noteq> p \<longrightarrow> gc_lru_entry (ientries s x) = Some q \<longrightarrow> q \<in> set xs \<and> \<not> is_invalid h q \<and> buffdata (h q) = x)"
    proof (cases "gc_lru_entry (ientries s p)")
      case None
      with hl inv anch show ?thesis by auto
    next
      case (Some q0)
      with hl obtain rc where c: "LRU_invalidate (ilheap s) (lru_gc s) q0 = (rc, h, l)" by (cases "LRU_invalidate (ilheap s) (lru_gc s) q0") auto
      from anch [OF p Some] have q0: "q0 \<in> set xs" "buffdata (ilheap s q0) = p" by auto
      from LRU_invalidate_correct [OF inv q0(1) c] have "lru_inv (imem s) h l xs"
        "h = (ilheap s)(q0 := (ilheap s q0)\<lparr>valid_state := LRU_ENTRY_INVALID\<rparr>)" by auto
      moreover have "nb_entry_prealloc l = nb_entry_prealloc (lru_gc s)" using c by (auto simp: LRU_invalidate_def split: if_splits)
      ultimately show ?thesis using anch q0(2) by auto
    qed
    then show "lru_inv (imem s) h l xs" "nb_entry_prealloc l = nb_entry_prealloc (lru_gc s)"
      "\<And>x q. x \<in> L \<Longrightarrow> x \<noteq> p \<Longrightarrow> gc_lru_entry (ientries s x) = Some q \<Longrightarrow> q \<in> set xs \<and> \<not> is_invalid h q \<and> buffdata (h q) = x" by auto
  qed
  obtain r rc m h1 l1 where n: "LRU_new_entry (imem s) h l = (r, rc, m, h1, l1)" by (cases "LRU_new_entry (imem s) h l")
  have nfm: "r \<noteq> None \<and> no_fail m \<and> mem_grows (imem s) m \<and> nb_entry_prealloc l1 = nb_entry_prealloc l"
  proof -
    have "0 < nb_entry_prealloc l" using nb hl1(2) by simp
    from get_no_fail [OF nf this] obtain q pool m' where "GET_PREALLOC (imem s) (entry_prealloc l) (unat (nb_entry_prealloc l)) sizeof_LRU_entry
      = (Some q, pool, m')" "no_fail m'" "mem_grows (imem s) m'" by blast
    with n show ?thesis by (auto simp: LRU_new_entry_def Let_def split: option.splits)
  qed
  then obtain q where r: "r = Some q" by blast
  note ln = LRU_new_entry_correct [OF hl1(1) n [unfolded r]]
  let ?h = "h1(q := (h1 q)\<lparr>buffdata := p\<rparr>)"
  have "seg ?h None (xs @ [q]) None = seg h1 None (xs @ [q]) None" by (rule seg_same_links) simp
  moreover have "filter (is_invalid ?h) (xs @ [q]) = filter (is_invalid h1) (xs @ [q])" by (rule filter_cong) auto
  ultimately have inv2: "lru_inv m ?h l1 (xs @ [q])" using ln by (simp add: lru_inv_def chain_def del: fun_upd_apply)
  from LRU_gc_invalid_keeps [OF inv2, of lru_inode_clean_entry "()"] obtain rc2 h2 l2 x2 xs' where
    gc: "LRU_gc_invalid lru_inode_clean_entry ?h l1 () = Some (rc2, h2, l2, x2)" and inv3: "lru_inv m h2 l2 xs'"
    and sd: "same_data h2 ?h" and keep: "\<forall>a \<in> set (xs @ [q]). \<not> is_invalid ?h a \<longrightarrow> a \<in> set xs'"
    and nb2: "nb_entry_prealloc l2 = nb_entry_prealloc l1" and rc2: "rc2 = LRU_LIST_SUCCESS" by (auto simp: lru_inode_clean_entry_def)
  let ?s = "(upd_entry s p (valid_stamp now opr q))\<lparr>imem := m, ilheap := h2, lru_gc := l2, call_since_last_gc := call_since_last_gc s + 1\<rparr>"
  have call: "cache_inode_valid now s (Some p0) opr = Some (CACHE_INODE_SUCCESS, ?s)"
    using t hl n r gc rc2 by (simp add: cache_inode_valid_def)
  have "x \<in> L \<Longrightarrow> gc_lru_entry (ientries ?s x) = Some y \<Longrightarrow> y \<in> set xs' \<and> \<not> is_invalid h2 y \<and> buffdata (h2 y) = x" for x y
  proof (cases "x = p")
    case True
    assume "gc_lru_entry (ientries ?s x) = Some y"
    with True have "y = q" by (simp add: upd_entry_def valid_stamp_def Let_def split: inode_op.splits)
    with keep ln sd True show ?thesis by (auto simp: same_data_def)
  next
    case False
    assume "x \<in> L" "gc_lru_entry (ientries ?s x) = Some y"
    with False hl1(3) have "y \<in> set xs \<and> \<not> is_invalid h y \<and> buffdata (h y) = x" by (simp add: upd_entry_def)
    with keep ln sd show ?thesis by (auto simp: same_data_def)
  qed
  then have "cache_ok ?s L P xs'"
    using ok nfm inv3 nb2 hl1(2) by (auto simp: cache_ok_def upd_entry_def intro: hs_inv_grows pool_inv_grows)
  with call show ?thesis by (auto simp: upd_entry_def)
qed

subsection \<open>New entries\<close>

lemma valid_target_cong: "ientries s' = ientries s \<Longrightarrow> valid_target s' p = valid_target s p"
  by (simp add: valid_target_def)

lemma publish_entry_ok:
  assumes ok: "cache_ok s L P xs" and env: "env_ok env" and new: "ht_lookup (ht_inode s) fsdata = None"
    and t: "valid_target s p = Some w" and w: "w \<in> L"
  shows "\<exists>s' q xs'. publish_entry env now s p fsdata = Some (Some p, CACHE_INODE_SUCCESS, s') \<and> cache_ok s' L P xs'
     \<and> ientries s' = (ientries s)(w := valid_stamp now CACHE_INODE_OP_GET q (ientries s w)) \<and> iparents s' = iparents s
     \<and> ht_lookup (ht_inode s') = (ht_lookup (ht_inode s))(fsdata \<mapsto> p)"
proof -
  from ok have hs: "hs_inv (parameter (ht_inode s)) (imem s, ht_inode s)" and keq: "key_eq (parameter (ht_inode s)) = (=)"
    and nb: "0 < nb_node_prealloc (parameter (ht_inode s))" and nf: "no_fail (imem s)" by (auto simp: cache_ok_def)
  from env have "0 < nb_prealloc env" by (simp add: env_ok_def)
  from get_no_fail [OF nf this] obtain k keys m where
    g: "GET_PREALLOC (imem s) (pool_key s) (unat (nb_prealloc env)) (sizeof_fsal_data env) = (Some k, keys, m)" and m: "no_fail m" "mem_grows (imem s) m" by blast
  from hs.put_law [OF hs_inv_grows [OF hs m(2)], of fsdata p HASHTABLE_SET_HOW_SET_NO_OVERWRITE] obtain rc m1 tt where
    put: "hs_put (m, ht_inode s) fsdata p HASHTABLE_SET_HOW_SET_NO_OVERWRITE = Some (rc, m1, tt)"
    and tt: "hs_inv (parameter (ht_inode s)) (m1, tt)" and gr1: "mem_grows m m1"
    and out: "set_outcome (=) (ht_lookup (ht_inode s)) fsdata p HASHTABLE_SET_HOW_SET_NO_OVERWRITE rc (ht_lookup tt)" unfolding keq by (auto simp: hs_grows_def)
  from Test_And_Set_no_fail [OF m(1) nb] put have nf1: "rc \<noteq> HASHTABLE_INSERT_MALLOC_ERROR" "no_fail m1" by (auto simp: hs_put_def)
  with out new have rc: "rc = HASHTABLE_SUCCESS" "ht_lookup tt = (ht_lookup (ht_inode s))(fsdata \<mapsto> p)"
    by (auto simp: set_outcome_def upd_map_def fun_eq_iff)
  from tt have par: "parameter tt = parameter (ht_inode s)" by (simp add: hs_inv_def)
  let ?s = "s\<lparr>imem := m1, pool_key := keys, ht_inode := tt, key_at := (key_at s)(fsdata := k)\<rparr>"
  have gr: "mem_grows (imem s) m1" using m(2) gr1 by (rule mem_grows_trans)
  have "cache_ok ?s L P xs"
    using ok nf1 tt par gr by (auto simp: cache_ok_def lru_inv_def intro: pool_inv_grows)
  from cache_inode_valid_ok [OF this w, of p now CACHE_INODE_OP_GET] t valid_target_cong [of ?s s p] obtain s' q xs' where
    v: "cache_inode_valid now ?s (Some p) CACHE_INODE_OP_GET = Some (CACHE_INODE_SUCCESS, s')" "cache_ok s' L P xs'"
    "ientries s' = (ientries ?s)(w := valid_stamp now CACHE_INODE_OP_GET q (ientries ?s w))" "iparents s' = iparents ?s" "ht_inode s' = ht_inode ?s" by auto
  then show ?thesis using g put rc by (auto simp: publish_entry_def)
qed

lemma get_entry_ok:
  assumes ok: "cache_ok s L P xs" and g: "GET_PREALLOC (imem s) (pool_entry s) nb sz = (Some p, pool, m)" and nf: "no_fail m"
  shows "p \<notin> L" "pool_inv m (insert p L) pool" "mem_grows (imem s) m"
proof -
  from ok have "pool_inv (imem s) L (pool_entry s)" by (simp add: cache_ok_def)
  from stuff.get_some [OF this g] show "p \<notin> L" "pool_inv m (insert p L) pool" by auto
  show "mem_grows (imem s) m" using g by (rule stuff.get_grows)
qed

text \<open>
  An object that is not in the table gets a fresh entry, initialised by \<open>ini\<close>; the entry \<open>w\<close> that the cache
  validates is itself, or the first segment of its directory.
\<close>

lemma new_entry_ok:
  assumes ok: "cache_ok s L P xs" and env: "env_ok env" and new: "ht_lookup (ht_inode s) fsdata = None"
    and attr: "attr_given \<or> t = DIR_CONTINUE \<or> FSAL_getattrs env (fst fsdata) = ERR_FSAL_NO_ERROR"
    and obj: "\<And>s2 p e. ientries s2 = ientries s \<Longrightarrow> init_object s2 t p prev e = Some (Inr (ini p e))"
    and ini: "\<And>p e. gc_lru_entry (ini p e) = gc_lru_entry e"
    and tgt: "\<And>p d. p \<notin> L \<Longrightarrow> valid_target (upd_entry s p (\<lambda>_. ini p (init_entry now t (fst fsdata) (ientries s p\<lparr>pdir_data := d\<rparr>)))) p = Some (w p) \<and> w p \<in> insert p L"
  shows "\<exists>p s' d q xs' h. cache_inode_new_entry env now s fsdata attr_given t prev = Some (Some p, CACHE_INODE_SUCCESS, s')
     \<and> p \<notin> L \<and> cache_ok s' (insert p L) P xs' \<and> iparents s' = iparents s
     \<and> ht_lookup (ht_inode s') = (ht_lookup (ht_inode s))(fsdata \<mapsto> p)
     \<and> h = (ientries s)(p := ini p (init_entry now t (fst fsdata) (ientries s p\<lparr>pdir_data := d\<rparr>)))
     \<and> ientries s' = h(w p := valid_stamp now CACHE_INODE_OP_GET q (h (w p)))"
proof -
  from ok have hs: "hs_inv (parameter (ht_inode s)) (imem s, ht_inode s)" and nf: "no_fail (imem s)" by (auto simp: cache_ok_def)
  from hs.get_law [OF hs, of fsdata] new obtain m0 t0 where get: "hs_get (imem s, ht_inode s) fsdata = Some (HASHTABLE_ERROR_NO_SUCH_KEY, None, m0, t0)"
    and t0: "hs_inv (parameter (ht_inode s)) (m0, t0)" "ht_lookup t0 = ht_lookup (ht_inode s)" by auto
  have m0: "m0 = imem s" using hs_same_mem(1) [OF get] by simp
  from env have nb: "0 < nb_prealloc env" "0 < nb_pre_dir_data env" "rw_lock_init_ok env" by (auto simp: env_ok_def)
  from get_no_fail [OF nf nb(1)] obtain p pool m where
    g: "GET_PREALLOC (imem s) (pool_entry s) (unat (nb_prealloc env)) (sizeof_cache_entry env) = (Some p, pool, m)" and m: "no_fail m" by blast
  note ge = get_entry_ok [OF ok g m]
  define s1 where "s1 = s\<lparr>ht_inode := t0, imem := m, pool_entry := pool\<rparr>"
  have par: "parameter t0 = parameter (ht_inode s)" using t0 by (simp add: hs_inv_def)
  obtain q dp m2 where gd: "GET_PREALLOC m (pool_dir_data s) (unat (nb_pre_dir_data env)) (sizeof_dir_data env) = (Some q, dp, m2)"
    and m2: "no_fail m2" "mem_grows m m2" using get_no_fail [OF m nb(2)] by blast
  define d where "d = (if t = DIR_BEGINNING \<or> t = DIR_CONTINUE then q else pdir_data (ientries s p))"
  define s2 where "s2 = (if t = DIR_BEGINNING \<or> t = DIR_CONTINUE then s1\<lparr>imem := m2, pool_dir_data := dp\<rparr> else s1)"
  have s2: "ientries s2 = ientries s" "iparents s2 = iparents s" "ht_inode s2 = t0" "pool_entry s2 = pool" "pool_parent s2 = pool_parent s"
    "ilheap s2 = ilheap s" "lru_gc s2 = lru_gc s" "no_fail (imem s2)" "mem_grows m (imem s2)"
    using m m2 by (auto simp: s2_def s1_def)
  let ?e = "ini p (init_entry now t (fst fsdata) (ientries s p\<lparr>pdir_data := d\<rparr>))"
  let ?s3 = "upd_entry s2 p (\<lambda>_. ?e)"
  have gr: "mem_grows (imem s) (imem s2)" using ge(3) s2(9) by (rule mem_grows_trans)
  have "hs_inv (parameter (ht_inode s)) (imem s2, t0)" using t0(1) gr unfolding m0 by (rule hs_inv_grows)
  moreover have "pool_inv (imem s2) (insert p L) pool" using ge(2) s2(9) by (rule pool_inv_grows)
  ultimately have ok3: "cache_ok ?s3 (insert p L) P xs"
    using ok s2 par gr ge(1) by (auto simp: cache_ok_def upd_entry_def lru_inv_def ini init_entry_def intro: pool_inv_grows)
  have new3: "ht_lookup (ht_inode ?s3) fsdata = None" using new t0(2) s2(3) by (simp add: upd_entry_def)
  have tg: "valid_target ?s3 p = Some (w p)" "w p \<in> insert p L"
    using tgt [OF ge(1), of d] by (auto simp: valid_target_def upd_entry_def s2(1))
  from publish_entry_ok [OF ok3 env new3 tg] obtain s' q' xs' where
    pub: "publish_entry env now ?s3 p fsdata = Some (Some p, CACHE_INODE_SUCCESS, s')" "cache_ok s' (insert p L) P xs'"
    "ientries s' = (ientries ?s3)(w p := valid_stamp now CACHE_INODE_OP_GET q' (ientries ?s3 (w p)))" "iparents s' = iparents ?s3"
    "ht_lookup (ht_inode s') = (ht_lookup (ht_inode ?s3))(fsdata \<mapsto> p)" by blast
  have call: "cache_inode_new_entry env now s fsdata attr_given t prev = publish_entry env now ?s3 p fsdata"
  proof (cases "t = DIR_BEGINNING \<or> t = DIR_CONTINUE")
    case True
    then show ?thesis using get m0 g gd nb(3) attr obj [OF s2(1), of p "init_entry now t (fst fsdata) (ientries s p\<lparr>pdir_data := d\<rparr>)"] s2(1)
      by (auto simp: cache_inode_new_entry_def d_def s2_def s1_def)
  next
    case False
    then show ?thesis using get m0 g nb(3) attr obj [OF s2(1), of p "init_entry now t (fst fsdata) (ientries s p\<lparr>pdir_data := d\<rparr>)"] s2(1)
      by (auto simp: cache_inode_new_entry_def d_def s2_def s1_def)
  qed
  have e3: "ientries ?s3 = (ientries s)(p := ?e)" by (simp add: upd_entry_def s2)
  show ?thesis using pub ge(1) call s2(2,3) t0(2) unfolding e3 by (auto simp: upd_entry_def)
qed

subsection \<open>The search for a place\<close>

lemma seek_seg_ok: "seg_ok e \<Longrightarrow> seek_seg e = index_of (\<lambda>d. \<not> act d) (dir_entries e)"
proof -
  assume ok: "seg_ok e"
  have "index_of free_dirent (dir_entries e) = index_of (\<lambda>d. \<not> act d) (dir_entries e)"
    by (rule index_of_cong) (use seg_ok_D(4) [OF ok] in \<open>fastforce simp: free_dirent_def active_cases\<close>)
  moreover have "nbactive e = 16 \<Longrightarrow> index_of (\<lambda>d. \<not> act d) (dir_entries e) = None"
    using nbactive_full [OF ok] by (simp add: index_of_None)
  ultimately show ?thesis
    using scan_index [of "dir_entries e" "\<lambda>d. Some (free_dirent d)" free_dirent 0]
    by (simp add: seek_seg_def CHILDREN_ARRAY_SIZE_def option.map_ident)
qed

lemma seek_slot_ok:
  assumes "lchain (ientries s) ps" and "\<forall>p \<in> set ps. seg_ok (ientries s p)"
  shows "seek_slot s (Some (hd ps)) = Some (case index_of (\<lambda>d. \<not> act d) (slots (ientries s) ps) of
      None \<Rightarrow> Full (last ps) | Some n \<Rightarrow> Slot (ps ! (n div 16)) (n mod 16))"
  using assms
proof (induction ps)
  case (Cons a ps)
  let ?e = "ientries s a"
  from Cons.prems have ok: "seg_ok ?e" and d: "is_dir_entry ?e" by auto
  note len = seg_ok_D(1) [OF ok] and sk = seek_seg_ok [OF ok]
  show ?case
  proof (cases "index_of (\<lambda>d. \<not> act d) (dir_entries ?e)")
    case (Some n)
    then have "n < 16" using index_of_Some [OF Some] len by simp
    with Some d sk show ?thesis by (subst seek_slot.simps) (simp add: index_of_append)
  next
    case None
    show ?thesis
    proof (cases "ps = []")
      case True
      with Cons.prems(1) None d sk show ?thesis by (subst seek_slot.simps) simp
    next
      case False
      with Cons have IH: "seek_slot s (Some (hd ps)) = Some (case index_of (\<lambda>d. \<not> act d) (slots (ientries s) ps) of
        None \<Rightarrow> Full (last ps) | Some n \<Rightarrow> Slot (ps ! (n div 16)) (n mod 16))" by simp
      have "seek_slot s (Some a) = seek_slot s (Some (hd ps))"
        using None d sk False Cons.prems(1) by (subst seek_slot.simps) simp
      moreover have "(a # ps) ! ((16 + n) div 16) = ps ! (n div 16)" for n :: nat by (simp add: div_add_self1)
      ultimately show ?thesis using IH None False len by (simp add: index_of_append split: option.splits)
    qed
  qed
qed simp

lemma lchain_drop: "lchain h ps \<Longrightarrow> k < length ps \<Longrightarrow> lchain h (drop k ps)"
proof (induction ps arbitrary: k)
  case (Cons a ps)
  then show ?case by (cases k) (auto split: if_splits)
qed simp

subsection \<open>Filling a place\<close>

definition new_dirent :: "addr \<Rightarrow> fsal_name \<Rightarrow> dir_entry" where
  "new_dirent x nm = \<lparr>active = VALID, dpentry = Some x, dname = \<lparr>fname = strncpy (fname nm) FSAL_MAX_NAME_LEN, flen = flen nm\<rparr>\<rparr>"

lemma new_dirent_simps [simp]: "act (new_dirent x nm)" "dpentry (new_dirent x nm) = Some x"
  by (simp_all add: new_dirent_def act_def)

lemma fill_dirent: "(d :: dir_entry)\<lparr>active := VALID, dpentry := Some x, dname := dname (new_dirent x nm)\<rparr> = new_dirent x nm"
  by (cases d) (simp add: new_dirent_def)

text \<open>What the addition of an entry for \<open>x\<close> leaves as it was.\<close>

definition keeps :: "addr set \<Rightarrow> addr set \<Rightarrow> addr \<Rightarrow> icache \<Rightarrow> icache \<Rightarrow> bool" where
  "keeps L P x s s' \<longleftrightarrow>
     (\<forall>r \<in> L. etype (ientries s' r) = etype (ientries s r) \<and> ehandle (ientries s' r) = ehandle (ientries s r)
        \<and> pdir_begin (ientries s' r) = pdir_begin (ientries s r) \<and> has_been_readdir (ientries s' r) = has_been_readdir (ientries s r)
        \<and> (validst (ientries s r) = VALID \<longrightarrow> validst (ientries s' r) = VALID)
        \<and> (r \<noteq> x \<longrightarrow> parent_list (ientries s' r) = parent_list (ientries s r)))
     \<and> (\<forall>q \<in> P. iparents s' q = iparents s q)
     \<and> (\<forall>h. ht_lookup (ht_inode s') (h, 0) = ht_lookup (ht_inode s) (h, 0))"

lemma dir_keeps_refl [simp]: "keeps L P x s s"
  by (simp add: keeps_def)

lemma dir_keeps_trans: "keeps L P x s s1 \<Longrightarrow> keeps L' P' x s1 s2 \<Longrightarrow> L \<subseteq> L' \<Longrightarrow> P \<subseteq> P' \<Longrightarrow> keeps L P x s s2"
  unfolding keeps_def by (simp add: subset_eq)

lemma fill_slot_ok:
  assumes inv: "dir_inv s a cs" and ok: "cache_ok s L P xs" and env: "env_ok env"
    and n: "n < 16 * length (live s a cs)" and free: "\<not> act (slots (ientries s) (a # cs) ! n)"
    and p: "p = live s a cs ! (n div 16)" and ls: "links s x ls" and lsP: "set ls \<subseteq> P"
  shows "\<exists>s' q. fill_slot env s p (n mod 16) (Some nm) x = (CACHE_INODE_SUCCESS, Some p, s') \<and> q \<notin> P
     \<and> cache_ok s' L (insert q P) xs \<and> dir_inv s' a cs \<and> live s' a cs = live s a cs
     \<and> slots (ientries s') (a # cs) = (slots (ientries s) (a # cs))[n := new_dirent x nm]
     \<and> links s' x (q # ls) \<and> place s' q = (p, n mod 16) \<and> keeps L P x s s' \<and> ht_inode s' = ht_inode s"
proof -
  from ok env have pool: "pool_inv (imem s) P (pool_parent s)" and nf: "no_fail (imem s)" and nb: "0 < nb_pre_parent env"
    by (auto simp: cache_ok_def env_ok_def)
  from get_no_fail [OF nf nb] obtain q pl m where
    g: "GET_PREALLOC (imem s) (pool_parent s) (unat (nb_pre_parent env)) (sizeof_parent_entry env) = (Some q, pl, m)"
    and m: "no_fail m" "mem_grows (imem s) m" by blast
  from stuff.get_some [OF pool g] have q: "q \<notin> P" "pool_inv m (insert q P) pl" by auto
  note L = dir_inv_live [OF inv]
  have pin: "p \<in> set (live s a cs)" using n p by simp
  have d: "slots (ientries s) (a # cs) ! n = dir_entries (ientries s p) ! (n mod 16)" unfolding p using nth_live(2) [OF inv n] .
  let ?e = "set_dirent (n mod 16) (\<lambda>d. d\<lparr>active := VALID, dpentry := Some x, dname := dname (new_dirent x nm)\<rparr>)
      (ientries s p\<lparr>nbactive := nbactive (ientries s p) + 1\<rparr>)"
  have e: "same_seg (ientries s p) ?e" "dir_entries ?e = (dir_entries (ientries s p))[n mod 16 := new_dirent x nm]"
    "nbactive ?e + (if act (dir_entries (ientries s p) ! (n mod 16)) then 1 else 0) = nbactive (ientries s p) + (if act (new_dirent x nm) then 1 else 0)"
    using free [unfolded d] by (simp_all add: set_dirent_def same_seg_def fill_dirent)
  have "act (new_dirent x nm) \<longrightarrow> dpentry (new_dirent x nm) \<noteq> None" by simp
  note pl = dir_inv_place [OF inv n p e this]
  let ?s2 = "s\<lparr>ientries := (ientries s)(p := ?e)\<rparr>"
  have fill: "\<exists>s'. fill_slot env s p (n mod 16) (Some nm) x = (CACHE_INODE_SUCCESS, Some p, s')
     \<and> imem s' = m \<and> pool_parent s' = pl \<and> pool_entry s' = pool_entry s \<and> ilheap s' = ilheap s \<and> lru_gc s' = lru_gc s \<and> ht_inode s' = ht_inode s
     \<and> iparents s' = (iparents s)(q := \<lparr>subdirpos = of_nat (n mod 16), parent = Some p, next_parent = parent_list (ientries s x)\<rparr>)
     \<and> ientries s' = (ientries ?s2)(x := ientries ?s2 x\<lparr>parent_list := Some q\<rparr>)"
    using g by (auto simp: fill_slot_def FSAL_namecpy_def upd_entry_def new_dirent_def set_dirent_def fun_eq_iff)
  then obtain s' where f: "fill_slot env s p (n mod 16) (Some nm) x = (CACHE_INODE_SUCCESS, Some p, s')"
    and s': "imem s' = m" "pool_parent s' = pl" "pool_entry s' = pool_entry s" "ilheap s' = ilheap s" "lru_gc s' = lru_gc s" "ht_inode s' = ht_inode s"
      "iparents s' = (iparents s)(q := \<lparr>subdirpos = of_nat (n mod 16), parent = Some p, next_parent = parent_list (ientries s x)\<rparr>)"
      "ientries s' = (ientries ?s2)(x := ientries ?s2 x\<lparr>parent_list := Some q\<rparr>)" by blast
  have sub: "\<exists>l. ientries s' r = ientries ?s2 r\<lparr>parent_list := l\<rparr>" for r
    by (cases "r = x") (auto simp: s'(8) intro: exI [of _ "parent_list (ientries ?s2 r)"])
  note c = dir_inv_cong [OF pl(1) sub]
  have same: "etype (ientries s' r) = etype (ientries s r)" "ehandle (ientries s' r) = ehandle (ientries s r)"
    "pdir_begin (ientries s' r) = pdir_begin (ientries s r)" "has_been_readdir (ientries s' r) = has_been_readdir (ientries s r)"
    "validst (ientries s' r) = validst (ientries s r)" "gc_lru_entry (ientries s' r) = gc_lru_entry (ientries s r)"
    "r \<noteq> x \<longrightarrow> parent_list (ientries s' r) = parent_list (ientries s r)" for r
    by (auto simp: s'(8) set_dirent_def)
  have "cache_ok s' L (insert q P) xs"
    using ok m q s' same by (auto simp: cache_ok_def lru_inv_def intro: hs_inv_grows pool_inv_grows)
  moreover have "links s' x (q # ls)"
    using ls lsP q(1) by (auto simp: links_def s'(7,8) ppath_frame subset_eq)
  moreover have "place s' q = (p, n mod 16)" by (simp add: place_def s'(7) unat_of_nat_small32)
  moreover have "keeps L P x s s'" using q(1) same by (auto simp: keeps_def s'(6,7))
  moreover have "slots (ientries s') (a # cs) = (slots (ientries s) (a # cs))[n := new_dirent x nm]"
    using c(2) [of "a # cs"] pl(2) by simp
  moreover have "live s' a cs = live s a cs" using c(3) pl(3) by simp
  ultimately show ?thesis using f q(1) c(1) s'(6) by blast
qed

subsection \<open>One more segment\<close>

text \<open>
  The table knows the segments of the directory by the handle and their position, and no others.
\<close>

definition keyed :: "icache \<Rightarrow> addr \<Rightarrow> addr list \<Rightarrow> bool" where
  "keyed s a cs \<longleftrightarrow> length cs < 2 ^ 28 \<and> (\<forall>i < 2 ^ 28. ht_lookup (ht_inode s) (ehandle (ientries s a), of_nat (Suc i))
     = (if i < length cs then Some (cs ! i) else None))"

lemma of_nat_eq_small: "i < 2 ^ 32 \<Longrightarrow> j < 2 ^ 32 \<Longrightarrow> (of_nat i :: u32) = of_nat j \<longleftrightarrow> i = j"
  by (metis unat_of_nat_small32)

lemma slots_empty_seg: "dir_entries e = replicate CHILDREN_ARRAY_SIZE empty_dirent \<Longrightarrow> nbactive e = 0 \<Longrightarrow> seg_ok e"
  by (simp add: seg_ok_def count_act_def empty_dirent_def act_def CHILDREN_ARRAY_SIZE_def)

lemma linked_snoc: "linked h (ps @ [c]) \<longleftrightarrow> (\<forall>i < length ps. pdir_cont (h (ps ! i)) = Some ((ps @ [c]) ! Suc i)) \<and> pdir_cont (h c) = None"
proof (induction ps)
  case (Cons p ps)
  have "hd_opt (ps @ [c]) None = Some ((ps @ [c]) ! 0)" by (cases ps) auto
  with Cons show ?case by (auto simp: All_less_Suc2)
qed simp

lemma linked_last: "linked h ps \<Longrightarrow> ps \<noteq> [] \<Longrightarrow> pdir_cont (h (last ps)) = None"
  by (cases ps rule: rev_cases) (simp_all add: linked_snoc)

text \<open>The segments left from an earlier content are used again.\<close>

lemma reuse_segment:
  assumes inv: "dir_inv s a cs" and e: "end_of_dir (ientries s a) = END_OF_DIR" and ne: "cs \<noteq> []"
  shows "next_segment env now s a = Some (Inr (hd cs), s)"
    and "dir_inv (chain_segment s a (hd cs)) a cs" and "live (chain_segment s a (hd cs)) a cs = a # cs"
    and "slots (ientries (chain_segment s a (hd cs))) ps = slots (ientries s) ps"
    and "keeps L P x s (chain_segment s a (hd cs))" and "cache_ok s L P xs \<Longrightarrow> cache_ok (chain_segment s a (hd cs)) L P xs"
    and "iparents (chain_segment s a (hd cs)) = iparents s" and "ht_inode (chain_segment s a (hd cs)) = ht_inode s"
    and "parent_list (ientries (chain_segment s a (hd cs)) r) = parent_list (ientries s r)"
proof -
  let ?s = "chain_segment s a (hd cs)"
  from inv ne have c: "pdir_cont (ientries s a) = Some (hd cs)" and t: "etype (ientries s a) = DIR_BEGINNING" and na: "a \<notin> set cs"
    by (cases cs; auto simp: dir_inv_def)+
  then show "next_segment env now s a = Some (Inr (hd cs), s)" by (simp add: next_segment_def)
  have h: "ientries ?s = (ientries s)(a := ientries s a\<lparr>pdir_cont := Some (hd cs), end_of_dir := TO_BE_CONTINUED,
      pdir_last := Some (hd cs), nbdircont := nbdircont (ientries s a) + 1\<rparr>)"
    using t by (simp add: chain_segment_def upd_entry_def)
  show sl: "slots (ientries ?s) ps = slots (ientries s) ps" for ps by (rule slots_cong) (simp add: h)
  have o: "ientries ?s p = ientries s p" if "p \<in> set cs" for p using that na by (auto simp: h)
  have "linked (ientries ?s) (a # cs) \<longleftrightarrow> linked (ientries s) (a # cs)" by (rule linked_cong) (auto simp: h c)
  moreover have "\<forall>p \<in> set (a # cs). seg_ok (ientries ?s p)"
  proof
    fix p assume "p \<in> set (a # cs)"
    then have "seg_ok (ientries s p)" using inv unfolding dir_inv_def by blast
    then show "seg_ok (ientries ?s p)" by (cases "p = a") (simp_all add: seg_ok_def h)
  qed
  moreover have "\<forall>i < length cs. cont_ok (ientries ?s) a (length cs) i (cs ! i)"
    using inv o nth_mem by (simp add: dir_inv_def cont_ok_def)
  moreover have "etype (ientries ?s a) = DIR_BEGINNING" "end_of_dir (ientries ?s a) = TO_BE_CONTINUED" using t by (simp_all add: h)
  moreover have "distinct (a # cs)" using inv by (simp add: dir_inv_def)
  ultimately show "dir_inv ?s a cs" using inv ne unfolding dir_inv_def by simp
  show "live ?s a cs = a # cs" by (simp add: live_def h)
  show "keeps L P x s ?s" by (auto simp: keeps_def h chain_segment_def upd_entry_def Let_def)
  show "cache_ok s L P xs \<Longrightarrow> cache_ok ?s L P xs" by (auto simp: cache_ok_def h) (auto simp: chain_segment_def upd_entry_def Let_def)
  show "iparents ?s = iparents s" "ht_inode ?s = ht_inode s" by (simp_all add: chain_segment_def upd_entry_def Let_def)
  show "parent_list (ientries ?s r) = parent_list (ientries s r)" by (simp add: h)
qed

text \<open>A new segment after the last one.\<close>

lemma last_segment:
  assumes inv: "dir_inv s a cs" and e: "end_of_dir (ientries s a) = END_OF_DIR \<longrightarrow> cs = []"
  defines "z \<equiv> last (a # cs)"
  shows "pdir_cont (ientries s z) = None" "end_of_dir (ientries s z) = END_OF_DIR"
    "etype (ientries s z) = DIR_BEGINNING \<and> cs = [] \<or> etype (ientries s z) = DIR_CONTINUE \<and> cs \<noteq> [] \<and> pdir_begin (ientries s z) = a
       \<and> dir_cont_pos (ientries s z) = of_nat (length cs)"
    "etype (ientries s z) = DIR_BEGINNING \<longleftrightarrow> z = a"
proof -
  from inv have t: "etype (ientries s a) = DIR_BEGINNING" and l: "linked (ientries s) (a # cs)" and d: "distinct (a # cs)" by (auto simp: dir_inv_def)
  show "pdir_cont (ientries s z) = None" unfolding z_def using l by (rule linked_last) simp
  have c: "cs \<noteq> [] \<Longrightarrow> cont_ok (ientries s) a (length cs) (length cs - 1) z"
  proof -
    assume ne: "cs \<noteq> []"
    then have "length cs - 1 < length cs" by (cases cs) simp_all
    then have "cont_ok (ientries s) a (length cs) (length cs - 1) (cs ! (length cs - 1))" using inv unfolding dir_inv_def by blast
    then show ?thesis using ne by (simp add: z_def last_conv_nth)
  qed
  show "end_of_dir (ientries s z) = END_OF_DIR"
  proof (cases "cs = []")
    case True
    then show ?thesis using inv by (auto simp: z_def dir_inv_def)
  next
    case False
    then show ?thesis using c [OF False] by (cases cs) (auto simp: cont_ok_def)
  qed
  show "etype (ientries s z) = DIR_BEGINNING \<and> cs = [] \<or> etype (ientries s z) = DIR_CONTINUE \<and> cs \<noteq> [] \<and> pdir_begin (ientries s z) = a
       \<and> dir_cont_pos (ientries s z) = of_nat (length cs)"
  proof (cases "cs = []")
    case True
    then show ?thesis using t by (simp add: z_def)
  next
    case False
    then show ?thesis using c [OF False] by (cases cs) (auto simp: cont_ok_def)
  qed
  show "etype (ientries s z) = DIR_BEGINNING \<longleftrightarrow> z = a"
  proof (cases "cs = []")
    case False
    then have "z \<in> set cs" by (simp add: z_def)
    then show ?thesis using d cont_in_dir [OF inv, of z] by auto
  qed (use t in \<open>simp add: z_def\<close>)
qed

lemma dir_inv_extend:
  assumes inv: "dir_inv s a cs" and e: "end_of_dir (ientries s a) = END_OF_DIR \<longrightarrow> cs = []" and c: "c \<notin> set (a # cs)"
    and old: "\<And>p. p \<in> set (a # cs) \<Longrightarrow> etype (h p) = etype (ientries s p) \<and> pdir_begin (h p) = pdir_begin (ientries s p)
        \<and> dir_cont_pos (h p) = dir_cont_pos (ientries s p) \<and> dir_entries (h p) = dir_entries (ientries s p) \<and> nbactive (h p) = nbactive (ientries s p)
        \<and> pdir_cont (h p) = (if p = last (a # cs) then Some c else pdir_cont (ientries s p))
        \<and> end_of_dir (h p) = (if p = last (a # cs) then TO_BE_CONTINUED else end_of_dir (ientries s p))"
    and new: "etype (h c) = DIR_CONTINUE" "pdir_begin (h c) = a" "dir_cont_pos (h c) = of_nat (Suc (length cs))" "end_of_dir (h c) = END_OF_DIR"
      "pdir_cont (h c) = None" "nbactive (h c) = 0" "dir_entries (h c) = replicate CHILDREN_ARRAY_SIZE empty_dirent"
  shows "dir_inv (s\<lparr>ientries := h\<rparr>) a (cs @ [c])"
proof -
  from inv have d: "distinct (a # cs)" and l: "linked (ientries s) (a # cs)" and ok: "\<forall>p \<in> set (a # cs). seg_ok (ientries s p)"
    and co: "\<forall>i < length cs. cont_ok (ientries s) a (length cs) i (cs ! i)" unfolding dir_inv_def by blast+
  have pc: "pdir_cont (ientries s ((a # cs) ! i)) = Some ((a # cs) ! Suc i)" if "Suc i < length (a # cs)" for i
  proof -
    obtain ps z where ps: "a # cs = ps @ [z]" by (metis list.distinct(1) rev_exhaust)
    with l that have "pdir_cont (ientries s (ps ! i)) = Some ((ps @ [z]) ! Suc i)" by (simp add: linked_snoc)
    with ps that show ?thesis by (simp add: nth_append)
  qed
  have li: "(a # cs) ! i = last (a # cs) \<longleftrightarrow> Suc i = length (a # cs)" if "i < length (a # cs)" for i
    using that nth_eq_iff_index_eq [OF d, of i "length cs"] by (auto simp: last_conv_nth)
  have "linked h ((a # cs) @ [c])"
    unfolding linked_snoc
  proof (intro conjI allI impI)
    fix i assume i: "i < length (a # cs)"
    show "pdir_cont (h ((a # cs) ! i)) = Some (((a # cs) @ [c]) ! Suc i)"
    proof (cases "Suc i = length (a # cs)")
      case True
      with old [OF nth_mem [OF i]] li [OF i] i show ?thesis by (simp add: nth_append del: nth_Cons_Suc)
    next
      case False
      with i have "Suc i < length (a # cs)" by simp
      with pc [OF this] old [OF nth_mem [OF i]] li [OF i] i False show ?thesis by (simp add: nth_append)
    qed
  qed (rule new(5))
  then have "linked h (a # cs @ [c])" by simp
  moreover have "\<forall>p \<in> set (a # cs @ [c]). seg_ok (h p)"
  proof
    fix p assume "p \<in> set (a # cs @ [c])"
    then consider "p = c" | "p \<in> set (a # cs)" by auto
    then show "seg_ok (h p)"
    proof cases
      case 2
      then have "seg_ok (ientries s p)" using ok by blast
      with old [OF 2] show ?thesis by (simp add: seg_ok_def)
    qed (use slots_empty_seg new in auto)
  qed
  moreover have "\<forall>i < length (cs @ [c]). cont_ok h a (length (cs @ [c])) i ((cs @ [c]) ! i)"
  proof (intro allI impI)
    fix i assume i: "i < length (cs @ [c])"
    show "cont_ok h a (length (cs @ [c])) i ((cs @ [c]) ! i)"
    proof (cases "i < length cs")
      case True
      with co have "cont_ok (ientries s) a (length cs) i (cs ! i)" by blast
      with True old [of "cs ! i"] li [of "Suc i"] show ?thesis by (auto simp: cont_ok_def nth_append)
    next
      case False
      with i new show ?thesis by (simp add: cont_ok_def nth_append less_Suc_eq)
    qed
  qed
  moreover have "end_of_dir (h a) = TO_BE_CONTINUED"
  proof (cases "a = last (a # cs)")
    case False
    then have "cs \<noteq> []" by auto
    with e inv have "end_of_dir (ientries s a) = TO_BE_CONTINUED" by (auto simp: dir_inv_def)
    with old [of a] show ?thesis by simp
  qed (use old [of a] in simp)
  moreover have "etype (h a) = DIR_BEGINNING" using old [of a] inv by (simp add: dir_inv_def)
  ultimately show ?thesis using d c unfolding dir_inv_def by simp
qed

lemma new_segment:
  assumes inv: "dir_inv s a cs" and ok: "cache_ok s L P xs" and env: "env_ok env" and sub: "set (a # cs) \<subseteq> L"
    and key: "keyed s a cs" and room: "length cs < 2 ^ 28 - 1" and e: "end_of_dir (ientries s a) = END_OF_DIR \<longrightarrow> cs = []"
  defines "z \<equiv> last (a # cs)"
  shows "\<exists>c s1 s2 xs'. next_segment env now s z = Some (Inr c, s1) \<and> s2 = chain_segment s1 z c \<and> c \<notin> L
     \<and> dir_inv s2 a (cs @ [c]) \<and> live s2 a (cs @ [c]) = a # cs @ [c] \<and> keyed s2 a (cs @ [c])
     \<and> slots (ientries s2) (a # cs @ [c]) = slots (ientries s) (a # cs) @ replicate 16 empty_dirent
     \<and> cache_ok s2 (insert c L) P xs' \<and> keeps L P x s s2 \<and> iparents s2 = iparents s
     \<and> (\<forall>r \<in> L. parent_list (ientries s2 r) = parent_list (ientries s r))"
proof -
  note z = last_segment [OF inv e, folded z_def]
  let ?pos = "of_nat (Suc (length cs)) :: u32"
  let ?fs = "(ehandle (ientries s a), ?pos)" and ?ini = "\<lambda>p :: addr. init_cont z a ?pos"
  from inv sub have ta: "etype (ientries s a) = DIR_BEGINNING" and aL: "a \<in> L" and zL: "z \<in> L" by (auto simp: dir_inv_def z_def)
  have fs: "(if etype (ientries s z) = DIR_BEGINNING then (ehandle (ientries s z), 1)
      else (ehandle (ientries s (pdir_begin (ientries s z))), dir_cont_pos (ientries s z) + 1)) = ?fs"
    using z(3,4) by (auto simp: z_def)
  have key0: "ht_lookup (ht_inode s) ?fs = None" using key room unfolding keyed_def by simp
  have obj: "ientries s2 = ientries s \<Longrightarrow> init_object s2 DIR_CONTINUE p (Some z) e = Some (Inr (?ini p e))" for s2 p e
    using z(3,4) by (auto simp: init_object_def z_def add.commute)
  have tgt: "valid_target (upd_entry s p (\<lambda>_. ?ini p (init_entry now DIR_CONTINUE (fst ?fs) (ientries s p\<lparr>pdir_data := d\<rparr>)))) p = Some a \<and> a \<in> insert p L"
    if "p \<notin> L" for p d using that aL ta by (auto simp: valid_target_def upd_entry_def init_cont_def init_entry_def)
  from new_entry_ok [OF ok env key0, of False DIR_CONTINUE "Some z" ?ini now "\<lambda>_. a", OF _ obj _ tgt] obtain c s1 d q xs' h where
    ne: "cache_inode_new_entry env now s ?fs False DIR_CONTINUE (Some z) = Some (Some c, CACHE_INODE_SUCCESS, s1)"
    and c: "c \<notin> L" and ok1: "cache_ok s1 (insert c L) P xs'" and par: "iparents s1 = iparents s"
    and ht: "ht_lookup (ht_inode s1) = (ht_lookup (ht_inode s))(?fs \<mapsto> c)"
    and h: "h = (ientries s)(c := ?ini c (init_entry now DIR_CONTINUE (fst ?fs) (ientries s c\<lparr>pdir_data := d\<rparr>)))"
      "ientries s1 = h(a := valid_stamp now CACHE_INODE_OP_GET q (h a))" by (auto simp: init_cont_def)
  have ns: "next_segment env now s z = Some (Inr c, s1)" using z(1) fs ne by (simp add: next_segment_def Let_def)
  define s2 where "s2 = chain_segment s1 z c"
  have ca: "c \<noteq> a" "c \<noteq> z" using c aL zL by auto
  have i1: "ientries s1 p = (if p = a then valid_stamp now CACHE_INODE_OP_GET q (ientries s a) else h p)" for p using h ca by auto
  have tz: "etype (ientries s1 z) = etype (ientries s z)" "pdir_begin (ientries s1 z) = pdir_begin (ientries s z)"
    using ca h by (auto simp: i1 valid_stamp_def)
  have i2: "ientries s2 = (ientries s1)(z := ientries s1 z\<lparr>pdir_cont := Some c, end_of_dir := TO_BE_CONTINUED\<rparr>,
      a := ((ientries s1)(z := ientries s1 z\<lparr>pdir_cont := Some c, end_of_dir := TO_BE_CONTINUED\<rparr>)) a\<lparr>pdir_last := Some c, nbdircont := nbdircont (ientries s1 a) + 1\<rparr>)"
    using z(3,4) tz by (auto simp: s2_def chain_segment_def upd_entry_def Let_def)
  have rest: "iparents s2 = iparents s1" "ht_inode s2 = ht_inode s1" "imem s2 = imem s1" "pool_entry s2 = pool_entry s1" "pool_parent s2 = pool_parent s1"
    "ilheap s2 = ilheap s1" "lru_gc s2 = lru_gc s1" by (simp_all add: s2_def chain_segment_def upd_entry_def Let_def)
  have old: "etype (ientries s2 p) = etype (ientries s p) \<and> pdir_begin (ientries s2 p) = pdir_begin (ientries s p)
      \<and> dir_cont_pos (ientries s2 p) = dir_cont_pos (ientries s p) \<and> dir_entries (ientries s2 p) = dir_entries (ientries s p)
      \<and> nbactive (ientries s2 p) = nbactive (ientries s p)
      \<and> pdir_cont (ientries s2 p) = (if p = z then Some c else pdir_cont (ientries s p))
      \<and> end_of_dir (ientries s2 p) = (if p = z then TO_BE_CONTINUED else end_of_dir (ientries s p))
      \<and> ehandle (ientries s2 p) = ehandle (ientries s p) \<and> has_been_readdir (ientries s2 p) = has_been_readdir (ientries s p)
      \<and> (validst (ientries s p) = VALID \<longrightarrow> validst (ientries s2 p) = VALID) \<and> parent_list (ientries s2 p) = parent_list (ientries s p)" if "p \<noteq> c" for p
    using that ca by (auto simp: i2 i1 h(1) valid_stamp_def)
  have new: "ientries s2 c = ?ini c (init_entry now DIR_CONTINUE (fst ?fs) (ientries s c\<lparr>pdir_data := d\<rparr>))"
    using ca by (simp add: i2 i1 h(1))
  have ccs: "c \<notin> set (a # cs)" using c sub by auto
  have di: "dir_inv (s\<lparr>ientries := ientries s2\<rparr>) a (cs @ [c])"
  proof (rule dir_inv_extend [OF inv e ccs])
    fix p assume "p \<in> set (a # cs)"
    with ccs have "p \<noteq> c" by auto
    from old [OF this] show "etype (ientries s2 p) = etype (ientries s p) \<and> pdir_begin (ientries s2 p) = pdir_begin (ientries s p)
        \<and> dir_cont_pos (ientries s2 p) = dir_cont_pos (ientries s p) \<and> dir_entries (ientries s2 p) = dir_entries (ientries s p) \<and> nbactive (ientries s2 p) = nbactive (ientries s p)
        \<and> pdir_cont (ientries s2 p) = (if p = last (a # cs) then Some c else pdir_cont (ientries s p))
        \<and> end_of_dir (ientries s2 p) = (if p = last (a # cs) then TO_BE_CONTINUED else end_of_dir (ientries s p))"
      unfolding z_def by blast
  qed (simp_all add: new init_cont_def init_entry_def)
  then have inv2: "dir_inv s2 a (cs @ [c])" by (simp add: dir_inv_def)
  have "end_of_dir (ientries s2 a) \<noteq> END_OF_DIR" using inv2 old [OF ca(1) [symmetric]] e by (cases "cs = []") (auto simp: z_def)
  then have lv: "live s2 a (cs @ [c]) = a # cs @ [c]" by (simp add: live_def)
  have "slots (ientries s2) (a # cs) = slots (ientries s) (a # cs)"
  proof (rule slots_cong)
    fix p assume "p \<in> set (a # cs)"
    with ccs have "p \<noteq> c" by auto
    from old [OF this] show "dir_entries (ientries s2 p) = dir_entries (ientries s p)" by blast
  qed
  moreover have "dir_entries (ientries s2 c) = replicate 16 empty_dirent" by (simp add: new init_cont_def CHILDREN_ARRAY_SIZE_def)
  ultimately have sl: "slots (ientries s2) (a # cs @ [c]) = slots (ientries s) (a # cs) @ replicate 16 empty_dirent" by simp
  have "gc_lru_entry (ientries s2 p) = gc_lru_entry (ientries s1 p)" for p by (simp add: i2)
  then have ok2: "cache_ok s2 (insert c L) P xs'" using ok1 by (simp add: cache_ok_def rest)
  have "keyed s2 a (cs @ [c])"
    unfolding keyed_def
  proof (intro conjI allI impI)
    fix i :: nat assume i: "i < 2 ^ 28"
    show "ht_lookup (ht_inode s2) (ehandle (ientries s2 a), of_nat (Suc i)) = (if i < length (cs @ [c]) then Some ((cs @ [c]) ! i) else None)"
    proof (cases "i = length cs")
      case True
      then show ?thesis using old [OF ca(1) [symmetric]] by (simp add: rest ht)
    next
      case False
      then have "(of_nat (Suc i) :: u32) \<noteq> ?pos" using i room by (subst of_nat_eq_small) auto
      then show ?thesis using False old [OF ca(1) [symmetric]] key i by (simp add: rest ht keyed_def nth_append less_Suc_eq)
    qed
  qed (use room in simp)
  moreover have oldL: "\<And>r. r \<in> L \<Longrightarrow> r \<noteq> c" using c by auto
  have "?pos \<noteq> 0" using room of_nat_eq_small [of "Suc (length cs)" 0] by (simp del: of_nat_Suc)
  then have "keeps L P x s s2" unfolding keeps_def using old [OF oldL] by (simp add: rest par ht)
  moreover have "\<forall>r \<in> L. parent_list (ientries s2 r) = parent_list (ientries s r)" using old [OF oldL] by blast
  ultimately show ?thesis using ns s2_def c inv2 lv sl ok2 rest(1) par by auto
qed

subsection \<open>The whole addition\<close>

lemma keyed_cong:
  "keyed s a cs \<Longrightarrow> ht_inode s' = ht_inode s \<Longrightarrow> ehandle (ientries s' a) = ehandle (ientries s a) \<Longrightarrow> keyed s' a cs"
  by (simp add: keyed_def)

lemma slots_drop: "\<forall>p \<in> set ps. seg_ok (h p) \<Longrightarrow> k \<le> length ps \<Longrightarrow> slots h (drop k ps) = drop (16 * k) (slots h ps)"
proof (induction ps arbitrary: k)
  case (Cons a ps)
  then show ?case by (cases k) (auto simp: seg_ok_D(1))
qed simp

text \<open>
  The search starts at the segment number \<open>k\<close>.  The new entry is at \<open>n\<close>, the first free place from there on in the
  array that may have grown by one segment.
\<close>

definition added :: "icache \<Rightarrow> icache \<Rightarrow> addr \<Rightarrow> addr list \<Rightarrow> addr list \<Rightarrow> nat \<Rightarrow> addr \<Rightarrow> fsal_name \<Rightarrow> nat \<Rightarrow> bool" where
  "added s s' a cs cs' k x nm n \<longleftrightarrow> (\<exists>r. slots (ientries s') (a # cs') = (slots (ientries s) (a # cs) @ replicate r empty_dirent)[n := new_dirent x nm]
     \<and> n < length (slots (ientries s) (a # cs)) + r \<and> \<not> act ((slots (ientries s) (a # cs) @ replicate r empty_dirent) ! n)
     \<and> 16 * k \<le> n \<and> (\<forall>j. 16 * k \<le> j \<longrightarrow> j < n \<longrightarrow> act ((slots (ientries s) (a # cs) @ replicate r empty_dirent) ! j)))"

lemma not_act_empty [simp]: "\<not> act empty_dirent"
  by (simp add: act_def empty_dirent_def)

lemma add_dirent_ok:
  assumes inv: "dir_inv s a cs" and ok: "cache_ok s L P xs" and env: "env_ok env" and sub: "set (a # cs) \<subseteq> L"
    and key: "keyed s a cs" and room: "length cs < 2 ^ 28 - 1" and k: "k < length (live s a cs)"
    and ls: "links s x ls" and lsP: "set ls \<subseteq> P" and x: "x \<in> L"
  shows "\<exists>s' n cs' L' q xs'. cache_inode_add_cached_dirent env now s (Some (live s a cs ! k)) (Some nm) x = Some (CACHE_INODE_SUCCESS, Some ((a # cs') ! (n div 16)), s')
     \<and> cache_ok s' L' (insert q P) xs' \<and> L \<subseteq> L' \<and> set (a # cs') \<subseteq> L' \<and> q \<notin> P \<and> dir_inv s' a cs' \<and> keyed s' a cs' \<and> length cs' \<le> Suc (length cs) \<and> take (length cs) cs' = cs
     \<and> links s' x (q # ls) \<and> place s' q = ((a # cs') ! (n div 16), n mod 16) \<and> keeps L P x s s' \<and> n < 16 * length (live s' a cs')
     \<and> added s s' a cs cs' k x nm n"
proof -
  note L = dir_inv_live [OF inv]
  let ?S = "slots (ientries s) (a # cs)" and ?V = "live s a cs" and ?free = "\<lambda>d. \<not> act d"
  have "\<exists>zs. a # cs = ?V @ zs" by (auto simp: live_def)
  then obtain zs where zs: "a # cs = ?V @ zs" ..
  have nthV: "?V ! i = (a # cs) ! i" if "i < length ?V" for i using zs that by (simp add: nth_append)
  have dV: "slots (ientries s) (drop k ?V) = drop (16 * k) (slots (ientries s) ?V)" using L(2) k by (intro slots_drop) auto
  have lenV: "length (slots (ientries s) ?V) = 16 * length ?V" using L(2) by (rule length_slots)
  have "hd (drop k ?V) = ?V ! k" using k by (simp add: hd_drop_conv_nth)
  moreover have "\<forall>p \<in> set (drop k ?V). seg_ok (ientries s p)" using L(2) by (auto dest: in_set_dropD)
  ultimately have sk: "seek_slot s (Some (?V ! k)) = Some (case index_of ?free (drop (16 * k) (slots (ientries s) ?V)) of
      None \<Rightarrow> Full (last ?V) | Some m \<Rightarrow> Slot (drop k ?V ! (m div 16)) (m mod 16))"
    using seek_slot_ok [OF lchain_drop [OF L(1) k]] last_drop [OF k] by (simp add: dV split: option.splits)
  have dir: "is_dir_entry (ientries s (?V ! k))" using lchain_drop [OF L(1) k] k by (cases "drop k ?V") (auto simp: nth_via_drop)
  let ?add = "cache_inode_add_cached_dirent env now s (Some (?V ! k)) (Some nm) x"
  have aL: "a \<in> L" using sub by simp
  show ?thesis
  proof (cases "index_of ?free (drop (16 * k) (slots (ientries s) ?V))")
    case (Some m)
    let ?n = "16 * k + m"
    note im = index_of_Some [OF Some]
    have n: "?n < 16 * length ?V" using conjunct1 [OF im] lenV k by simp
    have nth: "?S ! j = slots (ientries s) ?V ! j" if "j < 16 * length ?V" for j using nth_live(1) [OF inv that] .
    have place: "drop k ?V ! (m div 16) = ?V ! (?n div 16)" "?n mod 16 = m mod 16" using n k by simp_all
    have free: "\<not> act (?S ! ?n)" using nth [OF n] im lenV k by simp
    from fill_slot_ok [OF inv ok env n free refl ls lsP, of nm] obtain s' q where
      f: "fill_slot env s (?V ! (?n div 16)) (?n mod 16) (Some nm) x = (CACHE_INODE_SUCCESS, Some (?V ! (?n div 16)), s')" "q \<notin> P"
        "cache_ok s' L (insert q P) xs" "dir_inv s' a cs" "live s' a cs = ?V" "slots (ientries s') (a # cs) = ?S[?n := new_dirent x nm]"
        "links s' x (q # ls)" "place s' q = (?V ! (?n div 16), ?n mod 16)" "keeps L P x s s'" "ht_inode s' = ht_inode s" by blast
    have add: "?add = Some (CACHE_INODE_SUCCESS, Some (?V ! (?n div 16)), s')"
      using sk Some dir f(1) unfolding cache_inode_add_cached_dirent_def by (simp add: place)
    have "added s s' a cs cs k x nm ?n"
      unfolding added_def
    proof (rule exI [of _ 0], intro conjI allI impI)
      show "act ((?S @ replicate 0 empty_dirent) ! j)" if "16 * k \<le> j" "j < ?n" for j
        using im nth [of j] that n lenV k le_Suc_ex [OF that(1)] by auto
      show "?n < length ?S + 0" using n lenV arg_cong [OF zs, of "\<lambda>l. length (slots (ientries s) l)"] by simp
    qed (use f(6) free in simp_all)
    moreover have "keyed s' a cs" using keyed_cong [OF key f(10)] f(9) aL by (auto simp: keeps_def)
    moreover have "(a # cs) ! (?n div 16) = ?V ! (?n div 16)" using n by (intro nthV [symmetric]) simp
    ultimately show ?thesis using add f n sub
      by (intro exI [of _ s'] exI [of _ ?n] exI [of _ cs] exI [of _ L] exI [of _ q] exI [of _ xs]) simp
  next
    case None
    then have allact: "\<forall>d \<in> set (drop (16 * k) (slots (ientries s) ?V)). act d" by (simp add: index_of_None)
    have act: "act (?S ! j)" if "16 * k \<le> j" "j < 16 * length ?V" for j
    proof -
      have "drop (16 * k) (slots (ientries s) ?V) ! (j - 16 * k) \<in> set (drop (16 * k) (slots (ientries s) ?V))"
        using that lenV by (intro nth_mem) simp
      then show ?thesis using allact nth_live(1) [OF inv that(2)] that lenV by simp
    qed
    have "\<exists>s2 cs' L' xs' r. ?add = Some (fill_slot env s2 ((a # cs') ! length ?V) 0 (Some nm) x)
       \<and> dir_inv s2 a cs' \<and> live s2 a cs' = a # cs' \<and> slots (ientries s2) (a # cs') = ?S @ replicate r empty_dirent
       \<and> length ?V < length (a # cs') \<and> (length cs' \<le> Suc (length cs) \<and> take (length cs) cs' = cs) \<and> cache_ok s2 L' P xs' \<and> L \<subseteq> L' \<and> set (a # cs') \<subseteq> L'
       \<and> keyed s2 a cs' \<and> keeps L P x s s2 \<and> links s2 x ls \<and> \<not> act ((?S @ replicate r empty_dirent) ! (16 * length ?V))"
    proof (cases "end_of_dir (ientries s a) = END_OF_DIR \<and> cs \<noteq> []")
      case True
      then have V: "?V = [a]" by (simp add: live_def)
      note ru = reuse_segment [OF inv conjunct1 [OF True] conjunct2 [OF True]]
      have "?add = Some (fill_slot env (chain_segment s a (hd cs)) ((a # cs) ! length ?V) 0 (Some nm) x)"
        using sk None dir ru(1) True unfolding cache_inode_add_cached_dirent_def by (simp add: V hd_conv_nth)
      moreover have "links (chain_segment s a (hd cs)) x ls" using ls ru(7,9) by (simp add: links_def)
      moreover have "keyed (chain_segment s a (hd cs)) a cs" using keyed_cong [OF key ru(8)] ru(5) [of L P x] aL by (auto simp: keeps_def)
      moreover have "\<not> act (?S ! 16)"
      proof -
        have la: "length (dir_entries (ientries s a)) = 16" using L(2) V seg_ok_D(1) by simp
        have "\<forall>p \<in> set cs. seg_ok (ientries s p)" using inv by (simp add: dir_inv_def)
        from length_slots [OF this] True have "slots (ientries s) cs \<noteq> []" by auto
        then have "slots (ientries s) cs ! 0 \<in> set (slots (ientries s) cs)" by (intro nth_mem) simp
        moreover have "\<forall>d \<in> set (slots (ientries s) cs). \<not> act d" using inv True by (auto simp: dir_inv_def)
        ultimately show ?thesis using la by (simp add: nth_append)
      qed
      ultimately show ?thesis using ru(2,3,4,5) ru(6) [OF ok] V True sub
        by (intro exI [of _ "chain_segment s a (hd cs)"] exI [of _ cs] exI [of _ L] exI [of _ xs] exI [of _ 0]) (auto simp del: slots_simps)
    next
      case False
      then have e: "end_of_dir (ientries s a) = END_OF_DIR \<longrightarrow> cs = []" by blast
      then have V: "?V = a # cs" by (auto simp: live_def)
      from new_segment [OF inv ok env sub key room e, of now x] obtain c s1 s2 xs' where
        ns: "next_segment env now s (last (a # cs)) = Some (Inr c, s1)" "s2 = chain_segment s1 (last (a # cs)) c" "c \<notin> L"
          "dir_inv s2 a (cs @ [c])" "live s2 a (cs @ [c]) = a # cs @ [c]" "keyed s2 a (cs @ [c])"
          "slots (ientries s2) (a # cs @ [c]) = ?S @ replicate 16 empty_dirent" "cache_ok s2 (insert c L) P xs'" "keeps L P x s s2"
          "iparents s2 = iparents s" "\<forall>r \<in> L. parent_list (ientries s2 r) = parent_list (ientries s r)" by blast
      have "?add = Some (fill_slot env s2 ((a # cs @ [c]) ! length ?V) 0 (Some nm) x)"
        using sk None dir ns(1,2) unfolding cache_inode_add_cached_dirent_def by (simp add: V nth_append)
      moreover have "links s2 x ls" using ls ns(10,11) x by (simp add: links_def)
      moreover have "\<not> act ((?S @ replicate 16 empty_dirent) ! (16 * length ?V))"
        using lenV V by (simp add: nth_append del: slots_simps)
      ultimately show ?thesis using ns(4-9) V sub
        by (intro exI [of _ s2] exI [of _ "cs @ [c]"] exI [of _ "insert c L"] exI [of _ xs'] exI [of _ 16]) (auto simp del: slots_simps)
    qed
    then obtain s2 cs' L' xs' r where add: "?add = Some (fill_slot env s2 ((a # cs') ! length ?V) 0 (Some nm) x)"
      and i2: "dir_inv s2 a cs'" "live s2 a cs' = a # cs'" "slots (ientries s2) (a # cs') = ?S @ replicate r empty_dirent"
        "length ?V < length (a # cs')" "length cs' \<le> Suc (length cs) \<and> take (length cs) cs' = cs" "cache_ok s2 L' P xs'" "L \<subseteq> L'" "set (a # cs') \<subseteq> L'"
        "keyed s2 a cs'" "keeps L P x s s2" "links s2 x ls" "\<not> act ((?S @ replicate r empty_dirent) ! (16 * length ?V))" by blast
    let ?n = "16 * length ?V"
    have n: "?n < 16 * length (live s2 a cs')" using i2(2,4) by simp
    from fill_slot_ok [OF i2(1,6) env n _ _ i2(11) lsP, of "(a # cs') ! length ?V" nm] obtain s' q where
      f: "fill_slot env s2 ((a # cs') ! length ?V) 0 (Some nm) x = (CACHE_INODE_SUCCESS, Some ((a # cs') ! length ?V), s')" "q \<notin> P"
        "cache_ok s' L' (insert q P) xs'" "dir_inv s' a cs'" "live s' a cs' = live s2 a cs'"
        "slots (ientries s') (a # cs') = (?S @ replicate r empty_dirent)[?n := new_dirent x nm]"
        "links s' x (q # ls)" "place s' q = ((a # cs') ! length ?V, 0)" "keeps L' P x s2 s'" "ht_inode s' = ht_inode s2"
      using i2(2,3,12) by auto
    have "length (?S @ replicate r empty_dirent) = 16 * length (a # cs')"
      using length_slots [of "a # cs'" "ientries s2"] i2(1,3) unfolding dir_inv_def by (metis)
    then have ad: "added s s' a cs cs' k x nm ?n"
      unfolding added_def
    proof (intro exI [of _ r] conjI allI impI)
      assume len: "length (?S @ replicate r empty_dirent) = 16 * length (a # cs')"
      then show "?n < length ?S + r" using i2(4) by simp
      have "?n \<le> length ?S" using lenV arg_cong [OF zs, of "\<lambda>l. length (slots (ientries s) l)"] by simp
      then show "act ((?S @ replicate r empty_dirent) ! j)" if "16 * k \<le> j" "j < ?n" for j
        using act [OF that] that by (simp add: nth_append del: slots_simps)
      show "16 * k \<le> ?n" using k by simp
    qed (use f(6) i2(12) in simp_all)
    have "keeps L P x s s'" using dir_keeps_trans [OF i2(10) f(9) i2(7)] by simp
    moreover have "keyed s' a cs'" using keyed_cong [OF i2(9) f(10)] f(9) i2(8) by (auto simp: keeps_def)
    ultimately show ?thesis using add f i2 ad n
      by (intro exI [of _ s'] exI [of _ ?n] exI [of _ cs'] exI [of _ L'] exI [of _ q] exI [of _ xs']) simp
  qed
qed

end
