(* ===== verification/Dir_Read.thy ===== *)
theory Dir_Read
  imports Dir_Add
begin

text \<open>
  Reading a cached directory: what a window returns, that the windows together list the directory, and what a directory
  filled from the file system contains.
\<close>

subsection \<open>Windows of a list\<close>

text \<open>
  The window of at most \<open>w\<close> active entries of the list from the position \<open>n\<close> on: the entries with their positions,
  the position after the last place that was looked at, and whether that was the end.
\<close>

fun window :: "nat \<Rightarrow> nat \<Rightarrow> dir_entry list \<Rightarrow> (dir_entry \<times> u32) list \<times> nat \<times> bool" where
  "window w n [] = ([], n, True)"
| "window w n (d # ds) =
     (if w = 0 then ([], n, False)
      else let out = (if act d then [(d, of_nat n)] else [])
           in if ds = [] then (out, Suc n, True)
              else case window (if act d then w - 1 else w) (Suc n) ds of (rest, e, b) \<Rightarrow> (out @ rest, e, b))"

lemma window_spec:
  assumes "window w n ds = (out, e, b)"
  shows "map fst out @ filter act (drop (e - n) ds) = filter act ds \<and> n \<le> e \<and> e \<le> n + length ds \<and> length out \<le> w
     \<and> (b \<longleftrightarrow> e = n + length ds \<or> ds = []) \<and> (\<not> b \<longrightarrow> length out = w) \<and> (ds \<noteq> [] \<longrightarrow> 0 < w \<longrightarrow> n < e)"
  using assms
proof (induction w n ds arbitrary: out e b rule: window.induct)
  case (2 w n d ds)
  show ?case
  proof (cases "w = 0 \<or> ds = []")
    case True
    with 2(2) show ?thesis by (auto split: if_splits)
  next
    case False
    obtain rest e' b' where r: "window (if act d then w - 1 else w) (Suc n) ds = (rest, e', b')"
      by (cases "window (if act d then w - 1 else w) (Suc n) ds")
    from False r 2(2) have o: "out = (if act d then [(d, of_nat n)] else []) @ rest" "e' = e" "b' = b" by auto
    from False 2(1) [OF _ refl _ r] have IH: "map fst rest @ filter act (drop (e - Suc n) ds) = filter act ds" "Suc n \<le> e" "e \<le> Suc n + length ds"
      "length rest \<le> (if act d then w - 1 else w)" "b \<longleftrightarrow> e = Suc n + length ds \<or> ds = []" "\<not> b \<longrightarrow> length rest = (if act d then w - 1 else w)"
      by (auto simp: o)
    from IH(2) have "e - n = Suc (e - Suc n)" by simp
    then have "drop (e - n) (d # ds) = drop (e - Suc n) ds" by simp
    with IH False show ?thesis by (auto simp: o)
  qed
qed simp

lemma window_cookies:
  assumes "window w n ds = (out, e, b)" and "n + length ds \<le> 2 ^ 32" and "(d, c) \<in> set out"
  shows "n \<le> unat c \<and> unat c < e \<and> ds ! (unat c - n) = d \<and> act d"
  using assms
proof (induction w n ds arbitrary: out e b rule: window.induct)
  case (2 w n x ds)
  have u: "unat (of_nat n :: u32) = n" using "2.prems"(2) by (intro unat_of_nat_small32) simp
  show ?case
  proof (cases "w = 0 \<or> ds = []")
    case True
    with 2(2,4) u show ?thesis by (auto split: if_splits)
  next
    case False
    obtain rest e' b' where r: "window (if act x then w - 1 else w) (Suc n) ds = (rest, e', b')"
      by (cases "window (if act x then w - 1 else w) (Suc n) ds")
    from False r 2(2) have o: "out = (if act x then [(x, of_nat n)] else []) @ rest" "e' = e" by auto
    have e: "n < e" using window_spec [OF r] o(2) by simp
    show ?thesis
    proof (cases "(d, c) \<in> set rest")
      case True
      from False 2(1) [OF _ refl _ r _ True] 2(3) have "Suc n \<le> unat c \<and> unat c < e \<and> ds ! (unat c - Suc n) = d \<and> act d" by (auto simp: o(2))
      then show ?thesis by (auto simp: nth_Cons' )
    next
      case F: False
      with 2(4) o have "d = x" "c = of_nat n" "act x" by (auto split: if_splits)
      with u e show ?thesis by simp
    qed
  qed
qed simp

subsection \<open>The loops of readdir\<close>

lemma lchain_nth:
  assumes "lchain h ps" and "i < length ps"
  shows "is_dir_entry (h (ps ! i))" "end_of_dir (h (ps ! i)) = END_OF_DIR \<longleftrightarrow> Suc i = length ps"
    "Suc i < length ps \<Longrightarrow> pdir_cont (h (ps ! i)) = Some (ps ! Suc i)"
proof -
  from lchain_drop [OF assms] have l: "lchain h (ps ! i # drop (Suc i) ps)" using assms(2) by (simp add: Cons_nth_drop_Suc)
  then show "is_dir_entry (h (ps ! i))" by simp
  show "end_of_dir (h (ps ! i)) = END_OF_DIR \<longleftrightarrow> Suc i = length ps" using l assms(2) by (auto split: if_splits)
  show "Suc i < length ps \<Longrightarrow> pdir_cont (h (ps ! i)) = Some (ps ! Suc i)" using l by (auto simp: hd_drop_conv_nth split: if_splits)
qed

lemma live_cont:
  assumes "dir_inv s a cs" and "0 < i" and "i < length (live s a cs)"
  shows "etype (ientries s (live s a cs ! i)) = DIR_CONTINUE" "dir_cont_pos (ientries s (live s a cs ! i)) = of_nat i"
proof -
  from assms(2,3) have l: "live s a cs = a # cs" by (auto simp: live_def split: if_splits)
  from assms(2) obtain j where i: "i = Suc j" by (cases i) auto
  with l assms(1,3) have "cont_ok (ientries s) a (length cs) j (cs ! j)" by (simp add: dir_inv_def)
  then show "etype (ientries s (live s a cs ! i)) = DIR_CONTINUE" "dir_cont_pos (ientries s (live s a cs ! i)) = of_nat i"
    by (simp_all add: l i cont_ok_def)
qed

lemma readdir_locate_ok:
  assumes inv: "dir_inv s a cs" and small: "16 * length (live s a cs) < 2 ^ 32"
    and i: "i < length (live s a cs)" and c: "16 * i \<le> unat c"
  shows "readdir_locate s c (of_nat (16 * i)) (live s a cs ! i)
     = Some (if unat c < 16 * length (live s a cs) then (False, live s a cs ! (unat c div 16)) else (True, last (live s a cs)))"
  using i c
proof (induction "length (live s a cs) - i" arbitrary: i)
  case (Suc m)
  let ?V = "live s a cs"
  note L = dir_inv_live [OF inv]
  have u: "unat (of_nat (16 * i) :: u32) = 16 * i" using Suc.prems(1) small by (intro unat_of_nat_small32) simp
  have "unat (c - of_nat (16 * i)) = unat c - 16 * i" using Suc.prems(2) u by (simp add: unat_sub word_le_nat_alt)
  then have ge: "of_nat CHILDREN_ARRAY_SIZE \<le> c - of_nat (16 * i) \<longleftrightarrow> 16 \<le> unat c - 16 * i"
    by (simp add: word_le_nat_alt CHILDREN_ARRAY_SIZE_def)
  have d: "dir_at s (Some (?V ! i)) = Some (?V ! i, ientries s (?V ! i))" using lchain_nth(1) [OF L(1) Suc.prems(1)] by (simp add: dir_at_def)
  show ?case
  proof (cases "16 \<le> unat c - 16 * i")
    case False
    then have "unat c div 16 = i" "unat c < 16 * length ?V" using Suc.prems by auto
    then show ?thesis using False ge by (subst readdir_locate.simps) simp
  next
    case True
    show ?thesis
    proof (cases "Suc i = length ?V")
      case last: True
      then have "last ?V = ?V ! i" using L(5) by (metis diff_Suc_1 last_conv_nth)
      moreover have "\<not> unat c < 16 * length ?V" using True last [symmetric] by simp
      ultimately show ?thesis using True ge d lchain_nth(2) [OF L(1) Suc.prems(1)] last by (subst readdir_locate.simps) simp
    next
      case False
      then have i': "Suc i < length ?V" using Suc.prems(1) by simp
      have "cont_at s (Some (?V ! Suc i)) = Some (?V ! Suc i, ientries s (?V ! Suc i))" using live_cont [OF inv _ i'] by (simp add: cont_at_def)
      then have "readdir_locate s c (of_nat (16 * i)) (?V ! i) = readdir_locate s c (of_nat (Suc i) * of_nat CHILDREN_ARRAY_SIZE) (?V ! Suc i)"
        using True ge d lchain_nth(2,3) [OF L(1) Suc.prems(1)] i' False live_cont(2) [OF inv _ i'] by (subst readdir_locate.simps) simp
      moreover have "of_nat (Suc i) * of_nat CHILDREN_ARRAY_SIZE = (of_nat (16 * Suc i) :: u32)"
        by (simp only: CHILDREN_ARRAY_SIZE_def of_nat_mult [symmetric] mult.commute)
      moreover have "readdir_locate s c (of_nat (16 * Suc i)) (?V ! Suc i)
         = Some (if unat c < 16 * length ?V then (False, ?V ! (unat c div 16)) else (True, last ?V))"
        using True Suc.prems Suc.hyps(2) i' by (intro Suc.hyps(1)) simp_all
      ultimately show ?thesis by simp
    qed
  qed
qed simp

lemma mod_add_one_u32:
  assumes "Suc n < 2 ^ 32"
  shows "(of_nat n + 1 :: u32) = of_nat (Suc n)" "(of_nat (Suc n) :: u32) mod of_nat CHILDREN_ARRAY_SIZE = 0 \<longleftrightarrow> Suc n mod 16 = 0"
    "unat ((of_nat n :: u32) mod of_nat CHILDREN_ARRAY_SIZE) = n mod 16"
proof -
  show "(of_nat n + 1 :: u32) = of_nat (Suc n)" by (simp add: add.commute)
  have m: "unat ((of_nat k :: u32) mod of_nat CHILDREN_ARRAY_SIZE) = k mod 16" if "k < 2 ^ 32" for k
    unfolding unat_mod unat_of_nat_small32 [OF that] by (simp add: CHILDREN_ARRAY_SIZE_def)
  show "(of_nat (Suc n) :: u32) mod of_nat CHILDREN_ARRAY_SIZE = 0 \<longleftrightarrow> Suc n mod 16 = 0"
    using m [OF assms] by (metis unat_eq_zero)
  show "unat ((of_nat n :: u32) mod of_nat CHILDREN_ARRAY_SIZE) = n mod 16" using m [of n] assms by simp
qed

lemma readdir_fill_ok:
  assumes inv: "dir_inv s a cs" and small: "16 * length (live s a cs) < 2 ^ 32" and n: "n < 16 * length (live s a cs)"
  shows "\<exists>out e b q. window (unat nbw - unat i) n (drop n (slots (ientries s) (live s a cs))) = (out, e, b)
     \<and> readdir_fill s nbw i (of_nat n) (Some (live s a cs ! (n div 16))) acc = Some (acc @ out, of_nat e, b, q)
     \<and> (\<not> b \<longrightarrow> q = Some (live s a cs ! (e div 16)) \<and> e < 16 * length (live s a cs))"
  using n
proof (induction "16 * length (live s a cs) - n" arbitrary: n i acc)
  case (Suc m)
  let ?V = "live s a cs" and ?S = "slots (ientries s) (live s a cs)"
  note L = dir_inv_live [OF inv]
  have lenS: "length ?S = 16 * length ?V" using L(2) by (rule length_slots)
  have k: "n div 16 < length ?V" using Suc.prems by simp
  note lc = lchain_nth [OF L(1) k] and u = mod_add_one_u32 [of n]
  have u: "(of_nat n + 1 :: u32) = of_nat (Suc n)" "(of_nat (Suc n) :: u32) mod of_nat CHILDREN_ARRAY_SIZE = 0 \<longleftrightarrow> Suc n mod 16 = 0"
    "unat ((of_nat n :: u32) mod of_nat CHILDREN_ARRAY_SIZE) = n mod 16"
    using mod_add_one_u32 [of n] Suc.prems small by auto
  have dS: "drop n ?S = ?S ! n # drop (Suc n) ?S" using Suc.prems lenS by (simp add: Cons_nth_drop_Suc)
  have d: "dir_entries (ientries s (?V ! (n div 16))) ! (n mod 16) = ?S ! n" using nth_slots [OF L(2) Suc.prems] by simp
  have at: "dir_at s (Some (?V ! (n div 16))) = Some (?V ! (n div 16), ientries s (?V ! (n div 16)))" using lc(1) by (simp add: dir_at_def)
  show ?case
  proof (cases "i < nbw")
    case False
    then have "unat nbw - unat i = 0" by (simp add: word_less_nat_alt)
    with False Suc.prems dS show ?thesis by (subst readdir_fill.simps) auto
  next
    case True
    then have w: "0 < unat nbw - unat i" by (simp add: word_less_nat_alt)
    let ?d = "?S ! n"
    let ?acc = "if act ?d then acc @ [(?d, of_nat n)] else acc" and ?i = "if act ?d then i + 1 else i"
    have "unat nbw < 2 ^ 32" using unsigned_less [of nbw] by simp
    with True have "Suc (unat i) < 2 ^ 32" unfolding word_less_nat_alt by linarith
    then have "unat (i + 1) = Suc (unat i)" by (simp add: unat_word_ariths)
    then have wi: "unat nbw - unat ?i = (if act ?d then unat nbw - unat i - 1 else unat nbw - unat i)" by simp
    have unf: "readdir_fill s nbw i (of_nat n) (Some (?V ! (n div 16))) acc =
        (if Suc n mod 16 = 0
         then (if end_of_dir (ientries s (?V ! (n div 16))) = END_OF_DIR then Some (?acc, of_nat (Suc n), True, Some (?V ! (n div 16)))
               else readdir_fill s nbw ?i (of_nat (Suc n)) (pdir_cont (ientries s (?V ! (n div 16)))) ?acc)
         else readdir_fill s nbw ?i (of_nat (Suc n)) (Some (?V ! (n div 16))) ?acc)"
      using True at d by (subst readdir_fill.simps) (simp only: u act_def [symmetric] Let_def if_True bind.bind_lunit prod.case)
    show ?thesis
    proof (cases "Suc n = 16 * length ?V")
      case True': True
      then have m0: "Suc n mod 16 = 0" "Suc (n div 16) = length ?V" by presburger+
      have "drop (Suc n) ?S = []" using True' lenS by simp
      then show ?thesis unfolding unf using w dS m0 lc(2) by auto
    next
      case False
      then have n': "Suc n < 16 * length ?V" using Suc.prems by simp
      have ne: "drop (Suc n) ?S \<noteq> []" using n' lenS by simp
      have step: "readdir_fill s nbw i (of_nat n) (Some (?V ! (n div 16))) acc = readdir_fill s nbw ?i (of_nat (Suc n)) (Some (?V ! (Suc n div 16))) ?acc"
      proof (cases "Suc n mod 16 = 0")
        case m0: True
        then have sd: "Suc n div 16 = Suc (n div 16)" by (simp add: div_Suc)
        have "Suc n div 16 < length ?V" using n' by (intro less_mult_imp_div_less) (simp only: mult.commute)
        with sd have "Suc (n div 16) < length ?V" by simp
        with lc(2,3) have "end_of_dir (ientries s (?V ! (n div 16))) \<noteq> END_OF_DIR" "pdir_cont (ientries s (?V ! (n div 16))) = Some (?V ! Suc (n div 16))" by auto
        then show ?thesis unfolding unf using m0 sd by (simp only: if_True if_False simp_thms)
      next
        case False
        then have "Suc n div 16 = n div 16" by (simp add: div_Suc)
        then show ?thesis unfolding unf using False by (simp only: if_True if_False simp_thms)
      qed
      have hyp: "m = 16 * length ?V - Suc n" using Suc.hyps(2) by simp
      from Suc.hyps(1) [OF hyp n', of ?i ?acc] obtain out e b q where
        IH: "window (unat nbw - unat ?i) (Suc n) (drop (Suc n) ?S) = (out, e, b)"
          "readdir_fill s nbw ?i (of_nat (Suc n)) (Some (?V ! (Suc n div 16))) ?acc = Some (?acc @ out, of_nat e, b, q)"
          "\<not> b \<longrightarrow> q = Some (?V ! (e div 16)) \<and> e < 16 * length ?V" by blast
      then show ?thesis using step w dS ne wi by (simp split: if_splits)
    qed
  qed
qed simp

subsection \<open>A window of a directory\<close>

text \<open>Stamping an entry changes no directory.\<close>

lemma stamp_simps:
  "etype (valid_stamp now opr q e) = etype e" "pdir_cont (valid_stamp now opr q e) = pdir_cont e" "end_of_dir (valid_stamp now opr q e) = end_of_dir e"
  "pdir_begin (valid_stamp now opr q e) = pdir_begin e" "dir_cont_pos (valid_stamp now opr q e) = dir_cont_pos e"
  "dir_entries (valid_stamp now opr q e) = dir_entries e" "nbactive (valid_stamp now opr q e) = nbactive e" "ehandle (valid_stamp now opr q e) = ehandle e"
  "parent_list (valid_stamp now opr q e) = parent_list e" "has_been_readdir (valid_stamp now opr q e) = has_been_readdir e" "validst (valid_stamp now opr q e) = VALID"
  by (cases opr; simp add: valid_stamp_def)+

lemma dir_inv_stamp:
  assumes inv: "dir_inv s a cs" and h: "ientries s' = (ientries s)(w := valid_stamp now opr q (ientries s w))"
  shows "dir_inv s' a cs" "slots (ientries s') ps = slots (ientries s) ps" "live s' a cs = live s a cs"
proof -
  have eq: "etype (ientries s' p) = etype (ientries s p)" "pdir_cont (ientries s' p) = pdir_cont (ientries s p)"
    "end_of_dir (ientries s' p) = end_of_dir (ientries s p)" "pdir_begin (ientries s' p) = pdir_begin (ientries s p)"
    "dir_cont_pos (ientries s' p) = dir_cont_pos (ientries s p)" "dir_entries (ientries s' p) = dir_entries (ientries s p)"
    "nbactive (ientries s' p) = nbactive (ientries s p)" for p by (simp_all add: h stamp_simps)
  show sl: "slots (ientries s') ps = slots (ientries s) ps" for ps by (rule slots_cong) (simp add: eq)
  show "live s' a cs = live s a cs" by (simp add: live_def eq)
  show "dir_inv s' a cs" using inv
  proof (rule dir_inv_same)
    show "same_seg (ientries s p) (ientries s' p)" for p by (simp add: same_seg_def eq)
    show "p \<in> set (a # cs) \<Longrightarrow> seg_ok (ientries s' p)" for p using inv unfolding dir_inv_def seg_ok_def eq by blast
    show "end_of_dir (ientries s a) = END_OF_DIR \<Longrightarrow> \<forall>d \<in> set (slots (ientries s') cs). \<not> act d"
      using inv by (auto simp: dir_inv_def sl)
  qed
qed

lemma contents_live: "dir_inv s a cs \<Longrightarrow> contents s a cs = filter act (slots (ientries s) (live s a cs))"
  by (auto simp: contents_def live_def dir_inv_def filter_empty_conv)

text \<open>What reading leaves as it was: the directory and the invariant of the cache.\<close>

definition read_only :: "icache \<Rightarrow> icache \<Rightarrow> addr \<Rightarrow> addr list \<Rightarrow> addr set \<Rightarrow> addr set \<Rightarrow> bool" where
  "read_only s s' a cs L P \<longleftrightarrow> dir_inv s' a cs \<and> slots (ientries s') (a # cs) = slots (ientries s) (a # cs) \<and> live s' a cs = live s a cs
     \<and> slots (ientries s') (live s a cs) = slots (ientries s) (live s a cs) \<and> (\<exists>xs. cache_ok s' L P xs)
     \<and> (\<forall>p. ehandle (ientries s' p) = ehandle (ientries s p) \<and> has_been_readdir (ientries s' p) = has_been_readdir (ientries s p))"

lemma read_only_trans: "read_only s s1 a cs L P \<Longrightarrow> read_only s1 s2 a cs L P \<Longrightarrow> read_only s s2 a cs L P"
  by (simp add: read_only_def)

lemma readdir_status_ok:
  assumes inv: "dir_inv s a cs" and ok: "cache_ok s L P xs" and a: "a \<in> L" and i: "i < length (live s a cs)"
  shows "\<exists>s'. readdir_status now s (Some (live s a cs ! i)) = Some (CACHE_INODE_SUCCESS, s') \<and> read_only s s' a cs L P"
proof (cases "i = 0")
  case True
  note L = dir_inv_live [OF inv]
  have p: "live s a cs ! i = a" using True L(4,5) by (simp add: hd_conv_nth)
  have t: "valid_target s a = Some a" using dir_inv_type [OF inv] by (simp add: valid_target_def)
  from cache_inode_valid_ok [OF ok a t, of now CACHE_INODE_OP_GET] obtain s' q xs' where
    v: "cache_inode_valid now s (Some a) CACHE_INODE_OP_GET = Some (CACHE_INODE_SUCCESS, s')" "cache_ok s' L P xs'"
      "ientries s' = (ientries s)(a := valid_stamp now CACHE_INODE_OP_GET q (ientries s a))" by blast
  have "readdir_status now s (Some (live s a cs ! i)) = Some (CACHE_INODE_SUCCESS, s')"
    using v(1) dir_inv_type [OF inv] by (simp add: readdir_status_def dir_at_def p)
  with v(2,3) dir_inv_stamp [OF inv v(3)] show ?thesis by (auto simp: read_only_def stamp_simps simp del: slots_simps)
next
  case False
  with live_cont(1) [OF inv _ i] have "readdir_status now s (Some (live s a cs ! i)) = Some (CACHE_INODE_SUCCESS, s)"
    by (simp add: readdir_status_def dir_at_def is_dir_entry_def)
  with inv ok show ?thesis by (auto simp: read_only_def)
qed

lemma readdir_window_ok:
  assumes inv: "dir_inv s a cs" and ok: "cache_ok s L P xs" and a: "a \<in> L" and small: "length cs < 2 ^ 28 - 1" and w: "0 < nbw"
  shows "\<exists>out e b s'. readdir_window now s a 0 c nbw = Some (CACHE_INODE_SUCCESS, out, of_nat e, if b then END_OF_DIR else TO_BE_CONTINUED, s')
     \<and> (if unat c < 16 * length (live s a cs) then window (unat nbw) (unat c) (drop (unat c) (slots (ientries s) (live s a cs))) = (out, e, b)
        else out = [] \<and> e = unat c \<and> b)
     \<and> read_only s s' a cs L P"
proof -
  let ?V = "live s a cs"
  note L = dir_inv_live [OF inv]
  have "length ?V \<le> Suc (length cs)" by (simp add: live_def)
  with small have sm: "16 * length ?V < 2 ^ 32" by simp
  have "?V ! 0 = a" using L(4,5) by (simp add: hd_conv_nth)
  with readdir_locate_ok [OF inv sm, of 0 c] L(5) have loc: "readdir_locate s c 0 a
     = Some (if unat c < 16 * length ?V then (False, ?V ! (unat c div 16)) else (True, last ?V))" by simp
  show ?thesis
  proof (cases "unat c < 16 * length ?V")
    case False
    have "last ?V = ?V ! (length ?V - 1)" "length ?V - 1 < length ?V" using L(5) by (simp_all add: last_conv_nth)
    with readdir_status_ok [OF inv ok a, of "length ?V - 1" now] obtain s' where
      "readdir_status now s (Some (last ?V)) = Some (CACHE_INODE_SUCCESS, s')" "read_only s s' a cs L P" by auto
    with False loc show ?thesis by (intro exI [of _ "[]"] exI [of _ "unat c"] exI [of _ True] exI [of _ s']) (simp add: readdir_window_def)
  next
    case True
    from readdir_fill_ok [OF inv sm True, of nbw 0 "[]"] obtain out e b q where
      f: "window (unat nbw) (unat c) (drop (unat c) (slots (ientries s) ?V)) = (out, e, b)"
        "readdir_fill s nbw 0 c (Some (?V ! (unat c div 16))) [] = Some (out, of_nat e, b, q)"
        "\<not> b \<longrightarrow> q = Some (?V ! (e div 16)) \<and> e < 16 * length ?V" by auto
    show ?thesis
    proof (cases b)
      case B: True
      with True loc f inv ok show ?thesis
        by (intro exI [of _ out] exI [of _ e] exI [of _ b] exI [of _ s]) (auto simp: readdir_window_def read_only_def)
    next
      case B: False
      with f(3) have q: "q = Some (?V ! (e div 16))" "e div 16 < length ?V" by auto
      from readdir_status_ok [OF inv ok a q(2), of now] obtain s' where
        "readdir_status now s q = Some (CACHE_INODE_SUCCESS, s')" "read_only s s' a cs L P" by (auto simp: q(1))
      with True loc f B show ?thesis
        by (intro exI [of _ out] exI [of _ e] exI [of _ b] exI [of _ s']) (simp add: readdir_window_def)
    qed
  qed
qed

subsection \<open>All the windows\<close>

text \<open>What a client sees that reads window after window until the end.\<close>

partial_function (option) list_dir :: "'c fsal_dir \<Rightarrow> inode_env \<Rightarrow> int \<Rightarrow> icache \<Rightarrow> addr \<Rightarrow> u32 \<Rightarrow> u32 \<Rightarrow> (dir_entry list \<times> icache) option" where
  "list_dir fs env now s a cookie nbwanted = do {
     (status, ds, end_cookie, eod, s1) \<leftarrow> cache_inode_readdir fs env now s a cookie nbwanted;
     if status \<noteq> CACHE_INODE_SUCCESS then None
     else if eod = END_OF_DIR then Some (map fst ds, s1)
     else do { (rest, s2) \<leftarrow> list_dir fs env now s1 a end_cookie nbwanted; Some (map fst ds @ rest, s2) } }"

lemma readdir_populated:
  assumes "etype (ientries s a) = DIR_BEGINNING" and "has_been_readdir (ientries s a) = CACHE_INODE_YES" and "0 < nbw"
  shows "cache_inode_readdir fs env now s a c nbw = readdir_window now s a 0 c nbw"
  using assms by (auto simp: cache_inode_readdir_def is_dir_entry_def Let_def)

lemma list_dir_ok:
  assumes "dir_inv s a cs" and "cache_ok s L P xs" and "has_been_readdir (ientries s a) = CACHE_INODE_YES"
    and a: "a \<in> L" and small: "length cs < 2 ^ 28 - 1" and w: "0 < nbw"
  shows "\<exists>s'. list_dir fs env now s a c nbw = Some (filter act (drop (unat c) (slots (ientries s) (live s a cs))), s')
     \<and> read_only s s' a cs L P"
  using assms(1-3)
proof (induction "16 * length (live s a cs) - unat c" arbitrary: s c xs rule: less_induct)
  case less
  let ?V = "live s a cs" and ?S = "slots (ientries s) (live s a cs)"
  note L = dir_inv_live [OF less.prems(1)]
  have lenS: "length ?S = 16 * length ?V" using L(2) by (rule length_slots)
  from readdir_window_ok [OF less.prems(1,2) a small w, of now c] obtain out e b s' where
    r: "readdir_window now s a 0 c nbw = Some (CACHE_INODE_SUCCESS, out, of_nat e, if b then END_OF_DIR else TO_BE_CONTINUED, s')"
    and win: "if unat c < 16 * length ?V then window (unat nbw) (unat c) (drop (unat c) ?S) = (out, e, b) else out = [] \<and> e = unat c \<and> b"
    and ro: "read_only s s' a cs L P" by blast
  note rd = readdir_populated [OF conjunct2 [OF dir_inv_type [OF less.prems(1)]] less.prems(3) w, of fs env now c]
  show ?case
  proof (cases "unat c < 16 * length ?V")
    case False
    with win r lenS ro rd show ?thesis by (subst list_dir.simps) simp
  next
    case True
    with win have "window (unat nbw) (unat c) (drop (unat c) ?S) = (out, e, b)" by simp
    from window_spec [OF this] True lenS w have sp: "map fst out @ filter act (drop (e - unat c) (drop (unat c) ?S)) = filter act (drop (unat c) ?S)"
      "unat c < e" "e \<le> 16 * length ?V" "b \<longleftrightarrow> e = 16 * length ?V" by (auto simp: unat_pos)
    then have all: "map fst out @ filter act (drop e ?S) = filter act (drop (unat c) ?S)" by simp
    show ?thesis
    proof (cases b)
      case B: True
      with sp(4) all lenS have "map fst out = filter act (drop (unat c) ?S)" by simp
      with r B ro rd show ?thesis by (subst list_dir.simps) simp
    next
      case B: False
      have "length ?V \<le> Suc (length cs)" by (simp add: live_def)
      with sp(3) small have "unat (of_nat e :: u32) = e" by (intro unat_of_nat_small32) simp
      moreover from ro less.prems(3) obtain xs' where i': "dir_inv s' a cs" "cache_ok s' L P xs'" "has_been_readdir (ientries s' a) = CACHE_INODE_YES"
        "live s' a cs = ?V" "slots (ientries s') ?V = ?S" by (auto simp: read_only_def)
      ultimately obtain s'' where "list_dir fs env now s' a (of_nat e) nbw = Some (filter act (drop e ?S), s'')" "read_only s' s'' a cs L P"
        using less.hyps [of s' "of_nat e" xs'] diff_less_mono2 [OF sp(2) True] by auto
      with r B all rd read_only_trans [OF ro] show ?thesis by (subst list_dir.simps) simp
    qed
  qed
qed

end
