(* ===== verification/Dir_Pop.thy ===== *)
theory Dir_Pop
  imports Dir_Read
begin

text \<open>
  Filling a directory from the file system.  The invariant of the fill: the directory is well formed and packed (the
  valid places come first), the table of the cache knows every object by its handle, and the links of each
  object are in the pool's set of used links.
\<close>

subsection \<open>The objects of the table\<close>

definition objects_ok :: "icache \<Rightarrow> addr set \<Rightarrow> addr set \<Rightarrow> bool" where
  "objects_ok s L P \<longleftrightarrow> (\<forall>h p. ht_lookup (ht_inode s) (h, 0) = Some p
     \<longrightarrow> p \<in> L \<and> ehandle (ientries s p) = h \<and> (\<exists>ls. links s p ls \<and> set ls \<subseteq> P))"

definition pop_inv :: "icache \<Rightarrow> addr \<Rightarrow> addr list \<Rightarrow> addr set \<Rightarrow> addr set \<Rightarrow> addr list \<Rightarrow> bool" where
  "pop_inv s a cs L P xs \<longleftrightarrow> dir_inv s a cs \<and> cache_ok s L P xs \<and> set (a # cs) \<subseteq> L \<and> keyed s a cs \<and> objects_ok s L P"

text \<open>The entries in use keep their handles.\<close>

definition same_handles :: "addr set \<Rightarrow> icache \<Rightarrow> icache \<Rightarrow> bool" where
  "same_handles L s s' \<longleftrightarrow> (\<forall>r \<in> L. ehandle (ientries s' r) = ehandle (ientries s r))"

lemma same_handles_trans: "same_handles L s s1 \<Longrightarrow> same_handles L' s1 s2 \<Longrightarrow> L \<subseteq> L' \<Longrightarrow> same_handles L s s2"
  by (auto simp: same_handles_def)

lemma dir_inv_agree:
  assumes "dir_inv s a cs" and eq: "\<And>p. p \<in> set (a # cs) \<Longrightarrow> ientries s' p = ientries s p"
  shows "dir_inv s' a cs" "slots (ientries s') (a # cs) = slots (ientries s) (a # cs)" "live s' a cs = live s a cs"
proof -
  show "slots (ientries s') (a # cs) = slots (ientries s) (a # cs)" by (rule slots_cong) (simp only: eq)
  show "live s' a cs = live s a cs" by (simp add: live_def eq)
  have "slots (ientries s') cs = slots (ientries s) cs" by (rule slots_cong) (simp add: eq)
  then show "dir_inv s' a cs"
    using assms(1) by (intro dir_inv_same [OF assms(1)]) (auto simp: same_seg_def eq dir_inv_def)
qed

text \<open>An object for an entry of the file system: the known one, or a new one.\<close>

lemma object_found:
  assumes inv: "pop_inv s a cs L P xs" and p: "ht_lookup (ht_inode s) (h, 0) = Some p"
  shows "\<exists>s'. cache_inode_new_entry env now s (h, 0) True t None = Some (Some p, CACHE_INODE_ENTRY_EXISTS, s')
     \<and> pop_inv s' a cs L P xs \<and> ht_lookup (ht_inode s') (h, 0) = Some p \<and> ientries s' = ientries s"
proof -
  from inv have ok: "cache_ok s L P xs" and hs: "hs_inv (parameter (ht_inode s)) (imem s, ht_inode s)" by (auto simp: pop_inv_def cache_ok_def)
  from hs.get_law [OF hs, of "(h, 0)"] p obtain m0 t0 where get: "hs_get (imem s, ht_inode s) (h, 0) = Some (HASHTABLE_SUCCESS, Some p, m0, t0)"
    and t0: "hs_inv (parameter (ht_inode s)) (m0, t0)" "ht_lookup t0 = ht_lookup (ht_inode s)" by auto
  have m0: "m0 = imem s" using hs_same_mem(1) [OF get] by simp
  let ?s = "s\<lparr>imem := m0, ht_inode := t0\<rparr>"
  have "parameter t0 = parameter (ht_inode s)" using t0 by (simp add: hs_inv_def)
  then have "cache_ok ?s L P xs" using ok t0 by (simp add: cache_ok_def m0)
  moreover have "dir_inv ?s a cs" using inv by (simp add: pop_inv_def dir_inv_def)
  ultimately have "pop_inv ?s a cs L P xs" using inv t0(2) by (simp add: pop_inv_def keyed_def objects_ok_def links_def)
  with get t0(2) p show ?thesis by (intro exI [of _ ?s]) (simp add: cache_inode_new_entry_def Let_def)
qed

lemma convert_types: "cache_inode_fsal_type_convert ty \<noteq> DIR_CONTINUE" "cache_inode_fsal_type_convert ty \<noteq> FS_JUNCTION" "cache_inode_fsal_type_convert ty \<noteq> RECYCLED"
  by (cases ty; simp add: cache_inode_fsal_type_convert_def)+

lemma of_nat_Suc_ne0: "i < 2 ^ 28 \<Longrightarrow> (of_nat (Suc i) :: u32) \<noteq> 0"
  using of_nat_eq_small [of "Suc i" 0] by simp

lemma object_new:
  assumes inv: "pop_inv s a cs L P xs" and env: "env_ok env" and new: "ht_lookup (ht_inode s) (h, 0) = None"
    and t: "t = cache_inode_fsal_type_convert ty" "t \<noteq> UNASSIGNED"
  shows "\<exists>p s' xs'. cache_inode_new_entry env now s (h, 0) True t None = Some (Some p, CACHE_INODE_SUCCESS, s')
     \<and> pop_inv s' a cs (insert p L) P xs' \<and> ht_lookup (ht_inode s') (h, 0) = Some p \<and> (\<forall>r \<in> L. ientries s' r = ientries s r)"
proof -
  let ?ini = "\<lambda>p. if t = DIR_BEGINNING then init_begin p else (\<lambda>e. e)"
  from inv have ok: "cache_ok s L P xs" and sub: "set (a # cs) \<subseteq> L" and dir: "dir_inv s a cs" by (auto simp: pop_inv_def)
  have obj: "init_object s2 t p None e = Some (Inr (?ini p e))" for s2 p e
    using t convert_types [of ty] by (cases t) (auto simp: init_object_def)
  have ini: "gc_lru_entry (?ini p e) = gc_lru_entry e" "etype (?ini p e) = etype e" "ehandle (?ini p e) = ehandle e"
    "parent_list (?ini p e) = parent_list e" for p e by (simp_all add: init_begin_def)
  have tgt: "valid_target (upd_entry s p (\<lambda>_. ?ini p (init_entry now t (fst (h, 0 :: u32)) (ientries s p\<lparr>pdir_data := d\<rparr>)))) p = Some p \<and> p \<in> insert p L" for p d
    using t(1) convert_types(1) [of ty] by (simp add: valid_target_def upd_entry_def init_begin_def init_entry_def)
  from new_entry_ok [where w = "\<lambda>p. p" and prev = None and attr_given = True, OF ok env new _ obj ini(1) tgt] obtain p s' d q xs' e where
    c: "cache_inode_new_entry env now s (h, 0) True t None = Some (Some p, CACHE_INODE_SUCCESS, s')" "p \<notin> L"
      "cache_ok s' (insert p L) P xs'" "iparents s' = iparents s" "ht_lookup (ht_inode s') = (ht_lookup (ht_inode s))((h, 0) \<mapsto> p)"
    and e: "e = ?ini p (init_entry now t h (ientries s p\<lparr>pdir_data := d\<rparr>))"
    and h: "ientries s' = (ientries s)(p := valid_stamp now CACHE_INODE_OP_GET q e)" by auto
  have p: "ehandle (ientries s' p) = h" "parent_list (ientries s' p) = None" by (simp_all add: h e stamp_simps init_begin_def init_entry_def)
  have o: "ientries s' r = ientries s r" if "r \<in> L" for r using that c(2) by (auto simp: h)
  note ag = dir_inv_agree [OF dir, of s']
  have "dir_inv s' a cs" by (rule ag(1)) (use o sub in blast)
  moreover have "keyed s' a cs"
    using inv o [of a] sub of_nat_Suc_ne0 unfolding pop_inv_def keyed_def c(5) by auto
  moreover have "objects_ok s' (insert p L) P"
    using inv p o unfolding pop_inv_def objects_ok_def c(5)
    by (auto simp: links_def c(4) split: if_splits intro: exI [of _ "[]"])
  ultimately have "pop_inv s' a cs (insert p L) P xs'" using c(3) sub by (auto simp: pop_inv_def)
  with c(1,5) o show ?thesis by auto
qed

subsection \<open>One more entry behind the others\<close>

text \<open>The valid places come first and are \<open>ds\<close>; the fill starts its search in a segment that is not behind their end.\<close>

definition packed :: "icache \<Rightarrow> addr \<Rightarrow> addr list \<Rightarrow> dir_entry list \<Rightarrow> bool" where
  "packed s a cs ds \<longleftrightarrow> (\<exists>rest. slots (ientries s) (a # cs) = ds @ rest \<and> (\<forall>d \<in> set ds. act d) \<and> (\<forall>d \<in> set rest. \<not> act d))"

definition cursor :: "icache \<Rightarrow> addr \<Rightarrow> addr list \<Rightarrow> dir_entry list \<Rightarrow> addr \<Rightarrow> bool" where
  "cursor s a cs ds p \<longleftrightarrow> (\<exists>k < length (live s a cs). p = live s a cs ! k \<and> 16 * k \<le> length ds)"

lemma packed_contents: "packed s a cs ds \<Longrightarrow> contents s a cs = ds"
  by (auto simp: packed_def contents_def simp del: slots_simps)

lemma live_nth: "k < length (live s a cs) \<Longrightarrow> live s a cs ! k = (a # cs) ! k \<and> k \<le> length cs"
  by (auto simp: live_def split: if_splits)

lemma cursor_grows:
  assumes "cursor s a cs ds p" and "length ds < 16 * length (live s' a cs')" and cs': "take (length cs) cs' = cs" and "length ds \<le> length ds'"
  shows "cursor s' a cs' ds' p"
proof -
  from assms(1) obtain k where k: "k < length (live s a cs)" "p = live s a cs ! k" "16 * k \<le> length ds" by (auto simp: cursor_def)
  then have k': "k < length (live s' a cs')" using assms(2) by simp
  have "(a # cs) ! k = (a # cs') ! k"
    using live_nth [OF k(1)] arg_cong [OF cs', of "\<lambda>l. (a # l) ! k"] by (cases k) auto
  with k k' live_nth [OF k(1)] live_nth [OF k'] assms(4) show ?thesis unfolding cursor_def by (intro exI [of _ k]) simp
qed

lemma ppath_cong: "\<forall>q \<in> set qs. g' q = g q \<Longrightarrow> ppath g' p qs \<longleftrightarrow> ppath g p qs"
  by (induction qs arbitrary: p) auto

lemma links_keeps:
  assumes "keeps L P x s s'" and "p \<in> L" and "p \<noteq> x" and "links s p ls" and "set ls \<subseteq> P"
  shows "links s' p ls"
proof -
  have eq: "\<forall>q \<in> set ls. iparents s' q = iparents s q" using assms(1,5) by (auto simp: keeps_def)
  with ppath_cong [OF eq] assms show ?thesis by (simp add: links_def keeps_def)
qed

lemma objects_ok_added:
  assumes "objects_ok s L P" and keeps: "keeps L P x s s'" and "L \<subseteq> L'" and "links s' x (q # ls)" and "set ls \<subseteq> P"
  shows "objects_ok s' L' (insert q P)"
  unfolding objects_ok_def
proof (intro allI impI)
  fix h p assume "ht_lookup (ht_inode s') (h, 0) = Some p"
  with keeps have "ht_lookup (ht_inode s) (h, 0) = Some p" by (simp add: keeps_def)
  with assms(1) obtain ls' where p: "p \<in> L" "ehandle (ientries s p) = h" "links s p ls'" "set ls' \<subseteq> P" unfolding objects_ok_def by blast
  have "\<exists>ls. links s' p ls \<and> set ls \<subseteq> insert q P"
  proof (cases "p = x")
    case True
    with assms(4,5) show ?thesis by (intro exI [of _ "q # ls"]) auto
  next
    case False
    with links_keeps [OF keeps p(1) False p(3,4)] p(4) show ?thesis by blast
  qed
  with p keeps assms(3) show "p \<in> L' \<and> ehandle (ientries s' p) = h \<and> (\<exists>ls. links s' p ls \<and> set ls \<subseteq> insert q P)"
    by (auto simp: keeps_def)
qed

lemma first_free:
  assumes "\<forall>d \<in> set ds. act d" and "\<forall>d \<in> set ys. \<not> act d" and n: "n < length (ds @ ys)" "\<not> act ((ds @ ys) ! n)"
    and "m \<le> length ds" and before: "\<forall>j. m \<le> j \<longrightarrow> j < n \<longrightarrow> act ((ds @ ys) ! j)"
  shows "n = length ds \<and> (ds @ ys)[n := v] = ds @ v # tl ys"
proof -
  have "\<not> n < length ds" using assms(1) n(2) by (auto simp: nth_append)
  moreover have "\<not> length ds < n"
  proof
    assume *: "length ds < n"
    then have "ys \<noteq> []" using n(1) by auto
    then have "\<not> act ((ds @ ys) ! length ds)" using assms(2) by (simp add: nth_append)
    with before assms(5) * show False by blast
  qed
  ultimately have "n = length ds" by simp
  with n(1) show ?thesis by (cases ys) auto
qed

lemma add_packed:
  assumes inv: "pop_inv s a cs L P xs" and env: "env_ok env" and pk: "packed s a cs ds" and cur: "cursor s a cs ds p"
    and room: "length cs < 2 ^ 28 - 1" and x: "ht_lookup (ht_inode s) (h, 0) = Some x"
  shows "\<exists>s' cs' L' P' xs' c. cache_inode_add_cached_dirent env now s (Some p) (Some nm) x = Some (CACHE_INODE_SUCCESS, Some c, s')
     \<and> pop_inv s' a cs' L' P' xs' \<and> L \<subseteq> L' \<and> same_handles L s s' \<and> length cs' \<le> Suc (length cs)
     \<and> packed s' a cs' (ds @ [new_dirent x nm]) \<and> cursor s' a cs' (ds @ [new_dirent x nm]) c
     \<and> (\<forall>r. cursor s a cs ds r \<longrightarrow> cursor s' a cs' (ds @ [new_dirent x nm]) r)"
proof -
  from cur obtain k where k: "k < length (live s a cs)" "p = live s a cs ! k" "16 * k \<le> length ds" by (auto simp: cursor_def)
  from inv have dir: "dir_inv s a cs" and ok: "cache_ok s L P xs" and sub: "set (a # cs) \<subseteq> L" and key: "keyed s a cs" and ob: "objects_ok s L P"
    by (auto simp: pop_inv_def)
  from ob x obtain ls where ls: "x \<in> L" "links s x ls" "set ls \<subseteq> P" unfolding objects_ok_def by blast
  from add_dirent_ok [OF dir ok env sub key room k(1) ls(2,3,1), of now nm] obtain s' n cs' L' q xs' where
    add: "cache_inode_add_cached_dirent env now s (Some p) (Some nm) x = Some (CACHE_INODE_SUCCESS, Some ((a # cs') ! (n div 16)), s')"
    and s': "cache_ok s' L' (insert q P) xs'" "L \<subseteq> L'" "set (a # cs') \<subseteq> L'" "q \<notin> P" "dir_inv s' a cs'" "keyed s' a cs'"
      "length cs' \<le> Suc (length cs)" "take (length cs) cs' = cs" "links s' x (q # ls)" "keeps L P x s s'" "n < 16 * length (live s' a cs')"
      "added s s' a cs cs' k x nm n" unfolding k(2) by blast
  from pk obtain rest where rest: "slots (ientries s) (a # cs) = ds @ rest" "\<forall>d \<in> set ds. act d" "\<forall>d \<in> set rest. \<not> act d"
    by (auto simp: packed_def)
  from s'(12) [unfolded added_def rest(1)] obtain r where
    ad: "slots (ientries s') (a # cs') = (ds @ rest @ replicate r empty_dirent)[n := new_dirent x nm]"
      "n < length (ds @ rest @ replicate r empty_dirent)" "\<not> act ((ds @ rest @ replicate r empty_dirent) ! n)"
      "\<forall>j. 16 * k \<le> j \<longrightarrow> j < n \<longrightarrow> act ((ds @ rest @ replicate r empty_dirent) ! j)" by (auto simp del: slots_simps)
  have free: "\<forall>d \<in> set (rest @ replicate r empty_dirent). \<not> act d" using rest(3) by auto
  note ff = first_free [OF rest(2) free ad(2,3) k(3) ad(4), of "new_dirent x nm"]
  have "packed s' a cs' (ds @ [new_dirent x nm])"
    unfolding packed_def ad(1)
  proof (intro exI [of _ "tl (rest @ replicate r empty_dirent)"] conjI)
    show "\<forall>d \<in> set (tl (rest @ replicate r empty_dirent)). \<not> act d" using free by (cases "rest @ replicate r empty_dirent") auto
  qed (use ff rest(2) in auto)
  moreover have n: "length ds < 16 * length (live s' a cs')" using ff s'(11) by simp
  moreover have "cursor s' a cs' (ds @ [new_dirent x nm]) ((a # cs') ! (n div 16))"
    unfolding cursor_def
  proof (intro exI [of _ "n div 16"] conjI)
    show k': "n div 16 < length (live s' a cs')" using s'(11) by simp
    show "(a # cs') ! (n div 16) = live s' a cs' ! (n div 16)" using live_nth [OF k'] by simp
    show "16 * (n div 16) \<le> length (ds @ [new_dirent x nm])" using ff by simp
  qed
  moreover have "pop_inv s' a cs' L' (insert q P) xs'"
    using s' objects_ok_added [OF ob s'(10,2,9) ls(3)] by (simp add: pop_inv_def)
  moreover have "same_handles L s s'" using s'(10) by (simp add: keeps_def same_handles_def)
  ultimately show ?thesis using add s'(2,7) cursor_grows [OF _ n s'(8)]
    by (intro exI [of _ s'] exI [of _ cs'] exI [of _ L'] exI [of _ "insert q P"] exI [of _ xs'] exI [of _ "(a # cs') ! (n div 16)"]) simp
qed


subsection \<open>What one call of the file system found\<close>

definition dot_entry :: "fsal_dirent \<Rightarrow> bool" where
  "dot_entry d \<longleftrightarrow> FSAL_namecmp (de_name d) FSAL_DOT \<or> FSAL_namecmp (de_name d) FSAL_DOT_DOT"

text \<open>An entry that the cache can take: a type it knows, and a link that can be read.\<close>

definition entry_ok :: "'c fsal_dir \<Rightarrow> fsal_dirent \<Rightarrow> bool" where
  "entry_ok fs d \<longleftrightarrow> cache_inode_fsal_type_convert (de_type d) \<noteq> UNASSIGNED
     \<and> (cache_inode_fsal_type_convert (de_type d) = SYMBOLIC_LINK \<longrightarrow> FSAL_readlink fs (de_handle d) = ERR_FSAL_NO_ERROR)"

text \<open>A place of the cached directory stands for an entry of the file system: it has its name and an object with its handle.\<close>

definition stands_for :: "icache \<Rightarrow> addr set \<Rightarrow> dir_entry \<Rightarrow> fsal_dirent \<Rightarrow> bool" where
  "stands_for s L d f \<longleftrightarrow> (\<exists>x \<in> L. d = new_dirent x (de_name f) \<and> ehandle (ientries s x) = de_handle f)"

lemma stands_for_mono: "list_all2 (stands_for s L) ds es \<Longrightarrow> same_handles L s s' \<Longrightarrow> L \<subseteq> L' \<Longrightarrow> list_all2 (stands_for s' L') ds es"
  by (erule list_all2_mono) (auto simp: stands_for_def same_handles_def)

text \<open>The state of the fill after the entries \<open>es\<close>: the segment the search starts from, and the one that got the last entry.\<close>

definition filled :: "icache \<Rightarrow> addr \<Rightarrow> addr list \<Rightarrow> addr set \<Rightarrow> addr set \<Rightarrow> addr list \<Rightarrow> fsal_dirent list \<Rightarrow> addr \<Rightarrow> addr option \<Rightarrow> bool" where
  "filled s a cs L P xs es p nxt \<longleftrightarrow> pop_inv s a cs L P xs
     \<and> (\<exists>ds. packed s a cs ds \<and> list_all2 (stands_for s L) ds es \<and> cursor s a cs ds p \<and> (\<forall>q. nxt = Some q \<longrightarrow> cursor s a cs ds q))"

lemma object_entry:
  assumes inv: "pop_inv s a cs L P xs" and env: "env_ok env" and t: "t = cache_inode_fsal_type_convert ty" "t \<noteq> UNASSIGNED"
  shows "\<exists>x status s' L' xs'. cache_inode_new_entry env now s (h, 0) True t None = Some (Some x, status, s')
     \<and> pop_inv s' a cs L' P xs' \<and> L \<subseteq> L' \<and> ht_lookup (ht_inode s') (h, 0) = Some x \<and> (\<forall>r \<in> L. ientries s' r = ientries s r)"
proof (cases "ht_lookup (ht_inode s) (h, 0)")
  case None
  from object_new [OF inv env None t, of now] show ?thesis by blast
next
  case (Some p)
  from object_found [OF inv Some, of env now t] show ?thesis by force
qed

lemma populate_entry:
  assumes fil: "filled s a cs L P xs es p nxt" and env: "env_ok env" and room: "length cs < 2 ^ 28 - 1"
    and d: "entry_ok fs d" "\<not> dot_entry d"
  shows "\<exists>s' cs' L' P' xs' c. populate_chunk fs env now dir (Some p) nxt s (d # ch) = populate_chunk fs env now dir (Some p) (Some c) s' ch
     \<and> filled s' a cs' L' P' xs' (es @ [d]) p (Some c) \<and> L \<subseteq> L' \<and> same_handles L s s' \<and> length cs' \<le> Suc (length cs)"
proof -
  let ?t = "cache_inode_fsal_type_convert (de_type d)" and ?h = "de_handle d"
  from fil obtain ds where inv: "pop_inv s a cs L P xs" and ds: "packed s a cs ds" "list_all2 (stands_for s L) ds es" "cursor s a cs ds p"
    by (auto simp: filled_def)
  have t: "?t \<noteq> UNASSIGNED" using d(1) by (simp add: entry_ok_def)
  from object_entry [OF inv env refl t, of now ?h] obtain x status s1 L1 xs1 where
    new: "cache_inode_new_entry env now s (?h, 0) True ?t None = Some (Some x, status, s1)"
    and s1: "pop_inv s1 a cs L1 P xs1" "L \<subseteq> L1" "ht_lookup (ht_inode s1) (?h, 0) = Some x" "\<forall>r \<in> L. ientries s1 r = ientries s r" by blast
  from inv have dir: "dir_inv s a cs" and sub: "set (a # cs) \<subseteq> L" by (auto simp: pop_inv_def)
  have ag: "slots (ientries s1) (a # cs) = slots (ientries s) (a # cs)" "live s1 a cs = live s a cs"
    using dir_inv_agree(2,3) [OF dir, of s1] s1(4) sub by blast+
  have sh1: "same_handles L s s1" using s1(4) by (simp add: same_handles_def)
  have pk: "packed s1 a cs ds" using ds(1) ag(1) by (simp add: packed_def del: slots_simps)
  have cur: "cursor s1 a cs ds r \<longleftrightarrow> cursor s a cs ds r" for r by (simp add: cursor_def ag(2))
  from add_packed [OF s1(1) env pk _ room s1(3), of p now "de_name d"] ds(3) obtain s2 cs' L' P' xs' c where
    add: "cache_inode_add_cached_dirent env now s1 (Some p) (Some (de_name d)) x = Some (CACHE_INODE_SUCCESS, Some c, s2)"
    and s2: "pop_inv s2 a cs' L' P' xs'" "L1 \<subseteq> L'" "same_handles L1 s1 s2" "length cs' \<le> Suc (length cs)"
      "packed s2 a cs' (ds @ [new_dirent x (de_name d)])" "cursor s2 a cs' (ds @ [new_dirent x (de_name d)]) c"
      "\<forall>r. cursor s1 a cs ds r \<longrightarrow> cursor s2 a cs' (ds @ [new_dirent x (de_name d)]) r" unfolding cur by blast
  have sh: "same_handles L s s2" using same_handles_trans [OF sh1 s2(3) s1(2)] .
  have x: "x \<in> L1" "ehandle (ientries s1 x) = ?h" using s1(1,3) by (auto simp: pop_inv_def objects_ok_def)
  then have "stands_for s2 L' (new_dirent x (de_name d)) d" using s2(2,3) by (auto simp: stands_for_def same_handles_def)
  moreover have "list_all2 (stands_for s2 L') ds es" using stands_for_mono [OF ds(2) sh] s1(2) s2(2) by blast
  ultimately have "list_all2 (stands_for s2 L') (ds @ [new_dirent x (de_name d)]) (es @ [d])" by (simp add: list_all2_appendI)
  then have "filled s2 a cs' L' P' xs' (es @ [d]) p (Some c)"
    unfolding filled_def using s2 ds(3) cur by blast
  moreover have "populate_chunk fs env now dir (Some p) nxt s (d # ch) = populate_chunk fs env now dir (Some p) (Some c) s2 ch"
    using d new add by (auto simp: entry_ok_def dot_entry_def)
  ultimately show ?thesis using sh s1(2) s2(2,4) by blast
qed

abbreviation real_entries :: "fsal_dirent list \<Rightarrow> fsal_dirent list" where
  "real_entries \<equiv> filter (\<lambda>d. \<not> dot_entry d)"

lemma populate_chunk_ok:
  assumes "filled s a cs L P xs es p nxt" and env: "env_ok env" and "length cs + length (real_entries ch) < 2 ^ 28"
    and "\<forall>d \<in> set (real_entries ch). entry_ok fs d"
  shows "\<exists>s' cs' L' P' xs' nxt'. populate_chunk fs env now dir (Some p) nxt s ch = Some (Inr (nxt', s'))
     \<and> filled s' a cs' L' P' xs' (es @ real_entries ch) p nxt' \<and> L \<subseteq> L' \<and> same_handles L s s'
     \<and> length cs' \<le> length cs + length (real_entries ch) \<and> (nxt' = None \<longleftrightarrow> nxt = None \<and> real_entries ch = [])"
  using assms(1,3,4)
proof (induction ch arbitrary: s cs L P xs es nxt)
  case Nil
  then show ?case by (auto simp: same_handles_def)
next
  case (Cons d ch)
  show ?case
  proof (cases "dot_entry d")
    case True
    with Cons.prems have "populate_chunk fs env now dir (Some p) nxt s (d # ch) = populate_chunk fs env now dir (Some p) nxt s ch" by (simp add: dot_entry_def)
    with Cons.IH [OF Cons.prems(1)] Cons.prems(2,3) True show ?thesis by simp
  next
    case False
    with Cons.prems have r: "length cs < 2 ^ 28 - 1" "entry_ok fs d" by simp_all
    from populate_entry [OF Cons.prems(1) env r False, of now dir ch] obtain s1 cs1 L1 P1 xs1 c where
      1: "populate_chunk fs env now dir (Some p) nxt s (d # ch) = populate_chunk fs env now dir (Some p) (Some c) s1 ch"
        "filled s1 a cs1 L1 P1 xs1 (es @ [d]) p (Some c)" "L \<subseteq> L1" "same_handles L s s1" "length cs1 \<le> Suc (length cs)" by blast
    from Cons.IH [OF 1(2)] Cons.prems(2,3) False 1(5) obtain s' cs' L' P' xs' nxt' where
      2: "populate_chunk fs env now dir (Some p) (Some c) s1 ch = Some (Inr (nxt', s'))"
        "filled s' a cs' L' P' xs' ((es @ [d]) @ real_entries ch) p nxt'" "L1 \<subseteq> L'" "same_handles L1 s1 s'"
        "length cs' \<le> length cs1 + length (real_entries ch)" "nxt' \<noteq> None" by auto
    have "same_handles L s s'" using same_handles_trans [OF 1(4) 2(4) 1(3)] .
    with 1 2 False show ?thesis
      by (intro exI [of _ s'] exI [of _ cs'] exI [of _ L'] exI [of _ P'] exI [of _ xs'] exI [of _ nxt']) auto
  qed
qed


subsection \<open>The whole directory\<close>

text \<open>The file system lists a directory in the given pieces from a cookie on.\<close>

fun fs_lists :: "'c fsal_dir \<Rightarrow> u8 list \<Rightarrow> 'c \<Rightarrow> fsal_dirent list list \<Rightarrow> bool" where
  "fs_lists fs h c [] \<longleftrightarrow> False"
| "fs_lists fs h c (ch # chs) \<longleftrightarrow>
     (case FSAL_readdir fs h c of
        (status, es, c', eod) \<Rightarrow> status = ERR_FSAL_NO_ERROR \<and> es = ch \<and> (if chs = [] then eod else \<not> eod \<and> fs_lists fs h c' chs))"

text \<open>The condition under which the fill has a segment to go on with: the first of several pieces has an entry.\<close>

definition first_piece_ok :: "fsal_dirent list list \<Rightarrow> bool" where
  "first_piece_ok chs \<longleftrightarrow> (case chs of ch # _ # _ \<Rightarrow> real_entries ch \<noteq> [] | _ \<Rightarrow> True)"

lemma populate_loop_ok:
  assumes "filled s a cs L P xs es p nxt" and env: "env_ok env" and "length cs + length (real_entries (concat chs)) < 2 ^ 28"
    and "\<forall>d \<in> set (real_entries (concat chs)). entry_ok fs d" and "fs_lists fs (ehandle (ientries s a)) c chs"
    and "nxt = None \<longrightarrow> first_piece_ok chs"
  shows "\<exists>s' cs' L' P' xs' p' nxt'. populate_loop fs env now a (Some p) nxt c s = Some (Inr s')
     \<and> filled s' a cs' L' P' xs' (es @ real_entries (concat chs)) p' nxt' \<and> L \<subseteq> L' \<and> same_handles L s s'
     \<and> length cs' \<le> length cs + length (real_entries (concat chs))"
  using assms(1,3-)
proof (induction chs arbitrary: s cs L P xs es p nxt c)
  case Nil
  then show ?case by simp
next
  case (Cons ch chs)
  obtain c' eod where rd: "FSAL_readdir fs (ehandle (ientries s a)) c = (ERR_FSAL_NO_ERROR, ch, c', eod)"
    and more: "if chs = [] then eod else \<not> eod \<and> fs_lists fs (ehandle (ientries s a)) c' chs"
    using Cons.prems(4) by (auto split: prod.splits)
  have r: "length cs + length (real_entries ch) < 2 ^ 28" "\<forall>d \<in> set (real_entries ch). entry_ok fs d" using Cons.prems(2,3) by auto
  from populate_chunk_ok [OF Cons.prems(1) env r, of now a] obtain s1 cs1 L1 P1 xs1 nxt1 where
    1: "populate_chunk fs env now a (Some p) nxt s ch = Some (Inr (nxt1, s1))" "filled s1 a cs1 L1 P1 xs1 (es @ real_entries ch) p nxt1"
      "L \<subseteq> L1" "same_handles L s s1" "length cs1 \<le> length cs + length (real_entries ch)"
      "nxt1 = None \<longleftrightarrow> nxt = None \<and> real_entries ch = []" by blast
  show ?case
  proof (cases "chs = []")
    case True
    with 1 rd more show ?thesis
      by (intro exI [of _ s1] exI [of _ cs1] exI [of _ L1] exI [of _ P1] exI [of _ xs1] exI [of _ p] exI [of _ nxt1])
        (subst populate_loop.simps, simp)
  next
    case False
    have "a \<in> L" using Cons.prems(1) by (auto simp: filled_def pop_inv_def)
    then have h: "ehandle (ientries s1 a) = ehandle (ientries s a)" using 1(4) by (simp add: same_handles_def)
    from False Cons.prems(5) have "nxt = None \<longrightarrow> real_entries ch \<noteq> []" by (cases chs) (auto simp: first_piece_ok_def)
    then obtain q where q: "nxt1 = Some q" using 1(6) by auto
    have f: "filled s1 a cs1 L1 P1 xs1 (es @ real_entries ch) q (Some q)" using 1(2) q by (auto simp: filled_def)
    from Cons.IH [OF f, of c'] Cons.prems(2,3) 1(5) more False h obtain s' cs' L' P' xs' p' nxt' where
      2: "populate_loop fs env now a (Some q) (Some q) c' s1 = Some (Inr s')"
        "filled s' a cs' L' P' xs' ((es @ real_entries ch) @ real_entries (concat chs)) p' nxt'" "L1 \<subseteq> L'" "same_handles L1 s1 s'"
        "length cs' \<le> length cs1 + length (real_entries (concat chs))" by auto
    have "same_handles L s s'" using same_handles_trans [OF 1(4) 2(4) 1(3)] .
    moreover have "populate_loop fs env now a (Some p) nxt c s = Some (Inr s')"
      using 1(1) 2(1) rd more False q by (subst populate_loop.simps) simp
    ultimately show ?thesis using 1(3,5) 2
      by (intro exI [of _ s'] exI [of _ cs'] exI [of _ L'] exI [of _ P'] exI [of _ xs'] exI [of _ p'] exI [of _ nxt']) auto
  qed
qed

lemma pop_inv_invalidated:
  assumes "pop_inv s a cs L P xs" and "dir_inv (s\<lparr>ientries := h\<rparr>) a cs"
    and eq: "\<forall>p. ehandle (h p) = ehandle (ientries s p) \<and> parent_list (h p) = parent_list (ientries s p) \<and> gc_lru_entry (h p) = gc_lru_entry (ientries s p)"
  shows "pop_inv (s\<lparr>ientries := h\<rparr>) a cs L P xs"
  using assms by (simp add: pop_inv_def cache_ok_def keyed_def objects_ok_def links_def)

text \<open>What the fill relies on of the file system.\<close>

definition fs_ok :: "'c fsal_dir \<Rightarrow> u8 list \<Rightarrow> fsal_dirent list list \<Rightarrow> bool" where
  "fs_ok fs h chs \<longleftrightarrow> FSAL_opendir fs h = ERR_FSAL_NO_ERROR \<and> FSAL_closedir fs = ERR_FSAL_NO_ERROR
     \<and> fs_lists fs h (FSAL_COOKIE_BEGINNING fs) chs \<and> first_piece_ok chs \<and> (\<forall>d \<in> set (real_entries (concat chs)). entry_ok fs d)"

lemma populate_ok:
  assumes inv: "pop_inv s a cs L P xs" and env: "env_ok env" and fs: "fs_ok fs (ehandle (ientries s a)) chs"
    and room: "length cs + length (real_entries (concat chs)) < 2 ^ 28" and nr: "has_been_readdir (ientries s a) \<noteq> CACHE_INODE_YES"
  shows "\<exists>s' cs' L' P' xs'. cache_inode_readdir_populate fs env now s a = Some (CACHE_INODE_SUCCESS, s') \<and> pop_inv s' a cs' L' P' xs'
     \<and> has_been_readdir (ientries s' a) = CACHE_INODE_YES \<and> list_all2 (stands_for s' L') (contents s' a cs') (real_entries (concat chs))
     \<and> length cs' \<le> length cs + length (real_entries (concat chs))"
proof -
  from inv have dir: "dir_inv s a cs" by (simp add: pop_inv_def)
  from invalidate_all_correct [OF dir] obtain h where
    iv: "cache_inode_invalidate_all_cached_dirent s a = Some (CACHE_INODE_SUCCESS, s\<lparr>ientries := h\<rparr>)" "dir_inv (s\<lparr>ientries := h\<rparr>) a cs"
      "\<forall>d \<in> set (slots h (a # cs)). \<not> act d"
    and eq: "\<forall>p. ehandle (h p) = ehandle (ientries s p) \<and> parent_list (h p) = parent_list (ientries s p) \<and> gc_lru_entry (h p) = gc_lru_entry (ientries s p)" by blast
  let ?s1 = "s\<lparr>ientries := h\<rparr>"
  have "packed ?s1 a cs []" using iv(3) by (simp add: packed_def del: slots_simps)
  moreover have "cursor ?s1 a cs [] a" unfolding cursor_def by (intro exI [of _ 0]) (simp add: live_def)
  ultimately have "filled ?s1 a cs L P xs [] a None" using pop_inv_invalidated [OF inv iv(2) eq] by (auto simp: filled_def)
  from populate_loop_ok [OF this env room, of fs "FSAL_COOKIE_BEGINNING fs" now] fs eq obtain s2 cs' L' P' xs' p nxt where
    l: "populate_loop fs env now a (Some a) None (FSAL_COOKIE_BEGINNING fs) ?s1 = Some (Inr s2)"
      "filled s2 a cs' L' P' xs' (real_entries (concat chs)) p nxt" "length cs' \<le> length cs + length (real_entries (concat chs))" by (auto simp: fs_ok_def)
  from l(2) obtain ds where ds: "pop_inv s2 a cs' L' P' xs'" "packed s2 a cs' ds" "list_all2 (stands_for s2 L') ds (real_entries (concat chs))"
    by (auto simp: filled_def)
  let ?s = "upd_entry s2 a (\<lambda>e. e\<lparr>has_been_readdir := CACHE_INODE_YES\<rparr>)"
  have dir2: "dir_inv ?s a cs'" "slots (ientries ?s) ps = slots (ientries s2) ps" for ps
  proof -
    show sl: "slots (ientries ?s) ps = slots (ientries s2) ps" for ps by (rule slots_cong) (simp add: upd_entry_def)
    have d2: "dir_inv s2 a cs'" using ds(1) by (simp add: pop_inv_def)
    then show "dir_inv ?s a cs'"
    proof (rule dir_inv_same)
      show "same_seg (ientries s2 p) (ientries ?s p)" for p by (simp add: same_seg_def upd_entry_def)
      show "p \<in> set (a # cs') \<Longrightarrow> seg_ok (ientries ?s p)" for p using d2 by (auto simp: upd_entry_def seg_ok_def dir_inv_def)
      show "end_of_dir (ientries s2 a) = END_OF_DIR \<Longrightarrow> \<forall>d \<in> set (slots (ientries ?s) cs'). \<not> act d"
        unfolding sl using d2 by (auto simp: dir_inv_def)
    qed
  qed
  have "pop_inv ?s a cs' L' P' xs'" using ds(1) dir2(1) by (simp add: pop_inv_def cache_ok_def keyed_def objects_ok_def links_def upd_entry_def)
  moreover have "contents ?s a cs' = ds" using packed_contents [OF ds(2)] by (simp add: contents_def dir2(2) del: slots_simps)
  moreover have "list_all2 (stands_for ?s L') ds (real_entries (concat chs))"
    using ds(3) by (rule list_all2_mono) (auto simp: stands_for_def upd_entry_def)
  moreover have "cache_inode_readdir_populate fs env now s a = Some (CACHE_INODE_SUCCESS, ?s)"
    using dir_inv_type [OF dir] nr iv(1) fs eq l(1) by (simp add: cache_inode_readdir_populate_def fs_ok_def)
  moreover have "has_been_readdir (ientries ?s a) = CACHE_INODE_YES" by (simp add: upd_entry_def)
  ultimately show ?thesis using l(3) by blast
qed

text \<open>A client that reads an unread directory in windows of any size gets the listing of the file system.\<close>

lemma list_dir_populates:
  assumes "etype (ientries s a) = DIR_BEGINNING" and "has_been_readdir (ientries s a) \<noteq> CACHE_INODE_YES" and "0 < nbw"
    and "cache_inode_readdir_populate fs env now s a = Some (CACHE_INODE_SUCCESS, s')"
    and "etype (ientries s' a) = DIR_BEGINNING" and "has_been_readdir (ientries s' a) = CACHE_INODE_YES"
  shows "list_dir fs env now s a c nbw = list_dir fs env now s' a c nbw"
proof -
  have "cache_inode_readdir fs env now s a c nbw = cache_inode_readdir fs env now s' a c nbw"
    using assms by (auto simp: cache_inode_readdir_def is_dir_entry_def Let_def)
  then show ?thesis by (subst (1 2) list_dir.simps) simp
qed

lemma read_directory:
  assumes inv: "pop_inv s a cs L P xs" and env: "env_ok env" and fs: "fs_ok fs (ehandle (ientries s a)) chs"
    and room: "length cs + length (real_entries (concat chs)) < 2 ^ 28 - 1" and nr: "has_been_readdir (ientries s a) \<noteq> CACHE_INODE_YES"
    and w: "0 < nbw"
  shows "\<exists>ds s' L'. list_dir fs env now s a 0 nbw = Some (ds, s') \<and> list_all2 (stands_for s' L') ds (real_entries (concat chs))"
proof -
  from room have room': "length cs + length (real_entries (concat chs)) < 2 ^ 28" by simp
  from populate_ok [OF inv env fs room' nr, of now] obtain s1 cs' L' P' xs' where
    p: "cache_inode_readdir_populate fs env now s a = Some (CACHE_INODE_SUCCESS, s1)" "pop_inv s1 a cs' L' P' xs'"
      "has_been_readdir (ientries s1 a) = CACHE_INODE_YES" "list_all2 (stands_for s1 L') (contents s1 a cs') (real_entries (concat chs))"
      "length cs' \<le> length cs + length (real_entries (concat chs))" by blast
  then have i: "dir_inv s1 a cs'" "cache_ok s1 L' P' xs'" "a \<in> L'" by (auto simp: pop_inv_def)
  have small: "length cs' < 2 ^ 28 - 1" using p(5) room by simp
  from list_dir_ok [OF i(1,2) p(3) i(3) small w, of fs env now 0] obtain s' where
    l: "list_dir fs env now s1 a 0 nbw = Some (contents s1 a cs', s')" "read_only s1 s' a cs' L' P'"
    by (auto simp: contents_live [OF i(1)])
  have "list_all2 (stands_for s' L') (contents s1 a cs') (real_entries (concat chs))"
    using p(4) by (rule list_all2_mono) (use l(2) in \<open>auto simp: stands_for_def read_only_def\<close>)
  moreover have "list_dir fs env now s a 0 nbw = list_dir fs env now s1 a 0 nbw"
    using list_dir_populates [OF _ nr w p(1) _ p(3)] dir_inv_type i(1) inv by (auto simp: pop_inv_def)
  ultimately show ?thesis using l(1) by metis
qed


end
