(* ===== verification/Dir_Api.thy ===== *)
theory Dir_Api
  imports Dir_Pop
begin

text \<open>
  The properties of the cached directories: lookup, addition and removal of an entry over the flat array of
  places, the listing a client reads, and what goes wrong with the links back from the objects.
\<close>

subsection \<open>Looking up and renaming\<close>

text \<open>
  The place found is the first valid one with the name whose object is valid.  Renaming changes its name only;
  a lookup that finds an entry reports an invalid argument, and a name that is not there changes nothing.
\<close>

theorem cached_lookup_correct:
  assumes inv: "dir_inv s a cs"
  shows "case found_at s a cs nm of
      None \<Rightarrow> cache_inode_operate_cached_dirent s a nm newname dirent_op = Some (None, CACHE_INODE_NOT_FOUND, s)
        \<and> cache_inode_rename_cached_dirent s a nm newname = Some (CACHE_INODE_NOT_FOUND, s)
    | Some n \<Rightarrow>
        cache_inode_operate_cached_dirent s a nm newname CACHE_INODE_DIRENT_OP_LOOKUP
          = Some (dpentry (slots (ientries s) (a # cs) ! n), CACHE_INODE_INVALID_ARGUMENT, s)
        \<and> (\<exists>s'. cache_inode_rename_cached_dirent s a nm (Some new) = Some (CACHE_INODE_SUCCESS, s') \<and> dir_inv s' a cs
             \<and> slots (ientries s') (a # cs) = (slots (ientries s) (a # cs))[n := (slots (ientries s) (a # cs) ! n)
                 \<lparr>dname := \<lparr>fname = strncpy (fname new) FSAL_MAX_NAME_LEN, flen = flen new\<rparr>\<rparr>])"
proof (cases "found_at s a cs nm")
  case None
  with operate_not_found [OF inv None] dir_inv_type [OF inv] show ?thesis by (simp add: cache_inode_rename_cached_dirent_def)
next
  case (Some n)
  from locate_in_dir(2) [OF inv Some] dir_inv_type [OF inv]
  have "cache_inode_operate_cached_dirent s a nm newname CACHE_INODE_DIRENT_OP_LOOKUP
      = Some (dpentry (slots (ientries s) (a # cs) ! n), CACHE_INODE_INVALID_ARGUMENT, s)"
    by (simp add: cache_inode_operate_cached_dirent_def)
  with operate_rename [OF inv Some, of new] dir_inv_type [OF inv] Some show ?thesis
    by (auto simp: cache_inode_rename_cached_dirent_def simp del: slots_simps)
qed

subsection \<open>Adding and removing\<close>

lemma filter_update_in: "n < length xs \<Longrightarrow> \<not> P (xs ! n) \<Longrightarrow> P v \<Longrightarrow>
   filter P xs = filter P (take n xs) @ filter P (drop (Suc n) xs) \<and> filter P (xs[n := v]) = filter P (take n xs) @ v # filter P (drop (Suc n) xs)"
  using arg_cong [OF id_take_nth_drop, of n xs "filter P"] by (simp add: upd_conv_take_nth_drop)

lemma filter_update_out: "n < length xs \<Longrightarrow> P (xs ! n) \<Longrightarrow> \<not> P v \<Longrightarrow>
   filter P xs = filter P (take n xs) @ xs ! n # filter P (drop (Suc n) xs) \<and> filter P (xs[n := v]) = filter P (take n xs) @ filter P (drop (Suc n) xs)"
  using arg_cong [OF id_take_nth_drop, of n xs "filter P"] by (simp add: upd_conv_take_nth_drop)

lemma added_contents:
  assumes "added s s' a cs cs' k x nm n"
  shows "\<exists>us vs. contents s a cs = us @ vs \<and> contents s' a cs' = us @ new_dirent x nm # vs"
    and "slots (ientries s') (a # cs') ! n = new_dirent x nm" and "n < length (slots (ientries s') (a # cs'))"
proof -
  from assms obtain r where r: "slots (ientries s') (a # cs') = (slots (ientries s) (a # cs) @ replicate r empty_dirent)[n := new_dirent x nm]"
    "n < length (slots (ientries s) (a # cs) @ replicate r empty_dirent)" "\<not> act ((slots (ientries s) (a # cs) @ replicate r empty_dirent) ! n)"
    unfolding added_def by auto
  have "contents s a cs = filter act (slots (ientries s) (a # cs) @ replicate r empty_dirent)" by (simp add: contents_def)
  with filter_update_in [OF r(2,3) new_dirent_simps(1), of x nm] r(1)
  show "\<exists>us vs. contents s a cs = us @ vs \<and> contents s' a cs' = us @ new_dirent x nm # vs" unfolding contents_def by metis
  show "slots (ientries s') (a # cs') ! n = new_dirent x nm" "n < length (slots (ientries s') (a # cs'))" using r by (simp_all del: slots_simps)
qed

lemma in_dir_place:
  assumes "dir_inv s a cs" and "place s q = ((a # cs) ! i, j)" and "i < length (a # cs)"
  shows "in_dir s a q"
proof (cases i)
  case 0
  with assms show ?thesis by (simp add: in_dir_def segment_of_def place_def)
next
  case (Suc k)
  with assms cont_in_dir [OF assms(1), of "cs ! k"] show ?thesis by (simp add: in_dir_def segment_of_def place_def)
qed

lemma namecmp_new [simp]: "FSAL_namecmp nm (dname (new_dirent x nm))"
proof -
  have "cstr n (cstr n w @ replicate k 0) = cstr n w" if "k = n - length (cstr n w)" for n k and w :: "u8 list"
  proof -
    have "\<forall>c \<in> set (cstr n w). c \<noteq> 0" by (auto simp: cstr_def dest: set_takeWhileD)
    moreover have "length (cstr n w) \<le> n" by (simp add: cstr_def) (metis length_take length_takeWhile_le min.boundedE)
    ultimately show ?thesis using that unfolding cstr_def [of n "cstr n w @ replicate k 0"]
      by (cases k) (simp_all add: takeWhile_append2 takeWhile_append1)
  qed
  then show ?thesis by (simp add: FSAL_namecmp_def new_dirent_def strncmp_eq_def strncpy_def)
qed


text \<open>C10: Removing an entry from a cached directory.  A name that is not there is reported and changes nothing.  Otherwise
  cache_inode_remove_cached_dirent takes exactly the first valid entry with that name out of the contents, and the
  object loses its first link into this directory.  The function returns a success also when the object
  has no such link, and only the status behind the pointer says so.\<close>

theorem cached_remove_correct:
  assumes inv: "dir_inv s a cs" and ls: "\<forall>n. found_at s a cs nm = Some n \<longrightarrow> dpentry (slots (ientries s) (a # cs) ! n) = Some x \<and> links s x ls"
  shows "case found_at s a cs nm of
      None \<Rightarrow> cache_inode_remove_cached_dirent s a nm = Some (CACHE_INODE_NOT_FOUND, CACHE_INODE_NOT_FOUND, s)
    | Some n \<Rightarrow> \<exists>s' us vs. cache_inode_remove_cached_dirent s a nm = Some (CACHE_INODE_SUCCESS,
            if index_of (in_dir s a) ls = None then CACHE_INODE_INCONSISTENT_ENTRY else CACHE_INODE_SUCCESS, s')
        \<and> dir_inv s' a cs \<and> contents s a cs = us @ slots (ientries s) (a # cs) ! n # vs \<and> contents s' a cs = us @ vs
        \<and> (\<forall>d \<in> set us. \<not> matches s nm d)
        \<and> links s' x (case index_of (in_dir s a) ls of None \<Rightarrow> ls | Some i \<Rightarrow> take i ls @ drop (Suc i) ls)"
proof (cases "found_at s a cs nm")
  case None
  with operate_not_found [OF inv None] dir_inv_type [OF inv] show ?thesis by (simp add: cache_inode_remove_cached_dirent_def)
next
  case (Some n)
  let ?S = "slots (ientries s) (a # cs)"
  from ls Some have x: "dpentry (?S ! n) = Some x" "links s x ls" by auto
  from remove_dirent_correct [OF inv Some x] obtain s' where
    r: "cache_inode_remove_cached_dirent s a nm = Some (CACHE_INODE_SUCCESS,
        if index_of (in_dir s a) ls = None then CACHE_INODE_INCONSISTENT_ENTRY else CACHE_INODE_SUCCESS, s')" "dir_inv s' a cs"
      "slots (ientries s') (a # cs) = ?S[n := (?S ! n)\<lparr>active := INVALID\<rparr>]"
      "links s' x (case index_of (in_dir s a) ls of None \<Rightarrow> ls | Some i \<Rightarrow> take i ls @ drop (Suc i) ls)" by blast
  from index_of_Some [OF Some [unfolded found_at_def]] have n: "n < length ?S" "matches s nm (?S ! n)" "\<forall>j < n. \<not> matches s nm (?S ! j)" by auto
  have "act (?S ! n)" "\<not> act ((?S ! n)\<lparr>active := INVALID\<rparr>)" using matches_act [OF n(2)] by (simp_all add: act_def)
  from filter_update_out [OF n(1) this] r(3)
  have "contents s a cs = filter act (take n ?S) @ ?S ! n # filter act (drop (Suc n) ?S)"
    "contents s' a cs = filter act (take n ?S) @ filter act (drop (Suc n) ?S)" by (simp_all add: contents_def del: slots_simps)
  moreover have "\<forall>d \<in> set (filter act (take n ?S)). \<not> matches s nm d"
    using n(1,3) by (auto simp: in_set_conv_nth simp del: slots_simps)
  ultimately show ?thesis using r(1,2,4) unfolding Some option.case by blast
qed

lemma index_of_I: "n < length xs \<Longrightarrow> P (xs ! n) \<Longrightarrow> \<forall>j < n. \<not> P (xs ! j) \<Longrightarrow> index_of P xs = Some n"
proof (induction xs arbitrary: n)
  case (Cons x xs)
  then show ?case by (cases n) (simp_all add: All_less_Suc2)
qed simp

lemma found_added:
  assumes ad: "added s s' a cs cs' k x nm n" and fresh: "\<forall>d \<in> set (contents s a cs). \<not> FSAL_namecmp nm (dname d)"
    and v: "validst (ientries s' x) = VALID"
  shows "found_at s' a cs' nm = Some n"
  unfolding found_at_def
proof (rule index_of_I)
  show "n < length (slots (ientries s') (a # cs'))" by (rule added_contents(3) [OF ad])
  show "matches s' nm (slots (ientries s') (a # cs') ! n)" using v by (simp add: added_contents(2) [OF ad] matches_def del: slots_simps)
  from ad obtain r where r: "slots (ientries s') (a # cs') = (slots (ientries s) (a # cs) @ replicate r empty_dirent)[n := new_dirent x nm]"
    unfolding added_def by auto
  show "\<forall>j < n. \<not> matches s' nm (slots (ientries s') (a # cs') ! j)"
  proof (intro allI impI notI)
    fix j assume j: "j < n" and m: "matches s' nm (slots (ientries s') (a # cs') ! j)"
    let ?X = "slots (ientries s) (a # cs) @ replicate r empty_dirent"
    have "j < length ?X" using j added_contents(3) [OF ad] by (simp add: r del: slots_simps)
    then have "?X ! j \<in> set ?X" by (rule nth_mem)
    moreover have "act (?X ! j)" "FSAL_namecmp nm (dname (?X ! j))" using m j by (simp_all add: r matches_def del: slots_simps)
    ultimately show False using fresh by (auto simp: contents_def simp del: slots_simps)
  qed
qed

text \<open>C11: Adding an entry under a name that the directory does not have and removing that name gives back the contents of the directory
  and the links of the object.\<close>

theorem add_remove_roundtrip:
  assumes "dir_inv s a cs" and "cache_ok s L P xs" and "env_ok env" and "set (a # cs) \<subseteq> L" and "keyed s a cs" and "length cs < 2 ^ 28 - 1"
    and "links s x ls" and "set ls \<subseteq> P" and "x \<in> L" and "validst (ientries s x) = VALID"
    and "\<forall>d \<in> set (contents s a cs). \<not> FSAL_namecmp nm (dname d)"
  shows "\<exists>c s1 s2 cs'. cache_inode_add_cached_dirent env now s (Some a) (Some nm) x = Some (CACHE_INODE_SUCCESS, Some c, s1)
     \<and> cache_inode_remove_cached_dirent s1 a nm = Some (CACHE_INODE_SUCCESS, CACHE_INODE_SUCCESS, s2)
     \<and> dir_inv s2 a cs' \<and> contents s2 a cs' = contents s a cs \<and> links s2 x ls"
proof -
  have k: "0 < length (live s a cs)" "live s a cs ! 0 = a" by (simp_all add: live_def)
  from add_dirent_ok [OF assms(1-6) k(1) assms(7-9), of now nm] obtain s1 n cs' q where
    s1: "cache_inode_add_cached_dirent env now s (Some a) (Some nm) x = Some (CACHE_INODE_SUCCESS, Some ((a # cs') ! (n div 16)), s1)"
      "dir_inv s1 a cs'" "links s1 x (q # ls)" "place s1 q = ((a # cs') ! (n div 16), n mod 16)" "keeps L P x s s1" "n < 16 * length (live s1 a cs')"
    and ad: "added s s1 a cs cs' 0 x nm n" unfolding k(2) by blast
  have f: "found_at s1 a cs' nm = Some n" using found_added [OF ad assms(11)] s1(5) assms(9,10) by (simp add: keeps_def)
  have x: "dpentry (slots (ientries s1) (a # cs') ! n) = Some x" by (simp add: added_contents(2) [OF ad] del: slots_simps)
  have "n div 16 < length (live s1 a cs')" using s1(6) by simp
  then have "in_dir s1 a q" using live_nth by (intro in_dir_place [OF s1(2,4)]) fastforce
  then have i: "index_of (in_dir s1 a) (q # ls) = Some 0" by simp
  from remove_dirent_correct [OF s1(2) f x s1(3)] i obtain s2 where
    r: "cache_inode_remove_cached_dirent s1 a nm = Some (CACHE_INODE_SUCCESS, CACHE_INODE_SUCCESS, s2)" "dir_inv s2 a cs'" "links s2 x ls"
      "slots (ientries s2) (a # cs') = (slots (ientries s1) (a # cs'))[n := (slots (ientries s1) (a # cs') ! n)\<lparr>active := INVALID\<rparr>]"
    by (auto simp del: slots_simps)
  from ad obtain m where m: "slots (ientries s1) (a # cs') = (slots (ientries s) (a # cs) @ replicate m empty_dirent)[n := new_dirent x nm]"
    "n < length (slots (ientries s) (a # cs) @ replicate m empty_dirent)" "\<not> act ((slots (ientries s) (a # cs) @ replicate m empty_dirent) ! n)"
    unfolding added_def by auto
  have "\<not> act ((new_dirent x nm)\<lparr>active := INVALID\<rparr>)" by (simp add: act_def)
  with filter_update_in [of n _ act, OF m(2,3) new_dirent_simps(1)] filter_update_out [of n "slots (ientries s1) (a # cs')" act] m
  have "contents s2 a cs' = filter act (slots (ientries s) (a # cs) @ replicate m empty_dirent)"
    by (simp add: contents_def r(4) del: slots_simps)
  then have "contents s2 a cs' = contents s a cs" by (simp add: contents_def)
  with s1(1) r show ?thesis by blast
qed


subsection \<open>Reading a directory\<close>

text \<open>C8: A client that reads an unread directory to its end, in windows of any size, gets exactly the listing of
  the file system without the entries for the directory itself and its parent, in the same order: for each entry of the file system
  one cached entry with its name and with an object of its handle, whether the object was in the cache before or not.  It
  is required of the file system that it lists the directory without an error, in any number of pieces; when there are
  several, the first one must hold an entry other than these two.\<close>

theorem readdir_lists_file_system:
  assumes "pop_inv s a cs L P xs" and "env_ok env" and "fs_ok fs (ehandle (ientries s a)) chs"
    and "length cs + length (real_entries (concat chs)) < 2 ^ 28 - 1" and "has_been_readdir (ientries s a) \<noteq> CACHE_INODE_YES" and "0 < nbwanted"
  shows "\<exists>ds s'. list_dir fs env now s a 0 nbwanted = Some (ds, s')
     \<and> list_all2 (\<lambda>d f. \<exists>x. d = new_dirent x (de_name f) \<and> ehandle (ientries s' x) = de_handle f) ds (real_entries (concat chs))"
proof -
  from read_directory [OF assms] obtain ds s' L' where
    "list_dir fs env now s a 0 nbwanted = Some (ds, s')" and f: "list_all2 (stands_for s' L') ds (real_entries (concat chs))" by blast
  moreover from f have "list_all2 (\<lambda>d f. \<exists>x. d = new_dirent x (de_name f) \<and> ehandle (ientries s' x) = de_handle f) ds (real_entries (concat chs))"
    by (rule list_all2_mono) (auto simp: stands_for_def)
  ultimately show ?thesis by blast
qed

text \<open>
  When the first of several pieces of the listing holds only the directory itself and its parent, the next piece is
  added to no directory at all: the fill follows a null pointer.
\<close>

theorem populate_without_parent:
  assumes "\<forall>d \<in> set ch. dot_entry d" and "FSAL_readdir fs (ehandle (ientries s a)) c = (ERR_FSAL_NO_ERROR, ch, c', False)"
    and "FSAL_readdir fs (ehandle (ientries s a)) c' = (ERR_FSAL_NO_ERROR, d # es, c'', eod)" and "\<not> dot_entry d" and "entry_ok fs d"
    and "ht_lookup (ht_inode s) (de_handle d, 0) \<noteq> None" and "hs_inv (parameter (ht_inode s)) (imem s, ht_inode s)"
  shows "populate_loop fs env now a (Some a) None c s = None"
proof -
  have skip: "populate_chunk fs env now a p nxt s ch = Some (Inr (nxt, s))" for p nxt
    using assms(1) by (induction ch) (auto simp: dot_entry_def)
  from hs.get_law [OF assms(7), of "(de_handle d, 0)"] assms(6) obtain m t p where
    "hs_get (imem s, ht_inode s) (de_handle d, 0) = Some (HASHTABLE_SUCCESS, Some p, m, t)" by auto
  then have "populate_chunk fs env now a None None s (d # es) = None"
    using assms(4,5) by (auto simp: dot_entry_def entry_ok_def cache_inode_new_entry_def Let_def cache_inode_add_cached_dirent_def)
  then have "populate_loop fs env now a None None c' s = None" using assms(3) by (subst populate_loop.simps) simp
  with skip assms(2) show ?thesis by (subst populate_loop.simps) simp
qed


subsection \<open>Links that no longer fit\<close>

lemma gc_one_link:
  assumes "links s x [q]" and "place s q = (p, n)" and "is_dir_entry (ientries s p)" and "n < CHILDREN_ARRAY_SIZE"
  shows "cache_inode_gc_invalidate_related_dirent s x = Some (True, upd_entry s p (invalidate_place n))"
proof -
  from assms(1) have q: "parent_list (ientries s x) = Some q" "next_parent (iparents s q) = None" "parent (iparents s q) \<noteq> None" by (auto simp: links_def)
  with assms(2) have p: "parent (iparents s q) = Some p" "unat (subdirpos (iparents s q)) = n" by (auto simp: place_def)
  have "related_loop s' None = Some (True, s')" for s' by (subst related_loop.simps) simp
  then have "related_loop s (Some q) = Some (True, upd_entry s p (invalidate_place n))"
    using assms(3,4) p q(2) by (subst related_loop.simps) simp
  with q(1) show ?thesis by (simp add: cache_inode_gc_invalidate_related_dirent_def)
qed

text \<open>C13: Invalidating a whole directory leaves the links of its objects.  When such an object is collected afterwards, the
  place of its link is invalidated a second time and the counter of the segment goes below zero: an empty
  directory counts 4294967295 valid entries and is reported as not empty.\<close>

theorem stale_link_miscounts:
  assumes inv: "dir_inv s a cs" and ls: "links s x [q]" and q: "place s q = (a, n)" and n: "n < 16"
  shows "\<exists>s1 s2. cache_inode_invalidate_all_cached_dirent s a = Some (CACHE_INODE_SUCCESS, s1)
     \<and> cache_inode_gc_invalidate_related_dirent s1 x = Some (True, s2)
     \<and> contents s2 a cs = [] \<and> nbactive (ientries s2 a) = 4294967295 \<and> cache_inode_is_dir_empty s2 a = Some CACHE_INODE_DIR_NOT_EMPTY"
proof -
  from invalidate_all_correct [OF inv] obtain h where
    iv: "cache_inode_invalidate_all_cached_dirent s a = Some (CACHE_INODE_SUCCESS, s\<lparr>ientries := h\<rparr>)" "dir_inv (s\<lparr>ientries := h\<rparr>) a cs"
      "\<forall>d \<in> set (slots h (a # cs)). \<not> act d" "parent_list (h x) = parent_list (ientries s x)" by blast
  let ?s1 = "s\<lparr>ientries := h\<rparr>"
  let ?s2 = "upd_entry ?s1 a (invalidate_place n)"
  have "links ?s1 x [q]" "place ?s1 q = (a, n)" using ls q iv(4) by (simp_all add: links_def place_def)
  from gc_one_link [OF this] dir_inv_type [OF iv(2)] n
  have gc: "cache_inode_gc_invalidate_related_dirent ?s1 x = Some (True, ?s2)" by (simp add: CHILDREN_ARRAY_SIZE_def)
  have t: "etype (h a) = DIR_BEGINNING" and so: "seg_ok (h a)" and na: "a \<notin> set cs" using iv(2) by (auto simp: dir_inv_def)
  have "count_act (dir_entries (h a)) = 0" using iv(3) by (auto simp: count_act_def filter_empty_conv)
  then have "nbactive (h a) = 0" using so by (simp add: seg_ok_def)
  then have nb: "nbactive (ientries ?s2 a) = 4294967295" using t by (simp add: upd_entry_def invalidate_place_def set_dirent_def Let_def)
  have "\<not> act d" if "d \<in> set (slots (ientries ?s2) (a # cs))" for d
  proof -
    have "slots (ientries ?s2) cs = slots h cs" using na by (intro slots_cong) (auto simp: upd_entry_def)
    moreover have "dir_entries (ientries ?s2 a) = (dir_entries (h a))[n := (dir_entries (h a) ! n)\<lparr>active := INVALID\<rparr>]"
      using t by (simp add: upd_entry_def invalidate_place_def set_dirent_def Let_def)
    ultimately show ?thesis using that iv(3) set_update_subset_insert [of "dir_entries (h a)" n "(dir_entries (h a) ! n)\<lparr>active := INVALID\<rparr>"]
      by (auto simp: act_def)
  qed
  then have "contents ?s2 a cs = []" by (simp only: contents_def filter_empty_conv) blast
  moreover have "cache_inode_is_dir_empty ?s2 a = Some CACHE_INODE_DIR_NOT_EMPTY"
    using nb t by (simp add: cache_inode_is_dir_empty_def, subst empty_loop.simps)
      (simp add: dir_at_def is_dir_entry_def upd_entry_def invalidate_place_def set_dirent_def Let_def)
  ultimately show ?thesis using iv(1) gc nb by blast
qed

text \<open>C12: An object with two names in one directory.  Removing one name drops the first link of the object into that
  directory, which may be the link of the other name.  When the object is then collected, the entry of
  the other name stays valid and points to the collected object, and the counter of the segment of the removed name is one too small.\<close>

theorem hard_link_dangles:
  assumes inv: "dir_inv s a cs" and f: "found_at s a cs nm = Some n1" and ne: "n2 \<noteq> n1"
    and x: "dpentry (slots (ientries s) (a # cs) ! n1) = Some x" and ls: "links s x [q2, q1]"
    and y: "act (slots (ientries s) (a # cs) ! n2)" "dpentry (slots (ientries s) (a # cs) ! n2) = Some x"
    and q: "place s q1 = ((a # cs) ! (n1 div 16), n1 mod 16)" "place s q2 = ((a # cs) ! (n2 div 16), n2 mod 16)" and n2: "n2 div 16 < length (a # cs)"
  shows "\<exists>s1 s2. cache_inode_remove_cached_dirent s a nm = Some (CACHE_INODE_SUCCESS, CACHE_INODE_SUCCESS, s1)
     \<and> cache_inode_gc_invalidate_related_dirent s1 x = Some (True, s2)
     \<and> act (slots (ientries s2) (a # cs) ! n2) \<and> dpentry (slots (ientries s2) (a # cs) ! n2) = Some x
     \<and> (let e = ientries s2 ((a # cs) ! (n1 div 16)) in nbactive e = of_nat (count_act (dir_entries e)) - 1)"
proof -
  let ?S = "slots (ientries s) (a # cs)" and ?p = "(a # cs) ! (n1 div 16)" and ?i = "n1 mod 16"
  have "in_dir s a q2" using in_dir_place [OF inv q(2) n2] .
  then have i: "index_of (in_dir s a) [q2, q1] = Some 0" by simp
  from remove_dirent_correct [OF inv f x ls] i obtain s1 where
    r: "cache_inode_remove_cached_dirent s a nm = Some (CACHE_INODE_SUCCESS, CACHE_INODE_SUCCESS, s1)" "dir_inv s1 a cs" "links s1 x [q1]"
      "slots (ientries s1) (a # cs) = ?S[n1 := (?S ! n1)\<lparr>active := INVALID\<rparr>]" "place s1 = place s" by (auto simp del: slots_simps)
  from locate_in_dir(2) [OF inv f] have "n1 < 16 * length (live s a cs)" by auto
  moreover have "length (live s a cs) \<le> length (a # cs)" by (simp add: live_def)
  ultimately have n1: "n1 < 16 * length (a # cs)" by linarith
  then have p: "?p \<in> set (a # cs)" by (intro nth_mem) simp
  have segs: "\<forall>p \<in> set (a # cs). seg_ok (ientries s1 p)" using r(2) by (simp add: dir_inv_def)
  have "is_dir_entry (ientries s1 ?p)" using p dir_inv_type [OF r(2)] cont_in_dir [OF r(2)] by (auto simp: is_dir_entry_def)
  from gc_one_link [OF r(3) _ this] q(1) r(5)
  have gc: "cache_inode_gc_invalidate_related_dirent s1 x = Some (True, upd_entry s1 ?p (invalidate_place ?i))" by (simp add: CHILDREN_ARRAY_SIZE_def)
  let ?s2 = "upd_entry s1 ?p (invalidate_place ?i)" and ?e = "ientries s1 ?p"
  have d: "dir_entries ?e ! ?i = (?S ! n1)\<lparr>active := INVALID\<rparr>"
    using nth_slots [OF segs n1] r(4) n1 length_slots [OF segs] by (metis length_list_update nth_list_update_eq)
  have same: "dir_entries (invalidate_place ?i ?e) = dir_entries ?e" "nbactive (invalidate_place ?i ?e) = nbactive ?e - 1"
    using d list_update_id [of "dir_entries ?e" ?i] by (simp_all add: invalidate_place_def set_dirent_def Let_def)
  have "slots (ientries ?s2) (a # cs) = slots (ientries s1) (a # cs)" by (rule slots_cong) (auto simp: upd_entry_def same)
  then have "slots (ientries ?s2) (a # cs) ! n2 = ?S ! n2" using r(4) ne by (simp del: slots_simps)
  moreover have "nbactive (ientries ?s2 ?p) = of_nat (count_act (dir_entries (ientries ?s2 ?p))) - 1"
    using bspec [OF segs p] by (simp add: upd_entry_def same seg_ok_def)
  ultimately show ?thesis using r(1) gc y by (auto simp: Let_def simp del: slots_simps)
qed


subsection \<open>Witnesses\<close>

text \<open>A directory with the names a and b for one object and c for another, and a file system that lists one file in two pieces.\<close>

definition demo_name :: "u8 \<Rightarrow> fsal_name" where
  "demo_name c = \<lparr>fname = [c], flen = 1\<rparr>"

definition demo_object :: "addr option \<Rightarrow> cache_entry" where
  "demo_object q = \<lparr>etype = REGULAR_FILE, validst = VALID, read_time = 0, mod_time = 0, refresh_time = 0, alloc_time = 0, ehandle = [9],
     gc_lru_entry = None, parent_list = q, end_of_dir = END_OF_DIR, pdir_cont = None, nbactive = 0, pdir_data = 0, dir_entries = [],
     pdir_last = None, nbdircont = 0, has_been_readdir = CACHE_INODE_NO, pdir_begin = 0, pdir_prev = None, dir_cont_pos = 0\<rparr>"

definition demo_dirent :: "u8 \<Rightarrow> addr \<Rightarrow> dir_entry" where
  "demo_dirent c p = \<lparr>active = VALID, dpentry = Some p, dname = demo_name c\<rparr>"

definition demo_directory :: cache_entry where
  "demo_directory = (demo_object None)\<lparr>etype := DIR_BEGINNING, ehandle := [1], nbactive := 3,
     dir_entries := [demo_dirent 97 1, demo_dirent 98 1, demo_dirent 99 2] @ replicate 13 empty_dirent\<rparr>"

definition demo_cache :: "mem \<Rightarrow> (u8 list \<times> u32, addr) hash_table \<Rightarrow> icache" where
  "demo_cache m t = \<lparr>imem = m, ht_inode = t,
     ientries = (\<lambda>_. demo_object None)(0 := demo_directory, 1 := demo_object (Some 1), 2 := demo_object (Some 2)),
     iparents = (\<lambda>q. \<lparr>subdirpos = of_nat q, parent = Some 0, next_parent = (if q = 1 then Some 0 else None)\<rparr>),
     pool_entry = [], pool_dir_data = [], pool_parent = [], pool_key = [], key_at = (\<lambda>_. 0),
     ilheap = (\<lambda>_. \<lparr>next_entry = None, prev_entry = None, valid_state = LRU_ENTRY_BLANK, buffdata = 0\<rparr>),
     lru_gc = \<lparr>lru_LRU = None, lru_MRU = None, nb_entry = 0, nb_invalid = 0, nb_call_gc = 0,
       nb_entry_prealloc = 4, nb_call_gc_invalid = 0, entry_prealloc = []\<rparr>,
     call_since_last_gc = 0\<rparr>"

definition demo_inode_env :: inode_env where
  "demo_inode_env = \<lparr>nb_prealloc = 4, nb_pre_dir_data = 4, nb_pre_parent = 4, sizeof_cache_entry = 400, sizeof_dir_data = 5000,
     sizeof_parent_entry = 24, sizeof_fsal_data = 40, rw_lock_init_ok = True, FSAL_getattrs = (\<lambda>_. ERR_FSAL_NO_ERROR)\<rparr>"

definition demo_file_entry :: fsal_dirent where
  "demo_file_entry = \<lparr>de_name = demo_name 100, de_handle = [7], de_type = FSAL_TYPE_FILE\<rparr>"

definition demo_fs :: "nat fsal_dir" where
  "demo_fs = \<lparr>FSAL_opendir = (\<lambda>_. ERR_FSAL_NO_ERROR),
     FSAL_readdir = (\<lambda>_ c. if c = 0 then (ERR_FSAL_NO_ERROR, [\<lparr>de_name = FSAL_DOT, de_handle = [1], de_type = FSAL_TYPE_DIR\<rparr>, demo_file_entry], 1, False)
                          else (ERR_FSAL_NO_ERROR, [], 2, True)),
     FSAL_closedir = ERR_FSAL_NO_ERROR, FSAL_readlink = (\<lambda>_. ERR_FSAL_NO_ERROR), FSAL_COOKIE_BEGINNING = 0\<rparr>"

definition demo_inode_par :: "(u8 list \<times> u32) hash_parameter" where
  "demo_inode_par = \<lparr>index_size = 3, alphabet_length = 10, nb_node_prealloc = 4, hash_func_key = (\<lambda>k. 0),
     hash_func_rbt = (\<lambda>k. 0), compare_key = (\<lambda>a b. if a = b then 0 else 1)\<rparr>"

lemmas demo_dir_defs = demo_cache_def demo_directory_def demo_object_def demo_dirent_def

lemma demo_dir_inv: "dir_inv (demo_cache m t) 0 []"
proof -
  have "count_act (dir_entries demo_directory) = 3" by (simp add: demo_dir_defs count_act_def act_def empty_dirent_def)
  then have "seg_ok demo_directory" by (auto simp: seg_ok_def demo_dir_defs CHILDREN_ARRAY_SIZE_def empty_dirent_def act_def)
  moreover have "etype demo_directory = DIR_BEGINNING" "end_of_dir demo_directory = END_OF_DIR" "pdir_cont demo_directory = None" by (simp_all add: demo_dir_defs)
  ultimately show ?thesis by (simp add: dir_inv_def demo_cache_def)
qed

lemma demo_links: "links (demo_cache m t) 1 [1, 0]" "links (demo_cache m t) 2 [2]"
  by (simp_all add: links_def demo_dir_defs)

lemma demo_pop: "\<exists>m t. pop_inv (demo_cache m t) 0 [] {0, 1, 2} {0, 1, 2} []"
proof -
  have par: "params_ok demo_inode_par" "key_eq demo_inode_par = (=)"
    by (auto simp: params_ok_def key_eq_def demo_inode_par_def hashval_def fun_eq_iff intro!: equivpI reflpI sympI transpI split: if_splits)
  have "no_fail demo_mem" "0 < nb_node_prealloc demo_inode_par" by (simp_all add: no_fail_def demo_mem_def demo_inode_par_def)
  from HashTable_Init_succeeds [OF this] obtain t :: "(u8 list \<times> u32, addr) hash_table" and m where
    i: "HashTable_Init demo_mem True (\<lambda>_. True) demo_inode_par = (Some t, m)" "no_fail m" by blast
  note h = HashTable_Init_correct [OF i(1) par(1)]
  let ?m = "m\<lparr>brk := brk m + 3\<rparr>"
  have "mem_grows m ?m" by (simp add: mem_grows_def)
  with h(1,2) have "hs_inv demo_inode_par (?m, t)" by (auto simp: hs_inv_def intro: ht_inv_grows)
  then have "cache_ok (demo_cache ?m t) {0, 1, 2} {0, 1, 2} []"
    using i(2) h(2) par(2) by (auto simp: cache_ok_def demo_dir_defs no_fail_def demo_inode_par_def pool_inv_def lru_inv_def chain_def)
  moreover have "ht_inode (demo_cache ?m t) = t" by (simp add: demo_cache_def)
  ultimately have "pop_inv (demo_cache ?m t) 0 [] {0, 1, 2} {0, 1, 2} []"
    using demo_dir_inv h(3) by (simp add: pop_inv_def keyed_def objects_ok_def)
  then show ?thesis by blast
qed

lemma demo_env_ok: "env_ok demo_inode_env"
  by (simp add: env_ok_def demo_inode_env_def)

lemma demo_found: "found_at (demo_cache m t) 0 [] (demo_name 97) = Some 0"
  by (simp add: found_at_def demo_dir_defs matches_def act_def demo_name_def FSAL_namecmp_def strncmp_eq_def)


theorem cached_remove_correct_witness:
  "\<exists>s s' us vs. cache_inode_remove_cached_dirent s 0 (demo_name 97) = Some (CACHE_INODE_SUCCESS, CACHE_INODE_SUCCESS, s')
     \<and> contents s 0 [] = us @ demo_dirent 97 1 # vs \<and> contents s' 0 [] = us @ vs"
proof -
  fix m t
  let ?s = "demo_cache m t"
  have "dpentry (slots (ientries ?s) [0] ! 0) = Some 1" "slots (ientries ?s) [0] ! 0 = demo_dirent 97 1" by (simp_all add: demo_dir_defs)
  moreover have "index_of (in_dir ?s 0) [1, 0] = Some 0" by (simp add: in_dir_def segment_of_def demo_cache_def)
  ultimately show ?thesis
    using cached_remove_correct [OF demo_dir_inv, of m t "demo_name 97" 1 "[1, 0]"] demo_links(1) [of m t] by (auto simp: demo_found simp del: slots_simps)
qed

theorem add_remove_roundtrip_witness:
  "\<exists>s c s1 s2 cs'. cache_inode_add_cached_dirent demo_inode_env 0 s (Some 0) (Some (demo_name 100)) 2 = Some (CACHE_INODE_SUCCESS, Some c, s1)
     \<and> cache_inode_remove_cached_dirent s1 0 (demo_name 100) = Some (CACHE_INODE_SUCCESS, CACHE_INODE_SUCCESS, s2) \<and> contents s2 0 cs' = contents s 0 []"
proof -
  from demo_pop obtain m t where p: "pop_inv (demo_cache m t) 0 [] {0, 1, 2} {0, 1, 2} []" by blast
  have "validst (ientries (demo_cache m t) 2) = VALID" by (simp add: demo_dir_defs)
  moreover have "\<forall>d \<in> set (contents (demo_cache m t) 0 []). \<not> FSAL_namecmp (demo_name 100) (dname d)"
    by (simp add: contents_def demo_dir_defs act_def empty_dirent_def FSAL_namecmp_def strncmp_eq_def demo_name_def cstr_def FSAL_MAX_NAME_LEN_def)
  ultimately show ?thesis
    using p demo_env_ok demo_links add_remove_roundtrip [of "demo_cache m t" 0 "[]" "{0, 1, 2}" "{0, 1, 2}" "[]" demo_inode_env 2 "[2]" "demo_name 100" 0]
    unfolding pop_inv_def by fastforce
qed

theorem readdir_lists_file_system_witness:
  "\<exists>s d s'. list_dir demo_fs demo_inode_env 0 s 0 0 1 = Some ([d], s') \<and> (\<exists>x. d = new_dirent x (demo_name 100) \<and> ehandle (ientries s' x) = [7])"
proof -
  from demo_pop obtain m t where p: "pop_inv (demo_cache m t) 0 [] {0, 1, 2} {0, 1, 2} []" by blast
  let ?chs = "[[\<lparr>de_name = FSAL_DOT, de_handle = [1], de_type = FSAL_TYPE_DIR\<rparr>, demo_file_entry], []]"
  have real: "real_entries (concat ?chs) = [demo_file_entry]"
    by (simp add: dot_entry_def FSAL_namecmp_def FSAL_DOT_def FSAL_DOT_DOT_def demo_file_entry_def demo_name_def strncmp_eq_def cstr_def FSAL_MAX_NAME_LEN_def)
  then have "fs_ok demo_fs (ehandle (ientries (demo_cache m t) 0)) ?chs"
    by (simp add: fs_ok_def demo_fs_def first_piece_ok_def entry_ok_def demo_file_entry_def cache_inode_fsal_type_convert_def)
  moreover have "has_been_readdir (ientries (demo_cache m t) 0) \<noteq> CACHE_INODE_YES" by (simp add: demo_dir_defs)
  ultimately obtain ds s' where "list_dir demo_fs demo_inode_env 0 (demo_cache m t) 0 0 1 = Some (ds, s')"
    "list_all2 (\<lambda>d f. \<exists>x. d = new_dirent x (de_name f) \<and> ehandle (ientries s' x) = de_handle f) ds [demo_file_entry]"
    using readdir_lists_file_system [OF p demo_env_ok, of demo_fs ?chs 1 0] unfolding real by auto
  then show ?thesis by (auto simp: list_all2_Cons2 demo_file_entry_def)
qed

theorem stale_link_miscounts_witness:
  "\<exists>s s1 s2. cache_inode_invalidate_all_cached_dirent s 0 = Some (CACHE_INODE_SUCCESS, s1) \<and> cache_inode_gc_invalidate_related_dirent s1 2 = Some (True, s2)
     \<and> contents s2 0 [] = [] \<and> cache_inode_is_dir_empty s2 0 = Some CACHE_INODE_DIR_NOT_EMPTY"
proof -
  fix m t
  have "place (demo_cache m t) 2 = (0, 2)" by (simp add: place_def demo_cache_def)
  from stale_link_miscounts [OF demo_dir_inv demo_links(2) this] show ?thesis by auto
qed

theorem hard_link_dangles_witness:
  "\<exists>s s1 s2. cache_inode_remove_cached_dirent s 0 (demo_name 97) = Some (CACHE_INODE_SUCCESS, CACHE_INODE_SUCCESS, s1)
     \<and> cache_inode_gc_invalidate_related_dirent s1 1 = Some (True, s2)
     \<and> act (slots (ientries s2) [0] ! 1) \<and> dpentry (slots (ientries s2) [0] ! 1) = Some 1"
proof -
  fix m t
  let ?s = "demo_cache m t"
  have "place ?s 0 = ([0] ! (0 div 16), 0 mod 16)" "place ?s 1 = ([0] ! (1 div 16), 1 mod 16)" by (simp_all add: place_def demo_cache_def)
  moreover have "dpentry (slots (ientries ?s) [0] ! 0) = Some 1" "act (slots (ientries ?s) [0] ! 1)" "dpentry (slots (ientries ?s) [0] ! 1) = Some 1"
    by (simp_all add: demo_dir_defs act_def)
  ultimately show ?thesis using hard_link_dangles [OF demo_dir_inv demo_found, of 1 m t 1 1 0] demo_links(1) by (auto simp del: slots_simps)
qed

end
