(* ===== verification/Spec2Isabelle.thy ===== *)
theory Spec2Isabelle
  imports Hash_Table LRU_List RW_Lock SemN Nfs4_Client Open_Owner Error_Map Proto_Attr State_Id Cache_State
    File_Handle Nfs4_Open_Ops Nfs4_Lock_Ops Compound Dup_Req Export_Access
    Buddy_Api Dir_Api
begin

text \<open>
  \<^bold>\<open>A verification of the core of the NFS-Ganesha server\<close>

  \<^emph>\<open>The program.\<close>  The server under \<^verbatim>\<open>src/\<close> answers NFSv2, NFSv3 and NFSv4 requests.  A worker thread decodes a
  request and calls a procedure of \<^verbatim>\<open>NFS_Protocols/\<close>; the only procedure of version 4 is COMPOUND, which runs a list
  of operations on a structure \<^verbatim>\<open>compound_data_t\<close>.  The operations use the tables of clients, open owners and
  states of \<^verbatim>\<open>support/\<close> and \<^verbatim>\<open>Cache_inode/\<close>, which are hash tables (\<^verbatim>\<open>HashTable/\<close>) of red-black trees
  (\<^verbatim>\<open>include/rbt_tree.h\<close>) whose nodes come from preallocated pools (\<^verbatim>\<open>include/stuff_alloc.h\<close>), and read-write locks
  (\<^verbatim>\<open>RW_Lock/\<close>) guard the partitions of a hash table.  Files are reached through the metadata cache and
  a file system layer (FSAL), and named to the client by file handles.

  \<^emph>\<open>The model\<close>, from the bottom up.  Each theory opens with the file it models.

  \<^item> \<open>Prelude\<close>: types of machine words and addresses, the option monad for access to memory (\<open>None\<close> is an access
    through a null pointer or outside a buffer), lemmas on words and lists.
  \<^item> \<open>Stuff_Alloc\<close>: \<open>Mem_Alloc\<close> over a record \<open>mem\<close> with a never repeating address and an arbitrary pattern of
    failures, the pool macros and the computation of a pool size; the locale \<open>prealloc_pool\<close> is the contract of a
    pool (no entry is handed out twice), interpreted on the macros.
  \<^item> \<open>Buddy_Alloc\<close>: the buddy allocator of \<^verbatim>\<open>BuddyMalloc.c\<close> over a heap of block headers inside the areas that the
    system gave out, with a context per thread; \<open>Buddy_Inv\<close> has its invariant (the blocks tile the pages, lists and headers
    agree with them) and the loops that split and merge, \<open>Buddy_Correct\<close> the operations on a context with the
    statistics, \<open>Buddy_Api\<close> the functions of the interface.
  \<^item> \<open>Rbt_Tree\<close>: the macros of \<^verbatim>\<open>rbt_tree.h\<close> on trees with the head pointers; insertion and removal keep order,
    colours and black height.
  \<^item> \<open>Hash_Table\<close>: \<^verbatim>\<open>HashTable.c\<close> over these trees; the locale of an abstract map is interpreted on
    \<open>HashTable_Test_And_Set\<close>, \<open>HashTable_Get\<close> and \<open>HashTable_Del\<close>, which refine update, lookup and
    removal.
  \<^item> \<open>LRU_List\<close>: \<^verbatim>\<open>LRU_List.c\<close> on a heap of linked entries; the loops are \<open>partial_function (option)\<close> and are
    proved to return.
  \<^item> \<open>RW_Lock\<close> and \<open>SemN\<close>: the critical sections of \<^verbatim>\<open>RW_Lock.c\<close> and \<^verbatim>\<open>SemN.c\<close> as steps of any number of
    threads; invariants of all reachable states by rule induction.
  \<^item> \<open>Client_Id\<close>, \<open>Nfs4_Client\<close>: the two tables of \<^verbatim>\<open>nfs_client_id.c\<close> and the operations SETCLIENTID,
    SETCLIENTID\_CONFIRM and RENEW.
  \<^item> \<open>Open_Owner\<close>: \<^verbatim>\<open>nfs_open_owner.c\<close>.
  \<^item> \<open>Error_Map\<close>, \<open>Proto_Attr\<close>: the conversion of errors, the bitmaps of attributes and their comparison.
  \<^item> \<open>State_Id\<close>, \<open>Cache_State\<close>: stateids in bytes, their table and \<open>nfs4_Check_Stateid\<close>; the doubly linked list of the
    states of a file over a heap, with every operation of \<^verbatim>\<open>cache_inode_state.c\<close>.
  \<^item> \<open>Dir_Cache\<close>: the directories of the metadata cache (\<^verbatim>\<open>cache_inode_readdir.c\<close> and the functions of
    \<^verbatim>\<open>cache_inode_misc.c\<close>, \<^verbatim>\<open>cache_inode_remove.c\<close>, \<^verbatim>\<open>cache_inode_rename.c\<close> and \<^verbatim>\<open>cache_inode_gc.c\<close> that it uses) over a heap
    of entries, the hash table, the pools and the LRU list of a client; \<open>Dir_Chain\<close> has the invariant of a chain of segments, read
    as one flat array of places, and the operations that change a place, \<open>Dir_Add\<close> the addition of an entry with its
    allocations, \<open>Dir_Read\<close> the windows that a client reads, \<open>Dir_Pop\<close> the fill from the file system and \<open>Dir_Api\<close> the
    properties.
  \<^item> \<open>File_Handle\<close>: the handles of the three versions in bytes.
  \<^item> \<open>Nfs4_Open_Ops\<close>, \<open>Nfs4_Lock_Ops\<close>: OPEN\_CONFIRM, OPEN\_DOWNGRADE, CLOSE, LOCK, LOCKT and LOCKU over the
    world of owners, states and clients.
  \<^item> \<open>Compound\<close>: COMPOUND and the operations on the handles of a request.
  \<^item> \<open>Dup_Req\<close>: the cache of replies of \<^verbatim>\<open>nfs_dupreq.c\<close> over a hash table, a pool and the LRU list of a worker, with the
    lookup and the garbage collection of \<^verbatim>\<open>nfs_worker_thread.c\<close>.
  \<^item> \<open>Ip_Cache\<close>, \<open>Export_Access\<close>: the host names and statistics by client address (\<^verbatim>\<open>nfs_ip_name.c\<close>,
    \<^verbatim>\<open>nfs_ip_stats.c\<close>), the clients of an export, the access check of a request and the user it runs as
    (\<^verbatim>\<open>exports.c\<close>, \<^verbatim>\<open>nfs_export_list.c\<close>, \<open>nfs4_MakeCred\<close>).

  A structure of the code is a record with the same fields, a pointer an address in a heap of the record that
  owns it, an error a value of the code's own enumeration.  Integers keep their width.  Each operation is one
  definition with all its branches, and returns its status and the new state.

  \<^emph>\<open>What is shown.\<close>  Of the allocator: a block handed out is large enough and meets no used block, a release frees
  exactly its block and merges all free buddies, blocks released by other threads are freed at the next allocation, no
  access leaves the areas of the system, and the statistics count the blocks.  Of the containers: refinement of abstract maps and lists, the invariants of trees and
  linked lists, absence of null dereferences, and that loops return.  Of the locks: mutual exclusion of writers and
  that no thread sleeps without a thread to wake it, with the executions in which a reader joins a
  writer and in which a semaphore loses a token.  Of the tables of the protocol: the answer and the new state of
  each operation on every branch, and the composition of SETCLIENTID with its confirmation.  Of the cached directories: additions and removals act on
  one place and keep the chain of segments, a client that reads a directory gets the listing of the file system, and where the links
  back from the objects go wrong.  Of the byte
  formats: round trips, and which bits are lost.  Of the locks on byte ranges: LOCKT finds exactly the first
  conflict; the overlap test is compared with the intersection of ranges.  Of COMPOUND: no access outside a buffer
  for any request, operations in order up to the first failure, and which handle and which export the
  operations work on.  Of the cache of replies: which entries a collection removes, that each removed reply is freed
  once, and that a stored reply answers a later request with its id.  Of the exports: the access check agrees
  with a declarative reading of the list of clients, and only clients with root access run as user 0.

  \<^emph>\<open>Bounds.\<close>  No definition runs on fuel.  Loops over lists and trees are structural; the loops over linked heaps
  are partial functions, and the theorems about them state that they return on well-formed lists.  The only
  numeric limits are those of the code (pages and blocks of the buddy allocator below 2147483648 bytes, because the code shifts an int; thirty operations, 112 bytes of a handle, three words of a bitmap, positions of directory segments in 28 bits because a cookie has 32).

  \<^emph>\<open>Arguments of the model.\<close>  The functions of the file system layer that expand and digest handles or close
  files, the hash functions of a table where the code takes them from a parameter structure, the
  functions that free a reply, the listing of a directory by the file system, the name services, \<open>fnmatch\<close> and \<open>FSAL_GetClientContext\<close>, the clock, the configuration, the failures of the allocator and, in COMPOUND, the operations that are not on file handles.

  \<^emph>\<open>Not modelled.\<close>  The file system back ends, the attributes in the metadata cache with their renewal and the access check (so
  READDIR starts behind them, and the operations that only combine attributes with a call of the file system are left out), the content
  cache and the side protocols (system calls and I/O), the XDR routines (generated), the NFSv4.1 operations
  (compiled only with \<^verbatim>\<open>_USE_NFS4_1\<close>), the pseudo file system apart from its root handle, the start-up, the
  threads and sockets, the labels and dumps of the buddy allocator, logging, the dumps of statistics, the parsing of the configuration, IPv6, RPCSEC\_GSS,
  NLM and quota (compiled only with their options), the shell and the tools.
\<close>

end
